(* ===== verification/RaftState.thy ===== *)
theory RaftState
  imports Prelude
begin

text \<open>
  The data of one Raft peer (\<open>src/src/raft/raft.go\<close>, \<open>RPC.go\<close>, \<open>Timer.go\<close>,
  \<open>persister.go\<close>) and the operations every handler uses: index translation, timers,
  the non-blocking signal to the commit checker, persistence and start-up.

  Go's \<open>int\<close> is \<open>int\<close> here (terms and indices stay far below \<open>2^63\<close>). The payload
  of a log entry is an \<open>interface{}\<close>: the type variable \<open>'c\<close>, with \<open>None\<close> for
  \<open>nil\<close>. A snapshot is a byte slice the service chose: a list over \<open>'d\<close>, of which
  Raft only asks whether it is empty. Times are milliseconds; the value a call to
  \<open>rand.Intn\<close> returns and the current time are arguments.
\<close>

subsection \<open>Roles\<close>

datatype RaftRole = Follower | PreCandidate | Candidate | Leader

text \<open>The roles are an \<open>iota\<close> block; the code compares them with \<open><\<close>.\<close>

fun role_num :: "RaftRole \<Rightarrow> nat" where
  "role_num Follower = 0"
| "role_num PreCandidate = 1"
| "role_num Candidate = 2"
| "role_num Leader = 3"

lemma role_num_inj [simp]: "role_num a = role_num b \<longleftrightarrow> a = b"
  by (cases a; cases b) auto

instantiation RaftRole :: linorder
begin

definition less_eq_RaftRole :: "RaftRole \<Rightarrow> RaftRole \<Rightarrow> bool" where
  "less_eq_RaftRole a b \<longleftrightarrow> role_num a \<le> role_num b"

definition less_RaftRole :: "RaftRole \<Rightarrow> RaftRole \<Rightarrow> bool" where
  "less_RaftRole a b \<longleftrightarrow> role_num a < role_num b"

instance
  by standard (auto simp: less_eq_RaftRole_def less_RaftRole_def dest: le_antisym)

end

lemma role_less [simp]:
  "(r < Candidate) \<longleftrightarrow> r = Follower \<or> r = PreCandidate"
  "(r \<le> PreCandidate) \<longleftrightarrow> r = Follower \<or> r = PreCandidate"
  by (cases r; simp add: less_RaftRole_def less_eq_RaftRole_def)+

subsection \<open>Messages\<close>

record 'c LogEntry =
  eTerm :: int
  eCommand :: "'c option"

record ('c, 'd) ApplyMsg =
  amCommandValid :: bool
  amCommand :: "'c option"
  amCommandIndex :: int
  amCommandTerm :: int
  amSnapshotValid :: bool
  amSnapshot :: "'d list"
  amSnapshotTerm :: int
  amSnapshotIndex :: int

record 'c AppendEntriesArgs =
  aeTerm :: int
  aeLeaderId :: int
  aePrevLogIndex :: int
  aePrevLogTerm :: int
  aeEntries :: "'c LogEntry list"
  aeLeaderCommit :: int

record AppendEntriesReply =
  aerTerm :: int
  aerSuccess :: bool

record RequestVoteArgs =
  rvTerm :: int
  rvCandidateId :: int
  rvLastLogIndex :: int
  rvLastLogTerm :: int

record RequestVoteReply =
  rvrTerm :: int
  rvrVoteGranted :: bool

record ('c, 'd) InstallSnapshotArgs =
  isTerm :: int
  isLeaderId :: int
  isLastIncludedIndex :: int
  isLastIncludedTerm :: int
  isData :: "'d list"
  isLastIncludedCmd :: "'c option"

record InstallSnapshotReply =
  isrTerm :: int
  isrShouldDie :: bool

record PreVoteReply =
  pvIsOk :: bool

text \<open>The goroutines a handler starts, each of which sends one RPC.\<close>

datatype ('c, 'd) rpc =
    SendPreVote int
  | SendRequestVote int RequestVoteArgs
  | SendAppendEntries int "'c AppendEntriesArgs"
  | SendInstallSnapshot int

subsection \<open>Persister\<close>

text \<open>
  The encoded state is the stream of values handed to the encoder: \<open>gob\<close> writes
  self-delimiting values one after the other, and decoding one fails when the stream is
  at its end or holds a value of another type.
\<close>

datatype 'c gob = GInt int | GLog "'c LogEntry list"

record ('c, 'd) Persister =
  raftstate :: "'c gob list"
  snapshot :: "'d list"

definition MakePersister :: "('c, 'd) Persister" where
  "MakePersister = \<lparr>raftstate = [], snapshot = []\<rparr>"

definition Copy :: "('c, 'd) Persister \<Rightarrow> ('c, 'd) Persister" where
  "Copy ps = MakePersister\<lparr>raftstate := raftstate ps, snapshot := snapshot ps\<rparr>"

definition ReadRaftState :: "('c, 'd) Persister \<Rightarrow> 'c gob list" where
  "ReadRaftState ps = raftstate ps"

definition RaftStateSize :: "('c gob list \<Rightarrow> int) \<Rightarrow> ('c, 'd) Persister \<Rightarrow> int" where
  "RaftStateSize nbytes ps = nbytes (raftstate ps)"

definition Save :: "'c gob list \<Rightarrow> 'd list \<Rightarrow> ('c, 'd) Persister \<Rightarrow> ('c, 'd) Persister" where
  "Save rs sn ps = ps\<lparr>raftstate := rs, snapshot := sn\<rparr>"

definition ReadSnapshot :: "('c, 'd) Persister \<Rightarrow> 'd list" where
  "ReadSnapshot ps = snapshot ps"

definition SnapshotSize :: "('c, 'd) Persister \<Rightarrow> int" where
  "SnapshotSize ps = int (length (snapshot ps))"

subsection \<open>The peer\<close>

record Timer =
  tkPeriod :: int
  tkLastComing :: int
  tkMsgComing :: nat

text \<open>
  \<open>commitCh\<close> is unbuffered: a non-blocking send succeeds only while the commit checker
  waits at its receive.
\<close>

datatype CommitCh = CheckerBusy | CheckerWaiting | CheckerSignalled

record ('c, 'd) Raft =
  npeers :: nat
  persister :: "('c, 'd) Persister"
  me :: int
  dead :: int
  currentTerm :: int
  votedFor :: int
  log :: "'c LogEntry list"
  commitIndex :: int
  lastApplied :: int
  nextIndex :: "int list"
  matchIndex :: "int list"
  state :: RaftRole
  timer :: Timer
  preVoteCount :: int
  voteCount :: int
  commitCh :: CommitCh
  snapShot :: "'d list"
  lastIncludedIndex :: int
  lastIncludedTerm :: int

definition HeartBeatTimeout :: int where "HeartBeatTimeout = 75"
definition followerTimeout :: int where "followerTimeout = 180"
definition followerRand :: int where "followerRand = 150"
definition msgGap :: int where "msgGap = 10"

definition max_int :: "int \<Rightarrow> int \<Rightarrow> int" where
  "max_int a b = (if a > b then a else b)"

lemma max_int_max [simp]: "max_int a b = max a b"
  by (simp add: max_int_def)

text \<open>The capacity of the slice is an argument: lists carry no capacity.\<close>

definition shrinkEntries :: "int \<Rightarrow> 'c LogEntry list \<Rightarrow> 'c LogEntry list" where
  "shrinkEntries cap entries =
     (let lenMultiple = 2 in
      if cap > int (length entries) * lenMultiple
      then map (\<lambda>i. entries ! i) [0..<length entries]
      else entries)"

lemma shrinkEntries_id [simp]: "shrinkEntries cap entries = entries"
  by (simp add: shrinkEntries_def map_nth)

definition RealLogIdx :: "('c, 'd) Raft \<Rightarrow> int \<Rightarrow> int" where
  "RealLogIdx rf vIdx = vIdx - lastIncludedIndex rf"

definition VirtualLogIdx :: "('c, 'd) Raft \<Rightarrow> int \<Rightarrow> int" where
  "VirtualLogIdx rf rIdx = rIdx + lastIncludedIndex rf"

abbreviation loglen :: "('c, 'd) Raft \<Rightarrow> int" where
  "loglen rf \<equiv> int (length (log rf))"

text \<open>Index of the last entry, in the numbering the service sees.\<close>

abbreviation lastLogIndex :: "('c, 'd) Raft \<Rightarrow> int" where
  "lastLogIndex rf \<equiv> lastIncludedIndex rf + loglen rf - 1"

definition timer_reset :: "int \<Rightarrow> ('c, 'd) Raft \<Rightarrow> ('c, 'd) Raft" where
  "timer_reset rnd rf = rf\<lparr>timer := (timer rf)\<lparr>tkPeriod := followerTimeout + rnd\<rparr>\<rparr>"

definition resetHeartBeat :: "('c, 'd) Raft \<Rightarrow> ('c, 'd) Raft" where
  "resetHeartBeat rf = rf\<lparr>timer := (timer rf)\<lparr>tkPeriod := HeartBeatTimeout\<rparr>\<rparr>"

text \<open>\<open>select { case rf.commitCh <- true: default: }\<close>\<close>

definition signalCommit :: "('c, 'd) Raft \<Rightarrow> ('c, 'd) Raft" where
  "signalCommit rf =
     (if commitCh rf = CheckerWaiting then rf\<lparr>commitCh := CheckerSignalled\<rparr> else rf)"

definition GetState :: "('c, 'd) Raft \<Rightarrow> int \<times> bool" where
  "GetState rf = (currentTerm rf, state rf = Leader)"

definition GetRaftStateSize :: "('c gob list \<Rightarrow> int) \<Rightarrow> ('c, 'd) Raft \<Rightarrow> int" where
  "GetRaftStateSize nbytes rf = RaftStateSize nbytes (persister rf)"

definition GetId :: "('c, 'd) Raft \<Rightarrow> int" where
  "GetId rf = me rf"

definition GetCommitIndex :: "('c, 'd) Raft \<Rightarrow> int" where
  "GetCommitIndex rf = commitIndex rf"

definition getLastLog :: "('c, 'd) Raft \<Rightarrow> 'c LogEntry res" where
  "getLastLog rf = go_nth (log rf) (loglen rf - 1)"

definition HasLogInCurrentTerm :: "('c, 'd) Raft \<Rightarrow> bool res" where
  "HasLogInCurrentTerm rf =
     bindR (go_nth (log rf) (loglen rf - 1)) (\<lambda>e. Inr (eTerm e = currentTerm rf))"

definition Kill :: "('c, 'd) Raft \<Rightarrow> ('c, 'd) Raft" where
  "Kill rf = rf\<lparr>dead := 1\<rparr>"

definition killed :: "('c, 'd) Raft \<Rightarrow> bool" where
  "killed rf \<longleftrightarrow> dead rf = 1"

subsection \<open>Persistence\<close>

definition encodeState :: "('c, 'd) Raft \<Rightarrow> 'c gob list" where
  "encodeState rf =
     [GInt (currentTerm rf), GInt (votedFor rf), GLog (log rf),
      GInt (lastIncludedIndex rf), GInt (lastIncludedTerm rf)]"

definition persist :: "('c, 'd) Raft \<Rightarrow> ('c, 'd) Raft" where
  "persist rf = rf\<lparr>persister := Save (encodeState rf) (snapShot rf) (persister rf)\<rparr>"

fun decodeInt :: "'c gob list \<Rightarrow> (int \<times> 'c gob list) option" where
  "decodeInt (GInt i # r) = Some (i, r)"
| "decodeInt _ = None"

fun decodeLog :: "'c gob list \<Rightarrow> ('c LogEntry list \<times> 'c gob list) option" where
  "decodeLog (GLog l # r) = Some (l, r)"
| "decodeLog _ = None"

definition readPersist :: "'c gob list \<Rightarrow> ('c, 'd) Raft \<Rightarrow> ('c, 'd) Raft" where
  "readPersist data rf =
     (if length data < 1 then rf
      else case decodeInt data of None \<Rightarrow> rf
      | Some (term, d1) \<Rightarrow> (case decodeInt d1 of None \<Rightarrow> rf
      | Some (vote, d2) \<Rightarrow> (case decodeLog d2 of None \<Rightarrow> rf
      | Some (lg, d3) \<Rightarrow> (case decodeInt d3 of None \<Rightarrow> rf
      | Some (lii, d4) \<Rightarrow> (case decodeInt d4 of None \<Rightarrow> rf
      | Some (lit, d5) \<Rightarrow>
          rf\<lparr>votedFor := vote, currentTerm := term, log := lg,
             lastIncludedIndex := lii, lastIncludedTerm := lit,
             commitIndex := lii, lastApplied := lii\<rparr>)))))"

definition readSnapshot :: "'d list \<Rightarrow> ('c, 'd) Raft \<Rightarrow> ('c, 'd) Raft" where
  "readSnapshot data rf = (if length data = 0 then rf else rf\<lparr>snapShot := data\<rparr>)"

definition Make :: "nat \<Rightarrow> int \<Rightarrow> ('c, 'd) Persister \<Rightarrow> int \<Rightarrow> int \<Rightarrow> ('c, 'd) Raft" where
  "Make peers i ps rnd now =
     (let rf0 = \<lparr>npeers = peers, persister = ps, me = i, dead = 0,
            currentTerm = 1, votedFor = -1, log = [\<lparr>eTerm = -1, eCommand = None\<rparr>],
            commitIndex = 0, lastApplied = 0,
            nextIndex = replicate peers 0, matchIndex = replicate peers 0,
            state = Follower,
            timer = \<lparr>tkPeriod = 150 + rnd, tkLastComing = now, tkMsgComing = 0\<rparr>,
            preVoteCount = 0, voteCount = 0, commitCh = CheckerWaiting,
            snapShot = [], lastIncludedIndex = 0, lastIncludedTerm = -1\<rparr>;
          rf1 = readPersist (ReadRaftState ps) (readSnapshot (ReadSnapshot ps) rf0)
      in rf1\<lparr>nextIndex := map (\<lambda>_. VirtualLogIdx rf1 (loglen rf1)) (nextIndex rf1),
             matchIndex := map (\<lambda>_. lastIncludedIndex rf1) (matchIndex rf1)\<rparr>)"


lemmas raft_frame_defs =
  persist_def timer_reset_def resetHeartBeat_def signalCommit_def Save_def
  RealLogIdx_def VirtualLogIdx_def Let_def

subsection \<open>Fields the auxiliary steps leave alone\<close>

lemma persist_sel [simp]:
  "npeers (persist rf) = npeers rf"
  "me (persist rf) = me rf"
  "dead (persist rf) = dead rf"
  "currentTerm (persist rf) = currentTerm rf"
  "votedFor (persist rf) = votedFor rf"
  "log (persist rf) = log rf"
  "commitIndex (persist rf) = commitIndex rf"
  "lastApplied (persist rf) = lastApplied rf"
  "nextIndex (persist rf) = nextIndex rf"
  "matchIndex (persist rf) = matchIndex rf"
  "state (persist rf) = state rf"
  "timer (persist rf) = timer rf"
  "preVoteCount (persist rf) = preVoteCount rf"
  "voteCount (persist rf) = voteCount rf"
  "commitCh (persist rf) = commitCh rf"
  "snapShot (persist rf) = snapShot rf"
  "lastIncludedIndex (persist rf) = lastIncludedIndex rf"
  "lastIncludedTerm (persist rf) = lastIncludedTerm rf"
  by (simp_all add: persist_def)

lemma timer_reset_sel [simp]:
  "npeers (timer_reset rnd rf) = npeers rf"
  "persister (timer_reset rnd rf) = persister rf"
  "me (timer_reset rnd rf) = me rf"
  "dead (timer_reset rnd rf) = dead rf"
  "currentTerm (timer_reset rnd rf) = currentTerm rf"
  "votedFor (timer_reset rnd rf) = votedFor rf"
  "log (timer_reset rnd rf) = log rf"
  "commitIndex (timer_reset rnd rf) = commitIndex rf"
  "lastApplied (timer_reset rnd rf) = lastApplied rf"
  "nextIndex (timer_reset rnd rf) = nextIndex rf"
  "matchIndex (timer_reset rnd rf) = matchIndex rf"
  "state (timer_reset rnd rf) = state rf"
  "preVoteCount (timer_reset rnd rf) = preVoteCount rf"
  "voteCount (timer_reset rnd rf) = voteCount rf"
  "commitCh (timer_reset rnd rf) = commitCh rf"
  "snapShot (timer_reset rnd rf) = snapShot rf"
  "lastIncludedIndex (timer_reset rnd rf) = lastIncludedIndex rf"
  "lastIncludedTerm (timer_reset rnd rf) = lastIncludedTerm rf"
  by (simp_all add: timer_reset_def)

lemma resetHeartBeat_sel [simp]:
  "npeers (resetHeartBeat rf) = npeers rf"
  "persister (resetHeartBeat rf) = persister rf"
  "me (resetHeartBeat rf) = me rf"
  "dead (resetHeartBeat rf) = dead rf"
  "currentTerm (resetHeartBeat rf) = currentTerm rf"
  "votedFor (resetHeartBeat rf) = votedFor rf"
  "log (resetHeartBeat rf) = log rf"
  "commitIndex (resetHeartBeat rf) = commitIndex rf"
  "lastApplied (resetHeartBeat rf) = lastApplied rf"
  "nextIndex (resetHeartBeat rf) = nextIndex rf"
  "matchIndex (resetHeartBeat rf) = matchIndex rf"
  "state (resetHeartBeat rf) = state rf"
  "preVoteCount (resetHeartBeat rf) = preVoteCount rf"
  "voteCount (resetHeartBeat rf) = voteCount rf"
  "commitCh (resetHeartBeat rf) = commitCh rf"
  "snapShot (resetHeartBeat rf) = snapShot rf"
  "lastIncludedIndex (resetHeartBeat rf) = lastIncludedIndex rf"
  "lastIncludedTerm (resetHeartBeat rf) = lastIncludedTerm rf"
  by (simp_all add: resetHeartBeat_def)

lemma signalCommit_sel [simp]:
  "npeers (signalCommit rf) = npeers rf"
  "persister (signalCommit rf) = persister rf"
  "me (signalCommit rf) = me rf"
  "dead (signalCommit rf) = dead rf"
  "currentTerm (signalCommit rf) = currentTerm rf"
  "votedFor (signalCommit rf) = votedFor rf"
  "log (signalCommit rf) = log rf"
  "commitIndex (signalCommit rf) = commitIndex rf"
  "lastApplied (signalCommit rf) = lastApplied rf"
  "nextIndex (signalCommit rf) = nextIndex rf"
  "matchIndex (signalCommit rf) = matchIndex rf"
  "state (signalCommit rf) = state rf"
  "timer (signalCommit rf) = timer rf"
  "preVoteCount (signalCommit rf) = preVoteCount rf"
  "voteCount (signalCommit rf) = voteCount rf"
  "snapShot (signalCommit rf) = snapShot rf"
  "lastIncludedIndex (signalCommit rf) = lastIncludedIndex rf"
  "lastIncludedTerm (signalCommit rf) = lastIncludedTerm rf"
  by (simp_all add: signalCommit_def)

subsection \<open>Well-formed peers\<close>

text \<open>
  What the handlers rely on when they index slices: the log has its placeholder, the
  peer's number and the leader's vectors fit the cluster, and
  \<open>lastIncludedIndex \<le> lastApplied \<le> commitIndex \<le>\<close> last log index.
\<close>

definition raft_wf :: "('c, 'd) Raft \<Rightarrow> bool" where
  "raft_wf rf \<longleftrightarrow>
     log rf \<noteq> [] \<and> 0 \<le> me rf \<and> me rf < int (npeers rf) \<and>
     length (nextIndex rf) = npeers rf \<and> length (matchIndex rf) = npeers rf \<and>
     0 \<le> lastIncludedIndex rf \<and> lastIncludedIndex rf \<le> lastApplied rf \<and>
     lastApplied rf \<le> commitIndex rf \<and> commitIndex rf \<le> lastLogIndex rf"

text \<open>A leader never plans to send from beyond the end of its log.\<close>

definition leader_ok :: "('c, 'd) Raft \<Rightarrow> bool" where
  "leader_ok rf \<longleftrightarrow>
     (state rf = Leader \<longrightarrow> (\<forall>ni \<in> set (nextIndex rf). ni \<le> lastLogIndex rf + 1))"

subsection \<open>Crash and restart\<close>

text \<open>The stable storage holds the peer's current term, vote, log and snapshot point.\<close>

definition persisted :: "('c, 'd) Raft \<Rightarrow> bool" where
  "persisted rf \<longleftrightarrow>
     raftstate (persister rf) = encodeState rf \<and> snapshot (persister rf) = snapShot rf"

text \<open>
  A peer that never persisted anything is still in the state \<open>Make\<close> gives on an empty
  persister, as far as the durable fields go.
\<close>

definition pristine :: "('c, 'd) Raft \<Rightarrow> bool" where
  "pristine rf \<longleftrightarrow> persister rf = MakePersister \<and> currentTerm rf = 1 \<and> votedFor rf = -1 \<and>
     log rf = [\<lparr>eTerm = -1, eCommand = None\<rparr>] \<and> snapShot rf = [] \<and>
     lastIncludedIndex rf = 0 \<and> lastIncludedTerm rf = -1"

definition durable :: "('c, 'd) Raft \<Rightarrow> bool" where
  "durable rf \<longleftrightarrow> persisted rf \<or> pristine rf"

definition restart :: "int \<Rightarrow> int \<Rightarrow> ('c, 'd) Raft \<Rightarrow> ('c, 'd) Raft" where
  "restart rnd now rf = Make (npeers rf) (me rf) (Copy (persister rf)) rnd now"

lemma persisted_persist [simp]: "persisted (persist rf)"
  by (simp add: persisted_def persist_def Save_def encodeState_def)

lemma durable_persist [simp]: "durable (persist rf)"
  by (simp add: durable_def)

lemma persist_persist [simp]: "persist (persist rf) = persist rf"
  by (simp add: persist_def Save_def encodeState_def)

lemma Copy_id [simp]: "Copy ps = ps"
  by (cases ps) (simp add: Copy_def MakePersister_def)

lemma readPersist_encode [simp]:
  "readPersist (encodeState rf) r =
     r\<lparr>votedFor := votedFor rf, currentTerm := currentTerm rf, log := log rf,
       lastIncludedIndex := lastIncludedIndex rf, lastIncludedTerm := lastIncludedTerm rf,
       commitIndex := lastIncludedIndex rf, lastApplied := lastIncludedIndex rf\<rparr>"
  by (simp add: readPersist_def encodeState_def)

lemma restart_fields:
  assumes "durable rf"
  shows "currentTerm (restart rnd now rf) = currentTerm rf"
    and "votedFor (restart rnd now rf) = votedFor rf"
    and "log (restart rnd now rf) = log rf"
    and "lastIncludedIndex (restart rnd now rf) = lastIncludedIndex rf"
    and "lastIncludedTerm (restart rnd now rf) = lastIncludedTerm rf"
    and "snapShot (restart rnd now rf) = snapShot rf"
  using assms
  by (auto simp: durable_def persisted_def pristine_def restart_def Make_def MakePersister_def
      ReadRaftState_def ReadSnapshot_def readSnapshot_def readPersist_def encodeState_def Let_def)

lemma restart_volatile [simp]:
  "me (restart rnd now rf) = me rf"
  "npeers (restart rnd now rf) = npeers rf"
  "state (restart rnd now rf) = Follower"
  "voteCount (restart rnd now rf) = 0"
  "persister (restart rnd now rf) = persister rf"
  by (auto simp: restart_def Make_def readPersist_def readSnapshot_def Let_def
      split: option.splits prod.splits)

lemma durable_restart: "durable rf \<Longrightarrow> durable (restart rnd now rf)"
  by (auto simp: durable_def persisted_def pristine_def encodeState_def restart_fields
      [unfolded durable_def persisted_def pristine_def encodeState_def])

lemma restart_indices:
  assumes "durable rf"
  shows "commitIndex (restart rnd now rf) = lastIncludedIndex rf"
    and "lastApplied (restart rnd now rf) = lastIncludedIndex rf"
    and "length (nextIndex (restart rnd now rf)) = npeers rf"
    and "length (matchIndex (restart rnd now rf)) = npeers rf"
  using assms
  by (auto simp: durable_def persisted_def pristine_def restart_def Make_def MakePersister_def
      ReadRaftState_def ReadSnapshot_def readSnapshot_def readPersist_def encodeState_def Let_def)

lemma restart_wf: "durable rf \<Longrightarrow> raft_wf rf \<Longrightarrow> raft_wf (restart rnd now rf)"
  by (auto simp: raft_wf_def restart_fields restart_indices Suc_le_eq)

lemma Make_wf:
  "0 \<le> i \<Longrightarrow> i < int n \<Longrightarrow> raft_wf (Make n i MakePersister rnd now)"
  by (simp add: raft_wf_def Make_def MakePersister_def ReadRaftState_def ReadSnapshot_def
      readSnapshot_def readPersist_def Let_def)

lemma Make_pristine: "pristine (Make n i MakePersister rnd now)"
  by (simp add: pristine_def Make_def MakePersister_def ReadRaftState_def ReadSnapshot_def
      readSnapshot_def readPersist_def Let_def)


lemma durable_cong:
  assumes "durable rf" "persister rf' = persister rf" "currentTerm rf' = currentTerm rf"
    "votedFor rf' = votedFor rf" "log rf' = log rf" "snapShot rf' = snapShot rf"
    "lastIncludedIndex rf' = lastIncludedIndex rf" "lastIncludedTerm rf' = lastIncludedTerm rf"
  shows "durable rf'"
  using assms by (simp add: durable_def persisted_def pristine_def encodeState_def)

subsection \<open>Step contracts\<close>

text \<open>
  \<open>vote_step\<close>: terms only grow, and within a term a vote once given stays.
  \<open>quiet_step\<close>: in addition no vote is given or counted and no leader appears.
\<close>

definition vote_step :: "('c, 'd) Raft \<Rightarrow> ('c, 'd) Raft \<Rightarrow> bool" where
  "vote_step rf rf' \<longleftrightarrow>
     me rf' = me rf \<and> npeers rf' = npeers rf \<and> currentTerm rf \<le> currentTerm rf' \<and>
     (currentTerm rf' = currentTerm rf \<longrightarrow> votedFor rf \<noteq> -1 \<longrightarrow> votedFor rf' = votedFor rf)"

definition quiet_step :: "('c, 'd) Raft \<Rightarrow> ('c, 'd) Raft \<Rightarrow> bool" where
  "quiet_step rf rf' \<longleftrightarrow>
     vote_step rf rf' \<and>
     (currentTerm rf' = currentTerm rf \<longrightarrow> votedFor rf' = votedFor rf) \<and>
     (voteCount rf' = voteCount rf \<or> currentTerm rf < currentTerm rf') \<and>
     (state rf' = Leader \<longrightarrow> state rf = Leader \<and> currentTerm rf' = currentTerm rf)"

lemma vote_step_refl [simp]: "vote_step rf rf"
  by (simp add: vote_step_def)

lemma quiet_step_refl [simp]: "quiet_step rf rf"
  by (simp add: quiet_step_def)

lemma vote_step_trans: "vote_step a b \<Longrightarrow> vote_step b c \<Longrightarrow> vote_step a c"
  by (force simp: vote_step_def)

lemma quiet_vote_step: "quiet_step rf rf' \<Longrightarrow> vote_step rf rf'"
  by (simp add: quiet_step_def)

end
