(* ===== verification/RaftElection.thy ===== *)
theory RaftElection
  imports RaftState
begin

text \<open>
  Pre-vote and voting (\<open>src/src/raft/vote.go\<close>). An RPC client (\<open>sendRequestVote\<close>,
  \<open>sendPreVote\<close>) is modelled from the point where \<open>Call\<close> has returned: \<open>reply\<close> is the
  reply structure as it then stands, which is still the zero value when the call failed.
\<close>

subsection \<open>Voting\<close>

definition majority :: "('c, 'd) Raft \<Rightarrow> int" where
  "majority rf = int (npeers rf) div 2"

definition becomeLeader :: "('c, 'd) Raft \<Rightarrow> ('c, 'd) Raft res" where
  "becomeLeader rf =
     (if length (matchIndex rf) < length (nextIndex rf) then Inl IndexOutOfRange
      else let n = length (nextIndex rf) in
        Inr (resetHeartBeat (rf\<lparr>state := Leader,
          nextIndex := map (\<lambda>_. VirtualLogIdx rf (loglen rf)) (nextIndex rf),
          matchIndex := replicate n 0 @ drop n (matchIndex rf)\<rparr>)))"

definition sendRequestVote ::
  "RequestVoteArgs \<Rightarrow> RequestVoteReply \<Rightarrow> ('c, 'd) Raft \<Rightarrow> (('c, 'd) Raft \<times> bool) res" where
  "sendRequestVote args reply rf =
     (if rvrTerm reply = 0 then Inr (rf, False)
      else if currentTerm rf \<noteq> rvTerm args then Inr (rf, False)
      else if rvrVoteGranted reply then
        (if state rf < Candidate then Inr (rf, False)
         else if voteCount rf > majority rf then Inr (rf, True)
         else let rf1 = rf\<lparr>voteCount := voteCount rf + 1\<rparr> in
           if voteCount rf1 > majority rf1
           then bindR (becomeLeader rf1) (\<lambda>rf2. Inr (rf2, True))
           else Inr (rf1, True))
      else Inr (rf\<lparr>state := Follower\<rparr>, True))"

definition RequestVote ::
  "RequestVoteArgs \<Rightarrow> ('c, 'd) Raft \<Rightarrow> (('c, 'd) Raft \<times> RequestVoteReply) res" where
  "RequestVote args rf =
     (let reply = \<lparr>rvrTerm = currentTerm rf, rvrVoteGranted = False\<rparr> in
      if rvTerm args < currentTerm rf then Inr (rf, reply)
      else
        let rf1 = (if rvTerm args > currentTerm rf
                   then persist (rf\<lparr>currentTerm := rvTerm args, state := Follower, votedFor := -1\<rparr>)
                   else rf) in
        if votedFor rf1 = -1 \<or> votedFor rf1 = rvCandidateId args then
          bindR (go_nth (log rf1) (loglen rf1 - 1)) (\<lambda>e.
            if rvLastLogTerm args > eTerm e \<or>
               (rvLastLogTerm args = eTerm e \<and> rvLastLogIndex args \<ge> VirtualLogIdx rf1 (loglen rf1))
            then Inr (persist (rf1\<lparr>currentTerm := rvTerm args, state := Follower,
                                   votedFor := rvCandidateId args\<rparr>),
                      \<lparr>rvrTerm = rvTerm args, rvrVoteGranted = True\<rparr>)
            else Inr (rf1, reply))
        else Inr (rf1, reply))"

subsection \<open>Pre-vote\<close>

definition otherPeers :: "('c, 'd) Raft \<Rightarrow> int list" where
  "otherPeers rf = filter (\<lambda>i. i \<noteq> me rf) (map int [0..<npeers rf])"

definition handlePreVote :: "('c, 'd) Raft \<Rightarrow> ('c, 'd) rpc list" where
  "handlePreVote rf = map SendPreVote (otherPeers rf)"

definition sendPreVote :: "bool \<Rightarrow> PreVoteReply \<Rightarrow> ('c, 'd) Raft \<Rightarrow> ('c, 'd) Raft" where
  "sendPreVote ok reply rf =
     (if \<not> ok \<or> \<not> pvIsOk reply then rf
      else if state rf \<noteq> PreCandidate then rf
      else let rf1 = rf\<lparr>preVoteCount := preVoteCount rf + 1\<rparr> in
        if preVoteCount rf1 > majority rf1 \<and> state rf1 \<le> PreCandidate
        then rf1\<lparr>state := Candidate\<rparr>
        else rf1)"

definition PreVote :: "('c, 'd) Raft \<Rightarrow> PreVoteReply" where
  "PreVote rf = \<lparr>pvIsOk = True\<rparr>"

text \<open>The candidate branch of \<open>ticker\<close> starts a new term and asks every other peer.\<close>

definition startElection :: "int \<Rightarrow> ('c, 'd) Raft \<Rightarrow> (('c, 'd) Raft \<times> ('c, 'd) rpc list) res" where
  "startElection rnd rf =
     (let rf1 = persist (timer_reset rnd (rf\<lparr>currentTerm := currentTerm rf + 1,
                   votedFor := me rf, voteCount := 1\<rparr>)) in
      bindR (mapR (\<lambda>i. bindR (go_nth (log rf1) (loglen rf1 - 1)) (\<lambda>e.
               Inr (SendRequestVote i
                 \<lparr>rvTerm = currentTerm rf1, rvCandidateId = me rf1,
                  rvLastLogIndex = VirtualLogIdx rf1 (loglen rf1),
                  rvLastLogTerm = eTerm e\<rparr>)))
             (otherPeers rf1))
        (\<lambda>msgs. Inr (rf1, msgs)))"


subsection \<open>Basic facts\<close>

lemma set_otherPeers: "set (otherPeers rf) = {i. 0 \<le> i \<and> i < int (npeers rf) \<and> i \<noteq> me rf}"
proof -
  have "int ` {0..<npeers rf} = {0..<int (npeers rf)}"
    by (simp add: image_int_atLeastLessThan)
  then show ?thesis by (auto simp: otherPeers_def)
qed

lemma distinct_otherPeers: "distinct (otherPeers rf)"
  by (simp add: otherPeers_def distinct_map)

lemma length_otherPeers:
  assumes "raft_wf rf"
  shows "length (otherPeers rf) = npeers rf - 1"
proof -
  have "length (otherPeers rf) = card ({0..<int (npeers rf)} - {me rf})"
    using distinct_card[OF distinct_otherPeers[of rf]] set_otherPeers[of rf]
    by (simp add: set_diff_eq atLeastLessThan_def lessThan_def atLeast_def conj_ac)
  also have "\<dots> = npeers rf - 1" using assms by (simp add: raft_wf_def)
  finally show ?thesis .
qed

lemma otherPeers_cong: "npeers rf = npeers rf' \<Longrightarrow> me rf = me rf' \<Longrightarrow> otherPeers rf = otherPeers rf'"
  by (simp add: otherPeers_def)

lemmas election_defs =
  RequestVote_def sendRequestVote_def becomeLeader_def startElection_def sendPreVote_def
  majority_def raft_frame_defs

subsection \<open>Handler contracts\<close>

lemma becomeLeader_total: "raft_wf rf \<Longrightarrow> \<exists>rf'. becomeLeader rf = Inr rf'"
  by (simp add: becomeLeader_def raft_wf_def Let_def)

lemma sendRequestVote_total:
  assumes "raft_wf rf"
  shows "\<exists>rf' b. sendRequestVote args reply rf = Inr (rf', b)"
proof -
  have "raft_wf (rf\<lparr>voteCount := voteCount rf + 1\<rparr>)" using assms by (simp add: raft_wf_def)
  from becomeLeader_total[OF this] show ?thesis by (auto simp: sendRequestVote_def Let_def)
qed

lemma sendRequestVote_wf:
  assumes "raft_wf rf" "leader_ok rf" "sendRequestVote args reply rf = Inr (rf', b)"
  shows "raft_wf rf' \<and> leader_ok rf'"
  using assms
  by (auto simp: sendRequestVote_def becomeLeader_def raft_frame_defs raft_wf_def leader_ok_def bindR_eq_Inr
      simp del: role_less split: if_splits)

lemma sendRequestVote_durable:
  "durable rf \<Longrightarrow> sendRequestVote args reply rf = Inr (rf', b) \<Longrightarrow> durable rf'"
  by (erule durable_cong; auto simp: election_defs bindR_eq_Inr split: if_splits)

lemma sendRequestVote_vote_step:
  "sendRequestVote args reply rf = Inr (rf', b) \<Longrightarrow> vote_step rf rf'"
  by (auto simp: election_defs vote_step_def bindR_eq_Inr split: if_splits)

text \<open>What \<open>sendRequestVote\<close> can change: it counts one vote, or steps down.\<close>

definition vote_counted ::
  "RequestVoteArgs \<Rightarrow> RequestVoteReply \<Rightarrow> ('c, 'd) Raft \<Rightarrow> ('c, 'd) Raft \<Rightarrow> bool" where
  "vote_counted args reply rf rf' \<longleftrightarrow>
     rvrVoteGranted reply \<and> rvTerm args = currentTerm rf \<and> rvrTerm reply \<noteq> 0 \<and>
     voteCount rf' = voteCount rf + 1 \<and> currentTerm rf' = currentTerm rf \<and>
     votedFor rf' = votedFor rf \<and> log rf' = log rf \<and> me rf' = me rf \<and> npeers rf' = npeers rf \<and>
     lastIncludedIndex rf' = lastIncludedIndex rf \<and> commitIndex rf' = commitIndex rf \<and>
     state rf' = (if voteCount rf + 1 > majority rf then Leader else state rf) \<and>
     (state rf = Candidate \<or> state rf = Leader) \<and> voteCount rf \<le> majority rf"

lemma sendRequestVote_counted:
  assumes "sendRequestVote args reply rf = Inr (rf', b)"
    and "rvrTerm reply \<noteq> 0" "currentTerm rf = rvTerm args" "rvrVoteGranted reply"
    and "\<not> state rf < Candidate" "voteCount rf \<le> majority rf"
  shows "vote_counted args reply rf rf'"
proof -
  have "state rf = Candidate \<or> state rf = Leader" using assms(5) by (cases "state rf") auto
  with assms show ?thesis
    by (cases "voteCount rf + 1 > majority rf")
      (auto simp: sendRequestVote_def vote_counted_def becomeLeader_def majority_def
        raft_frame_defs split: if_splits)
qed

lemma sendRequestVote_cases:
  assumes "sendRequestVote args reply rf = Inr (rf', b)"
  shows "rf' = rf \<or> vote_counted args reply rf rf' \<or>
         rf' = rf\<lparr>state := Follower\<rparr> \<and> rvTerm args = currentTerm rf"
proof (cases "rvrTerm reply = 0 \<or> currentTerm rf \<noteq> rvTerm args \<or>
    rvrVoteGranted reply \<and> (state rf < Candidate \<or> voteCount rf > majority rf)")
  case True
  with assms have "rf' = rf"
    by (auto simp: sendRequestVote_def Let_def simp del: role_less split: if_splits)
  then show ?thesis ..
next
  case False
  show ?thesis
  proof (cases "rvrVoteGranted reply")
    case True
    with False assms have "vote_counted args reply rf rf'"
      by (intro sendRequestVote_counted) auto
    then show ?thesis by blast
  next
    case ref: False
    with False assms show ?thesis by (simp add: sendRequestVote_def)
  qed
qed

lemma RequestVote_total: "raft_wf rf \<Longrightarrow> \<exists>rf' r. RequestVote args rf = Inr (rf', r)"
  by (auto simp: RequestVote_def Let_def persist_def raft_wf_def go_simps)

lemma RequestVote_wf:
  assumes "raft_wf rf" "leader_ok rf" "RequestVote args rf = Inr (rf', r)"
  shows "raft_wf rf' \<and> leader_ok rf'"
  using assms
  by (auto simp: election_defs raft_wf_def leader_ok_def go_Inr split: if_splits)

lemma RequestVote_durable:
  "durable rf \<Longrightarrow> RequestVote args rf = Inr (rf', r) \<Longrightarrow> durable rf'"
  by (auto simp: RequestVote_def Let_def go_Inr split: if_splits)

lemma RequestVote_vote_step:
  "RequestVote args rf = Inr (rf', r) \<Longrightarrow> vote_step rf rf'"
  by (auto simp: election_defs vote_step_def go_Inr split: if_splits)

lemma RequestVote_frame:
  "RequestVote args rf = Inr (rf', r) \<Longrightarrow>
     log rf' = log rf \<and> lastIncludedIndex rf' = lastIncludedIndex rf \<and> voteCount rf' = voteCount rf \<and>
     commitIndex rf' = commitIndex rf \<and>
     (state rf' = Leader \<longrightarrow> state rf = Leader \<and> currentTerm rf' = currentTerm rf) \<and>
     (\<not> rvrVoteGranted r \<longrightarrow> currentTerm rf' = currentTerm rf \<longrightarrow> votedFor rf' = votedFor rf)"
  by (auto simp: election_defs go_Inr split: if_splits)

lemma RequestVote_granted:
  "RequestVote args rf = Inr (rf', r) \<Longrightarrow> rvrVoteGranted r \<Longrightarrow>
     currentTerm rf' = rvTerm args \<and> votedFor rf' = rvCandidateId args \<and>
     rvrTerm r = rvTerm args \<and> state rf' = Follower \<and>
     (currentTerm rf < rvTerm args \<or>
      currentTerm rf = rvTerm args \<and> (votedFor rf = -1 \<or> votedFor rf = rvCandidateId args))"
  by (auto simp: election_defs go_Inr split: if_splits)

lemma sendPreVote_quiet: "quiet_step rf (sendPreVote ok reply rf)"
  by (auto simp: sendPreVote_def quiet_step_def vote_step_def Let_def)

lemma sendPreVote_durable: "durable rf \<Longrightarrow> durable (sendPreVote ok reply rf)"
  by (erule durable_cong) (auto simp: sendPreVote_def Let_def)

lemma sendPreVote_wf:
  "raft_wf rf \<Longrightarrow> leader_ok rf \<Longrightarrow> raft_wf (sendPreVote ok reply rf) \<and> leader_ok (sendPreVote ok reply rf)"
  by (auto simp: sendPreVote_def raft_wf_def leader_ok_def Let_def)

lemma startElection_total:
  assumes "raft_wf rf"
  shows "\<exists>rf' ms. startElection rnd rf = Inr (rf', ms)"
proof -
  have ne: "log rf \<noteq> []" using assms by (simp add: raft_wf_def)
  have "\<exists>ms. mapR (\<lambda>i. bindR (go_nth (log rf) (loglen rf - 1)) (\<lambda>e. Inr (SendRequestVote i
       \<lparr>rvTerm = currentTerm rf + 1, rvCandidateId = me rf,
        rvLastLogIndex = loglen rf + lastIncludedIndex rf, rvLastLogTerm = eTerm e\<rparr>))) xs
     = Inr ms" for xs
    by (rule mapR_total) (simp add: go_nth_last[OF ne])
  then show ?thesis
    unfolding startElection_def raft_frame_defs bindR_eq_Inr by simp
qed

lemma startElection_fields:
  assumes "startElection rnd rf = Inr (rf', ms)"
  shows "currentTerm rf' = currentTerm rf + 1" "votedFor rf' = me rf" "voteCount rf' = 1"
    "me rf' = me rf" "npeers rf' = npeers rf" "state rf' = state rf" "log rf' = log rf"
    "lastIncludedIndex rf' = lastIncludedIndex rf" "commitIndex rf' = commitIndex rf"
    "lastApplied rf' = lastApplied rf" "nextIndex rf' = nextIndex rf" "matchIndex rf' = matchIndex rf"
    "durable rf'"
  using assms by (auto simp: startElection_def bindR_eq_Inr raft_frame_defs)
     (simp add: durable_def persisted_def encodeState_def)

lemma startElection_msgs:
  assumes "startElection rnd rf = Inr (rf', ms)" "m \<in> set ms"
  obtains j args where "m = SendRequestVote j args" "j \<in> set (otherPeers rf)"
    "rvTerm args = currentTerm rf'" "rvCandidateId args = me rf"
    "rvLastLogIndex args = lastIncludedIndex rf + loglen rf"
    "log rf \<noteq> []" "rvLastLogTerm args = eTerm (last (log rf))"
proof -
  from assms obtain i where i: "i \<in> set (otherPeers rf)"
    and m: "bindR (go_nth (log rf) (loglen rf - 1)) (\<lambda>e. Inr (SendRequestVote i
              \<lparr>rvTerm = currentTerm rf + 1, rvCandidateId = me rf,
               rvLastLogIndex = loglen rf + lastIncludedIndex rf, rvLastLogTerm = eTerm e\<rparr>)) = Inr m"
    by (fastforce simp: startElection_def bindR_eq_Inr raft_frame_defs otherPeers_def
        dest!: mapR_mem)
  from m obtain e where "go_nth (log rf) (loglen rf - 1) = Inr e"
    and m': "m = SendRequestVote i \<lparr>rvTerm = currentTerm rf + 1, rvCandidateId = me rf,
               rvLastLogIndex = loglen rf + lastIncludedIndex rf, rvLastLogTerm = eTerm e\<rparr>"
    by (auto simp: bindR_eq_Inr)
  moreover from this have "log rf \<noteq> []" by (auto simp: go_nth_def)
  ultimately show ?thesis
    using i by (intro that[OF m']) (auto simp: startElection_fields[OF assms(1)] go_nth_last)
qed

end
