(* ===== verification/RaftReplication.thy ===== *)
theory RaftReplication
  imports RaftElection
begin

text \<open>
  Log replication (\<open>src/src/raft/append.go\<close>, and \<open>Start\<close>, \<open>doLeader\<close>,
  \<open>CommitChecker\<close> of \<open>src/src/raft/raft.go\<close>).
\<close>

subsection \<open>The leader's side\<close>

text \<open>
  \<open>Start\<close>: \<open>now\<close> is \<open>time.Now()\<close>. The message channel has capacity one and the
  send is non-blocking.
\<close>

definition signalMsg :: "int \<Rightarrow> ('c, 'd) Raft \<Rightarrow> ('c, 'd) Raft" where
  "signalMsg now rf =
     (let t = timer rf in
      if now - tkLastComing t > msgGap
      then rf\<lparr>timer := t\<lparr>tkLastComing := now,
                 tkMsgComing := (if tkMsgComing t < 1 then tkMsgComing t + 1 else tkMsgComing t)\<rparr>\<rparr>
      else rf)"

definition Start ::
  "int \<Rightarrow> 'c option \<Rightarrow> ('c, 'd) Raft \<Rightarrow> (('c, 'd) Raft \<times> int \<times> int \<times> bool) res" where
  "Start now command rf =
     (if state rf \<noteq> Leader then Inr (rf, -1, -1, False)
      else
        let rf1 = rf\<lparr>log := log rf @ [\<lparr>eTerm = currentTerm rf, eCommand = command\<rparr>]\<rparr> in
        bindR (go_set (nextIndex rf1) (me rf1) (VirtualLogIdx rf1 (loglen rf1))) (\<lambda>ni.
          let rf2 = resetHeartBeat (signalMsg now (persist (rf1\<lparr>nextIndex := ni\<rparr>)))
          in Inr (rf2, VirtualLogIdx rf2 (loglen rf2 - 1), currentTerm rf2, True)))"

text \<open>
  The entries of a request are those its slice has when it is built; \<open>RaftSharing\<close> treats the time until it is encoded, in which they may be overwritten.
\<close>

definition leaderArgs :: "int \<Rightarrow> ('c, 'd) Raft \<Rightarrow> ('c, 'd) rpc res" where
  "leaderArgs i rf =
     bindR (go_nth (nextIndex rf) i) (\<lambda>ni.
       let prev = max_int (ni - 1) 0 in
       if prev < lastIncludedIndex rf then Inr (SendInstallSnapshot i)
       else
         bindR (if VirtualLogIdx rf (loglen rf - 1) > prev
                then go_from (log rf) (RealLogIdx rf (prev + 1))
                else Inr []) (\<lambda>entries.
         bindR (go_nth (log rf) (RealLogIdx rf prev)) (\<lambda>pe.
           Inr (SendAppendEntries i
             \<lparr>aeTerm = currentTerm rf, aeLeaderId = me rf, aePrevLogIndex = prev,
              aePrevLogTerm = eTerm pe, aeEntries = entries,
              aeLeaderCommit = commitIndex rf\<rparr>))))"

definition doLeader :: "('c, 'd) Raft \<Rightarrow> (('c, 'd) Raft \<times> ('c, 'd) rpc list) res" where
  "doLeader rf =
     (let rf1 = resetHeartBeat rf in
      bindR (mapR (\<lambda>i. leaderArgs i rf1) (otherPeers rf1)) (\<lambda>msgs. Inr (rf1, msgs)))"

text \<open>
  The fast back-off loop over \<open>i = nextIndex[server]-1, \<dots>, 0\<close>. \<open>ni\<close> is
  \<open>nextIndex[server]\<close> at the start of the loop; the result is its value at the end.
\<close>

function backoff :: "('c, 'd) Raft \<Rightarrow> int \<Rightarrow> int \<Rightarrow> int res" where
  "backoff rf ni i =
     (if i < 0 then Inr ni
      else if i < lastIncludedIndex rf then Inr (lastIncludedIndex rf)
      else bindR (go_nth (log rf) (RealLogIdx rf i)) (\<lambda>a.
           bindR (go_nth (log rf) (RealLogIdx rf (ni - 1))) (\<lambda>b.
             if eTerm a < eTerm b then Inr (i + 1)
             else if i = lastIncludedIndex rf then Inr (lastIncludedIndex rf)
             else backoff rf ni (i - 1))))"
  by pat_completeness auto
termination
  by (relation "measure (\<lambda>(rf, ni, i). nat (i + 1))") auto

declare backoff.simps [simp del]

text \<open>
  \<open>countMatch rf N is\<close>: the inner counting loop over the peers \<open>is\<close>; the entry at \<open>N\<close>
  is read only when \<open>matchIndex[i] >= N\<close>.
\<close>

fun countMatch :: "('c, 'd) Raft \<Rightarrow> int \<Rightarrow> int list \<Rightarrow> int res" where
  "countMatch rf N [] = Inr 1"
| "countMatch rf N (i # is) =
     bindR (countMatch rf N is) (\<lambda>c.
     bindR (go_nth (matchIndex rf) i) (\<lambda>m.
       if m \<ge> N then
         bindR (go_nth (log rf) (RealLogIdx rf N)) (\<lambda>e.
           Inr (if eTerm e = currentTerm rf then c + 1 else c))
       else Inr c))"

function advanceCommit :: "('c, 'd) Raft \<Rightarrow> int \<Rightarrow> ('c, 'd) Raft res" where
  "advanceCommit rf N =
     (if N > commitIndex rf then
        bindR (countMatch rf N (otherPeers rf)) (\<lambda>count.
          if count > majority rf then Inr (signalCommit (rf\<lparr>commitIndex := N\<rparr>))
          else advanceCommit rf (N - 1))
      else Inr rf)"
  by pat_completeness auto
termination
  by (relation "measure (\<lambda>(rf, N). nat (N - commitIndex rf))") auto

declare advanceCommit.simps [simp del]

text \<open>
  \<open>sendAppendEntries\<close>: the goroutine issues the call only while the peer still leads
  (\<open>sendAppendEntries_begin\<close>); the rest runs after \<open>Call\<close> has returned, with \<open>reply\<close> as it
  then stands. \<open>rnd\<close> feeds \<open>timer.reset\<close>.
\<close>

definition sendAppendEntries_begin :: "('c, 'd) Raft \<Rightarrow> bool" where
  "sendAppendEntries_begin rf \<longleftrightarrow> state rf = Leader"

definition sendAppendEntries ::
  "int \<Rightarrow> int \<Rightarrow> 'c AppendEntriesArgs \<Rightarrow> AppendEntriesReply \<Rightarrow> ('c, 'd) Raft
   \<Rightarrow> (('c, 'd) Raft \<times> bool) res" where
  "sendAppendEntries rnd server args reply rf =
     (if aerTerm reply = 0 \<and> \<not> aerSuccess reply then Inr (rf, False)
      else if aeTerm args < currentTerm rf then Inr (rf, False)
      else if \<not> aerSuccess reply then
        (if aerTerm reply > currentTerm rf then
           Inr (persist (timer_reset rnd (rf\<lparr>state := Follower, currentTerm := aerTerm reply,
                  votedFor := -1, voteCount := 0\<rparr>)), False)
         else if aerTerm reply = currentTerm rf \<and> state rf = Leader then
           bindR (go_nth (nextIndex rf) server) (\<lambda>ni.
           bindR (backoff rf ni (ni - 1)) (\<lambda>ni'.
           bindR (go_set (nextIndex rf) server ni') (\<lambda>nis.
             Inr (rf\<lparr>nextIndex := nis\<rparr>, False))))
         else Inr (rf, False))
      else
        let m = aePrevLogIndex args + int (length (aeEntries args)) in
        bindR (go_set (matchIndex rf) server m) (\<lambda>mi.
        bindR (go_set (nextIndex rf) server (m + 1)) (\<lambda>ni.
          let rf1 = rf\<lparr>matchIndex := mi, nextIndex := ni\<rparr> in
          bindR (advanceCommit rf1 (VirtualLogIdx rf1 (loglen rf1 - 1))) (\<lambda>rf2. Inr (rf2, True)))))"

subsection \<open>The follower's side\<close>

text \<open>
  The loop over \<open>args.Entries\<close>; \<open>ridx\<close> is the slice index of the head of \<open>es\<close>. The
  first entry that conflicts replaces the rest of the log, the first one past the end of
  the log is appended with everything after it.
\<close>

fun mergeEntries :: "'c LogEntry list \<Rightarrow> int \<Rightarrow> 'c LogEntry list \<Rightarrow> 'c LogEntry list res" where
  "mergeEntries lg ridx [] = Inr lg"
| "mergeEntries lg ridx (e # es) =
     (if ridx < int (length lg) then
        bindR (go_nth lg ridx) (\<lambda>x.
          if eTerm x \<noteq> eTerm e then Inr (take (nat ridx) lg @ (e # es))
          else mergeEntries lg (ridx + 1) es)
      else if ridx = int (length lg) then Inr (lg @ (e # es))
      else mergeEntries lg (ridx + 1) es)"

text \<open>The handler from the log check on, with the peer it has after the term check.\<close>

definition AppendEntries_log ::
  "'c AppendEntriesArgs \<Rightarrow> int \<Rightarrow> ('c, 'd) Raft \<Rightarrow> (('c, 'd) Raft \<times> AppendEntriesReply) res" where
  "AppendEntries_log args t0 rf =
     (let fail = \<lparr>aerTerm = t0, aerSuccess = False\<rparr> in
      if aePrevLogIndex args < lastIncludedIndex rf then Inr (rf, fail)
      else if aePrevLogIndex args \<ge> VirtualLogIdx rf (loglen rf) then Inr (rf, fail)
      else
        bindR (go_nth (log rf) (RealLogIdx rf (aePrevLogIndex args))) (\<lambda>pe.
          if eTerm pe \<noteq> aePrevLogTerm args then Inr (rf, fail)
          else
            bindR (mergeEntries (log rf) (RealLogIdx rf (aePrevLogIndex args) + 1) (aeEntries args))
            (\<lambda>lg.
              let rf1 = (if aeEntries args \<noteq> [] then persist (rf\<lparr>log := lg\<rparr>) else rf);
                  rf2 = (if aeLeaderCommit args > commitIndex rf1
                         then signalCommit (rf1\<lparr>commitIndex :=
                                min (aeLeaderCommit args) (VirtualLogIdx rf1 (loglen rf1 - 1))\<rparr>)
                         else rf1)
              in Inr (rf2, \<lparr>aerTerm = t0, aerSuccess = True\<rparr>))))"

definition AppendEntries ::
  "int \<Rightarrow> 'c AppendEntriesArgs \<Rightarrow> ('c, 'd) Raft \<Rightarrow> (('c, 'd) Raft \<times> AppendEntriesReply) res" where
  "AppendEntries rnd args rf0 =
     (let rf = timer_reset rnd rf0 in
      if aeTerm args < currentTerm rf
      then Inr (rf, \<lparr>aerTerm = currentTerm rf, aerSuccess = False\<rparr>)
      else
        let rf1 = (if aeTerm args > currentTerm rf
                   then persist (rf\<lparr>currentTerm := aeTerm args, votedFor := -1, state := Follower\<rparr>)
                   else rf)
        in AppendEntries_log args (currentTerm rf) (persist rf1))"

subsection \<open>Delivery of committed entries\<close>

text \<open>
  \<open>CommitChecker\<close> first collects, under the lock, the entries after \<open>lastApplied\<close> up to
  \<open>commitIndex\<close>. \<open>make\<close> panics on a negative capacity.
\<close>

function collectMsgs :: "('c, 'd) Raft \<Rightarrow> int \<Rightarrow> ('c, 'd) ApplyMsg list res" where
  "collectMsgs rf tmpApplied =
     (if commitIndex rf > tmpApplied then
        let t = tmpApplied + 1 in
        if t \<le> lastIncludedIndex rf then collectMsgs rf t
        else if RealLogIdx rf t \<ge> loglen rf then Inr []
        else
          bindR (go_nth (log rf) (RealLogIdx rf t)) (\<lambda>e.
          bindR (collectMsgs rf t) (\<lambda>ms.
            Inr (\<lparr>amCommandValid = True, amCommand = eCommand e, amCommandIndex = t,
                  amCommandTerm = eTerm e, amSnapshotValid = False, amSnapshot = [],
                  amSnapshotTerm = 0, amSnapshotIndex = 0\<rparr> # ms)))
      else Inr [])"
  by pat_completeness auto
termination
  by (relation "measure (\<lambda>(rf, t). nat (commitIndex rf - t))") auto

declare collectMsgs.simps [simp del]

definition CommitChecker_collect ::
  "('c, 'd) Raft \<Rightarrow> (('c, 'd) Raft \<times> ('c, 'd) ApplyMsg list) res" where
  "CommitChecker_collect rf =
     (if commitIndex rf - lastApplied rf < 0 then Inl MakeSliceOutOfRange
      else bindR (collectMsgs rf (lastApplied rf)) (\<lambda>ms. Inr (rf\<lparr>commitCh := CheckerBusy\<rparr>, ms)))"

text \<open>After each send on \<open>applyCh\<close> the lock is taken again to move \<open>lastApplied\<close>.\<close>

definition CommitChecker_applied :: "('c, 'd) ApplyMsg \<Rightarrow> ('c, 'd) Raft \<Rightarrow> ('c, 'd) Raft" where
  "CommitChecker_applied msg rf =
     (if amCommandIndex msg \<noteq> lastApplied rf + 1 then rf
      else rf\<lparr>lastApplied := max_int (amCommandIndex msg) (lastApplied rf)\<rparr>)"

definition CommitChecker_done :: "('c, 'd) Raft \<Rightarrow> ('c, 'd) Raft" where
  "CommitChecker_done rf = (if killed rf then rf else rf\<lparr>commitCh := CheckerWaiting\<rparr>)"


subsection \<open>Evaluation\<close>

text \<open>The loops with the error case spelled out, so that they can be run by rewriting.\<close>

lemma backoff_code [code]:
  "backoff rf ni i =
     (if i < 0 then Inr ni
      else if i < lastIncludedIndex rf then Inr (lastIncludedIndex rf)
      else case go_nth (log rf) (RealLogIdx rf i) of Inl p \<Rightarrow> Inl p | Inr a \<Rightarrow>
          (case go_nth (log rf) (RealLogIdx rf (ni - 1)) of Inl p \<Rightarrow> Inl p | Inr b \<Rightarrow>
             if eTerm a < eTerm b then Inr (i + 1)
             else if i = lastIncludedIndex rf then Inr (lastIncludedIndex rf)
             else backoff rf ni (i - 1)))"
  by (subst backoff.simps) (simp split: sum.split)

lemma advanceCommit_code [code]:
  "advanceCommit rf N =
     (if N > commitIndex rf then
        (case countMatch rf N (otherPeers rf) of Inl p \<Rightarrow> Inl p | Inr count \<Rightarrow>
          if count > majority rf then Inr (signalCommit (rf\<lparr>commitIndex := N\<rparr>))
          else advanceCommit rf (N - 1))
      else Inr rf)"
  by (subst advanceCommit.simps) (simp split: sum.split)

lemma collectMsgs_code [code]:
  "collectMsgs rf t =
     (if commitIndex rf > t then
        if t + 1 \<le> lastIncludedIndex rf then collectMsgs rf (t + 1)
        else if RealLogIdx rf (t + 1) \<ge> loglen rf then Inr []
        else case go_nth (log rf) (RealLogIdx rf (t + 1)) of Inl p \<Rightarrow> Inl p | Inr e \<Rightarrow>
          (case collectMsgs rf (t + 1) of Inl p \<Rightarrow> Inl p | Inr ms \<Rightarrow>
            Inr (\<lparr>amCommandValid = True, amCommand = eCommand e, amCommandIndex = t + 1,
                  amCommandTerm = eTerm e, amSnapshotValid = False, amSnapshot = [],
                  amSnapshotTerm = 0, amSnapshotIndex = 0\<rparr> # ms))
      else Inr [])"
  by (subst collectMsgs.simps) (simp add: Let_def split: sum.split)

lemmas replication_defs =
  Start_def leaderArgs_def doLeader_def sendAppendEntries_def AppendEntries_def AppendEntries_log_def
  CommitChecker_collect_def CommitChecker_applied_def CommitChecker_done_def
  raft_frame_defs

lemma signalMsg_sel [simp]:
  "npeers (signalMsg now rf) = npeers rf"
  "persister (signalMsg now rf) = persister rf"
  "me (signalMsg now rf) = me rf"
  "dead (signalMsg now rf) = dead rf"
  "currentTerm (signalMsg now rf) = currentTerm rf"
  "votedFor (signalMsg now rf) = votedFor rf"
  "log (signalMsg now rf) = log rf"
  "commitIndex (signalMsg now rf) = commitIndex rf"
  "lastApplied (signalMsg now rf) = lastApplied rf"
  "nextIndex (signalMsg now rf) = nextIndex rf"
  "matchIndex (signalMsg now rf) = matchIndex rf"
  "state (signalMsg now rf) = state rf"
  "preVoteCount (signalMsg now rf) = preVoteCount rf"
  "voteCount (signalMsg now rf) = voteCount rf"
  "commitCh (signalMsg now rf) = commitCh rf"
  "snapShot (signalMsg now rf) = snapShot rf"
  "lastIncludedIndex (signalMsg now rf) = lastIncludedIndex rf"
  "lastIncludedTerm (signalMsg now rf) = lastIncludedTerm rf"
  by (simp_all add: signalMsg_def Let_def)

subsection \<open>Merging entries into the log\<close>

text \<open>Reference: find the first position where the leader's entries disagree with the log.\<close>

fun commonTerms :: "'c LogEntry list \<Rightarrow> 'c LogEntry list \<Rightarrow> nat" where
  "commonTerms (x # xs) (e # es) = (if eTerm x = eTerm e then Suc (commonTerms xs es) else 0)"
| "commonTerms _ _ = 0"

definition mergeSpec :: "'c LogEntry list \<Rightarrow> nat \<Rightarrow> 'c LogEntry list \<Rightarrow> 'c LogEntry list" where
  "mergeSpec lg r es =
     (let j = commonTerms (drop r lg) es
      in if j = length es then lg else take (r + j) lg @ drop j es)"

lemma commonTerms_Nil [simp]: "commonTerms xs [] = 0" "commonTerms [] es = 0"
  by (cases xs) auto

lemma commonTerms_le: "commonTerms xs es \<le> length xs" "commonTerms xs es \<le> length es"
  by (induction xs es rule: commonTerms.induct) auto

lemma commonTerms_eq: "k < commonTerms xs es \<Longrightarrow> eTerm (xs ! k) = eTerm (es ! k)"
  by (induction xs es arbitrary: k rule: commonTerms.induct)
    (auto simp: nth_Cons split: if_splits nat.splits)

lemma commonTerms_stop:
  "commonTerms xs es < length es \<Longrightarrow> commonTerms xs es < length xs \<Longrightarrow>
     eTerm (xs ! commonTerms xs es) \<noteq> eTerm (es ! commonTerms xs es)"
  by (induction xs es rule: commonTerms.induct) auto

lemma commonTerms_max:
  "m \<le> length xs \<Longrightarrow> m \<le> length es \<Longrightarrow> (\<And>k. k < m \<Longrightarrow> eTerm (xs ! k) = eTerm (es ! k)) \<Longrightarrow>
     m \<le> commonTerms xs es"
  using commonTerms_stop[of xs es] by (metis leI less_le_trans)

lemma mergeEntries_spec:
  "r \<le> length lg \<Longrightarrow> mergeEntries lg (int r) es = Inr (mergeSpec lg r es)"
proof (induction es arbitrary: r)
  case Nil
  then show ?case by (simp add: mergeSpec_def)
next
  case (Cons e es)
  show ?case
  proof (cases "r < length lg")
    case True
    then have d: "drop r lg = lg ! r # drop (Suc r) lg" by (simp add: Cons_nth_drop_Suc)
    have "mergeEntries lg (int r + 1) es = Inr (mergeSpec lg (Suc r) es)"
      using Cons.IH[of "Suc r"] True by (simp add: add.commute)
    with True show ?thesis by (simp add: go_simps mergeSpec_def d Let_def)
  next
    case False
    with Cons.prems have "r = length lg" by simp
    then show ?thesis by (simp add: mergeSpec_def)
  qed
qed

lemma mergeSpec_prefix: "r \<le> length lg \<Longrightarrow> take r (mergeSpec lg r es) = take r lg"
  using commonTerms_le(1)[of "drop r lg" es] by (auto simp: mergeSpec_def Let_def min_def)

lemma mergeSpec_length:
  "r \<le> length lg \<Longrightarrow> length (mergeSpec lg r es) =
     (if commonTerms (drop r lg) es = length es then length lg else r + length es)"
  using commonTerms_le[of "drop r lg" es] by (auto simp: mergeSpec_def Let_def)

lemma mergeSpec_ge: "r \<le> length lg \<Longrightarrow> r + length es \<le> length (mergeSpec lg r es)"
  using commonTerms_le[of "drop r lg" es] by (auto simp: mergeSpec_length)

lemma mergeSpec_terms:
  assumes "r \<le> length lg" "k < length es"
  shows "eTerm (mergeSpec lg r es ! (r + k)) = eTerm (es ! k)"
proof (cases "k < commonTerms (drop r lg) es")
  case True
  then have "mergeSpec lg r es ! (r + k) = drop r lg ! k"
    using commonTerms_le(1)[of "drop r lg" es] assms(1)
    by (auto simp: mergeSpec_def Let_def nth_append)
  with commonTerms_eq[OF True] show ?thesis by simp
next
  case False
  let ?j = "commonTerms (drop r lg) es"
  have "length (take (r + ?j) lg) = r + ?j"
    using commonTerms_le(1)[of "drop r lg" es] assms(1) by simp
  with False assms(2) commonTerms_le(2)[of "drop r lg" es] show ?thesis
    by (simp add: mergeSpec_def Let_def nth_append)
qed

lemma mergeSpec_nonempty: "0 < r \<Longrightarrow> r \<le> length lg \<Longrightarrow> mergeSpec lg r es \<noteq> []"
  using mergeSpec_ge[of r lg es] by force

lemma mergeSpec_keep:
  assumes "r \<le> length lg" "r \<le> c" "c < length lg"
    and "\<And>k. k < length es \<Longrightarrow> r + k \<le> c \<Longrightarrow> eTerm (lg ! (r + k)) = eTerm (es ! k)"
  shows "c < length (mergeSpec lg r es)" and "take (Suc c) (mergeSpec lg r es) = take (Suc c) lg"
proof -
  let ?m = "min (length es) (Suc c - r)"
  have m: "?m \<le> commonTerms (drop r lg) es"
    by (rule commonTerms_max) (use assms in auto)
  show "c < length (mergeSpec lg r es)"
    using m assms commonTerms_le[of "drop r lg" es] by (auto simp: mergeSpec_length)
  show "take (Suc c) (mergeSpec lg r es) = take (Suc c) lg"
  proof (cases "commonTerms (drop r lg) es = length es")
    case True
    then show ?thesis by (simp add: mergeSpec_def)
  next
    case False
    with m commonTerms_le[of "drop r lg" es] have "Suc c \<le> r + commonTerms (drop r lg) es"
      by (auto simp: min_def split: if_splits)
    with False assms(1) commonTerms_le(1)[of "drop r lg" es] show ?thesis
      by (auto simp: mergeSpec_def Let_def min_def)
  qed
qed

lemma mergeSpec_again:
  assumes "r \<le> length lg"
  shows "mergeSpec (mergeSpec lg r es) r es = mergeSpec lg r es"
proof -
  have "length es \<le> commonTerms (drop r (mergeSpec lg r es)) es"
    using mergeSpec_ge[OF assms, of es] mergeSpec_terms[OF assms] by (intro commonTerms_max) auto
  then have "commonTerms (drop r (mergeSpec lg r es)) es = length es"
    using commonTerms_le(2) by (rule le_antisym[rotated])
  then show ?thesis by (simp add: mergeSpec_def[of "mergeSpec lg r es"])
qed

subsection \<open>AppendEntries\<close>

text \<open>
  A request is safe for a peer when it does not contradict entries the peer knows to be
  committed and does not come from a second leader of the peer's own term.
\<close>

definition append_safe :: "'c AppendEntriesArgs \<Rightarrow> ('c, 'd) Raft \<Rightarrow> bool" where
  "append_safe args rf \<longleftrightarrow>
     \<not> (state rf = Leader \<and> aeTerm args = currentTerm rf) \<and>
     (\<forall>k < length (aeEntries args).
        lastIncludedIndex rf \<le> aePrevLogIndex args \<longrightarrow>
        aePrevLogIndex args + 1 + int k \<le> commitIndex rf \<longrightarrow>
        eTerm (log rf ! nat (aePrevLogIndex args + 1 + int k - lastIncludedIndex rf))
          = eTerm (aeEntries args ! k))"

lemma append_safe_code [code]:
  "append_safe args rf \<longleftrightarrow>
     \<not> (state rf = Leader \<and> aeTerm args = currentTerm rf) \<and>
     list_all (\<lambda>k. if lastIncludedIndex rf \<le> aePrevLogIndex args \<and> aePrevLogIndex args + 1 + int k \<le> commitIndex rf
        then eTerm (log rf ! nat (aePrevLogIndex args + 1 + int k - lastIncludedIndex rf)) = eTerm (aeEntries args ! k)
        else True) [0..<length (aeEntries args)]"
  by (auto simp: append_safe_def list_all_iff)

text \<open>The consistency check of the handler.\<close>

definition append_accepts :: "'c AppendEntriesArgs \<Rightarrow> ('c, 'd) Raft \<Rightarrow> bool" where
  "append_accepts args rf \<longleftrightarrow>
     currentTerm rf \<le> aeTerm args \<and>
     lastIncludedIndex rf \<le> aePrevLogIndex args \<and> aePrevLogIndex args \<le> lastLogIndex rf \<and>
     eTerm (log rf ! nat (aePrevLogIndex args - lastIncludedIndex rf)) = aePrevLogTerm args"

text \<open>Slice position at which the entries of an accepted request go.\<close>

definition append_pos :: "'c AppendEntriesArgs \<Rightarrow> ('c, 'd) Raft \<Rightarrow> nat" where
  "append_pos args rf = nat (aePrevLogIndex args - lastIncludedIndex rf) + 1"

lemma append_pos_le: "append_accepts args rf \<Longrightarrow> append_pos args rf \<le> length (log rf)"
  by (auto simp: append_accepts_def append_pos_def)

lemma append_pos_pos [simp]: "0 < append_pos args rf"
  by (simp add: append_pos_def)

text \<open>The handler, by cases: a refused request, and an accepted one.\<close>

definition append_term :: "'c AppendEntriesArgs \<Rightarrow> ('c, 'd) Raft \<Rightarrow> ('c, 'd) Raft" where
  "append_term args rf =
     (if aeTerm args > currentTerm rf
      then rf\<lparr>currentTerm := aeTerm args, votedFor := -1, state := Follower\<rparr> else rf)"

definition append_commit :: "'c AppendEntriesArgs \<Rightarrow> ('c, 'd) Raft \<Rightarrow> ('c, 'd) Raft" where
  "append_commit args rf =
     (if aeLeaderCommit args > commitIndex rf
      then signalCommit (rf\<lparr>commitIndex := min (aeLeaderCommit args) (lastLogIndex rf)\<rparr>) else rf)"

lemma append_term_sel [simp]:
  "log (append_term args rf) = log rf"
  "lastIncludedIndex (append_term args rf) = lastIncludedIndex rf"
  "lastIncludedTerm (append_term args rf) = lastIncludedTerm rf"
  "commitIndex (append_term args rf) = commitIndex rf"
  "lastApplied (append_term args rf) = lastApplied rf"
  "snapShot (append_term args rf) = snapShot rf"
  "me (append_term args rf) = me rf" "npeers (append_term args rf) = npeers rf"
  "nextIndex (append_term args rf) = nextIndex rf" "matchIndex (append_term args rf) = matchIndex rf"
  "voteCount (append_term args rf) = voteCount rf"
  by (simp_all add: append_term_def)

lemma append_term_role:
  "currentTerm (append_term args rf) = max (currentTerm rf) (aeTerm args)"
  "votedFor (append_term args rf) = (if aeTerm args > currentTerm rf then -1 else votedFor rf)"
  "state (append_term args rf) = (if aeTerm args > currentTerm rf then Follower else state rf)"
  by (simp_all add: append_term_def)

lemma AppendEntries_eq:
  "AppendEntries rnd args rf =
     (if aeTerm args < currentTerm rf
      then Inr (timer_reset rnd rf, \<lparr>aerTerm = currentTerm rf, aerSuccess = False\<rparr>)
      else AppendEntries_log args (currentTerm rf) (persist (append_term args (timer_reset rnd rf))))"
proof -
  have "persist (if aeTerm args > currentTerm rf
          then persist ((timer_reset rnd rf)\<lparr>currentTerm := aeTerm args, votedFor := -1, state := Follower\<rparr>)
          else timer_reset rnd rf) = persist (append_term args (timer_reset rnd rf))"
    by (simp add: append_term_def)
  then show ?thesis
    by (simp add: AppendEntries_def Let_def)
qed

lemma AppendEntries_log_refused:
  assumes "\<not> (lastIncludedIndex rf \<le> aePrevLogIndex args \<and> aePrevLogIndex args \<le> lastLogIndex rf \<and>
     eTerm (log rf ! nat (aePrevLogIndex args - lastIncludedIndex rf)) = aePrevLogTerm args)"
  shows "AppendEntries_log args t rf = Inr (rf, \<lparr>aerTerm = t, aerSuccess = False\<rparr>)"
  using assms
  by (auto simp: AppendEntries_log_def go_nth_def VirtualLogIdx_def RealLogIdx_def Let_def)

lemma AppendEntries_log_accepted:
  assumes p: "aePrevLogIndex args = int p + lastIncludedIndex rf" "p < length (log rf)"
    "eTerm (log rf ! p) = aePrevLogTerm args"
  shows "AppendEntries_log args t rf =
    Inr (append_commit args (if aeEntries args = [] then rf
           else persist (rf\<lparr>log := mergeSpec (log rf) (Suc p) (aeEntries args)\<rparr>)),
         \<lparr>aerTerm = t, aerSuccess = True\<rparr>)"
proof -
  have m: "mergeEntries (log rf) (1 + int p) (aeEntries args) =
        Inr (mergeSpec (log rf) (Suc p) (aeEntries args))"
    using mergeEntries_spec[of "Suc p" "log rf"] p(2) by simp
  show ?thesis
    using p
    by (simp add: AppendEntries_log_def append_commit_def VirtualLogIdx_def RealLogIdx_def go_simps m
        add.commute add_diff_eq)
qed

lemma AppendEntries_refused:
  assumes "currentTerm rf \<le> aeTerm args" "\<not> append_accepts args rf"
  shows "AppendEntries rnd args rf = Inr (persist (append_term args (timer_reset rnd rf)),
           \<lparr>aerTerm = currentTerm rf, aerSuccess = False\<rparr>)"
  using assms by (simp add: AppendEntries_eq append_accepts_def AppendEntries_log_refused)

lemma AppendEntries_accepted:
  assumes "append_accepts args rf"
  shows "AppendEntries rnd args rf =
     Inr (append_commit args (persist ((append_term args (timer_reset rnd rf))
            \<lparr>log := mergeSpec (log rf) (append_pos args rf) (aeEntries args)\<rparr>)),
          \<lparr>aerTerm = currentTerm rf, aerSuccess = True\<rparr>)"
proof -
  let ?X = "append_term args (timer_reset rnd rf)"
  from assms obtain p where p: "aePrevLogIndex args = int p + lastIncludedIndex rf" "p < length (log rf)"
    and t: "eTerm (log rf ! p) = aePrevLogTerm args" "\<not> aeTerm args < currentTerm rf"
    by (auto simp: append_accepts_def intro: that[of "nat (aePrevLogIndex args - lastIncludedIndex rf)"])
  have ap: "append_pos args rf = Suc p" by (simp add: append_pos_def p)
  have e: "?X\<lparr>log := mergeSpec (log rf) (Suc p) []\<rparr> = ?X"
    by (simp add: mergeSpec_def append_term_def timer_reset_def)
  have pp: "persist ((persist ?X)\<lparr>log := l\<rparr>) = persist (?X\<lparr>log := l\<rparr>)" for l
    by (simp add: persist_def Save_def encodeState_def)
  show ?thesis
    using p t
    by (cases "aeEntries args = []")
      (simp_all add: AppendEntries_eq AppendEntries_log_accepted[of _ p] ap e pp)
qed

lemma AppendEntries_cases:
  obtains (stale) "aeTerm args < currentTerm rf"
    "AppendEntries rnd args rf = Inr (timer_reset rnd rf, \<lparr>aerTerm = currentTerm rf, aerSuccess = False\<rparr>)"
  | (refused) "currentTerm rf \<le> aeTerm args" "\<not> append_accepts args rf"
    "AppendEntries rnd args rf = Inr (persist (append_term args (timer_reset rnd rf)),
           \<lparr>aerTerm = currentTerm rf, aerSuccess = False\<rparr>)"
  | (accepted) "append_accepts args rf" "currentTerm rf \<le> aeTerm args"
    "AppendEntries rnd args rf =
     Inr (append_commit args (persist ((append_term args (timer_reset rnd rf))
            \<lparr>log := mergeSpec (log rf) (append_pos args rf) (aeEntries args)\<rparr>)),
          \<lparr>aerTerm = currentTerm rf, aerSuccess = True\<rparr>)"
proof (cases "append_accepts args rf")
  case True
  then show ?thesis using AppendEntries_accepted[OF True] accepted append_accepts_def by blast
next
  case False
  then show ?thesis
    using AppendEntries_refused[OF _ False] refused stale AppendEntries_eq[of rnd args rf]
    by (cases "aeTerm args < currentTerm rf") auto
qed

lemma AppendEntries_total: "\<exists>rf' r. AppendEntries rnd args rf = Inr (rf', r)"
  by (cases rule: AppendEntries_cases[of args rf rnd]) auto

lemma append_commit_sel [simp]:
  "log (append_commit args rf) = log rf"
  "currentTerm (append_commit args rf) = currentTerm rf"
  "votedFor (append_commit args rf) = votedFor rf"
  "state (append_commit args rf) = state rf"
  "lastIncludedIndex (append_commit args rf) = lastIncludedIndex rf"
  "lastIncludedTerm (append_commit args rf) = lastIncludedTerm rf"
  "lastApplied (append_commit args rf) = lastApplied rf"
  "snapShot (append_commit args rf) = snapShot rf"
  "persister (append_commit args rf) = persister rf"
  "me (append_commit args rf) = me rf" "npeers (append_commit args rf) = npeers rf"
  "nextIndex (append_commit args rf) = nextIndex rf" "matchIndex (append_commit args rf) = matchIndex rf"
  "voteCount (append_commit args rf) = voteCount rf"
  "commitIndex (append_commit args rf) =
     (if aeLeaderCommit args > commitIndex rf then min (aeLeaderCommit args) (lastLogIndex rf)
      else commitIndex rf)"
  by (simp_all add: append_commit_def)

lemma AppendEntries_durable:
  assumes "durable rf" "AppendEntries rnd args rf = Inr (rf', r)"
  shows "durable rf'"
proof (cases rule: AppendEntries_cases[of args rf rnd])
  case stale
  with assms show ?thesis by (auto intro!: durable_cong[OF assms(1)])
next
  case refused
  with assms show ?thesis by auto
next
  case accepted
  let ?X = "persist ((append_term args (timer_reset rnd rf))
            \<lparr>log := mergeSpec (log rf) (append_pos args rf) (aeEntries args)\<rparr>)"
  have "durable (append_commit args ?X)"
    by (rule durable_cong[of ?X]) simp_all
  with accepted assms show ?thesis by simp
qed

lemma AppendEntries_quiet:
  assumes "AppendEntries rnd args rf = Inr (rf', r)"
  shows "quiet_step rf rf'"
  using assms
  by (cases rule: AppendEntries_cases[of args rf rnd])
    (auto simp: quiet_step_def vote_step_def append_term_role split: if_splits)

lemma append_keeps_committed:
  assumes wf: "raft_wf rf" and safe: "append_safe args rf" and acc: "append_accepts args rf"
  defines "lg \<equiv> mergeSpec (log rf) (append_pos args rf) (aeEntries args)"
    and "c \<equiv> nat (commitIndex rf - lastIncludedIndex rf)"
  shows "c < length lg" and "take (Suc c) lg = take (Suc c) (log rf)"
proof -
  let ?r = "append_pos args rf"
  have "c < length lg \<and> take (Suc c) lg = take (Suc c) (log rf)"
  proof (cases "aePrevLogIndex args < commitIndex rf")
    case True
    have r: "?r \<le> length (log rf)" "?r \<le> c" "c < length (log rf)"
      using True wf acc unfolding c_def by (auto simp: append_pos_def append_accepts_def raft_wf_def)
    have "eTerm (log rf ! (?r + k)) = eTerm (aeEntries args ! k)"
      if k: "k < length (aeEntries args)" "?r + k \<le> c" for k
    proof -
      have i: "?r + k = nat (aePrevLogIndex args + 1 + int k - lastIncludedIndex rf)"
        using acc by (auto simp: append_pos_def append_accepts_def)
      have "aePrevLogIndex args + 1 + int k \<le> commitIndex rf"
        using k(2) i acc unfolding c_def by (auto simp: append_accepts_def)
      with safe k(1) acc show ?thesis
        unfolding i by (auto simp: append_safe_def append_accepts_def)
    qed
    from mergeSpec_keep[OF r this] show ?thesis unfolding lg_def by simp
  next
    case False
    then have "Suc c \<le> ?r" using wf unfolding c_def by (auto simp: append_pos_def raft_wf_def)
    moreover have "take (Suc c) (take ?r lg) = take (Suc c) (take ?r (log rf))"
      unfolding lg_def by (simp only: mergeSpec_prefix[OF append_pos_le[OF acc]])
    moreover have "?r \<le> length lg"
      unfolding lg_def using mergeSpec_ge[OF append_pos_le[OF acc], of "aeEntries args"] by simp
    ultimately show ?thesis by (simp add: min_def)
  qed
  then show "c < length lg" "take (Suc c) lg = take (Suc c) (log rf)" by blast+
qed

lemma AppendEntries_wf:
  assumes wf: "raft_wf rf" "leader_ok rf" and safe: "append_safe args rf"
    and step: "AppendEntries rnd args rf = Inr (rf', r)"
  shows "raft_wf rf' \<and> leader_ok rf'"
proof (cases rule: AppendEntries_cases[of args rf rnd])
  case stale
  with assms show ?thesis by (auto simp: raft_wf_def leader_ok_def)
next
  case refused
  with assms show ?thesis by (auto simp: raft_wf_def leader_ok_def append_term_role split: if_splits)
next
  case accepted
  let ?lg = "mergeSpec (log rf) (append_pos args rf) (aeEntries args)"
  have ne: "?lg \<noteq> []" by (rule mergeSpec_nonempty[OF append_pos_pos append_pos_le[OF accepted(1)]])
  have commit: "commitIndex rf \<le> lastIncludedIndex rf + int (length ?lg) - 1"
    using append_keeps_committed(1)[OF wf(1) safe accepted(1)] by linarith
  have "state rf' \<noteq> Leader"
    using accepted step safe by (auto simp: append_term_role append_safe_def split: if_splits)
  moreover have "raft_wf rf'"
    using accepted(3) step wf(1) commit ne by (auto simp: raft_wf_def)
  ultimately show ?thesis by (simp add: leader_ok_def)
qed

subsection \<open>Start and the leader's messages\<close>

lemma Start_total: "raft_wf rf \<Longrightarrow> \<exists>rf' i t b. Start now c rf = Inr (rf', i, t, b)"
  by (auto simp: Start_def Let_def raft_wf_def go_simps)

lemma Start_follower: "state rf \<noteq> Leader \<Longrightarrow> Start now c rf = Inr (rf, -1, -1, False)"
  by (simp add: Start_def)

lemma Start_leader:
  assumes "state rf = Leader" "Start now c rf = Inr (rf', i, t, b)"
  shows "log rf' = log rf @ [\<lparr>eTerm = currentTerm rf, eCommand = c\<rparr>]"
    "i = lastLogIndex rf + 1" "t = currentTerm rf" "b"
    "currentTerm rf' = currentTerm rf" "votedFor rf' = votedFor rf" "state rf' = Leader"
    "me rf' = me rf" "npeers rf' = npeers rf" "voteCount rf' = voteCount rf"
    "commitIndex rf' = commitIndex rf" "lastApplied rf' = lastApplied rf"
    "lastIncludedIndex rf' = lastIncludedIndex rf" "matchIndex rf' = matchIndex rf"
    "nextIndex rf' = (nextIndex rf)[nat (me rf) := lastIncludedIndex rf + loglen rf + 1]"
    "0 \<le> me rf" "me rf < int (length (nextIndex rf))"
    "raftstate (persister rf') = encodeState rf'" "snapshot (persister rf') = snapShot rf'"
  using assms
  by (auto simp: Start_def Let_def go_Inr VirtualLogIdx_def encodeState_def
      persist_def Save_def algebra_simps)

lemma Start_durable:
  assumes "durable rf" "Start now c rf = Inr (rf', i, t, b)"
  shows "durable rf'"
proof (cases "state rf = Leader")
  case True
  from Start_leader[OF True assms(2)] show ?thesis by (simp add: durable_def persisted_def)
next
  case False
  with assms show ?thesis by (simp add: Start_follower)
qed

lemma Start_quiet:
  assumes "Start now c rf = Inr (rf', i, t, b)"
  shows "quiet_step rf rf'"
proof (cases "state rf = Leader")
  case True
  with Start_leader[OF True assms] show ?thesis by (simp add: quiet_step_def vote_step_def)
next
  case False
  with assms show ?thesis by (simp add: Start_follower)
qed

lemma Start_wf:
  assumes "raft_wf rf" "leader_ok rf" "Start now c rf = Inr (rf', i, t, b)"
  shows "raft_wf rf' \<and> leader_ok rf'"
proof (cases "state rf = Leader")
  case True
  note f = Start_leader[OF True assms(3)]
  have "ni \<le> lastLogIndex rf' + 1" if "ni \<in> set (nextIndex rf')" for ni
    using that assms(2) True f set_update_subset_insert[of "nextIndex rf" "nat (me rf)"]
    by (auto simp: leader_ok_def) fastforce
  with assms f show ?thesis by (auto simp: raft_wf_def leader_ok_def)
next
  case False
  with assms show ?thesis by (simp add: Start_follower)
qed

text \<open>The request a leader builds for a peer.\<close>

lemma leaderArgs_total:
  assumes "raft_wf rf" "leader_ok rf" "state rf = Leader" "0 \<le> i" "i < int (npeers rf)"
  shows "\<exists>m. leaderArgs i rf = Inr m"
proof -
  have ni: "go_nth (nextIndex rf) i = Inr (nextIndex rf ! nat i)"
    using assms by (simp add: go_simps raft_wf_def)
  have "nextIndex rf ! nat i \<in> set (nextIndex rf)" using assms by (simp add: raft_wf_def)
  with assms have le: "nextIndex rf ! nat i \<le> lastLogIndex rf + 1" by (simp add: leader_ok_def)
  then show ?thesis
    using assms(1) ni
    by (auto simp: leaderArgs_def Let_def VirtualLogIdx_def RealLogIdx_def go_nth_def go_from_def
        raft_wf_def max_def)
qed

lemma leaderArgs_append:
  assumes "leaderArgs i rf = Inr (SendAppendEntries j args)" "log rf \<noteq> []"
  shows "j = i" "aeTerm args = currentTerm rf" "aeLeaderId args = me rf"
    "aeLeaderCommit args = commitIndex rf"
    "lastIncludedIndex rf \<le> aePrevLogIndex args" "0 \<le> aePrevLogIndex args"
    "aePrevLogIndex args \<le> lastLogIndex rf"
    "aePrevLogTerm args = eTerm (log rf ! nat (aePrevLogIndex args - lastIncludedIndex rf))"
    "aeEntries args = drop (nat (aePrevLogIndex args - lastIncludedIndex rf) + 1) (log rf)"
proof -
  have *: "j = i \<and> aeTerm args = currentTerm rf \<and> aeLeaderId args = me rf \<and>
      aeLeaderCommit args = commitIndex rf \<and>
      lastIncludedIndex rf \<le> aePrevLogIndex args \<and> 0 \<le> aePrevLogIndex args \<and>
      aePrevLogIndex args \<le> lastLogIndex rf \<and>
      aePrevLogTerm args = eTerm (log rf ! nat (aePrevLogIndex args - lastIncludedIndex rf)) \<and>
      aeEntries args = drop (nat (aePrevLogIndex args - lastIncludedIndex rf) + 1) (log rf)"
    using assms
    by (auto simp: leaderArgs_def Let_def VirtualLogIdx_def RealLogIdx_def go_Inr max_def nat_add_distrib
        algebra_simps Suc_nat_eq_nat_zadd1 split: if_splits intro!: arg_cong2[where f = drop])
  then show "j = i" "aeTerm args = currentTerm rf" "aeLeaderId args = me rf"
    "aeLeaderCommit args = commitIndex rf"
    "lastIncludedIndex rf \<le> aePrevLogIndex args" "0 \<le> aePrevLogIndex args"
    "aePrevLogIndex args \<le> lastLogIndex rf"
    "aePrevLogTerm args = eTerm (log rf ! nat (aePrevLogIndex args - lastIncludedIndex rf))"
    "aeEntries args = drop (nat (aePrevLogIndex args - lastIncludedIndex rf) + 1) (log rf)"
    by blast+
qed

lemma leaderArgs_shape:
  "leaderArgs i rf = Inr m \<Longrightarrow> m = SendInstallSnapshot i \<or> (\<exists>args. m = SendAppendEntries i args)"
  by (auto simp: leaderArgs_def Let_def go_Inr split: if_splits)

lemma leaderArgs_heartbeat [simp]: "leaderArgs i (resetHeartBeat rf) = leaderArgs i rf"
  unfolding leaderArgs_def VirtualLogIdx_def RealLogIdx_def resetHeartBeat_sel by (rule refl)

lemma otherPeers_heartbeat [simp]: "otherPeers (resetHeartBeat rf) = otherPeers rf"
  by (simp add: otherPeers_def)

lemma doLeader_total:
  assumes "raft_wf rf" "leader_ok rf" "state rf = Leader"
  shows "\<exists>rf' ms. doLeader rf = Inr (rf', ms)"
proof -
  have "\<exists>ms. mapR (\<lambda>i. leaderArgs i rf) (otherPeers rf) = Inr ms"
    by (rule mapR_total) (use assms leaderArgs_total in \<open>auto simp: set_otherPeers\<close>)
  then show ?thesis by (auto simp: doLeader_def)
qed

lemma doLeader_result:
  assumes "doLeader rf = Inr (rf', ms)"
  shows "rf' = resetHeartBeat rf"
    and "m \<in> set ms \<Longrightarrow> \<exists>i \<in> set (otherPeers rf). leaderArgs i rf = Inr m"
  using assms by (auto simp: doLeader_def bindR_eq_Inr dest: mapR_mem)

subsection \<open>Back-off\<close>

lemma backoff_result:
  assumes "0 \<le> lastIncludedIndex rf" "ni \<le> lastLogIndex rf + 1" "i < ni"
  shows "\<exists>ni'. backoff rf ni i = Inr ni' \<and>
     (if i < lastIncludedIndex rf then ni' = (if i < 0 then ni else lastIncludedIndex rf)
      else lastIncludedIndex rf \<le> ni' \<and> ni' \<le> i + 1 \<and> ni' < ni)"
  using assms
proof (induction rf ni i rule: backoff.induct)
  case (1 rf ni i)
  show ?case
  proof (cases "i < lastIncludedIndex rf")
    case True
    with "1.prems" show ?thesis by (simp add: backoff.simps[of rf ni i])
  next
    case False
    let ?t = "\<lambda>j. eTerm (log rf ! nat (j - lastIncludedIndex rf))"
    have n: "go_nth (log rf) (RealLogIdx rf i) = Inr (log rf ! nat (i - lastIncludedIndex rf))"
      "go_nth (log rf) (RealLogIdx rf (ni - 1)) = Inr (log rf ! nat (ni - 1 - lastIncludedIndex rf))"
      using False "1.prems" by (auto simp: go_nth_def RealLogIdx_def)
    have i0: "\<not> i < 0" using False "1.prems" by simp
    show ?thesis
    proof (cases "?t i < ?t (ni - 1)")
      case True
      then have "i \<noteq> ni - 1" by auto
      with True False i0 "1.prems" n show ?thesis by (simp add: backoff.simps[of rf ni i])
    next
      case nlt: False
      show ?thesis
      proof (cases "i = lastIncludedIndex rf")
        case True
        with nlt i0 "1.prems" n show ?thesis
          by (simp add: backoff.simps[of rf ni "lastIncludedIndex rf"])
      next
        case ne: False
        have "\<exists>ni'. backoff rf ni (i - 1) = Inr ni' \<and>
           (if i - 1 < lastIncludedIndex rf then ni' = (if i - 1 < 0 then ni else lastIncludedIndex rf)
            else lastIncludedIndex rf \<le> ni' \<and> ni' \<le> i - 1 + 1 \<and> ni' < ni)"
          using "1.IH"[OF i0 False n(1) n(2)] nlt ne "1.prems" by simp
        with ne False nlt i0 n show ?thesis by (auto simp: backoff.simps[of rf ni i])
      qed
    qed
  qed
qed

subsection \<open>Advancing the commit index\<close>

text \<open>
  The peers that hold entry \<open>N\<close> as far as the leader knows, itself included, provided the
  entry is of the current term.
\<close>

definition holders :: "('c, 'd) Raft \<Rightarrow> int \<Rightarrow> int set" where
  "holders rf N = insert (me rf)
     {i \<in> set (otherPeers rf). matchIndex rf ! nat i \<ge> N \<and>
        eTerm (log rf ! nat (N - lastIncludedIndex rf)) = currentTerm rf}"

definition replicated :: "('c, 'd) Raft \<Rightarrow> int \<Rightarrow> bool" where
  "replicated rf N \<longleftrightarrow> int (card (holders rf N)) > majority rf"

lemma countMatch_eq:
  assumes "\<And>i. i \<in> set is \<Longrightarrow> 0 \<le> i \<and> i < int (length (matchIndex rf))"
    and "lastIncludedIndex rf \<le> N" "N \<le> lastLogIndex rf" "distinct is"
  shows "countMatch rf N is = Inr (1 + int (card {i \<in> set is. matchIndex rf ! nat i \<ge> N \<and>
     eTerm (log rf ! nat (N - lastIncludedIndex rf)) = currentTerm rf}))"
  using assms
proof (induction "is")
  case Nil
  then show ?case by simp
next
  case (Cons i "is")
  let ?P = "\<lambda>i. matchIndex rf ! nat i \<ge> N \<and>
     eTerm (log rf ! nat (N - lastIncludedIndex rf)) = currentTerm rf"
  have IH: "countMatch rf N is = Inr (1 + int (card {j \<in> set is. ?P j}))"
    using Cons by simp
  have e: "go_nth (log rf) (RealLogIdx rf N) = Inr (log rf ! nat (N - lastIncludedIndex rf))"
    using Cons.prems by (simp add: go_nth_def RealLogIdx_def)
  have c: "card {j \<in> set (i # is). ?P j} = (if ?P i then 1 else 0) + card {j \<in> set is. ?P j}"
  proof -
    have "{j \<in> set (i # is). ?P j} = (if ?P i then insert i {j \<in> set is. ?P j} else {j \<in> set is. ?P j})"
      by auto
    then show ?thesis using Cons.prems by simp
  qed
  from Cons.prems have "go_nth (matchIndex rf) i = Inr (matchIndex rf ! nat i)" by (simp add: go_simps)
  with IH e show ?case unfolding c by simp
qed

lemma countMatch_holders:
  assumes "raft_wf rf" "lastIncludedIndex rf \<le> N" "N \<le> lastLogIndex rf"
  shows "countMatch rf N (otherPeers rf) = Inr (int (card (holders rf N)))"
proof -
  have "countMatch rf N (otherPeers rf) = Inr (1 + int (card {i \<in> set (otherPeers rf).
      matchIndex rf ! nat i \<ge> N \<and> eTerm (log rf ! nat (N - lastIncludedIndex rf)) = currentTerm rf}))"
    using assms by (intro countMatch_eq) (auto simp: set_otherPeers raft_wf_def distinct_otherPeers)
  moreover have "me rf \<notin> set (otherPeers rf)" by (simp add: set_otherPeers)
  ultimately show ?thesis by (simp add: holders_def)
qed

text \<open>
  The loop stops at the largest replicated index above the old commit index, if there is
  one, and signals the commit checker; otherwise it changes nothing.
\<close>

lemma advanceCommit_result:
  assumes "raft_wf rf" "N \<le> lastLogIndex rf"
  shows "\<exists>rf'. advanceCommit rf N = Inr rf' \<and>
    (rf' = rf \<and> (\<forall>M. commitIndex rf < M \<and> M \<le> N \<longrightarrow> \<not> replicated rf M) \<or>
     (\<exists>M. commitIndex rf < M \<and> M \<le> N \<and> replicated rf M \<and>
          (\<forall>K. M < K \<and> K \<le> N \<longrightarrow> \<not> replicated rf K) \<and>
          rf' = signalCommit (rf\<lparr>commitIndex := M\<rparr>)))"
  using assms
proof (induction rf N rule: advanceCommit.induct)
  case (1 rf N)
  show ?case
  proof (cases "N > commitIndex rf")
    case False
    then show ?thesis by (auto simp: advanceCommit.simps[of rf N])
  next
    case True
    have c: "countMatch rf N (otherPeers rf) = Inr (int (card (holders rf N)))"
      using "1.prems" True by (intro countMatch_holders) (auto simp: raft_wf_def)
    show ?thesis
    proof (cases "replicated rf N")
      case rep: True
      then have "advanceCommit rf N = Inr (signalCommit (rf\<lparr>commitIndex := N\<rparr>))"
        using True c by (simp add: advanceCommit.simps[of rf N] replicated_def)
      with True rep show ?thesis by auto
    next
      case nrep: False
      then have eq: "advanceCommit rf N = advanceCommit rf (N - 1)"
        using True c by (simp add: advanceCommit.simps[of rf N] replicated_def)
      have ext: "(\<forall>M. l < M \<and> M \<le> N - 1 \<longrightarrow> \<not> replicated rf M) \<Longrightarrow>
                 (\<forall>M. l < M \<and> M \<le> N \<longrightarrow> \<not> replicated rf M)" for l
        using nrep by (metis le_less zle_diff1_eq)
      have "\<exists>rf'. advanceCommit rf (N - 1) = Inr rf' \<and>
        (rf' = rf \<and> (\<forall>M. commitIndex rf < M \<and> M \<le> N - 1 \<longrightarrow> \<not> replicated rf M) \<or>
         (\<exists>M. commitIndex rf < M \<and> M \<le> N - 1 \<and> replicated rf M \<and>
          (\<forall>K. M < K \<and> K \<le> N - 1 \<longrightarrow> \<not> replicated rf K) \<and>
          rf' = signalCommit (rf\<lparr>commitIndex := M\<rparr>)))"
        using "1.IH"[OF True c] nrep "1.prems" by (simp add: replicated_def)
      then obtain rf' where r: "advanceCommit rf (N - 1) = Inr rf'"
        and d: "rf' = rf \<and> (\<forall>M. commitIndex rf < M \<and> M \<le> N - 1 \<longrightarrow> \<not> replicated rf M) \<or>
         (\<exists>M. commitIndex rf < M \<and> M \<le> N - 1 \<and> replicated rf M \<and>
          (\<forall>K. M < K \<and> K \<le> N - 1 \<longrightarrow> \<not> replicated rf K) \<and>
          rf' = signalCommit (rf\<lparr>commitIndex := M\<rparr>))"
        by blast
      from d show ?thesis
      proof (elim disjE exE conjE)
        assume "rf' = rf" "\<forall>M. commitIndex rf < M \<and> M \<le> N - 1 \<longrightarrow> \<not> replicated rf M"
        with ext r eq show ?thesis by auto
      next
        fix M assume M: "commitIndex rf < M" "M \<le> N - 1" "replicated rf M"
          "\<forall>K. M < K \<and> K \<le> N - 1 \<longrightarrow> \<not> replicated rf K"
          "rf' = signalCommit (rf\<lparr>commitIndex := M\<rparr>)"
        with ext[of M] r eq show ?thesis by (intro exI[of _ rf'] conjI disjI2 exI[of _ M]) auto
      qed
    qed
  qed
qed

lemma advanceCommit_frame:
  assumes "raft_wf rf" "advanceCommit rf N = Inr rf'" "N \<le> lastLogIndex rf"
  shows "\<exists>M. rf' = signalCommit (rf\<lparr>commitIndex := M\<rparr>) \<and> commitIndex rf \<le> M \<and> M \<le> max N (commitIndex rf)
    \<or> rf' = rf"
  using advanceCommit_result[OF assms(1,3)] assms(2) by fastforce

subsection \<open>Replies to AppendEntries\<close>

text \<open>
  A reply is sound for the peer when it comes from a peer of the cluster, and, if it
  reports success in the current term, acknowledges entries that are in the log.
\<close>

definition reply_sound ::
  "int \<Rightarrow> 'c AppendEntriesArgs \<Rightarrow> AppendEntriesReply \<Rightarrow> ('c, 'd) Raft \<Rightarrow> bool" where
  "reply_sound server args reply rf \<longleftrightarrow>
     0 \<le> server \<and> server < int (npeers rf) \<and>
     (aerSuccess reply \<and> currentTerm rf \<le> aeTerm args \<longrightarrow>
        aePrevLogIndex args + int (length (aeEntries args)) \<le> lastLogIndex rf)"

definition leader_sees_success ::
  "int \<Rightarrow> 'c AppendEntriesArgs \<Rightarrow> ('c, 'd) Raft \<Rightarrow> ('c, 'd) Raft" where
  "leader_sees_success server args rf =
     (let m = aePrevLogIndex args + int (length (aeEntries args))
      in rf\<lparr>matchIndex := (matchIndex rf)[nat server := m],
            nextIndex := (nextIndex rf)[nat server := m + 1]\<rparr>)"

lemma leader_sees_success_wf:
  "raft_wf rf \<Longrightarrow> raft_wf (leader_sees_success server args rf)"
  by (simp add: leader_sees_success_def raft_wf_def Let_def)

lemma sendAppendEntries_success:
  assumes "raft_wf rf" "aerSuccess reply" "currentTerm rf \<le> aeTerm args"
    "0 \<le> server" "server < int (npeers rf)"
  shows "\<exists>rf'. sendAppendEntries rnd server args reply rf = Inr (rf', True) \<and>
     advanceCommit (leader_sees_success server args rf) (lastLogIndex rf) = Inr rf'"
proof -
  let ?S = "leader_sees_success server args rf"
  have ll: "lastLogIndex ?S = lastLogIndex rf"
    by (simp add: leader_sees_success_def Let_def)
  obtain rf' where r: "advanceCommit ?S (lastLogIndex rf) = Inr rf'"
    using advanceCommit_result[OF leader_sees_success_wf[OF assms(1), of server args], of "lastLogIndex rf"] ll
    by auto
  have "advanceCommit ?S (loglen rf - 1 + lastIncludedIndex rf) = Inr rf'"
    using r by (simp add: algebra_simps)
  with r assms show ?thesis
    unfolding leader_sees_success_def
    by (simp add: sendAppendEntries_def Let_def go_simps raft_wf_def VirtualLogIdx_def)
qed

lemma sendAppendEntries_cases:
  assumes wf: "raft_wf rf" "leader_ok rf" and s: "reply_sound server args reply rf"
  obtains (ignored) "sendAppendEntries rnd server args reply rf = Inr (rf, False)"
  | (deposed) "sendAppendEntries rnd server args reply rf = Inr (persist (timer_reset rnd
       (rf\<lparr>state := Follower, currentTerm := aerTerm reply, votedFor := -1, voteCount := 0\<rparr>)), False)"
      "aerTerm reply > currentTerm rf"
  | (backed_off) ni where "state rf = Leader" "ni \<le> lastLogIndex rf + 1"
      "backoff rf (nextIndex rf ! nat server) (nextIndex rf ! nat server - 1) = Inr ni"
      "sendAppendEntries rnd server args reply rf =
         Inr (rf\<lparr>nextIndex := (nextIndex rf)[nat server := ni]\<rparr>, False)"
  | (acknowledged) rf' where "sendAppendEntries rnd server args reply rf = Inr (rf', True)"
      "aerSuccess reply" "currentTerm rf \<le> aeTerm args"
      "advanceCommit (leader_sees_success server args rf) (lastLogIndex rf) = Inr rf'"
proof (cases "aerSuccess reply")
  case True
  show ?thesis
  proof (cases "aeTerm args < currentTerm rf")
    case stale: True
    with True show ?thesis by (intro ignored) (simp add: sendAppendEntries_def)
  next
    case False
    with sendAppendEntries_success[OF wf(1) True, of args server rnd] s acknowledged True
    show ?thesis by (auto simp: reply_sound_def)
  qed
next
  case False
  show ?thesis
  proof (cases "aerTerm reply = currentTerm rf \<and> state rf = Leader \<and> aerTerm reply \<noteq> 0 \<and>
      \<not> aeTerm args < currentTerm rf")
    case True
    let ?ni = "nextIndex rf ! nat server"
    have sv: "0 \<le> server" "server < int (npeers rf)" using s by (auto simp: reply_sound_def)
    have "?ni \<in> set (nextIndex rf)" using sv wf by (simp add: raft_wf_def)
    then have le: "?ni \<le> lastLogIndex rf + 1" using wf True by (simp add: leader_ok_def)
    obtain ni' where b: "backoff rf ?ni (?ni - 1) = Inr ni'" "ni' \<le> lastLogIndex rf + 1"
      using backoff_result[of rf ?ni "?ni - 1"] le wf(1)
      by (fastforce simp: raft_wf_def split: if_splits)
    have "sendAppendEntries rnd server args reply rf =
         Inr (rf\<lparr>nextIndex := (nextIndex rf)[nat server := ni']\<rparr>, False)"
      using True False sv b wf(1) by (simp add: sendAppendEntries_def go_simps raft_wf_def)
    with b True backed_off show ?thesis by blast
  next
    case nl: False
    show ?thesis
    proof (cases "aerTerm reply > currentTerm rf \<and> aerTerm reply \<noteq> 0 \<and> \<not> aeTerm args < currentTerm rf")
      case True
      with False show ?thesis by (intro deposed) (simp_all add: sendAppendEntries_def)
    next
      case nd: False
      with nl False show ?thesis by (intro ignored) (auto simp: sendAppendEntries_def)
    qed
  qed
qed

lemma advanceCommit_fields:
  "advanceCommit rf N = Inr rf' \<Longrightarrow> \<exists>M cc. rf' = rf\<lparr>commitIndex := M, commitCh := cc\<rparr>"
proof (induction rf N rule: advanceCommit.induct)
  case (1 rf N)
  show ?case
  proof (cases "N > commitIndex rf")
    case True
    with "1.prems" obtain c where c: "countMatch rf N (otherPeers rf) = Inr c"
      and r: "(if c > majority rf then Inr (signalCommit (rf\<lparr>commitIndex := N\<rparr>))
               else advanceCommit rf (N - 1)) = Inr rf'"
      by (auto simp: advanceCommit.simps[of rf N] bindR_eq_Inr)
    show ?thesis
    proof (cases "c > majority rf")
      case True
      with r have "rf' = rf\<lparr>commitIndex := N, commitCh := commitCh rf'\<rparr>"
        by (auto simp: signalCommit_def split: if_splits)
      then show ?thesis by blast
    next
      case False
      with "1.IH"[OF True c] r show ?thesis by simp
    qed
  next
    case False
    with "1.prems" have "rf' = rf\<lparr>commitIndex := commitIndex rf, commitCh := commitCh rf\<rparr>"
      by (simp add: advanceCommit.simps[of rf N])
    then show ?thesis by blast
  qed
qed

lemma sendAppendEntries_shape:
  assumes "sendAppendEntries rnd server args reply rf = Inr (rf', b)"
  shows "(\<exists>ni mi M cc. rf' = rf\<lparr>nextIndex := ni, matchIndex := mi, commitIndex := M, commitCh := cc\<rparr>) \<or>
     rf' = persist (timer_reset rnd (rf\<lparr>state := Follower, currentTerm := aerTerm reply,
              votedFor := -1, voteCount := 0\<rparr>)) \<and> aerTerm reply > currentTerm rf"
proof -
  have keep: "rf = rf\<lparr>nextIndex := nextIndex rf, matchIndex := matchIndex rf,
      commitIndex := commitIndex rf, commitCh := commitCh rf\<rparr>" by simp
  consider (none) "rf' = rf"
    | (dep) "rf' = persist (timer_reset rnd (rf\<lparr>state := Follower, currentTerm := aerTerm reply,
              votedFor := -1, voteCount := 0\<rparr>))" "aerTerm reply > currentTerm rf"
    | (backed) nis where "rf' = rf\<lparr>nextIndex := nis\<rparr>"
    | (ack) mi ni N where "advanceCommit (rf\<lparr>matchIndex := mi, nextIndex := ni\<rparr>) N = Inr rf'"
    using assms by (fastforce simp: sendAppendEntries_def Let_def bindR_eq_Inr split: if_splits)
  then show ?thesis
  proof cases
    case none
    with keep show ?thesis by blast
  next
    case dep
    then show ?thesis by blast
  next
    case (backed nis)
    then have "rf' = rf\<lparr>nextIndex := nis, matchIndex := matchIndex rf,
      commitIndex := commitIndex rf, commitCh := commitCh rf\<rparr>" by simp
    then show ?thesis by blast
  next
    case (ack mi ni N)
    from advanceCommit_fields[OF ack] obtain M cc where
      "rf' = rf\<lparr>matchIndex := mi, nextIndex := ni, commitIndex := M, commitCh := cc\<rparr>" by auto
    then have "rf' = rf\<lparr>nextIndex := ni, matchIndex := mi, commitIndex := M, commitCh := cc\<rparr>" by simp
    then show ?thesis by blast
  qed
qed

lemma sendAppendEntries_quiet:
  "sendAppendEntries rnd server args reply rf = Inr (rf', b) \<Longrightarrow> quiet_step rf rf'"
  by (drule sendAppendEntries_shape) (auto simp: quiet_step_def vote_step_def)

lemma sendAppendEntries_log:
  "sendAppendEntries rnd server args reply rf = Inr (rf', b) \<Longrightarrow>
     log rf' = log rf \<and> lastIncludedIndex rf' = lastIncludedIndex rf"
  by (drule sendAppendEntries_shape) auto

lemma sendAppendEntries_durable:
  assumes "durable rf" "sendAppendEntries rnd server args reply rf = Inr (rf', b)"
  shows "durable rf'"
  using sendAppendEntries_shape[OF assms(2)]
proof
  assume "\<exists>ni mi M cc. rf' = rf\<lparr>nextIndex := ni, matchIndex := mi, commitIndex := M, commitCh := cc\<rparr>"
  then show ?thesis by (auto intro: durable_cong[OF assms(1)])
qed auto

lemma sendAppendEntries_wf:
  assumes wf: "raft_wf rf" "leader_ok rf" and s: "reply_sound server args reply rf"
  shows "\<exists>rf' b. sendAppendEntries rnd server args reply rf = Inr (rf', b) \<and> raft_wf rf' \<and> leader_ok rf'"
proof (rule sendAppendEntries_cases[OF assms, of rnd])
  assume "sendAppendEntries rnd server args reply rf = Inr (rf, False)"
  with wf show ?thesis by blast
next
  let ?r = "persist (timer_reset rnd
       (rf\<lparr>state := Follower, currentTerm := aerTerm reply, votedFor := -1, voteCount := 0\<rparr>))"
  assume "sendAppendEntries rnd server args reply rf = Inr (?r, False)"
  moreover have "raft_wf ?r \<and> leader_ok ?r" using wf by (simp add: raft_wf_def leader_ok_def)
  ultimately show ?thesis by blast
next
  fix ni
  let ?r = "rf\<lparr>nextIndex := (nextIndex rf)[nat server := ni]\<rparr>"
  assume "ni \<le> lastLogIndex rf + 1" "sendAppendEntries rnd server args reply rf = Inr (?r, False)"
  moreover from this have "raft_wf ?r \<and> leader_ok ?r"
    using wf set_update_subset_insert[of "nextIndex rf" "nat server" ni]
    by (auto simp: raft_wf_def leader_ok_def)
  ultimately show ?thesis by blast
next
  fix rf'
  let ?S = "leader_sees_success server args rf"
  let ?m = "aePrevLogIndex args + int (length (aeEntries args))"
  assume r: "sendAppendEntries rnd server args reply rf = Inr (rf', True)"
    and ok: "aerSuccess reply" "currentTerm rf \<le> aeTerm args"
    and adv: "advanceCommit ?S (lastLogIndex rf) = Inr rf'"
  have ll: "lastLogIndex ?S = lastLogIndex rf" "commitIndex ?S = commitIndex rf" "state ?S = state rf"
    "nextIndex ?S = (nextIndex rf)[nat server := ?m + 1]"
    by (simp_all add: leader_sees_success_def Let_def)
  have m: "?m \<le> lastLogIndex rf" using s ok by (simp add: reply_sound_def)
  then have lok: "leader_ok ?S"
    using wf(2) ll set_update_subset_insert[of "nextIndex rf" "nat server" "?m + 1"]
    by (auto simp: leader_ok_def)
  have wS: "raft_wf ?S" by (rule leader_sees_success_wf[OF wf(1)])
  from advanceCommit_frame[OF wS adv] ll obtain M where
    "rf' = signalCommit (?S\<lparr>commitIndex := M\<rparr>) \<and> commitIndex rf \<le> M \<and> M \<le> max (lastLogIndex rf) (commitIndex rf)
      \<or> rf' = ?S" by auto
  moreover have "commitIndex rf \<le> lastLogIndex rf" using wf by (simp add: raft_wf_def)
  ultimately have "raft_wf rf' \<and> leader_ok rf'"
    using wS lok ll by (auto simp: raft_wf_def leader_ok_def)
  with r show ?thesis by blast
qed

subsection \<open>Delivery\<close>

definition applyMsgAt :: "('c, 'd) Raft \<Rightarrow> int \<Rightarrow> ('c, 'd) ApplyMsg" where
  "applyMsgAt rf t =
     (let e = log rf ! nat (t - lastIncludedIndex rf) in
      \<lparr>amCommandValid = True, amCommand = eCommand e, amCommandIndex = t,
       amCommandTerm = eTerm e, amSnapshotValid = False, amSnapshot = [],
       amSnapshotTerm = 0, amSnapshotIndex = 0\<rparr>)"

lemma collectMsgs_eq:
  assumes "lastIncludedIndex rf \<le> t" "commitIndex rf \<le> lastLogIndex rf"
  shows "collectMsgs rf t = Inr (map (applyMsgAt rf) [t + 1..commitIndex rf])"
  using assms
proof (induction rf t rule: collectMsgs.induct)
  case (1 rf t)
  show ?case
  proof (cases "commitIndex rf > t")
    case True
    have n: "go_nth (log rf) (RealLogIdx rf (t + 1)) = Inr (log rf ! nat (t + 1 - lastIncludedIndex rf))"
      using True "1.prems" by (simp add: go_nth_def RealLogIdx_def)
    have c: "\<not> t + 1 \<le> lastIncludedIndex rf" "\<not> RealLogIdx rf (t + 1) \<ge> loglen rf"
      using True "1.prems" by (auto simp: RealLogIdx_def)
    have IH: "collectMsgs rf (t + 1) = Inr (map (applyMsgAt rf) [t + 1 + 1..commitIndex rf])"
      using "1.IH"(2)[OF True refl c n] "1.prems" by simp
    have "[t + 1..commitIndex rf] = (t + 1) # [t + 1 + 1..commitIndex rf]"
      using True by (simp add: upto_rec1)
    with True c n IH show ?thesis
      by (simp add: collectMsgs.simps[of rf t] Let_def applyMsgAt_def)
  next
    case False
    then show ?thesis by (simp add: collectMsgs.simps[of rf t])
  qed
qed

lemma CommitChecker_collect_wf:
  "raft_wf rf \<Longrightarrow> CommitChecker_collect rf =
     Inr (rf\<lparr>commitCh := CheckerBusy\<rparr>, map (applyMsgAt rf) [lastApplied rf + 1..commitIndex rf])"
  by (simp add: CommitChecker_collect_def collectMsgs_eq raft_wf_def)

lemma CommitChecker_applied_run:
  "lastApplied rf \<le> c \<Longrightarrow>
   lastApplied (fold CommitChecker_applied (map (applyMsgAt rf0) [lastApplied rf + 1..c]) rf) = c"
proof (induction "nat (c - lastApplied rf)" arbitrary: rf)
  case 0
  then show ?case by simp
next
  case (Suc n)
  then have lt: "lastApplied rf < c" by simp
  let ?rf = "CommitChecker_applied (applyMsgAt rf0 (lastApplied rf + 1)) rf"
  have la: "lastApplied ?rf = lastApplied rf + 1"
    by (simp add: CommitChecker_applied_def applyMsgAt_def Let_def)
  have "lastApplied (fold CommitChecker_applied (map (applyMsgAt rf0) [lastApplied ?rf + 1..c]) ?rf) = c"
    using Suc.hyps(2) lt la by (intro Suc.hyps(1)) auto
  moreover have "[lastApplied rf + 1..c] = (lastApplied rf + 1) # [lastApplied ?rf + 1..c]"
    using lt la by (simp add: upto_rec1)
  ultimately show ?case by simp
qed

lemma CommitChecker_applied_sel:
  "CommitChecker_applied m rf = rf\<lparr>lastApplied := lastApplied (CommitChecker_applied m rf)\<rparr>"
  "lastApplied (CommitChecker_applied m rf) = lastApplied rf \<or>
   lastApplied (CommitChecker_applied m rf) = lastApplied rf + 1 \<and> amCommandIndex m = lastApplied rf + 1"
  by (auto simp: CommitChecker_applied_def)

lemma CommitChecker_quiet:
  "quiet_step rf (CommitChecker_applied m rf)" "quiet_step rf (CommitChecker_done rf)"
  "CommitChecker_collect rf = Inr (rf', ms) \<Longrightarrow> quiet_step rf rf'"
  by (auto simp: quiet_step_def vote_step_def replication_defs bindR_eq_Inr split: if_splits)

lemma CommitChecker_durable:
  "durable rf \<Longrightarrow> durable (CommitChecker_applied m rf)" "durable rf \<Longrightarrow> durable (CommitChecker_done rf)"
  "durable rf \<Longrightarrow> CommitChecker_collect rf = Inr (rf', ms) \<Longrightarrow> durable rf'"
  by (auto intro!: durable_cong[of rf] simp: replication_defs bindR_eq_Inr split: if_splits)

end
