(* ===== verification/RaftSnapshot.thy ===== *)
theory RaftSnapshot
  imports RaftReplication
begin

text \<open>
  Log compaction: \<open>Snapshot\<close> and \<open>CondInstallSnapshot\<close>
  (\<open>src/src/raft/persistence.go\<close>), \<open>handleInstallSnapshot\<close> and \<open>InstallSnapshot\<close>
  (\<open>src/src/raft/append.go\<close>). The entry at slice index 0 is a placeholder for the last
  entry of the snapshot.
\<close>

definition Snapshot :: "int \<Rightarrow> 'd list \<Rightarrow> ('c, 'd) Raft \<Rightarrow> ('c, 'd) Raft res" where
  "Snapshot index snap rf =
     (if index \<le> lastIncludedIndex rf \<or> index > commitIndex rf then Inr rf
      else if RealLogIdx rf index > loglen rf then Inr rf
      else
        bindR (go_nth (log rf) (RealLogIdx rf index)) (\<lambda>e.
        bindR (go_from (log rf) (RealLogIdx rf index)) (\<lambda>lg.
          Inr (persist (rf\<lparr>snapShot := snap, lastIncludedTerm := eTerm e, log := lg,
                  lastIncludedIndex := index,
                  lastApplied := (if lastApplied rf < index then index else lastApplied rf)\<rparr>)))))"

text \<open>\<open>cap\<close> is the capacity of the slice that \<open>shrinkEntries\<close> inspects.\<close>

definition CondInstallSnapshot ::
  "int \<Rightarrow> int \<Rightarrow> int \<Rightarrow> 'd list \<Rightarrow> ('c, 'd) Raft \<Rightarrow> (('c, 'd) Raft \<times> bool) res" where
  "CondInstallSnapshot cap lit lii snap rf =
     (if lii \<le> commitIndex rf then Inr (rf, False)
      else
        bindR (if lii > VirtualLogIdx rf (loglen rf)
               then Inr [\<lparr>eTerm = 0, eCommand = None\<rparr>]
               else bindR (go_from (log rf) (lii - lastIncludedIndex rf)) (\<lambda>lg.
                    let lg1 = shrinkEntries cap lg in
                    bindR (go_nth lg1 0) (\<lambda>e. go_set lg1 0 (e\<lparr>eCommand := None\<rparr>))))
        (\<lambda>lg2.
        bindR (go_nth lg2 0) (\<lambda>e.
        bindR (go_set lg2 0 (e\<lparr>eTerm := lit\<rparr>)) (\<lambda>lg3.
          let rf1 = rf\<lparr>log := lg3, commitIndex := lii, lastApplied := lii\<rparr>
          in Inr (rf1\<lparr>persister := Save (encodeState rf1) snap (persister rf1)\<rparr>, True)))))"

definition handleInstallSnapshot_begin ::
  "('c, 'd) Raft \<Rightarrow> ('c, 'd) InstallSnapshotArgs option res" where
  "handleInstallSnapshot_begin rf =
     (if state rf \<noteq> Leader then Inr None
      else bindR (go_nth (log rf) 0) (\<lambda>e.
        Inr (Some \<lparr>isTerm = currentTerm rf, isLeaderId = me rf,
                   isLastIncludedIndex = lastIncludedIndex rf,
                   isLastIncludedTerm = lastIncludedTerm rf,
                   isData = snapShot rf, isLastIncludedCmd = eCommand e\<rparr>)))"

definition handleInstallSnapshot_end ::
  "int \<Rightarrow> int \<Rightarrow> InstallSnapshotReply \<Rightarrow> ('c, 'd) Raft \<Rightarrow> ('c, 'd) Raft res" where
  "handleInstallSnapshot_end rnd server reply rf =
     (if isrTerm reply = 0 then Inr rf
      else if isrTerm reply > currentTerm rf then
        Inr (persist (timer_reset rnd (rf\<lparr>currentTerm := isrTerm reply, state := Follower,
               votedFor := -1\<rparr>)))
      else
        bindR (go_set (nextIndex rf) server (VirtualLogIdx rf 1)) (\<lambda>ni.
          Inr (rf\<lparr>nextIndex := ni\<rparr>)))"

text \<open>The search for an entry with the index and term of the snapshot's last entry.\<close>

fun findEntry :: "int \<Rightarrow> int \<Rightarrow> int \<Rightarrow> 'c LogEntry list \<Rightarrow> 'c LogEntry list option" where
  "findEntry vidx lii lit [] = None"
| "findEntry vidx lii lit (e # es) =
     (if vidx = lii \<and> eTerm e = lit then Some (e # es) else findEntry (vidx + 1) lii lit es)"

definition InstallSnapshot ::
  "int \<Rightarrow> ('c, 'd) InstallSnapshotArgs \<Rightarrow> ('c, 'd) Raft
   \<Rightarrow> ('c, 'd) Raft \<times> InstallSnapshotReply \<times> ('c, 'd) ApplyMsg option" where
  "InstallSnapshot rnd args rf0 =
     (if isTerm args < currentTerm rf0
      then (rf0, \<lparr>isrTerm = currentTerm rf0, isrShouldDie = True\<rparr>, None)
      else
        let rf = timer_reset rnd rf0;
            rf1 = (if isTerm args > currentTerm rf
                   then rf\<lparr>currentTerm := isTerm args, votedFor := -1\<rparr> else rf);
            rf2 = rf1\<lparr>state := Follower\<rparr>;
            msg = \<lparr>amCommandValid = False, amCommand = None, amCommandIndex = 0,
                   amCommandTerm = 0, amSnapshotValid = True, amSnapshot = isData args,
                   amSnapshotTerm = isLastIncludedTerm args,
                   amSnapshotIndex = isLastIncludedIndex args\<rparr>;
            lg = (case findEntry (VirtualLogIdx rf2 0) (isLastIncludedIndex args)
                         (isLastIncludedTerm args) (log rf2) of
                    Some rest \<Rightarrow> rest
                  | None \<Rightarrow> [\<lparr>eTerm = lastIncludedTerm rf2, eCommand = isLastIncludedCmd args\<rparr>]);
            rf3 = rf2\<lparr>log := lg, snapShot := isData args,
                      lastIncludedIndex := isLastIncludedIndex args,
                      lastIncludedTerm := isLastIncludedTerm args\<rparr>;
            rf4 = (if commitIndex rf3 < isLastIncludedIndex args
                   then rf3\<lparr>commitIndex := isLastIncludedIndex args\<rparr> else rf3);
            rf5 = rf4\<lparr>lastApplied := isLastIncludedIndex args\<rparr>
        in (persist rf5, \<lparr>isrTerm = currentTerm rf5, isrShouldDie = False\<rparr>, Some msg))"

definition SnapshotNotOutDated :: "int \<Rightarrow> int \<Rightarrow> 'd list \<Rightarrow> bool" where
  "SnapshotNotOutDated lit lii snap = True"

subsection \<open>Taking a snapshot\<close>

text \<open>The entry at a global index.\<close>

definition entryAt :: "('c, 'd) Raft \<Rightarrow> int \<Rightarrow> 'c LogEntry" where
  "entryAt rf v = log rf ! nat (v - lastIncludedIndex rf)"

lemma Snapshot_taken:
  assumes "raft_wf rf" "lastIncludedIndex rf < index" "index \<le> commitIndex rf"
  shows "Snapshot index snap rf = Inr (persist (rf\<lparr>snapShot := snap,
      lastIncludedTerm := eTerm (entryAt rf index),
      log := drop (nat (index - lastIncludedIndex rf)) (log rf), lastIncludedIndex := index,
      lastApplied := max (lastApplied rf) index\<rparr>))"
proof -
  have "0 \<le> index - lastIncludedIndex rf" "index - lastIncludedIndex rf < loglen rf"
    using assms by (auto simp: raft_wf_def)
  with assms show ?thesis
    by (simp add: Snapshot_def RealLogIdx_def go_simps Let_def entryAt_def max_def)
qed

lemma Snapshot_ignored:
  "index \<le> lastIncludedIndex rf \<or> index > commitIndex rf \<Longrightarrow> Snapshot index snap rf = Inr rf"
  by (simp add: Snapshot_def)

lemma Snapshot_wf:
  assumes "raft_wf rf" "leader_ok rf"
  shows "\<exists>rf'. Snapshot index snap rf = Inr rf' \<and> raft_wf rf' \<and> leader_ok rf'"
proof (cases "lastIncludedIndex rf < index \<and> index \<le> commitIndex rf")
  case True
  with assms show ?thesis
    by (auto simp: Snapshot_taken raft_wf_def leader_ok_def nat_less_iff of_nat_diff)
next
  case False
  with assms show ?thesis by (auto simp: Snapshot_ignored not_less not_le)
qed

lemma Snapshot_quiet: "Snapshot index snap rf = Inr rf' \<Longrightarrow> quiet_step rf rf'"
  by (auto simp: Snapshot_def bindR_eq_Inr quiet_step_def vote_step_def split: if_splits)

lemma Snapshot_durable: "durable rf \<Longrightarrow> Snapshot index snap rf = Inr rf' \<Longrightarrow> durable rf'"
  by (auto simp: Snapshot_def bindR_eq_Inr split: if_splits)

subsection \<open>Installing a snapshot\<close>

lemma findEntry_Some:
  "findEntry v lii lit es = Some r \<Longrightarrow>
     \<exists>k < length es. v + int k = lii \<and> eTerm (es ! k) = lit \<and> r = drop k es"
proof (induction es arbitrary: v)
  case Nil
  then show ?case by simp
next
  case (Cons e es)
  show ?case
  proof (cases "v = lii \<and> eTerm e = lit")
    case True
    with Cons.prems show ?thesis by (auto intro!: exI[of _ 0])
  next
    case False
    with Cons.prems have "findEntry (v + 1) lii lit es = Some r" by (auto split: if_splits)
    from Cons.IH[OF this] obtain k where "k < length es" "v + 1 + int k = lii" "eTerm (es ! k) = lit"
      "r = drop k es" by blast
    then show ?thesis by (intro exI[of _ "Suc k"]) auto
  qed
qed

lemma findEntry_None:
  "findEntry v lii lit es = None \<longleftrightarrow> (\<forall>k < length es. v + int k = lii \<longrightarrow> eTerm (es ! k) \<noteq> lit)"
proof (induction es arbitrary: v)
  case Nil
  then show ?case by simp
next
  case (Cons e es)
  have "findEntry v lii lit (e # es) = None \<longleftrightarrow>
      (v = lii \<longrightarrow> eTerm e \<noteq> lit) \<and> (\<forall>k < length es. v + 1 + int k = lii \<longrightarrow> eTerm (es ! k) \<noteq> lit)"
    using Cons.IH[of "v + 1"] by simp
  then show ?case by (auto simp: All_less_Suc2 add.assoc)
qed

definition install_log :: "('c, 'd) InstallSnapshotArgs \<Rightarrow> ('c, 'd) Raft \<Rightarrow> 'c LogEntry list" where
  "install_log args rf =
     (case findEntry (lastIncludedIndex rf) (isLastIncludedIndex args) (isLastIncludedTerm args) (log rf) of
        Some rest \<Rightarrow> rest
      | None \<Rightarrow> [\<lparr>eTerm = lastIncludedTerm rf, eCommand = isLastIncludedCmd args\<rparr>])"

lemma InstallSnapshot_stale:
  "isTerm args < currentTerm rf \<Longrightarrow>
   InstallSnapshot rnd args rf = (rf, \<lparr>isrTerm = currentTerm rf, isrShouldDie = True\<rparr>, None)"
  by (simp add: InstallSnapshot_def)

lemma InstallSnapshot_fields:
  assumes "currentTerm rf \<le> isTerm args" "InstallSnapshot rnd args rf = (rf', r, m)"
  shows "log rf' = install_log args rf" "lastIncludedIndex rf' = isLastIncludedIndex args"
    "lastIncludedTerm rf' = isLastIncludedTerm args" "snapShot rf' = isData args"
    "commitIndex rf' = max (commitIndex rf) (isLastIncludedIndex args)"
    "lastApplied rf' = isLastIncludedIndex args" "currentTerm rf' = isTerm args"
    "state rf' = Follower" "votedFor rf' = (if isTerm args > currentTerm rf then -1 else votedFor rf)"
    "me rf' = me rf" "npeers rf' = npeers rf" "nextIndex rf' = nextIndex rf"
    "matchIndex rf' = matchIndex rf" "voteCount rf' = voteCount rf" "persisted rf'"
  using assms
  by (auto simp: InstallSnapshot_def Let_def install_log_def VirtualLogIdx_def max_def
      split: if_splits option.splits)

lemma InstallSnapshot_quiet:
  assumes "InstallSnapshot rnd args rf = (rf', r, m)"
  shows "quiet_step rf rf'"
proof (cases "currentTerm rf \<le> isTerm args")
  case True
  from InstallSnapshot_fields[OF True assms] True show ?thesis
    by (auto simp: quiet_step_def vote_step_def)
next
  case False
  with assms show ?thesis by (simp add: InstallSnapshot_stale)
qed

lemma InstallSnapshot_durable:
  assumes "durable rf" "InstallSnapshot rnd args rf = (rf', r, m)"
  shows "durable rf'"
proof (cases "currentTerm rf \<le> isTerm args")
  case True
  from InstallSnapshot_fields[OF True assms(2)] show ?thesis by (simp add: durable_def)
next
  case False
  with assms show ?thesis by (simp add: InstallSnapshot_stale)
qed

text \<open>
  A snapshot is fresh when it does not reach back behind the commit index, unless the
  log still has its last entry.
\<close>

definition install_fresh :: "('c, 'd) InstallSnapshotArgs \<Rightarrow> ('c, 'd) Raft \<Rightarrow> bool" where
  "install_fresh args rf \<longleftrightarrow>
     0 \<le> isLastIncludedIndex args \<and>
     (commitIndex rf \<le> isLastIncludedIndex args \<or>
      findEntry (lastIncludedIndex rf) (isLastIncludedIndex args) (isLastIncludedTerm args) (log rf) \<noteq> None)"

lemma InstallSnapshot_wf:
  assumes "raft_wf rf" "leader_ok rf" "install_fresh args rf" "InstallSnapshot rnd args rf = (rf', r, m)"
  shows "raft_wf rf' \<and> leader_ok rf'"
proof (cases "currentTerm rf \<le> isTerm args")
  case True
  note f = InstallSnapshot_fields[OF True assms(4)]
  have lg: "install_log args rf \<noteq> [] \<and>
      max (commitIndex rf) (isLastIncludedIndex args)
        \<le> isLastIncludedIndex args + int (length (install_log args rf)) - 1"
  proof (cases "findEntry (lastIncludedIndex rf) (isLastIncludedIndex args) (isLastIncludedTerm args) (log rf)")
    case None
    with assms(1,3) show ?thesis by (simp add: install_log_def install_fresh_def)
  next
    case (Some rest)
    from findEntry_Some[OF Some] obtain k where k: "k < length (log rf)"
      "lastIncludedIndex rf + int k = isLastIncludedIndex args" "rest = drop k (log rf)" by blast
    with Some assms(1) show ?thesis by (simp add: install_log_def raft_wf_def of_nat_diff)
  qed
  have "0 \<le> isLastIncludedIndex args" using assms(3) by (simp add: install_fresh_def)
  with lg f assms(1) show ?thesis by (simp add: raft_wf_def leader_ok_def)
next
  case False
  with assms show ?thesis by (simp add: InstallSnapshot_stale)
qed

lemma handleInstallSnapshot_begin_total:
  "raft_wf rf \<Longrightarrow> \<exists>a. handleInstallSnapshot_begin rf = Inr a"
  by (auto simp: handleInstallSnapshot_begin_def go_nth_def raft_wf_def)

lemma handleInstallSnapshot_end_wf:
  assumes "raft_wf rf" "leader_ok rf" "0 \<le> server" "server < int (npeers rf)"
  shows "\<exists>rf'. handleInstallSnapshot_end rnd server reply rf = Inr rf' \<and> raft_wf rf' \<and> leader_ok rf'"
proof -
  have ln: "length (nextIndex rf) = npeers rf" using assms by (simp add: raft_wf_def)
  let ?r = "rf\<lparr>nextIndex := (nextIndex rf)[nat server := lastIncludedIndex rf + 1]\<rparr>"
  have "raft_wf ?r \<and> leader_ok ?r"
    using assms set_update_subset_insert[of "nextIndex rf" "nat server" "lastIncludedIndex rf + 1"]
    by (force simp: raft_wf_def leader_ok_def)
  then show ?thesis
    using assms ln
    by (auto simp: handleInstallSnapshot_end_def go_simps VirtualLogIdx_def add.commute
        raft_wf_def leader_ok_def)
qed

lemma handleInstallSnapshot_end_shape:
  "handleInstallSnapshot_end rnd server reply rf = Inr rf' \<Longrightarrow>
     (\<exists>ni. rf' = rf\<lparr>nextIndex := ni\<rparr>) \<or>
     rf' = persist (timer_reset rnd (rf\<lparr>currentTerm := isrTerm reply, state := Follower, votedFor := -1\<rparr>)) \<and>
     isrTerm reply > currentTerm rf"
  using surjective[of rf]
  by (auto simp: handleInstallSnapshot_end_def bindR_eq_Inr split: if_splits intro: exI[of _ "nextIndex rf"])

lemma handleInstallSnapshot_end_quiet:
  "handleInstallSnapshot_end rnd server reply rf = Inr rf' \<Longrightarrow> quiet_step rf rf'"
  by (drule handleInstallSnapshot_end_shape) (auto simp: quiet_step_def vote_step_def)

lemma handleInstallSnapshot_end_durable:
  "durable rf \<Longrightarrow> handleInstallSnapshot_end rnd server reply rf = Inr rf' \<Longrightarrow> durable rf'"
  by (drule handleInstallSnapshot_end_shape) (auto intro: durable_cong[of rf])

end
