(* ===== verification/RaftPeer.thy ===== *)
theory RaftPeer
  imports RaftSnapshot
begin

text \<open>
  A whole peer: \<open>ticker\<close> (\<open>src/src/raft/raft.go\<close>) and the set of its atomic steps, each
  the body of a handler or goroutine between taking and releasing \<open>rf.mu\<close>.
\<close>

datatype TickEvent = MsgComing | TimerFired

definition ticker ::
  "int \<Rightarrow> TickEvent \<Rightarrow> ('c, 'd) Raft \<Rightarrow> (('c, 'd) Raft \<times> ('c, 'd) rpc list) res" where
  "ticker rnd ev rf =
     (if killed rf then Inr (rf, [])
      else case ev of
        MsgComing \<Rightarrow>
          (if tkMsgComing (timer rf) = 0 then Inr (rf, [])
           else
             let rf1 = rf\<lparr>timer := (timer rf)\<lparr>tkMsgComing := tkMsgComing (timer rf) - 1\<rparr>\<rparr> in
             if state rf1 = Leader then doLeader rf1 else Inr (rf1, []))
      | TimerFired \<Rightarrow>
          (case state rf of
             Follower \<Rightarrow>
               let rf1 = timer_reset rnd (rf\<lparr>state := PreCandidate, preVoteCount := 1\<rparr>)
               in Inr (rf1, handlePreVote rf1)
           | PreCandidate \<Rightarrow>
               let rf1 = timer_reset rnd (rf\<lparr>preVoteCount := 1\<rparr>)
               in Inr (rf1, handlePreVote rf1)
           | Candidate \<Rightarrow> startElection rnd rf
           | Leader \<Rightarrow> doLeader rf))"

subsection \<open>The steps of a peer\<close>

text \<open>
  One constructor per critical section. The arguments are what the section reads from
  outside the peer: the RPC arguments or reply, the random number, the clock.
\<close>

datatype ('c, 'd) peer_in =
    PStart int "'c option"
  | PRequestVote RequestVoteArgs
  | PVoteReply RequestVoteArgs RequestVoteReply
  | PPreVoteReply bool PreVoteReply
  | PAppend int "'c AppendEntriesArgs"
  | PAppendReply int int "'c AppendEntriesArgs" AppendEntriesReply
  | PInstall int "('c, 'd) InstallSnapshotArgs"
  | PInstallReply int int InstallSnapshotReply
  | PSnapshot int "'d list"
  | PTick int TickEvent
  | PCollect
  | PApplied "('c, 'd) ApplyMsg"
  | PDone
  | PKill
  | PRestart int int

fun peer_step :: "('c, 'd) peer_in \<Rightarrow> ('c, 'd) Raft \<Rightarrow> ('c, 'd) Raft res" where
  "peer_step (PStart now c) rf = bindR (Start now c rf) (\<lambda>(rf', _). Inr rf')"
| "peer_step (PRequestVote args) rf = bindR (RequestVote args rf) (\<lambda>(rf', _). Inr rf')"
| "peer_step (PVoteReply args reply) rf = bindR (sendRequestVote args reply rf) (\<lambda>(rf', _). Inr rf')"
| "peer_step (PPreVoteReply ok reply) rf = Inr (sendPreVote ok reply rf)"
| "peer_step (PAppend rnd args) rf = bindR (AppendEntries rnd args rf) (\<lambda>(rf', _). Inr rf')"
| "peer_step (PAppendReply rnd server args reply) rf =
     bindR (sendAppendEntries rnd server args reply rf) (\<lambda>(rf', _). Inr rf')"
| "peer_step (PInstall rnd args) rf = Inr (case InstallSnapshot rnd args rf of (rf', _) \<Rightarrow> rf')"
| "peer_step (PInstallReply rnd server reply) rf = handleInstallSnapshot_end rnd server reply rf"
| "peer_step (PSnapshot index snap) rf = Snapshot index snap rf"
| "peer_step (PTick rnd ev) rf = bindR (ticker rnd ev rf) (\<lambda>(rf', _). Inr rf')"
| "peer_step PCollect rf = bindR (CommitChecker_collect rf) (\<lambda>(rf', _). Inr rf')"
| "peer_step (PApplied msg) rf = Inr (CommitChecker_applied msg rf)"
| "peer_step PDone rf = Inr (CommitChecker_done rf)"
| "peer_step PKill rf = Inr (Kill rf)"
| "peer_step (PRestart rnd now) rf = Inr (restart rnd now rf)"

fun peer_run :: "('c, 'd) peer_in list \<Rightarrow> ('c, 'd) Raft \<Rightarrow> ('c, 'd) Raft res" where
  "peer_run [] rf = Inr rf"
| "peer_run (i # is) rf = bindR (peer_step i rf) (peer_run is)"

text \<open>What the environment owes the peer: the conditions of the single handlers.\<close>

fun input_ok :: "('c, 'd) peer_in \<Rightarrow> ('c, 'd) Raft \<Rightarrow> bool" where
  "input_ok (PAppend rnd args) rf = append_safe args rf"
| "input_ok (PAppendReply rnd server args reply) rf = reply_sound server args reply rf"
| "input_ok (PInstall rnd args) rf = install_fresh args rf"
| "input_ok (PInstallReply rnd server reply) rf = (0 \<le> server \<and> server < int (npeers rf))"
| "input_ok (PApplied msg) rf = (amCommandIndex msg \<le> commitIndex rf)"
| "input_ok _ rf = True"

text \<open>The steps in which a peer gives, asks for or counts votes, or loses its memory.\<close>

fun voting_in :: "('c, 'd) peer_in \<Rightarrow> ('c, 'd) Raft \<Rightarrow> bool" where
  "voting_in (PRequestVote args) rf = True"
| "voting_in (PVoteReply args reply) rf = True"
| "voting_in (PRestart rnd now) rf = True"
| "voting_in (PTick rnd ev) rf = (ev = TimerFired \<and> state rf = Candidate \<and> \<not> killed rf)"
| "voting_in _ rf = False"

subsection \<open>The ticker\<close>

lemma ticker_cases:
  assumes "ticker rnd ev rf = Inr (rf', ms)"
  shows "(\<exists>st pv t. rf' = rf\<lparr>state := st, preVoteCount := pv, timer := t\<rparr> \<and>
            (st = state rf \<or> st = PreCandidate \<and> state rf = Follower)) \<or>
         (ev = TimerFired \<and> state rf = Candidate \<and> \<not> killed rf \<and> startElection rnd rf = Inr (rf', ms))"
proof -
  have lead: "\<exists>t. rf' = r\<lparr>timer := t\<rparr>" if "doLeader r = Inr (rf', ms)" for r
    using doLeader_result(1)[OF that] by (auto simp: resetHeartBeat_def)
  have same: "\<exists>st pv t. rf' = rf\<lparr>state := st, preVoteCount := pv, timer := t\<rparr> \<and>
            (st = state rf \<or> st = PreCandidate \<and> state rf = Follower)" if "rf' = rf\<lparr>timer := t\<rparr>" for t
    using that by (intro exI[of _ "state rf"] exI[of _ "preVoteCount rf"] exI[of _ t]) simp
  have pre: "\<exists>st pv t. rf' = rf\<lparr>state := st, preVoteCount := pv, timer := t\<rparr> \<and>
            (st = state rf \<or> st = PreCandidate \<and> state rf = Follower)"
    if "rf' = rf\<lparr>preVoteCount := pv, timer := t\<rparr>" for pv t
    using that by (intro exI[of _ "state rf"] exI[of _ pv] exI[of _ t]) simp
  show ?thesis
  proof (cases "killed rf")
    case True
    with assms have "rf' = rf\<lparr>timer := timer rf\<rparr>" by (simp add: ticker_def)
    from same[OF this] show ?thesis ..
  next
    case alive: False
    show ?thesis
    proof (cases ev)
      case MsgComing
      let ?rf = "rf\<lparr>timer := (timer rf)\<lparr>tkMsgComing := tkMsgComing (timer rf) - 1\<rparr>\<rparr>"
      have "rf' = rf \<or> rf' = ?rf \<or> doLeader ?rf = Inr (rf', ms)"
        using assms alive MsgComing by (auto simp: ticker_def Let_def split: if_splits)
      then show ?thesis
      proof (elim disjE)
        assume "rf' = rf"
        then have "rf' = rf\<lparr>timer := timer rf\<rparr>" by simp
        from same[OF this] show ?thesis ..
      next
        assume "rf' = ?rf"
        from same[OF this] show ?thesis ..
      next
        assume "doLeader ?rf = Inr (rf', ms)"
        from lead[OF this] obtain t where "rf' = ?rf\<lparr>timer := t\<rparr>" ..
        then have "rf' = rf\<lparr>timer := t\<rparr>" by simp
        from same[OF this] show ?thesis ..
      qed
    next
      case TimerFired
      show ?thesis
      proof (cases "state rf")
        case Follower
        with assms alive TimerFired have "rf' = rf\<lparr>state := PreCandidate, preVoteCount := 1,
            timer := (timer rf)\<lparr>tkPeriod := followerTimeout + rnd\<rparr>\<rparr>"
          by (simp add: ticker_def timer_reset_def Let_def)
        with Follower show ?thesis by blast
      next
        case PreCandidate
        with assms alive TimerFired have "rf' = rf\<lparr>preVoteCount := 1,
            timer := (timer rf)\<lparr>tkPeriod := followerTimeout + rnd\<rparr>\<rparr>"
          by (simp add: ticker_def timer_reset_def Let_def)
        with pre show ?thesis by blast
      next
        case Candidate
        with assms alive TimerFired show ?thesis by (simp add: ticker_def)
      next
        case Leader
        with assms alive TimerFired lead[of rf] same show ?thesis by (auto simp: ticker_def)
      qed
    qed
  qed
qed

lemma ticker_total:
  assumes "raft_wf rf" "leader_ok rf"
  shows "\<exists>rf' ms. ticker rnd ev rf = Inr (rf', ms)"
proof -
  let ?rf = "rf\<lparr>timer := (timer rf)\<lparr>tkMsgComing := tkMsgComing (timer rf) - 1\<rparr>\<rparr>"
  have "raft_wf ?rf" "leader_ok ?rf" using assms by (simp_all add: raft_wf_def leader_ok_def)
  then have "state rf = Leader \<Longrightarrow> \<exists>rf' ms. doLeader ?rf = Inr (rf', ms)"
    by (intro doLeader_total) auto
  moreover have "state rf = Leader \<Longrightarrow> \<exists>rf' ms. doLeader rf = Inr (rf', ms)"
    using assms by (rule doLeader_total)
  ultimately show ?thesis
    using startElection_total[OF assms(1), of rnd]
    by (cases "killed rf"; cases ev; cases "state rf") (auto simp: ticker_def Let_def)
qed

lemma ticker_durable:
  assumes "durable rf" "ticker rnd ev rf = Inr (rf', ms)"
  shows "durable rf'"
  using ticker_cases[OF assms(2)]
proof
  assume "ev = TimerFired \<and> state rf = Candidate \<and> \<not> killed rf \<and> startElection rnd rf = Inr (rf', ms)"
  then show ?thesis using startElection_fields[of rnd rf rf' ms] by (simp add: durable_def)
qed (auto intro: durable_cong[OF assms(1)])

lemma ticker_quiet:
  assumes "ticker rnd ev rf = Inr (rf', ms)" "\<not> voting_in (PTick rnd ev) rf"
  shows "quiet_step rf rf'"
  using ticker_cases[OF assms(1)] assms(2) by (auto simp: quiet_step_def vote_step_def)

lemma ticker_wf:
  assumes "raft_wf rf" "leader_ok rf" "ticker rnd ev rf = Inr (rf', ms)"
  shows "raft_wf rf' \<and> leader_ok rf'"
  using ticker_cases[OF assms(3)]
proof
  assume "ev = TimerFired \<and> state rf = Candidate \<and> \<not> killed rf \<and> startElection rnd rf = Inr (rf', ms)"
  then show ?thesis using startElection_fields[of rnd rf rf' ms] assms by (simp add: raft_wf_def leader_ok_def)
next
  assume "\<exists>st pv t. rf' = rf\<lparr>state := st, preVoteCount := pv, timer := t\<rparr> \<and>
            (st = state rf \<or> st = PreCandidate \<and> state rf = Follower)"
  with assms show ?thesis by (auto simp: raft_wf_def leader_ok_def)
qed

subsection \<open>Every step keeps the invariants\<close>

lemma Kill_frame:
  "durable rf \<Longrightarrow> durable (Kill rf)" "quiet_step rf (Kill rf)"
  "raft_wf (Kill rf) = raft_wf rf" "leader_ok (Kill rf) = leader_ok rf"
  by (auto simp: Kill_def quiet_step_def vote_step_def raft_wf_def leader_ok_def intro: durable_cong)

lemma peer_step_durable:
  assumes "durable rf" "peer_step i rf = Inr rf'"
  shows "durable rf'"
proof (cases i)
  case (PInstall rnd args)
  with assms show ?thesis
    by (cases "InstallSnapshot rnd args rf") (simp add: InstallSnapshot_durable[OF assms(1)])
qed (use assms in \<open>auto simp: bindR_eq_Inr durable_restart Kill_frame CommitChecker_durable
      sendPreVote_durable split: prod.splits
      dest: Start_durable[OF assms(1)] RequestVote_durable[OF assms(1)] sendRequestVote_durable[OF assms(1)]
        AppendEntries_durable[OF assms(1)] sendAppendEntries_durable[OF assms(1)]
        handleInstallSnapshot_end_durable[OF assms(1)] Snapshot_durable[OF assms(1)]
        ticker_durable[OF assms(1)]\<close>)

lemma peer_step_quiet:
  assumes "peer_step i rf = Inr rf'" "\<not> voting_in i rf"
  shows "quiet_step rf rf'"
proof (cases i)
  case (PInstall rnd args)
  with assms show ?thesis
    by (cases "InstallSnapshot rnd args rf") (auto dest: InstallSnapshot_quiet)
next
  case (PTick rnd ev)
  with assms show ?thesis by (auto simp: bindR_eq_Inr dest: ticker_quiet)
qed (use assms in \<open>auto simp: bindR_eq_Inr Kill_frame CommitChecker_quiet
      sendPreVote_quiet split: prod.splits
      dest: Start_quiet AppendEntries_quiet sendAppendEntries_quiet
        handleInstallSnapshot_end_quiet Snapshot_quiet\<close>)

lemma CommitChecker_wf:
  "raft_wf rf \<Longrightarrow> amCommandIndex m \<le> commitIndex rf \<Longrightarrow> raft_wf (CommitChecker_applied m rf)"
  "leader_ok (CommitChecker_applied m rf) = leader_ok rf"
  "raft_wf (CommitChecker_done rf) = raft_wf rf" "leader_ok (CommitChecker_done rf) = leader_ok rf"
  by (auto simp: CommitChecker_applied_def CommitChecker_done_def raft_wf_def leader_ok_def)

lemma peer_step_wf:
  assumes wf: "raft_wf rf" "leader_ok rf" and d: "durable rf" and ok: "input_ok i rf"
  shows "\<exists>rf'. peer_step i rf = Inr rf' \<and> raft_wf rf' \<and> leader_ok rf'"
proof (cases i)
  case (PStart now c)
  with Start_total[OF wf(1), of now c] Start_wf[OF wf] show ?thesis by fastforce
next
  case (PRequestVote args)
  with RequestVote_total[OF wf(1), of args] RequestVote_wf[OF wf] show ?thesis by fastforce
next
  case (PVoteReply args reply)
  with sendRequestVote_total[OF wf(1), of args reply] sendRequestVote_wf[OF wf] show ?thesis by fastforce
next
  case (PAppend rnd args)
  with AppendEntries_total[of rnd args rf] AppendEntries_wf[OF wf] ok show ?thesis by fastforce
next
  case (PAppendReply rnd server args reply)
  with sendAppendEntries_wf[OF wf, of server args reply rnd] ok show ?thesis by fastforce
next
  case (PInstall rnd args)
  with InstallSnapshot_wf[OF wf] ok show ?thesis by (cases "InstallSnapshot rnd args rf") auto
next
  case (PTick rnd ev)
  with ticker_total[OF wf, of rnd ev] ticker_wf[OF wf] show ?thesis by fastforce
next
  case PCollect
  with CommitChecker_collect_wf[OF wf(1)] wf show ?thesis by (auto simp: raft_wf_def leader_ok_def)
next
  case (PRestart rnd now)
  with restart_wf[OF d wf(1)] show ?thesis by (simp add: leader_ok_def)
qed (use wf ok sendPreVote_wf[OF wf] handleInstallSnapshot_end_wf[OF wf] Snapshot_wf[OF wf]
     in \<open>simp_all add: CommitChecker_wf Kill_frame\<close>)

text \<open>Whole runs whose inputs meet the handlers' conditions as they arrive.\<close>

fun inputs_ok :: "('c, 'd) peer_in list \<Rightarrow> ('c, 'd) Raft \<Rightarrow> bool" where
  "inputs_ok [] rf = True"
| "inputs_ok (i # is) rf =
     (input_ok i rf \<and> (case peer_step i rf of Inl _ \<Rightarrow> True | Inr rf' \<Rightarrow> inputs_ok is rf'))"

lemma peer_run_wf:
  assumes "raft_wf rf" "leader_ok rf" "durable rf" "inputs_ok is rf"
  shows "\<exists>rf'. peer_run is rf = Inr rf' \<and> raft_wf rf' \<and> leader_ok rf' \<and> durable rf'"
  using assms
proof (induction "is" arbitrary: rf)
  case (Cons i "is")
  then obtain rf1 where "peer_step i rf = Inr rf1" "raft_wf rf1" "leader_ok rf1"
    using peer_step_wf[of rf i] by auto
  moreover from this have "durable rf1" using Cons.prems peer_step_durable by blast
  ultimately show ?case using Cons by simp
qed simp

lemma peer_run_durable: "durable rf \<Longrightarrow> peer_run is rf = Inr rf' \<Longrightarrow> durable rf'"
  by (induction "is" arbitrary: rf) (auto simp: bindR_eq_Inr dest: peer_step_durable)

end
