(* ===== verification/RaftCluster.thy ===== *)
theory RaftCluster
  imports RaftPeer
begin

text \<open>
  A cluster of peers and the RPCs in flight between them. A step is one critical section
  of one peer: the delivery of a vote request or of its reply, of an AppendEntries or of its
  reply, a tick, or a step that only touches the peer itself. Requests and replies may be delayed
  for any time and lost; an AppendEntries and its reply may in addition be delivered any number of
  times. A peer may crash at any step and restart from its persister, after which the
  replies to its old vote requests no longer reach it.
\<close>

record vote_call =
  vcFrom :: int
  vcTo :: int
  vcEpoch :: nat
  vcArgs :: RequestVoteArgs
  vcReply :: "RequestVoteReply option"

text \<open>
  \<open>granted\<close>, \<open>voteLog\<close>, \<open>leaderLog\<close> and \<open>acked\<close> are history: who voted for whom in which
  term and with which log, the last log each term's leader had while it was leader, and up to
  which index a peer has acknowledged the log of a term's leader.
\<close>

record ('c, 'd) cluster =
  peers :: "int \<Rightarrow> ('c, 'd) Raft"
  epoch :: "int \<Rightarrow> nat"
  calls :: "vote_call set"
  appends :: "(int \<times> 'c AppendEntriesArgs) set"
  replies :: "(int \<times> 'c AppendEntriesArgs \<times> AppendEntriesReply) set"
  granted :: "(int \<times> int \<times> int) set"
  voteLog :: "int \<times> int \<Rightarrow> 'c LogEntry list option"
  leaderLog :: "int \<Rightarrow> 'c LogEntry list option"
  acked :: "(int \<times> int \<times> nat) set"

text \<open>A peer writes its new state; if it is a leader its log is remembered.\<close>

definition set_peer :: "int \<Rightarrow> ('c, 'd) Raft \<Rightarrow> ('c, 'd) cluster \<Rightarrow> ('c, 'd) cluster" where
  "set_peer i rf s =
     s\<lparr>peers := (peers s)(i := rf),
       leaderLog := (if state rf = Leader then (leaderLog s)(currentTerm rf \<mapsto> log rf) else leaderLog s),
       acked := (if state rf = Leader then insert (i, currentTerm rf, length (log rf) - 1) (acked s)
                 else acked s)\<rparr>"

definition remember :: "'k \<Rightarrow> 'v \<Rightarrow> ('k \<Rightarrow> 'v option) \<Rightarrow> 'k \<Rightarrow> 'v option" where
  "remember k v m = (if m k = None then m(k \<mapsto> v) else m)"

definition new_calls :: "int \<Rightarrow> nat \<Rightarrow> ('c, 'd) rpc list \<Rightarrow> vote_call set" where
  "new_calls i e ms =
     {\<lparr>vcFrom = i, vcTo = j, vcEpoch = e, vcArgs = args, vcReply = None\<rparr> | j args.
        SendRequestVote j args \<in> set ms}"

definition new_appends :: "('c, 'd) rpc list \<Rightarrow> (int \<times> 'c AppendEntriesArgs) set" where
  "new_appends ms = {(j, args). SendAppendEntries j args \<in> set ms}"

text \<open>
  Inputs that reach a peer without the message sets: their arguments are unconstrained.
  \<open>compact\<close> says whether the service takes snapshots.
\<close>

fun local_in :: "bool \<Rightarrow> ('c, 'd) peer_in \<Rightarrow> bool" where
  "local_in compact (PStart now cmd) = True"
| "local_in compact (PPreVoteReply ok reply) = True"
| "local_in compact (PInstall rnd args) = compact"
| "local_in compact (PInstallReply rnd server reply) = compact"
| "local_in compact (PSnapshot index snap) = compact"
| "local_in compact PCollect = True"
| "local_in compact (PApplied msg) = True"
| "local_in compact PDone = True"
| "local_in compact PKill = True"
| "local_in compact _ = False"

inductive cluster_step ::
  "bool \<Rightarrow> nat \<Rightarrow> ('c, 'd) cluster \<Rightarrow> ('c, 'd) cluster \<Rightarrow> bool" for compact n where
  vote_request:
    "\<lbrakk>c \<in> calls s; RequestVote (vcArgs c) (peers s (vcTo c)) = Inr (rf', r)\<rbrakk> \<Longrightarrow>
     cluster_step compact n s ((set_peer (vcTo c) rf' s)\<lparr>
       calls := insert (c\<lparr>vcReply := Some r\<rparr>) (calls s - {c}),
       granted := (if rvrVoteGranted r
                   then insert (vcTo c, rvTerm (vcArgs c), rvCandidateId (vcArgs c)) (granted s)
                   else granted s),
       voteLog := (if rvrVoteGranted r then remember (vcTo c, rvTerm (vcArgs c)) (log rf') (voteLog s)
                   else voteLog s)\<rparr>)"
| vote_reply:
    "\<lbrakk>c \<in> calls s; vcReply c = Some r; vcEpoch c = epoch s (vcFrom c);
      sendRequestVote (vcArgs c) r (peers s (vcFrom c)) = Inr (rf', b)\<rbrakk> \<Longrightarrow>
     cluster_step compact n s ((set_peer (vcFrom c) rf' s)\<lparr>calls := calls s - {c}\<rparr>)"
| vote_lost:
    "c \<in> calls s \<Longrightarrow> cluster_step compact n s (s\<lparr>calls := calls s - {c}\<rparr>)"
| tick:
    "\<lbrakk>0 \<le> i; i < int n; ticker rnd ev (peers s i) = Inr (rf', ms)\<rbrakk> \<Longrightarrow>
     cluster_step compact n s ((set_peer i rf' s)\<lparr>
       calls := calls s \<union> new_calls i (epoch s i) ms,
       appends := appends s \<union> new_appends ms,
       granted := (if voting_in (PTick rnd ev) (peers s i)
                   then insert (i, currentTerm rf', i) (granted s) else granted s),
       voteLog := (if voting_in (PTick rnd ev) (peers s i)
                   then remember (i, currentTerm rf') (log rf') (voteLog s) else voteLog s)\<rparr>)"
| append:
    "\<lbrakk>(i, args) \<in> appends s; 0 \<le> i; i < int n; AppendEntries rnd args (peers s i) = Inr (rf', r)\<rbrakk> \<Longrightarrow>
     cluster_step compact n s ((set_peer i rf' s)\<lparr>
       replies := insert (i, args, r) (replies s),
       acked := (if aerSuccess r
                 then insert (i, aeTerm args, nat (aePrevLogIndex args) + length (aeEntries args))
                        (acked (set_peer i rf' s))
                 else acked (set_peer i rf' s))\<rparr>)"
| append_reply:
    "\<lbrakk>(j, args, r) \<in> replies s; i = aeLeaderId args; 0 \<le> i; i < int n;
      sendAppendEntries rnd j args r (peers s i) = Inr (rf', b)\<rbrakk> \<Longrightarrow>
     cluster_step compact n s (set_peer i rf' s)"
| local:
    "\<lbrakk>0 \<le> i; i < int n; local_in compact inp; peer_step inp (peers s i) = Inr rf'\<rbrakk> \<Longrightarrow>
     cluster_step compact n s (set_peer i rf' s)"
| crash:
    "\<lbrakk>0 \<le> i; i < int n\<rbrakk> \<Longrightarrow>
     cluster_step compact n s ((set_peer i (restart rnd now (peers s i)) s)\<lparr>
       epoch := (epoch s)(i := epoch s i + 1)\<rparr>)"

definition cluster_init :: "nat \<Rightarrow> ('c, 'd) cluster \<Rightarrow> bool" where
  "cluster_init n s \<longleftrightarrow>
     (\<forall>i. 0 \<le> i \<and> i < int n \<longrightarrow> (\<exists>rnd now. peers s i = Make n i MakePersister rnd now)) \<and>
     calls s = {} \<and> appends s = {} \<and> replies s = {} \<and> granted s = {} \<and>
     voteLog s = (\<lambda>_. None) \<and> leaderLog s = (\<lambda>_. None) \<and> acked s = {}"

inductive reachable :: "bool \<Rightarrow> nat \<Rightarrow> ('c, 'd) cluster \<Rightarrow> bool" for compact n where
  init: "cluster_init n s \<Longrightarrow> reachable compact n s"
| step: "\<lbrakk>reachable compact n s; cluster_step compact n s s'\<rbrakk> \<Longrightarrow> reachable compact n s'"

subsection \<open>Election invariant\<close>

definition inv_peers :: "nat \<Rightarrow> (int \<Rightarrow> ('c, 'd) Raft) \<Rightarrow> bool" where
  "inv_peers n P \<longleftrightarrow> (\<forall>i. 0 \<le> i \<and> i < int n \<longrightarrow> me (P i) = i \<and> npeers (P i) = n \<and> durable (P i))"

text \<open>A peer votes once per term, never in a term it has not reached.\<close>

definition inv_granted :: "nat \<Rightarrow> (int \<Rightarrow> ('c, 'd) Raft) \<Rightarrow> (int \<times> int \<times> int) set \<Rightarrow> bool" where
  "inv_granted n P G \<longleftrightarrow>
     (\<forall>v t c. (v, t, c) \<in> G \<longrightarrow> 0 \<le> v \<and> v < int n \<and> 0 \<le> c \<and> c < int n \<and>
        t \<le> currentTerm (P v) \<and> t \<le> currentTerm (P c) \<and>
        (t = currentTerm (P v) \<longrightarrow> votedFor (P v) = c)) \<and>
     (\<forall>v t c c'. (v, t, c) \<in> G \<longrightarrow> (v, t, c') \<in> G \<longrightarrow> c = c')"

definition inv_calls ::
  "nat \<Rightarrow> (int \<Rightarrow> ('c, 'd) Raft) \<Rightarrow> vote_call set \<Rightarrow> (int \<times> int \<times> int) set \<Rightarrow> bool" where
  "inv_calls n P C G \<longleftrightarrow>
     (\<forall>c \<in> C. 0 \<le> vcFrom c \<and> vcFrom c < int n \<and> 0 \<le> vcTo c \<and> vcTo c < int n \<and> vcTo c \<noteq> vcFrom c \<and>
        rvCandidateId (vcArgs c) = vcFrom c \<and> (vcFrom c, rvTerm (vcArgs c), vcFrom c) \<in> G \<and>
        (\<forall>r. vcReply c = Some r \<longrightarrow> rvrVoteGranted r \<longrightarrow> (vcTo c, rvTerm (vcArgs c), vcFrom c) \<in> G)) \<and>
     (\<forall>c \<in> C. \<forall>c' \<in> C. vcFrom c = vcFrom c' \<longrightarrow> vcTo c = vcTo c' \<longrightarrow>
        rvTerm (vcArgs c) = rvTerm (vcArgs c') \<longrightarrow> c = c')"

text \<open>The votes a candidate may have counted: those no call of it is still waiting for.\<close>

definition counted :: "vote_call set \<Rightarrow> (int \<times> int \<times> int) set \<Rightarrow> int \<Rightarrow> int \<Rightarrow> int set" where
  "counted C G i t =
     {j. (j, t, i) \<in> G \<and> (\<forall>c \<in> C. vcFrom c = i \<longrightarrow> vcTo c = j \<longrightarrow> rvTerm (vcArgs c) \<noteq> t)}"

definition inv_count ::
  "nat \<Rightarrow> (int \<Rightarrow> ('c, 'd) Raft) \<Rightarrow> vote_call set \<Rightarrow> (int \<times> int \<times> int) set \<Rightarrow> bool" where
  "inv_count n P C G \<longleftrightarrow>
     (\<forall>i. 0 \<le> i \<and> i < int n \<longrightarrow> (i, currentTerm (P i), i) \<in> G \<longrightarrow>
        voteCount (P i) \<le> int (card (counted C G i (currentTerm (P i)))))"

definition inv_leader ::
  "nat \<Rightarrow> (int \<Rightarrow> ('c, 'd) Raft) \<Rightarrow> (int \<times> int \<times> int) set \<Rightarrow> bool" where
  "inv_leader n P G \<longleftrightarrow>
     (\<forall>i. 0 \<le> i \<and> i < int n \<longrightarrow> state (P i) = Leader \<longrightarrow>
        (i, currentTerm (P i), i) \<in> G \<and> voteCount (P i) > int n div 2)"

definition election_inv :: "nat \<Rightarrow> ('c, 'd) cluster \<Rightarrow> bool" where
  "election_inv n s \<longleftrightarrow>
     inv_peers n (peers s) \<and> inv_granted n (peers s) (granted s) \<and>
     inv_calls n (peers s) (calls s) (granted s) \<and>
     inv_count n (peers s) (calls s) (granted s) \<and> inv_leader n (peers s) (granted s)"

lemma set_peer_sel [simp]:
  "peers (set_peer i rf s) = (peers s)(i := rf)"
  "epoch (set_peer i rf s) = epoch s"
  "calls (set_peer i rf s) = calls s"
  "appends (set_peer i rf s) = appends s"
  "granted (set_peer i rf s) = granted s"
  "replies (set_peer i rf s) = replies s"
  "voteLog (set_peer i rf s) = voteLog s"
  by (simp_all add: set_peer_def)

lemma inv_peersD:
  "inv_peers n P \<Longrightarrow> 0 \<le> i \<Longrightarrow> i < int n \<Longrightarrow> me (P i) = i \<and> npeers (P i) = n \<and> durable (P i)"
  by (simp add: inv_peers_def)

lemma inv_peers_upd:
  "inv_peers n P \<Longrightarrow> 0 \<le> i \<Longrightarrow> i < int n \<Longrightarrow> vote_step (P i) rf \<Longrightarrow> durable rf \<Longrightarrow>
   inv_peers n (P(i := rf))"
  by (simp add: inv_peers_def vote_step_def)

lemma inv_grantedD:
  assumes "inv_granted n P G" "(v, t, c) \<in> G"
  shows "0 \<le> v" "v < int n" "0 \<le> c" "c < int n" "t \<le> currentTerm (P v)" "t \<le> currentTerm (P c)"
    "t = currentTerm (P v) \<Longrightarrow> votedFor (P v) = c"
  using assms unfolding inv_granted_def by blast+

lemma inv_granted_fun: "inv_granted n P G \<Longrightarrow> (v, t, c) \<in> G \<Longrightarrow> (v, t, c') \<in> G \<Longrightarrow> c = c'"
  unfolding inv_granted_def by blast

lemma inv_granted_upd:
  assumes "inv_granted n P G" "vote_step (P i) rf"
  shows "inv_granted n (P(i := rf)) G"
proof -
  have t: "currentTerm (P j) \<le> currentTerm ((P(i := rf)) j)" for j
    using assms(2) by (simp add: vote_step_def)
  have v: "votedFor ((P(i := rf)) v) = c" if "(v, t, c) \<in> G" "t = currentTerm ((P(i := rf)) v)" for v t c
  proof (cases "v = i")
    case True
    note d = inv_grantedD[OF assms(1) that(1)]
    from d(5) t[of v] that(2) have "t = currentTerm (P v)" by simp
    moreover from d(7)[OF this] d(3) have "votedFor (P v) = c" "c \<noteq> -1" by auto
    ultimately show ?thesis using assms(2) that(2) True by (auto simp: vote_step_def)
  next
    case False
    with inv_grantedD(7)[OF assms(1) that(1)] that(2) show ?thesis by simp
  qed
  show ?thesis
    unfolding inv_granted_def
  proof (intro conjI allI impI)
    fix v u c assume g: "(v, u, c) \<in> G"
    note d = inv_grantedD[OF assms(1) g]
    show "0 \<le> v" "v < int n" "0 \<le> c" "c < int n" using d by auto
    show "u \<le> currentTerm ((P(i := rf)) v)" using d(5) t[of v] by linarith
    show "u \<le> currentTerm ((P(i := rf)) c)" using d(6) t[of c] by linarith
    show "u = currentTerm ((P(i := rf)) v) \<Longrightarrow> votedFor ((P(i := rf)) v) = c" using v g by blast
  next
    fix v u c c' assume "(v, u, c) \<in> G" "(v, u, c') \<in> G"
    then show "c = c'" using inv_granted_fun[OF assms(1)] by blast
  qed
qed

lemma inv_granted_insert:
  assumes "inv_granted n P G" "0 \<le> v" "v < int n" "0 \<le> c" "c < int n"
    and "currentTerm (P v) = t" "t \<le> currentTerm (P c)" "votedFor (P v) = c"
  shows "inv_granted n P (insert (v, t, c) G)"
proof -
  have f: "c' = c" if "(v, t, c') \<in> G" for c'
    using inv_grantedD(7)[OF assms(1) that] assms by simp
  show ?thesis
    unfolding inv_granted_def
  proof (intro conjI[rotated] allI impI)
    fix v' u d d' assume "(v', u, d) \<in> insert (v, t, c) G" "(v', u, d') \<in> insert (v, t, c) G"
    then show "d = d'" using f inv_granted_fun[OF assms(1)] by auto
  qed (use assms inv_grantedD[OF assms(1)] in auto)
qed

lemma counted_finite: "inv_granted n P G \<Longrightarrow> counted C G i t \<subseteq> {0..<int n}"
  using inv_grantedD(1,2)[of n P G] by (auto simp: counted_def)

lemma counted_card_mono:
  assumes "inv_granted n P G" "counted C G' i t \<subseteq> counted C' G i t"
  shows "card (counted C G' i t) \<le> card (counted C' G i t)"
  using assms finite_subset[OF counted_finite[OF assms(1)]] by (intro card_mono) auto

text \<open>The stable part of the argument: a peer takes a quiet step.\<close>

lemma election_inv_quiet:
  assumes inv: "election_inv n s" and i: "0 \<le> i" "i < int n"
    and q: "quiet_step (peers s i) rf" and d: "durable rf"
    and s': "peers s' = (peers s)(i := rf)" "calls s' = calls s" "granted s' = granted s"
  shows "election_inv n s'"
proof -
  let ?P = "peers s" and ?G = "granted s" and ?C = "calls s"
  have v: "vote_step (?P i) rf" using q by (rule quiet_vote_step)
  have g: "inv_granted n ?P ?G" using inv by (simp add: election_inv_def)
  have new: "(i, currentTerm rf, i) \<notin> ?G" if "currentTerm (?P i) < currentTerm rf"
    using inv_grantedD(5)[OF g, of i "currentTerm rf" i] that by force
  have same: "voteCount rf = voteCount (?P i) \<and> currentTerm rf = currentTerm (?P i)"
    if "(i, currentTerm rf, i) \<in> ?G"
    using q v new that by (force simp: quiet_step_def vote_step_def)
  have "inv_count n (?P(i := rf)) ?C ?G"
    using inv same by (auto simp: election_inv_def inv_count_def)
  moreover have "inv_leader n (?P(i := rf)) ?G"
    unfolding inv_leader_def
  proof (intro allI impI)
    fix j assume j: "0 \<le> j \<and> j < int n" "state ((?P(i := rf)) j) = Leader"
    show "(j, currentTerm ((?P(i := rf)) j), j) \<in> ?G \<and> voteCount ((?P(i := rf)) j) > int n div 2"
    proof (cases "j = i")
      case True
      with j q have "state (?P i) = Leader" "currentTerm rf = currentTerm (?P i)"
        by (auto simp: quiet_step_def)
      moreover from this q have "voteCount rf = voteCount (?P i)" by (auto simp: quiet_step_def)
      ultimately show ?thesis using inv j True by (auto simp: election_inv_def inv_leader_def)
    next
      case False
      with inv j show ?thesis by (auto simp: election_inv_def inv_leader_def)
    qed
  qed
  ultimately show ?thesis
    using inv v d i s' inv_peers_upd inv_granted_upd
    by (auto simp: election_inv_def inv_calls_def)
qed

lemma inv_callsD:
  assumes "inv_calls n P C G" "c \<in> C"
  shows "0 \<le> vcFrom c" "vcFrom c < int n" "0 \<le> vcTo c" "vcTo c < int n" "vcTo c \<noteq> vcFrom c"
    "rvCandidateId (vcArgs c) = vcFrom c" "(vcFrom c, rvTerm (vcArgs c), vcFrom c) \<in> G"
    "vcReply c = Some r \<Longrightarrow> rvrVoteGranted r \<Longrightarrow> (vcTo c, rvTerm (vcArgs c), vcFrom c) \<in> G"
  using assms unfolding inv_calls_def by blast+

lemma inv_calls_unique:
  "inv_calls n P C G \<Longrightarrow> c \<in> C \<Longrightarrow> c' \<in> C \<Longrightarrow> vcFrom c = vcFrom c' \<Longrightarrow> vcTo c = vcTo c' \<Longrightarrow>
   rvTerm (vcArgs c) = rvTerm (vcArgs c') \<Longrightarrow> c = c'"
  unfolding inv_calls_def by blast

lemma inv_calls_remove: "inv_calls n P C G \<Longrightarrow> inv_calls n P' (C - {c}) G"
  unfolding inv_calls_def by blast

lemma inv_calls_answer:
  assumes inv: "inv_calls n P C G" and c: "c \<in> C"
    and r: "rvrVoteGranted r \<Longrightarrow> (vcTo c, rvTerm (vcArgs c), vcFrom c) \<in> G'" and G: "G \<subseteq> G'"
  shows "inv_calls n P' (insert (c\<lparr>vcReply := Some r\<rparr>) (C - {c})) G'"
proof -
  let ?c = "c\<lparr>vcReply := Some r\<rparr>"
  have u: "vcFrom d \<noteq> vcFrom c \<or> vcTo d \<noteq> vcTo c \<or> rvTerm (vcArgs d) \<noteq> rvTerm (vcArgs c)"
    if "d \<in> C - {c}" for d
    using inv_calls_unique[OF inv _ c, of d] that by auto
  show ?thesis
    unfolding inv_calls_def
  proof (rule conjI; intro ballI impI)
    fix d d' assume "d \<in> insert ?c (C - {c})" "d' \<in> insert ?c (C - {c})"
      "vcFrom d = vcFrom d'" "vcTo d = vcTo d'" "rvTerm (vcArgs d) = rvTerm (vcArgs d')"
    then show "d = d'" using u inv_calls_unique[OF inv, of d d'] by fastforce
  next
    fix d assume "d \<in> insert ?c (C - {c})"
    then consider "d = ?c" | "d \<in> C" by blast
    then show "0 \<le> vcFrom d \<and> vcFrom d < int n \<and> 0 \<le> vcTo d \<and> vcTo d < int n \<and> vcTo d \<noteq> vcFrom d \<and>
        rvCandidateId (vcArgs d) = vcFrom d \<and> (vcFrom d, rvTerm (vcArgs d), vcFrom d) \<in> G' \<and>
        (\<forall>r. vcReply d = Some r \<longrightarrow> rvrVoteGranted r \<longrightarrow> (vcTo d, rvTerm (vcArgs d), vcFrom d) \<in> G')"
    proof cases
      case 1
      with inv_callsD[OF inv c] r G show ?thesis by auto
    next
      case 2
      with inv_callsD[OF inv 2] G show ?thesis by blast
    qed
  qed
qed

lemma counted_remove: "counted C G i t \<subseteq> counted (C - {c}) G i t"
  by (auto simp: counted_def)

lemma counted_answer:
  assumes "c \<in> C"
  shows "counted (insert (c\<lparr>vcReply := r\<rparr>) (C - {c})) (insert (vcTo c, rvTerm (vcArgs c), vcFrom c) G) i t
           = counted C G i t"
    and "counted (insert (c\<lparr>vcReply := r\<rparr>) (C - {c})) G i t = counted C G i t"
proof -
  have live: "(\<forall>d \<in> insert (c\<lparr>vcReply := r\<rparr>) (C - {c}). vcFrom d = i \<longrightarrow> vcTo d = j \<longrightarrow> rvTerm (vcArgs d) \<noteq> t)
      \<longleftrightarrow> (\<forall>d \<in> C. vcFrom d = i \<longrightarrow> vcTo d = j \<longrightarrow> rvTerm (vcArgs d) \<noteq> t)" for j
    using assms by auto
  show "counted (insert (c\<lparr>vcReply := r\<rparr>) (C - {c})) G i t = counted C G i t"
    unfolding counted_def live ..
  show "counted (insert (c\<lparr>vcReply := r\<rparr>) (C - {c})) (insert (vcTo c, rvTerm (vcArgs c), vcFrom c) G) i t
           = counted C G i t"
    unfolding counted_def live using assms by auto
qed

lemma election_inv_request:
  assumes inv: "election_inv n s" and c: "c \<in> calls s"
    and rv: "RequestVote (vcArgs c) (peers s (vcTo c)) = Inr (rf', r)"
    and s': "peers s' = (peers s)(vcTo c := rf')"
      "calls s' = insert (c\<lparr>vcReply := Some r\<rparr>) (calls s - {c})"
      "granted s' = (if rvrVoteGranted r
         then insert (vcTo c, rvTerm (vcArgs c), rvCandidateId (vcArgs c)) (granted s) else granted s)"
  shows "election_inv n s'"
proof -
  let ?P = "peers s" and ?C = "calls s" and ?G = "granted s" and ?j = "vcTo c" and ?t = "rvTerm (vcArgs c)"
  let ?P' = "?P(?j := rf')"
  have pe: "inv_peers n ?P" and gr: "inv_granted n ?P ?G" and ca: "inv_calls n ?P ?C ?G"
    and co: "inv_count n ?P ?C ?G" and le: "inv_leader n ?P ?G"
    using inv by (auto simp: election_inv_def)
  note cd = inv_callsD[OF ca c]
  note vs = RequestVote_vote_step[OF rv] and fr = RequestVote_frame[OF rv]
  have G': "granted s' = (if rvrVoteGranted r then insert (?j, ?t, vcFrom c) ?G else ?G)"
    using s'(3) cd(6) by simp
  have pe': "inv_peers n ?P'"
    using cd inv_peersD[OF pe] RequestVote_durable[OF _ rv] by (intro inv_peers_upd[OF pe _ _ vs]) auto
  have gr0: "inv_granted n ?P' ?G" by (rule inv_granted_upd[OF gr vs])
  have gr': "inv_granted n ?P' (granted s')"
  proof (cases "rvrVoteGranted r")
    case True
    note g = RequestVote_granted[OF rv True]
    have "?t \<le> currentTerm (?P' (vcFrom c))" using inv_grantedD(6)[OF gr0 cd(7)] .
    then have "inv_granted n ?P' (insert (?j, ?t, vcFrom c) ?G)"
      using g cd by (intro inv_granted_insert[OF gr0]) auto
    with True G' show ?thesis by simp
  qed (use gr0 G' in simp)
  have ca': "inv_calls n ?P' (calls s') (granted s')"
    unfolding s'(2) by (rule inv_calls_answer[OF ca c]) (auto simp: G')
  have cnt: "counted (calls s') (granted s') i t = counted ?C ?G i t" for i t
    unfolding s'(2) G' using counted_answer[OF c] by simp
  have own: "(i, u, i) \<in> granted s' \<longleftrightarrow> (i, u, i) \<in> ?G" for i u
    using G' cd(5) by auto
  have tr: "currentTerm rf' = currentTerm (?P ?j) \<or> (?j, currentTerm rf', ?j) \<notin> ?G"
    using inv_grantedD(5)[OF gr, of ?j "currentTerm rf'" ?j] vs by (force simp: vote_step_def)
  have co': "inv_count n ?P' (calls s') (granted s')"
    using co fr tr unfolding inv_count_def cnt own by auto
  have "inv_leader n ?P' (granted s')"
    using le fr unfolding inv_leader_def own by auto
  with pe' gr' ca' co' s'(1) show ?thesis by (simp add: election_inv_def)
qed

lemma election_inv_lost:
  assumes inv: "election_inv n s"
  shows "election_inv n (s\<lparr>calls := calls s - {c}\<rparr>)"
proof -
  have gr: "inv_granted n (peers s) (granted s)" using inv by (simp add: election_inv_def)
  have "card (counted (calls s) (granted s) i t) \<le> card (counted (calls s - {c}) (granted s) i t)" for i t
    by (rule counted_card_mono[OF gr counted_remove])
  then have "inv_count n (peers s) (calls s - {c}) (granted s)"
    using inv by (fastforce simp: election_inv_def inv_count_def intro: order_trans)
  with inv show ?thesis by (auto simp: election_inv_def intro: inv_calls_remove)
qed

lemma election_inv_vote:
  assumes inv: "election_inv n s" and c: "c \<in> calls s" "vcReply c = Some r"
    and vc: "vote_counted (vcArgs c) r (peers s (vcFrom c)) rf'" and d: "durable rf'"
    and s': "peers s' = (peers s)(vcFrom c := rf')" "calls s' = calls s - {c}" "granted s' = granted s"
  shows "election_inv n s'"
proof -
  let ?P = "peers s" and ?C = "calls s" and ?G = "granted s" and ?i = "vcFrom c" and ?t = "rvTerm (vcArgs c)"
  let ?P' = "?P(?i := rf')"
  have pe: "inv_peers n ?P" and gr: "inv_granted n ?P ?G" and ca: "inv_calls n ?P ?C ?G"
    and co: "inv_count n ?P ?C ?G" and le: "inv_leader n ?P ?G"
    using inv by (auto simp: election_inv_def)
  note cd = inv_callsD[OF ca c(1)] and v = vc[unfolded vote_counted_def]
  have vs: "vote_step (?P ?i) rf'" using v by (simp add: vote_step_def)
  have gr': "inv_granted n ?P' ?G" by (rule inv_granted_upd[OF gr vs])
  have t: "?t = currentTerm (?P ?i)" "currentTerm rf' = ?t" using v by auto
  have g: "(?i, ?t, ?i) \<in> ?G" "(vcTo c, ?t, ?i) \<in> ?G" using cd(7,8) c(2) v by auto
  have mono: "card (counted ?C ?G i u) \<le> card (counted (?C - {c}) ?G i u)" for i u
    by (rule counted_card_mono[OF gr counted_remove])
  have "vcTo c \<notin> counted ?C ?G ?i ?t" using c(1) by (auto simp: counted_def)
  moreover have "insert (vcTo c) (counted ?C ?G ?i ?t) \<subseteq> counted (?C - {c}) ?G ?i ?t"
    using g(2) inv_calls_unique[OF ca _ c(1)] by (auto simp: counted_def)
  ultimately have "card (counted ?C ?G ?i ?t) < card (counted (?C - {c}) ?G ?i ?t)"
    using finite_subset[OF counted_finite[OF gr]] by (intro psubset_card_mono) auto
  then have n: "voteCount rf' \<le> int (card (counted (?C - {c}) ?G ?i ?t))"
    using co g(1) cd v t by (fastforce simp: inv_count_def)
  have co': "inv_count n ?P' (?C - {c}) ?G"
    unfolding inv_count_def
  proof (intro allI impI)
    fix i assume "0 \<le> i \<and> i < int n" "(i, currentTerm (?P' i), i) \<in> ?G"
    then show "voteCount (?P' i) \<le> int (card (counted (?C - {c}) ?G i (currentTerm (?P' i))))"
      using n t co mono[of i "currentTerm (?P i)"] by (cases "i = ?i") (fastforce simp: inv_count_def)+
  qed
  have "npeers (?P ?i) = n" using inv_peersD[OF pe] cd by blast
  then have "inv_leader n ?P' ?G"
    using le v g(1) t unfolding inv_leader_def majority_def by (auto split: if_splits)
  with pe gr' ca co' s' vs d cd show ?thesis
    by (auto simp: election_inv_def intro: inv_calls_remove inv_peers_upd)
qed

lemma election_inv_reply:
  assumes inv: "election_inv n s" and c: "c \<in> calls s" "vcReply c = Some r"
    and st: "sendRequestVote (vcArgs c) r (peers s (vcFrom c)) = Inr (rf', b)"
  shows "election_inv n ((set_peer (vcFrom c) rf' s)\<lparr>calls := calls s - {c}\<rparr>)"
proof -
  have ca: "inv_calls n (peers s) (calls s) (granted s)" and pe: "inv_peers n (peers s)"
    using inv by (simp_all add: election_inv_def)
  note cd = inv_callsD[OF ca c(1)]
  have d: "durable rf'" using inv_peersD[OF pe] cd sendRequestVote_durable[OF _ st] by blast
  from sendRequestVote_cases[OF st] show ?thesis
  proof (elim disjE conjE)
    assume "vote_counted (vcArgs c) r (peers s (vcFrom c)) rf'"
    from election_inv_vote[OF inv c this d] show ?thesis by simp
  next
    assume "rf' = peers s (vcFrom c)"
    then have "election_inv n (set_peer (vcFrom c) rf' s)"
      using inv by (simp add: election_inv_def)
    from election_inv_lost[OF this] show ?thesis by simp
  next
    assume "rf' = (peers s (vcFrom c))\<lparr>state := Follower\<rparr>"
    then have "election_inv n (set_peer (vcFrom c) rf' s)"
      using cd d by (intro election_inv_quiet[OF inv, of "vcFrom c" rf']) (auto simp: quiet_step_def vote_step_def)
    from election_inv_lost[OF this] show ?thesis by simp
  qed
qed

lemma new_calls_election:
  assumes "startElection rnd rf = Inr (rf', ms)" "c \<in> new_calls i e ms"
  shows "vcFrom c = i" "vcTo c \<in> set (otherPeers rf)" "vcReply c = None" "vcEpoch c = e"
    "rvTerm (vcArgs c) = currentTerm rf'" "rvCandidateId (vcArgs c) = me rf"
    "rvLastLogIndex (vcArgs c) = lastIncludedIndex rf + loglen rf"
    "log rf \<noteq> []" "rvLastLogTerm (vcArgs c) = eTerm (last (log rf))"
  using assms(2) by (auto simp: new_calls_def elim!: startElection_msgs[OF assms(1)])

lemma new_calls_unique:
  assumes "startElection rnd rf = Inr (rf', ms)" "c \<in> new_calls i e ms" "c' \<in> new_calls i e ms" "vcTo c = vcTo c'"
  shows "c = c'"
proof -
  have "vcArgs c = vcArgs c'"
    using new_calls_election[OF assms(1,2)] new_calls_election[OF assms(1,3)]
    by (cases "vcArgs c"; cases "vcArgs c'") simp
  then show ?thesis
    using new_calls_election[OF assms(1,2)] new_calls_election[OF assms(1,3)] assms(4)
    by (cases c; cases c') simp
qed

lemma election_inv_start:
  assumes inv: "election_inv n s" and i: "0 \<le> i" "i < int n"
    and se: "startElection rnd (peers s i) = Inr (rf', ms)" and st: "state (peers s i) = Candidate"
    and s': "peers s' = (peers s)(i := rf')" "calls s' = calls s \<union> new_calls i e ms"
      "granted s' = insert (i, currentTerm rf', i) (granted s)"
  shows "election_inv n s'"
proof -
  let ?P = "peers s" and ?C = "calls s" and ?G = "granted s" and ?t = "currentTerm rf'"
  let ?P' = "?P(i := rf')" and ?N = "new_calls i e ms" and ?G' = "insert (i, currentTerm rf', i) (granted s)"
  have pe: "inv_peers n ?P" and gr: "inv_granted n ?P ?G" and ca: "inv_calls n ?P ?C ?G"
    and co: "inv_count n ?P ?C ?G" and le: "inv_leader n ?P ?G"
    using inv by (auto simp: election_inv_def)
  note f = startElection_fields[OF se] and pi = inv_peersD[OF pe i] and nc = new_calls_election[OF se]
  have vs: "vote_step (?P i) rf'" using f by (simp add: vote_step_def)
  have gr0: "inv_granted n ?P' ?G" by (rule inv_granted_upd[OF gr vs])
  have gr': "inv_granted n ?P' ?G'"
    using i f pi by (intro inv_granted_insert[OF gr0]) auto
  have fresh: "(v, ?t, i) \<notin> ?G" for v
    using inv_grantedD(6)[OF gr, of v ?t i] f(1) by auto
  have old: "rvTerm (vcArgs c) \<noteq> ?t" if "c \<in> ?C" "vcFrom c = i" for c
    using inv_callsD(7)[OF ca that(1)] fresh that(2) by auto
  have rng: "vcTo c \<noteq> i \<and> 0 \<le> vcTo c \<and> vcTo c < int n" if "c \<in> ?N" for c
    using nc(2)[OF that] pi by (auto simp: set_otherPeers)
  have ca': "inv_calls n ?P' (?C \<union> ?N) ?G'"
    unfolding inv_calls_def
  proof (rule conjI; intro ballI impI)
    fix c assume "c \<in> ?C \<union> ?N"
    then show "0 \<le> vcFrom c \<and> vcFrom c < int n \<and> 0 \<le> vcTo c \<and> vcTo c < int n \<and> vcTo c \<noteq> vcFrom c \<and>
        rvCandidateId (vcArgs c) = vcFrom c \<and> (vcFrom c, rvTerm (vcArgs c), vcFrom c) \<in> ?G' \<and>
        (\<forall>r. vcReply c = Some r \<longrightarrow> rvrVoteGranted r \<longrightarrow> (vcTo c, rvTerm (vcArgs c), vcFrom c) \<in> ?G')"
    proof
      assume "c \<in> ?C"
      with inv_callsD[OF ca this] show ?thesis by blast
    next
      assume c: "c \<in> ?N"
      with nc[OF c] rng[OF c] i pi show ?thesis by auto
    qed
  next
    fix c c' assume "c \<in> ?C \<union> ?N" "c' \<in> ?C \<union> ?N" "vcFrom c = vcFrom c'" "vcTo c = vcTo c'"
      "rvTerm (vcArgs c) = rvTerm (vcArgs c')"
    then show "c = c'"
      using old nc(1,5) inv_calls_unique[OF ca, of c c'] new_calls_unique[OF se, of c i e c'] by (metis UnE)
  qed
  have "counted (?C \<union> ?N) ?G' j u = counted ?C ?G j u" if "j \<noteq> i" for j u
    using that nc(1) by (auto simp: counted_def)
  moreover have "counted (?C \<union> ?N) ?G' i ?t = {i}"
    using fresh old rng by (auto simp: counted_def)
  ultimately have co': "inv_count n ?P' (?C \<union> ?N) ?G'"
    using co f(3) by (auto simp: inv_count_def)
  have "inv_leader n ?P' ?G'" using le st f(6) by (auto simp: inv_leader_def)
  with inv_peers_upd[OF pe i vs f(13)] gr' ca' co' s' show ?thesis by (simp add: election_inv_def)
qed

lemma leaderArgs_not_vote: "leaderArgs i rf \<noteq> Inr (SendRequestVote j a)"
  by (auto simp: leaderArgs_def Let_def bindR_eq_Inr split: if_splits)

lemma new_calls_empty: "ticker rnd ev rf = Inr (rf', ms) \<Longrightarrow> \<not> voting_in (PTick rnd ev) rf \<Longrightarrow> new_calls i e ms = {}"
  by (auto simp: new_calls_def ticker_def handlePreVote_def Let_def leaderArgs_not_vote
      dest!: doLeader_result(2) split: if_splits TickEvent.splits RaftRole.splits)

lemma election_inv_crash:
  assumes inv: "election_inv n s" and i: "0 \<le> i" "i < int n"
    and s': "peers s' = (peers s)(i := restart rnd now (peers s i))" "calls s' = calls s" "granted s' = granted s"
  shows "election_inv n s'"
proof -
  have pe: "inv_peers n (peers s)" using inv by (auto simp: election_inv_def)
  note d = inv_peersD[OF pe i, THEN conjunct2, THEN conjunct2]
  have "vote_step (peers s i) (restart rnd now (peers s i))"
    by (simp add: vote_step_def restart_fields[OF d])
  with inv i s' durable_restart[OF d] show ?thesis
    by (auto simp: election_inv_def inv_count_def inv_leader_def restart_fields[OF d] inv_calls_def
        intro: inv_peers_upd inv_granted_upd)
qed

lemma election_inv_step:
  assumes inv: "election_inv n s" and step: "cluster_step compact n s s'"
  shows "election_inv n s'"
  using step
proof cases
  case (vote_request c rf' r)
  then show ?thesis by (intro election_inv_request[OF inv, of c rf' r]) auto
next
  case (vote_reply c r rf' b)
  with election_inv_reply[OF inv, of c r rf' b] show ?thesis by simp
next
  case (vote_lost c)
  with election_inv_lost[OF inv] show ?thesis by simp
next
  case (tick i rnd ev rf' ms)
  have d: "durable (peers s i)" using inv tick inv_peersD by (fastforce simp: election_inv_def)
  show ?thesis
  proof (cases "voting_in (PTick rnd ev) (peers s i)")
    case True
    with tick have "startElection rnd (peers s i) = Inr (rf', ms)" by (simp add: ticker_def)
    with True tick show ?thesis by (intro election_inv_start[OF inv, of i rnd rf' ms]) auto
  next
    case False
    with tick ticker_durable[OF d] ticker_quiet new_calls_empty show ?thesis
      by (intro election_inv_quiet[OF inv, of i rf']) fastforce+
  qed
next
  case (append i args rnd rf' r)
  have "durable (peers s i)" using inv append inv_peersD by (fastforce simp: election_inv_def)
  with append AppendEntries_durable AppendEntries_quiet show ?thesis
    by (intro election_inv_quiet[OF inv, of i rf']) auto
next
  case (append_reply j args r i rnd rf' b)
  have "durable (peers s i)" using inv append_reply inv_peersD by (fastforce simp: election_inv_def)
  with append_reply sendAppendEntries_durable sendAppendEntries_quiet show ?thesis
    by (intro election_inv_quiet[OF inv, of i rf']) auto
next
  case (local i inp rf')
  have "durable (peers s i)" using inv local inv_peersD by (fastforce simp: election_inv_def)
  moreover have "\<not> voting_in inp (peers s i)" using local(4) by (cases inp) auto
  ultimately show ?thesis using local peer_step_durable peer_step_quiet
    by (intro election_inv_quiet[OF inv, of i rf']) auto
next
  case (crash i rnd now)
  then show ?thesis by (intro election_inv_crash[OF inv, of i]) auto
qed

lemma election_inv_init: "cluster_init n s \<Longrightarrow> election_inv n s"
proof -
  assume init: "cluster_init n s"
  have "me (peers s i) = i \<and> npeers (peers s i) = n \<and> durable (peers s i) \<and> state (peers s i) = Follower"
    if "0 \<le> i" "i < int n" for i
    using init that Make_pristine
    by (fastforce simp: cluster_init_def durable_def Make_def MakePersister_def ReadRaftState_def
        ReadSnapshot_def readPersist_def readSnapshot_def Let_def pristine_def)
  with init show ?thesis
    by (auto simp: election_inv_def cluster_init_def inv_peers_def inv_granted_def inv_calls_def
        inv_count_def inv_leader_def)
qed

lemma election_inv_reachable: "reachable compact n s \<Longrightarrow> election_inv n s"
  by (induction rule: reachable.induct) (auto intro: election_inv_init election_inv_step)

lemma leader_majority:
  assumes "election_inv n s" "0 \<le> i" "i < int n" "state (peers s i) = Leader"
  shows "n div 2 < card {j. (j, currentTerm (peers s i), i) \<in> granted s}"
proof -
  let ?t = "currentTerm (peers s i)" and ?M = "{j. (j, currentTerm (peers s i), i) \<in> granted s}"
  have gr: "inv_granted n (peers s) (granted s)" using assms by (simp add: election_inv_def)
  then have "?M \<subseteq> {0..<int n}" using inv_grantedD(1,2) by fastforce
  then have "card (counted (calls s) (granted s) i ?t) \<le> card ?M"
    using finite_subset by (intro card_mono) (auto simp: counted_def)
  moreover have "int n div 2 < voteCount (peers s i)"
    "voteCount (peers s i) \<le> int (card (counted (calls s) (granted s) i ?t))"
    using assms by (auto simp: election_inv_def inv_leader_def inv_count_def)
  ultimately show ?thesis by linarith
qed

lemma one_winner:
  assumes gr: "inv_granted n P G"
    and "n div 2 < card {v. (v, t, i) \<in> G}" "n div 2 < card {v. (v, t, j) \<in> G}"
  shows "i = j"
proof -
  have "{v. (v, t, k) \<in> G} \<subseteq> {0..<int n}" for k using inv_grantedD(1,2)[OF gr] by auto
  then have "{v. (v, t, i) \<in> G} \<inter> {v. (v, t, j) \<in> G} \<noteq> {}"
    using assms by (intro majorities_meet[of "{0..<int n}" _ _ n]) auto
  with inv_granted_fun[OF gr] show ?thesis by blast
qed

end
