(* ===== verification/RaftLogs.thy ===== *)
theory RaftLogs
  imports RaftCluster "HOL-Library.Sublist"
begin

text \<open>
  The logs of a cluster that takes no snapshots: every log is assembled from prefixes of
  what the leaders of the terms of its entries wrote. Log matching follows.
\<close>

subsection \<open>Logs assembled from leaders' logs\<close>

definition placeholder :: "'c LogEntry" where
  "placeholder = \<lparr>eTerm = -1, eCommand = None\<rparr>"

definition assembled :: "(int \<Rightarrow> 'c LogEntry list option) \<Rightarrow> 'c LogEntry list \<Rightarrow> bool" where
  "assembled L xs \<longleftrightarrow> xs \<noteq> [] \<and> xs ! 0 = placeholder \<and>
     (\<forall>k. 0 < k \<and> k < length xs \<longrightarrow>
        (\<exists>l. L (eTerm (xs ! k)) = Some l \<and> k < length l \<and> take (Suc k) xs = take (Suc k) l))"

definition extends ::
  "(int \<Rightarrow> 'c LogEntry list option) \<Rightarrow> (int \<Rightarrow> 'c LogEntry list option) \<Rightarrow> bool" where
  "extends L L' \<longleftrightarrow> (\<forall>t l. L t = Some l \<longrightarrow> (\<exists>l'. L' t = Some l' \<and> prefix l l'))"

lemma extends_refl [simp]: "extends L L"
  by (simp add: extends_def)

lemma extends_upd:
  "L t = None \<or> (\<exists>l. L t = Some l \<and> prefix l l') \<Longrightarrow> extends L (L(t \<mapsto> l'))"
  by (auto simp: extends_def)

lemma prefix_take: "prefix l l' \<Longrightarrow> k \<le> length l \<Longrightarrow> take k l' = take k l"
  by (auto simp: prefix_def)

lemma assembled_extends:
  assumes "assembled L xs" "extends L L'"
  shows "assembled L' xs"
  unfolding assembled_def
proof (intro conjI allI impI)
  show "xs \<noteq> []" "xs ! 0 = placeholder" using assms(1) by (simp_all add: assembled_def)
  fix k assume k: "0 < k \<and> k < length xs"
  with assms(1) obtain l where l: "L (eTerm (xs ! k)) = Some l" "k < length l" "take (Suc k) xs = take (Suc k) l"
    by (auto simp: assembled_def)
  with assms(2) obtain l' where "L' (eTerm (xs ! k)) = Some l'" "prefix l l'" by (auto simp: extends_def)
  with l prefix_take[of l l' "Suc k"] prefix_length_le[of l l']
  show "\<exists>l. L' (eTerm (xs ! k)) = Some l \<and> k < length l \<and> take (Suc k) xs = take (Suc k) l" by auto
qed

lemma assembled_matching:
  assumes "assembled L xs" "assembled L ys" "k < length xs" "k < length ys" "eTerm (xs ! k) = eTerm (ys ! k)"
  shows "take (Suc k) xs = take (Suc k) ys"
proof (cases "k = 0")
  case True
  with assms show ?thesis by (cases xs; cases ys) (auto simp: assembled_def)
next
  case False
  with assms show ?thesis unfolding assembled_def by (metis neq0_conv option.inject)
qed

lemma assembled_take:
  assumes "assembled L xs" "0 < m"
  shows "assembled L (take m xs)"
  using assms by (auto simp: assembled_def min_def)

text \<open>Appending an entry of the leader's own term.\<close>

lemma assembled_snoc:
  assumes "assembled L xs" "L t = Some (xs @ [e])" "eTerm e = t"
  shows "assembled L (xs @ [e])"
  unfolding assembled_def
proof (intro conjI allI impI)
  show "xs @ [e] \<noteq> []" "(xs @ [e]) ! 0 = placeholder" using assms(1) by (auto simp: assembled_def nth_append)
  fix k assume k: "0 < k \<and> k < length (xs @ [e])"
  show "\<exists>l. L (eTerm ((xs @ [e]) ! k)) = Some l \<and> k < length l \<and> take (Suc k) (xs @ [e]) = take (Suc k) l"
  proof (cases "k < length xs")
    case True
    with k assms(1) show ?thesis by (auto simp: assembled_def nth_append)
  next
    case False
    with k have "k = length xs" by simp
    with assms show ?thesis by simp
  qed
qed

text \<open>Merging a slice of a leader's log at a point where the logs agree.\<close>

lemma merge_slice:
  assumes xs: "assembled L xs" and l: "assembled L l"
    and p: "p < length xs" "p < m" "m \<le> length l" "eTerm (xs ! p) = eTerm (l ! p)"
  shows "mergeSpec xs (Suc p) (drop (Suc p) (take m l)) = (if take m xs = take m l then xs else take m l)"
    and "assembled L (mergeSpec xs (Suc p) (drop (Suc p) (take m l)))"
proof -
  let ?es = "drop (Suc p) (take m l)"
  let ?j = "commonTerms (drop (Suc p) xs) ?es"
  have len: "length ?es = m - Suc p" using p by simp
  have j: "?j \<le> length xs - Suc p" "?j \<le> m - Suc p"
    using commonTerms_le[of "drop (Suc p) xs" ?es] p(3) by auto
  have agree: "take (Suc p + ?j) xs = take (Suc p + ?j) l"
  proof (cases "?j = 0")
    case True
    with assembled_matching[OF xs l p(1) _ p(4)] p show ?thesis by simp
  next
    case False
    then have "eTerm (drop (Suc p) xs ! (?j - 1)) = eTerm (?es ! (?j - 1))"
      by (intro commonTerms_eq) simp
    then have "eTerm (xs ! (p + ?j)) = eTerm (l ! (p + ?j))"
      using False j p(1,2,3) by simp
    then have "take (Suc (p + ?j)) xs = take (Suc (p + ?j)) l"
      using j p False by (intro assembled_matching[OF xs l]) auto
    then show ?thesis by simp
  qed
  show *: "mergeSpec xs (Suc p) ?es = (if take m xs = take m l then xs else take m l)"
  proof (cases "?j = length ?es")
    case True
    with len p have "Suc p + ?j = m" by simp
    with agree True show ?thesis by (simp add: mergeSpec_def)
  next
    case False
    with j len have lt: "Suc p + ?j < m" by simp
    have "take (Suc p + ?j) xs @ drop ?j ?es = take (Suc p + ?j) (take m l) @ drop (Suc p + ?j) (take m l)"
      using lt by (simp only: agree) (simp add: min_def add.commute)
    then have "take (Suc p + ?j) xs @ drop ?j ?es = take m l" by (simp only: append_take_drop_id)
    moreover have "take m xs \<noteq> take m l"
    proof
      assume eq: "take m xs = take m l"
      with p(3) have "m \<le> length xs" by (metis length_take min.absorb_iff2 min.cobounded1)
      with lt have "?j < length (drop (Suc p) xs)" "?j < length ?es" using len by auto
      from commonTerms_stop[OF this(2,1)] have "eTerm (xs ! (Suc p + ?j)) \<noteq> eTerm (l ! (Suc p + ?j))"
        using lt p(3) \<open>m \<le> length xs\<close> by simp
      moreover have "xs ! (Suc p + ?j) = l ! (Suc p + ?j)" using eq lt by (metis nth_take)
      ultimately show False by simp
    qed
    ultimately show ?thesis using False by (simp add: mergeSpec_def)
  qed
  show "assembled L (mergeSpec xs (Suc p) ?es)"
    unfolding * using xs assembled_take[OF l, of m] p(2) by simp
qed

subsection \<open>A term is won once\<close>

text \<open>
  The winner of a term that is still in that term has its majority counted already, or
  has crashed since and no longer hears the replies to the calls it made.
\<close>

definition won :: "nat \<Rightarrow> ('c, 'd) cluster \<Rightarrow> int \<Rightarrow> int \<Rightarrow> bool" where
  "won n s t w \<longleftrightarrow> 0 \<le> w \<and> w < int n \<and> n div 2 < card {v. (v, t, w) \<in> granted s} \<and>
     (currentTerm (peers s w) = t \<longrightarrow> voteCount (peers s w) > int n div 2 \<or>
        (\<forall>c \<in> calls s. vcFrom c = w \<longrightarrow> rvTerm (vcArgs c) = t \<longrightarrow> vcEpoch c \<noteq> epoch s w))"

definition epochs_ok :: "('c, 'd) cluster \<Rightarrow> bool" where
  "epochs_ok s \<longleftrightarrow> (\<forall>c \<in> calls s. vcEpoch c \<le> epoch s (vcFrom c))"

text \<open>What any step does to votes, calls and counts.\<close>

definition ballot_step :: "nat \<Rightarrow> ('c, 'd) cluster \<Rightarrow> ('c, 'd) cluster \<Rightarrow> bool" where
  "ballot_step n s s' \<longleftrightarrow>
     granted s \<subseteq> granted s' \<and> (\<forall>i. epoch s i \<le> epoch s' i) \<and>
     (\<forall>c \<in> calls s'.
        (\<exists>c0 \<in> calls s. vcFrom c0 = vcFrom c \<and> vcArgs c0 = vcArgs c \<and> vcEpoch c0 = vcEpoch c) \<or>
        rvTerm (vcArgs c) > currentTerm (peers s (vcFrom c)) \<and> vcEpoch c = epoch s (vcFrom c)) \<and>
     (\<forall>i. 0 \<le> i \<and> i < int n \<longrightarrow> currentTerm (peers s i) \<le> currentTerm (peers s' i) \<and>
        (currentTerm (peers s' i) = currentTerm (peers s i) \<longrightarrow>
           voteCount (peers s i) \<le> voteCount (peers s' i) \<or> epoch s i < epoch s' i))"

lemma quiet_count:
  "quiet_step rf rf' \<Longrightarrow> currentTerm rf \<le> currentTerm rf' \<and>
     (currentTerm rf' = currentTerm rf \<longrightarrow> voteCount rf' = voteCount rf)"
  by (auto simp: quiet_step_def vote_step_def)

lemma ballot_step_peer:
  assumes "peers s' = (peers s)(i := rf)" "currentTerm (peers s i) \<le> currentTerm rf"
    "currentTerm rf = currentTerm (peers s i) \<Longrightarrow> voteCount (peers s i) \<le> voteCount rf \<or> epoch s i < epoch s' i"
    "granted s \<subseteq> granted s'" "\<And>i. epoch s i \<le> epoch s' i"
    "\<And>c. c \<in> calls s' \<Longrightarrow>
        (\<exists>c0 \<in> calls s. vcFrom c0 = vcFrom c \<and> vcArgs c0 = vcArgs c \<and> vcEpoch c0 = vcEpoch c) \<or>
        rvTerm (vcArgs c) > currentTerm (peers s (vcFrom c)) \<and> vcEpoch c = epoch s (vcFrom c)"
  shows "ballot_step n s s'"
  using assms unfolding ballot_step_def by auto

lemma cluster_step_ballot:
  assumes inv: "election_inv n s" and step: "cluster_step compact n s s'"
  shows "ballot_step n s s'"
  using step
proof cases
  case (vote_request c rf' r)
  have "currentTerm (peers s (vcTo c)) \<le> currentTerm rf'" "voteCount rf' = voteCount (peers s (vcTo c))"
    using RequestVote_vote_step[OF vote_request(3)] RequestVote_frame[OF vote_request(3)]
    by (simp_all add: vote_step_def)
  with vote_request(1,2) show ?thesis by (intro ballot_step_peer[of s' s "vcTo c" rf']) auto
next
  case (vote_reply c r rf' b)
  from sendRequestVote_cases[OF vote_reply(5)]
  have "currentTerm rf' = currentTerm (peers s (vcFrom c)) \<and> voteCount (peers s (vcFrom c)) \<le> voteCount rf'"
    by (auto simp: vote_counted_def)
  with vote_reply show ?thesis by (intro ballot_step_peer[of s' s "vcFrom c" rf']) auto
next
  case (vote_lost c)
  then show ?thesis by (auto simp: ballot_step_def)
next
  case (tick i rnd ev rf' ms)
  show ?thesis
  proof (cases "voting_in (PTick rnd ev) (peers s i)")
    case True
    with tick have se: "startElection rnd (peers s i) = Inr (rf', ms)" by (simp add: ticker_def)
    note f = startElection_fields[OF se] and nc = new_calls_election[OF se]
    have "rvTerm (vcArgs c) > currentTerm (peers s (vcFrom c)) \<and> vcEpoch c = epoch s (vcFrom c)"
      if "c \<in> new_calls i (epoch s i) ms" for c
      using nc(1,4,5)[OF that] f(1) by simp
    with tick f show ?thesis by (intro ballot_step_peer[of s' s i rf']) auto
  next
    case False
    with quiet_count[OF ticker_quiet[OF tick(4)]] new_calls_empty[OF tick(4)] tick(1) show ?thesis
      by (intro ballot_step_peer[of s' s i rf']) auto
  qed
next
  case (append i args rnd rf' r)
  from quiet_count[OF AppendEntries_quiet[OF append(5)]] append(1) show ?thesis
    by (intro ballot_step_peer[of s' s i rf']) auto
next
  case (append_reply j args r i rnd rf' b)
  from quiet_count[OF sendAppendEntries_quiet[OF append_reply(6)]] append_reply(1) show ?thesis
    by (intro ballot_step_peer[of s' s i rf']) auto
next
  case (local i inp rf')
  have "\<not> voting_in inp (peers s i)" using local(4) by (cases inp) auto
  from quiet_count[OF peer_step_quiet[OF local(5) this]] local(1) show ?thesis
    by (intro ballot_step_peer[of s' s i rf']) auto
next
  case (crash i rnd now)
  have "durable (peers s i)" using inv crash inv_peersD by (fastforce simp: election_inv_def)
  with crash show ?thesis by (intro ballot_step_peer[of s' s i]) (auto simp: restart_fields)
qed

lemma epochs_ok_step: "epochs_ok s \<Longrightarrow> ballot_step n s s' \<Longrightarrow> epochs_ok s'"
  unfolding epochs_ok_def ballot_step_def by (metis order_trans order_refl)

lemma granted_card_mono:
  assumes "inv_granted n P G'" "G \<subseteq> G'"
  shows "card {v. (v, t, w) \<in> G} \<le> card {v. (v, t, w) \<in> G'}"
proof (rule card_mono)
  have "{v. (v, t, w) \<in> G'} \<subseteq> {0..<int n}" using inv_grantedD(1,2)[OF assms(1)] by auto
  then show "finite {v. (v, t, w) \<in> G'}" by (rule finite_subset) simp
qed (use assms(2) in auto)

lemma won_step:
  assumes inv: "election_inv n s" "election_inv n s'" and ep: "epochs_ok s" and b: "ballot_step n s s'"
    and w: "won n s t w"
  shows "won n s' t w"
proof -
  have gr: "inv_granted n (peers s) (granted s)" and gr': "inv_granted n (peers s') (granted s')"
    using inv by (simp_all add: election_inv_def)
  have "n div 2 < card {v. (v, t, w) \<in> granted s'}"
    using w granted_card_mono[OF gr', of "granted s" t w] b by (simp add: won_def ballot_step_def)
  moreover have "voteCount (peers s' w) > int n div 2 \<or>
      (\<forall>c \<in> calls s'. vcFrom c = w \<longrightarrow> rvTerm (vcArgs c) = t \<longrightarrow> vcEpoch c \<noteq> epoch s' w)"
    if t: "currentTerm (peers s' w) = t"
  proof -
    have "{v. (v, t, w) \<in> granted s} \<noteq> {}" using w unfolding won_def by (metis card.empty not_less_zero)
    then have "t \<le> currentTerm (peers s w)" using inv_grantedD(6)[OF gr] by blast
    then have eq: "currentTerm (peers s w) = t" using t b w by (fastforce simp: ballot_step_def won_def)
    have old: "vcEpoch c < epoch s' w"
      if "c \<in> calls s'" "vcFrom c = w" "rvTerm (vcArgs c) = t"
        and "epoch s w < epoch s' w \<or> (\<forall>c \<in> calls s. vcFrom c = w \<longrightarrow> rvTerm (vcArgs c) = t \<longrightarrow> vcEpoch c \<noteq> epoch s w)"
      for c
    proof -
      from b that(1-3) eq obtain c0 where c0: "c0 \<in> calls s" "vcFrom c0 = w" "vcArgs c0 = vcArgs c" "vcEpoch c0 = vcEpoch c"
        unfolding ballot_step_def by (metis less_irrefl)
      with ep have "vcEpoch c \<le> epoch s w" unfolding epochs_ok_def by metis
      moreover have "epoch s w \<le> epoch s' w" using b by (simp add: ballot_step_def)
      moreover have "epoch s w < epoch s' w \<or> vcEpoch c \<noteq> epoch s w" using that(3,4) c0 by metis
      ultimately show ?thesis by linarith
    qed
    have cnt: "voteCount (peers s w) \<le> voteCount (peers s' w) \<or> epoch s w < epoch s' w"
      using b w t eq by (simp add: ballot_step_def won_def)
    have "voteCount (peers s w) > int n div 2 \<or>
        (\<forall>c \<in> calls s. vcFrom c = w \<longrightarrow> rvTerm (vcArgs c) = t \<longrightarrow> vcEpoch c \<noteq> epoch s w)"
      using w eq by (simp add: won_def)
    then show ?thesis
    proof
      assume "voteCount (peers s w) > int n div 2"
      with cnt show ?thesis using old by (cases "epoch s w < epoch s' w") (auto dest: less_imp_neq)
    next
      assume "\<forall>c \<in> calls s. vcFrom c = w \<longrightarrow> rvTerm (vcArgs c) = t \<longrightarrow> vcEpoch c \<noteq> epoch s w"
      with old show ?thesis by (auto dest: less_imp_neq)
    qed
  qed
  ultimately show ?thesis using w by (simp add: won_def)
qed

subsection \<open>The log invariant\<close>

text \<open>A request in flight is a slice of the log its leader had, and not addressed to that leader.\<close>

definition sent_ok :: "nat \<Rightarrow> ('c, 'd) cluster \<Rightarrow> int \<Rightarrow> 'c AppendEntriesArgs \<Rightarrow> bool" where
  "sent_ok n s j args \<longleftrightarrow>
     (\<exists>l m p w. leaderLog s (aeTerm args) = Some l \<and> aePrevLogIndex args = int p \<and> p < m \<and> m \<le> length l \<and>
        aePrevLogTerm args = eTerm (l ! p) \<and> aeEntries args = drop (Suc p) (take m l) \<and>
        won n s (aeTerm args) w \<and> j \<noteq> w)"

definition log_inv :: "nat \<Rightarrow> ('c, 'd) cluster \<Rightarrow> bool" where
  "log_inv n s \<longleftrightarrow>
     (\<forall>i. 0 \<le> i \<and> i < int n \<longrightarrow> lastIncludedIndex (peers s i) = 0 \<and>
        assembled (leaderLog s) (log (peers s i)) \<and>
        (state (peers s i) = Leader \<longrightarrow> leaderLog s (currentTerm (peers s i)) = Some (log (peers s i)))) \<and>
     (\<forall>t l. leaderLog s t = Some l \<longrightarrow> assembled (leaderLog s) l \<and> (\<exists>w. won n s t w)) \<and>
     (\<forall>(j, args) \<in> appends s. sent_ok n s j args)"

lemma log_invD:
  assumes "log_inv n s" "0 \<le> i" "i < int n"
  shows "lastIncludedIndex (peers s i) = 0" "assembled (leaderLog s) (log (peers s i))"
    "state (peers s i) = Leader \<Longrightarrow> leaderLog s (currentTerm (peers s i)) = Some (log (peers s i))"
  using assms by (auto simp: log_inv_def)

lemma log_inv_leaderD:
  assumes "log_inv n s" "leaderLog s t = Some l"
  shows "assembled (leaderLog s) l" "\<exists>w. won n s t w"
  using assms by (auto simp: log_inv_def)

lemma leader_won:
  assumes "election_inv n s" "0 \<le> i" "i < int n" "state (peers s i) = Leader"
  shows "won n s (currentTerm (peers s i)) i"
  using leader_majority[OF assms] assms by (auto simp: won_def election_inv_def inv_leader_def)

lemma won_unique:
  assumes "election_inv n s" "won n s t i" "won n s t j"
  shows "i = j"
  using assms one_winner[of n "peers s" "granted s" t i j] by (simp add: election_inv_def won_def)

lemma sent_ok_step:
  assumes inv: "election_inv n s" "election_inv n s'" and ep: "epochs_ok s" and b: "ballot_step n s s'"
    and e: "extends (leaderLog s) (leaderLog s')" and ok: "sent_ok n s j args"
  shows "sent_ok n s' j args"
proof -
  from ok obtain l m p w where l: "leaderLog s (aeTerm args) = Some l" "aePrevLogIndex args = int p" "p < m"
      "m \<le> length l" "aePrevLogTerm args = eTerm (l ! p)" "aeEntries args = drop (Suc p) (take m l)"
    and w: "won n s (aeTerm args) w" "j \<noteq> w"
    by (auto simp: sent_ok_def)
  from e l(1) obtain l' where l': "leaderLog s' (aeTerm args) = Some l'" "prefix l l'"
    by (auto simp: extends_def)
  then obtain zs where "l' = l @ zs" by (auto simp: prefix_def)
  then have "m \<le> length l'" "eTerm (l' ! p) = eTerm (l ! p)" "take m l' = take m l"
    using l(3,4) by (auto simp: nth_append)
  with l l' w won_step[OF inv ep b w(1)] show ?thesis unfolding sent_ok_def by metis
qed

text \<open>One peer moves to \<open>rf\<close>; a leader's log may only grow.\<close>

lemma log_inv_update:
  assumes inv: "log_inv n s" "election_inv n s" "election_inv n s'" and ep: "epochs_ok s" and b: "ballot_step n s s'"
    and i: "0 \<le> i" "i < int n"
    and s': "peers s' = (peers s)(i := rf)" "leaderLog s' = leaderLog (set_peer i rf s)"
    and rf: "lastIncludedIndex rf = 0" "assembled (leaderLog s') (log rf)"
    and grow: "state rf = Leader \<Longrightarrow> leaderLog s (currentTerm rf) = None \<or>
        (\<exists>l. leaderLog s (currentTerm rf) = Some l \<and> prefix l (log rf))"
    and app: "\<And>j args. (j, args) \<in> appends s' - appends s \<Longrightarrow> sent_ok n s' j args"
  shows "log_inv n s'"
proof -
  let ?L = "leaderLog s" and ?L' = "leaderLog s'" and ?t = "currentTerm rf"
  have L': "?L' = (if state rf = Leader then ?L(?t \<mapsto> log rf) else ?L)"
    using s'(2) by (simp add: set_peer_def)
  have ext: "extends ?L ?L'" using grow L' extends_upd[of ?L ?t "log rf"] by simp
  have ldr: "?L' (currentTerm (peers s' j)) = Some (log (peers s' j))"
    if j: "0 \<le> j" "j < int n" "state (peers s' j) = Leader" for j
  proof (cases "j = i")
    case True
    with j L' s'(1) show ?thesis by simp
  next
    case False
    then have old: "?L (currentTerm (peers s' j)) = Some (log (peers s' j))"
      using j s'(1) log_invD(3)[OF inv(1) j(1,2)] by simp
    have "currentTerm (peers s' j) \<noteq> ?t" if "state rf = Leader"
      using leader_won[OF inv(3) j] leader_won[OF inv(3) i] won_unique[OF inv(3)] that s'(1) False by fastforce
    with old L' show ?thesis by simp
  qed
  have "assembled ?L' l \<and> (\<exists>w. won n s' t w)" if "?L' t = Some l" for t l
  proof (cases "state rf = Leader \<and> t = ?t")
    case True
    with that L' have "l = log rf" by simp
    moreover have "won n s' t i" using leader_won[OF inv(3) i] True s'(1) by simp
    ultimately show ?thesis using rf(2) by blast
  next
    case False
    with that L' have "?L t = Some l" by (auto split: if_splits)
    from log_inv_leaderD[OF inv(1) this] ext won_step[OF inv(2,3) ep b] show ?thesis
      by (blast intro: assembled_extends)
  qed
  moreover have "lastIncludedIndex (peers s' j) = 0 \<and> assembled ?L' (log (peers s' j))" if "0 \<le> j" "j < int n" for j
    using s'(1) rf log_invD[OF inv(1) that] assembled_extends[OF _ ext] by simp
  moreover have "sent_ok n s' j args" if "(j, args) \<in> appends s'" for j args
    using that app sent_ok_step[OF inv(2,3) ep b ext] inv(1) by (cases "(j, args) \<in> appends s") (auto simp: log_inv_def)
  ultimately show ?thesis using ldr by (auto simp: log_inv_def)
qed

lemma log_inv_same:
  assumes "log_inv n s" "election_inv n s" "election_inv n s'" "epochs_ok s" "ballot_step n s s'"
    and i: "0 \<le> i" "i < int n"
    and "peers s' = (peers s)(i := rf)" "leaderLog s' = leaderLog (set_peer i rf s)"
    and rf: "lastIncludedIndex rf = lastIncludedIndex (peers s i)" "log rf = log (peers s i)"
      "state rf = Leader \<Longrightarrow> state (peers s i) = Leader \<and> currentTerm rf = currentTerm (peers s i)"
    and "\<And>j args. (j, args) \<in> appends s' - appends s \<Longrightarrow> sent_ok n s' j args"
  shows "log_inv n s'"
proof (rule log_inv_update[OF assms(1-9)])
  note d = log_invD[OF assms(1) i]
  show "lastIncludedIndex rf = 0" using rf d by simp
  have "leaderLog s' = leaderLog s"
    using assms(9) rf d by (auto simp: set_peer_def)
  then show "assembled (leaderLog s') (log rf)" using rf d by simp
  show "state rf = Leader \<Longrightarrow> leaderLog s (currentTerm rf) = None \<or>
        (\<exists>l. leaderLog s (currentTerm rf) = Some l \<and> prefix l (log rf))" using rf d by simp
qed (use assms in auto)

lemma leader_new_appends:
  assumes inv: "log_inv n s'" "election_inv n s'" and i: "0 \<le> i" "i < int n"
    and l: "state (peers s' i) = Leader" and dl: "doLeader rf = Inr (peers s' i, ms)"
    and m: "SendAppendEntries j args \<in> set ms"
  shows "sent_ok n s' j args"
proof -
  note r = doLeader_result[OF dl] and d = log_invD[OF inv(1) i]
  from r(2)[OF m] obtain k where k: "k \<in> set (otherPeers rf)" "leaderArgs k rf = Inr (SendAppendEntries j args)" by blast
  have same: "log rf = log (peers s' i)" "currentTerm rf = currentTerm (peers s' i)" "me rf = me (peers s' i)"
    "lastIncludedIndex rf = 0"
    using r(1) d by simp_all
  have ne: "log rf \<noteq> []" using d(2) same by (simp add: assembled_def)
  note a = leaderArgs_append[OF k(2) ne]
  let ?p = "nat (aePrevLogIndex args)" and ?l = "log (peers s' i)"
  have "me (peers s' i) = i" using inv(2) inv_peersD i by (auto simp: election_inv_def)
  then have "j \<noteq> i" using k(1) a(1) same by (simp add: set_otherPeers)
  moreover have "leaderLog s' (aeTerm args) = Some ?l" using d(3)[OF l] a(2) same by simp
  moreover have "aePrevLogIndex args = int ?p" "?p < length ?l" "aePrevLogTerm args = eTerm (?l ! ?p)"
    "aeEntries args = drop (Suc ?p) (take (length ?l) ?l)" using a same by auto
  moreover have "won n s' (aeTerm args) i" using leader_won[OF inv(2) i l] a(2) same by simp
  ultimately show ?thesis unfolding sent_ok_def by blast
qed

lemma ticker_appends:
  assumes "ticker rnd ev rf = Inr (rf', ms)" "SendAppendEntries j args \<in> set ms"
  shows "state rf' = Leader \<and> (\<exists>r. doLeader r = Inr (rf', ms))"
proof -
  have "\<not> voting_in (PTick rnd ev) rf"
  proof
    assume "voting_in (PTick rnd ev) rf"
    with assms(1) have "startElection rnd rf = Inr (rf', ms)" by (simp add: ticker_def)
    from startElection_msgs[OF this assms(2)] show False by blast
  qed
  with assms show ?thesis
    by (auto simp: ticker_def handlePreVote_def Let_def doLeader_result(1)
        split: if_splits TickEvent.splits RaftRole.splits dest: doLeader_result(1))
qed

lemma log_inv_append:
  assumes inv: "log_inv n s" "election_inv n s" "election_inv n (set_peer i rf' s)"
    and ep: "epochs_ok s" and b: "ballot_step n s (set_peer i rf' s)"
    and i: "0 \<le> i" "i < int n" and a: "(i, args) \<in> appends s"
    and st: "AppendEntries rnd args (peers s i) = Inr (rf', r)"
  shows "log_inv n (set_peer i rf' s)"
proof -
  let ?rf = "peers s i"
  note d = log_invD[OF inv(1) i] and q = AppendEntries_quiet[OF st, unfolded quiet_step_def]
  from a inv(1) obtain l m p w where l: "leaderLog s (aeTerm args) = Some l" "aePrevLogIndex args = int p" "p < m"
      "m \<le> length l" "aePrevLogTerm args = eTerm (l ! p)" "aeEntries args = drop (Suc p) (take m l)"
    and w: "won n s (aeTerm args) w" "i \<noteq> w"
    by (auto simp: log_inv_def sent_ok_def)
  show ?thesis
  proof (cases rule: AppendEntries_cases[of args ?rf rnd])
    case accepted
    have nl: "state rf' \<noteq> Leader"
    proof
      assume "state rf' = Leader"
      with accepted st q have "state ?rf = Leader" "aeTerm args = currentTerm ?rf"
        by (auto simp: append_term_role)
      then show False using leader_won[OF inv(2) i] w won_unique[OF inv(2)] by fastforce
    qed
    have acc: "p < length (log ?rf)" "eTerm (log ?rf ! p) = eTerm (l ! p)" "append_pos args ?rf = Suc p"
      using accepted(1) l d(1) by (auto simp: append_accepts_def append_pos_def)
    have lg: "log rf' = mergeSpec (log ?rf) (Suc p) (drop (Suc p) (take m l))"
      using accepted(3) st acc l by auto
    have "assembled (leaderLog s) (log rf')"
      unfolding lg by (rule merge_slice(2)[OF d(2) log_inv_leaderD(1)[OF inv(1) l(1)] acc(1) l(3,4) acc(2)])
    moreover have "lastIncludedIndex rf' = 0" using accepted(3) st d(1) by auto
    moreover have "leaderLog (set_peer i rf' s) = leaderLog s" using nl by (simp add: set_peer_def)
    ultimately show ?thesis
      using nl by (intro log_inv_update[OF inv ep b i, where rf = rf']) auto
  next
    case stale
    then have "rf' = timer_reset rnd ?rf" using st by simp
    then show ?thesis by (intro log_inv_same[OF inv ep b i, where rf = rf']) simp_all
  next
    case refused
    then have "rf' = persist (append_term args (timer_reset rnd ?rf))" using st by simp
    then show ?thesis
      by (intro log_inv_same[OF inv ep b i, where rf = rf']) (simp_all add: append_term_role max_def split: if_splits)
  qed
qed

lemma log_inv_local:
  assumes inv: "log_inv n s" "election_inv n s" "election_inv n (set_peer i rf' s)"
    and ep: "epochs_ok s" and b: "ballot_step n s (set_peer i rf' s)"
    and i: "0 \<le> i" "i < int n" and loc: "local_in False inp" and st: "peer_step inp (peers s i) = Inr rf'"
  shows "log_inv n (set_peer i rf' s)"
proof (cases "log rf' = log (peers s i)")
  case True
  have nv: "\<not> voting_in inp (peers s i)" using loc by (cases inp) auto
  have "lastIncludedIndex rf' = lastIncludedIndex (peers s i)"
    using loc st
    by (cases inp) (auto simp: bindR_eq_Inr sendPreVote_def CommitChecker_applied_def CommitChecker_done_def Kill_def
        Let_def CommitChecker_collect_def Start_def split: if_splits dest: sendAppendEntries_log)
  with True peer_step_quiet[OF st nv] show ?thesis
    by (intro log_inv_same[OF inv ep b i, where rf = rf']) (auto simp: quiet_step_def)
next
  case False
  let ?rf = "peers s i"
  note d = log_invD[OF inv(1) i]
  obtain now c where inp: "inp = PStart now c"
    using loc st False
    by (cases inp) (auto simp: bindR_eq_Inr sendPreVote_def CommitChecker_applied_def CommitChecker_done_def Kill_def
        Let_def CommitChecker_collect_def split: if_splits dest: sendAppendEntries_log)
  with st obtain x t f where S: "Start now c ?rf = Inr (rf', x, t, f)" by (auto simp: bindR_eq_Inr)
  have ld: "state ?rf = Leader" using S False by (auto simp: Start_def split: if_splits)
  note f = Start_leader[OF ld S]
  let ?L' = "leaderLog (set_peer i rf' s)"
  have L': "?L' = (leaderLog s)(currentTerm ?rf \<mapsto> log rf')" using f by (simp add: set_peer_def)
  have "prefix (log ?rf) (log rf')" using f by simp
  then have grow: "leaderLog s (currentTerm rf') = Some (log ?rf) \<and> prefix (log ?rf) (log rf')"
    using d(3)[OF ld] f by simp
  then have "extends (leaderLog s) ?L'" unfolding L' using f by (intro extends_upd) auto
  from assembled_extends[OF d(2) this] have "assembled ?L' (log rf')"
    unfolding f(1) by (rule assembled_snoc) (simp_all add: L' f)
  with f d grow show ?thesis by (intro log_inv_update[OF inv ep b i, where rf = rf']) auto
qed

lemma log_inv_step:
  assumes inv: "log_inv n s" "election_inv n s" and ep: "epochs_ok s" and step: "cluster_step False n s s'"
  shows "log_inv n s'"
proof -
  note inv' = election_inv_step[OF inv(2) step] and b = cluster_step_ballot[OF inv(2) step]
  note same = log_inv_same[OF inv inv' ep b]
  have ca: "inv_calls n (peers s) (calls s) (granted s)" using inv(2) by (simp add: election_inv_def)
  show ?thesis
    using step
  proof cases
    case (vote_request c rf' r)
    note cd = inv_callsD[OF ca vote_request(2)]
    show ?thesis
      by (rule same[OF cd(3,4), where rf = rf']) (use vote_request(1) RequestVote_frame[OF vote_request(3)] in \<open>auto simp: set_peer_def\<close>)
  next
    case (vote_reply c r rf' b')
    note cd = inv_callsD[OF ca vote_reply(2)] and d = log_invD[OF inv(1)]
    let ?i = "vcFrom c" and ?t = "currentTerm rf'"
    have s': "peers s' = (peers s)(?i := rf')" "leaderLog s' = leaderLog (set_peer ?i rf' s)" "appends s' = appends s"
      using vote_reply(1) by (auto simp: set_peer_def)
    have fr: "lastIncludedIndex rf' = lastIncludedIndex (peers s ?i)" "log rf' = log (peers s ?i)"
      using sendRequestVote_cases[OF vote_reply(5)] by (auto simp: vote_counted_def)
    show ?thesis
    proof (cases "state rf' = Leader \<longrightarrow> state (peers s ?i) = Leader \<and> ?t = currentTerm (peers s ?i)")
      case True
      then show ?thesis by (intro same[OF cd(1,2) s'(1,2) fr]) (auto simp: s')
    next
      case False
      then have v: "vote_counted (vcArgs c) r (peers s ?i) rf'" "state rf' = Leader"
        using sendRequestVote_cases[OF vote_reply(5)] by auto
      have none: "leaderLog s ?t = None"
      proof (rule ccontr)
        assume "leaderLog s ?t \<noteq> None"
        then obtain w where w: "won n s ?t w" using log_inv_leaderD(2)[OF inv(1)] by blast
        have "won n s' ?t ?i" using leader_won[OF inv' cd(1,2)] v(2) s'(1) by simp
        with won_step[OF inv(2) inv' ep b w] have "w = ?i" using won_unique[OF inv'] by blast
        moreover have "npeers (peers s ?i) = n" using inv(2) inv_peersD cd by (fastforce simp: election_inv_def)
        ultimately show False
          using w v(1) vote_reply(2,4) by (auto simp: won_def vote_counted_def majority_def)
      qed
      then have "extends (leaderLog s) (leaderLog s')"
        using v(2) s'(2) extends_upd[of "leaderLog s" ?t "log rf'"] by (simp add: set_peer_def)
      then have "assembled (leaderLog s') (log rf')"
        using assembled_extends d(2)[OF cd(1,2)] fr by metis
      with none d(1)[OF cd(1,2)] fr s' show ?thesis
        by (intro log_inv_update[OF inv inv' ep b cd(1,2) s'(1,2)]) auto
    qed
  next
    case (vote_lost c)
    with inv(1) won_step[OF inv(2) inv' ep b] sent_ok_step[OF inv(2) inv' ep b] show ?thesis
      unfolding log_inv_def by simp blast
  next
    case (tick i rnd ev rf' ms)
    let ?s = "s'\<lparr>appends := appends s\<rparr>"
    have fr: "lastIncludedIndex rf' = lastIncludedIndex (peers s i)" "log rf' = log (peers s i)"
      "state rf' = Leader \<Longrightarrow> state (peers s i) = Leader \<and> currentTerm rf' = currentTerm (peers s i)"
      using ticker_cases[OF tick(4)] startElection_fields[of rnd "peers s i" rf' ms] by auto
    have s: "peers s' = (peers s)(i := rf')" "leaderLog s' = leaderLog (set_peer i rf' s)"
      using tick(1) by (auto simp: set_peer_def)
    have "election_inv n ?s" "ballot_step n s ?s"
      using inv' b by (simp_all add: election_inv_def ballot_step_def)
    then have 1: "log_inv n ?s"
      using s by (intro log_inv_same[OF inv _ ep _ tick(2,3) _ _ fr]) auto
    have "sent_ok n ?s j args" if "(j, args) \<in> new_appends ms" for j args
    proof -
      from that have m: "SendAppendEntries j args \<in> set ms" by (simp add: new_appends_def)
      from ticker_appends[OF tick(4) m] obtain r where r: "state rf' = Leader" "doLeader r = Inr (rf', ms)" by blast
      show ?thesis
        using leader_new_appends[OF 1 _ tick(2,3) _ _ m, of r] \<open>election_inv n ?s\<close> r s by simp
    qed
    then have "sent_ok n s' j args" if "(j, args) \<in> new_appends ms" for j args
      using that by (simp add: sent_ok_def won_def)
    then show ?thesis
      using s tick(1) by (intro same[OF tick(2,3) _ _ fr]) auto
  next
    case (append i args rnd rf' r)
    from inv' b append(1) have "election_inv n (set_peer i rf' s)" "ballot_step n s (set_peer i rf' s)"
      by (simp_all add: election_inv_def ballot_step_def)
    from log_inv_append[OF inv this(1) ep this(2) append(3,4,2,5)] append(1) show ?thesis
      by (simp add: log_inv_def sent_ok_def won_def)
  next
    case (append_reply j args r i rnd rf' b')
    then show ?thesis
      using sendAppendEntries_log[OF append_reply(6)] sendAppendEntries_quiet[OF append_reply(6)]
      by (intro same[OF append_reply(4,5), where rf = rf']) (simp_all add: quiet_step_def)
  next
    case (local i inp rf')
    with log_inv_local[OF inv _ ep _ local(2,3,4,5)] inv' b show ?thesis by simp
  next
    case (crash i rnd now)
    have du: "durable (peers s i)" using inv(2) crash inv_peersD by (fastforce simp: election_inv_def)
    show ?thesis
      by (rule same[OF crash(2,3), where rf = "restart rnd now (peers s i)"]) (use crash(1) in \<open>auto simp: set_peer_def restart_fields[OF du]\<close>)
  qed
qed

lemma log_inv_init:
  assumes "cluster_init n s"
  shows "log_inv n s" "epochs_ok s"
proof -
  have "lastIncludedIndex (peers s i) = 0 \<and> log (peers s i) = [placeholder] \<and> state (peers s i) = Follower"
    if "0 \<le> i" "i < int n" for i
    using assms that
    by (fastforce simp: cluster_init_def Make_def MakePersister_def ReadRaftState_def
        ReadSnapshot_def readPersist_def readSnapshot_def Let_def placeholder_def)
  with assms show "log_inv n s" "epochs_ok s"
    by (auto simp: cluster_init_def log_inv_def assembled_def epochs_ok_def)
qed

lemma log_inv_reachable: "reachable False n s \<Longrightarrow> log_inv n s \<and> election_inv n s \<and> epochs_ok s"
proof (induction rule: reachable.induct)
  case (init s)
  then show ?case by (simp add: log_inv_init election_inv_init)
next
  case (step s s')
  then show ?case
    using log_inv_step election_inv_step epochs_ok_step[OF _ cluster_step_ballot] by blast
qed

end
