(* ===== verification/RaftSharing.thy ===== *)
theory RaftSharing
  imports RaftLogs
begin

text \<open>
  A request that \<open>doLeader\<close> builds does not copy the entries: \<open>args.Entries\<close> is a slice of the array behind \<open>rf.log\<close>, and a goroutine
  of its own encodes it later, without the mutex: \<open>sendAppendEntries\<close> looks whether the peer is still leader, releases the mutex and calls \<open>Call\<close>. Until then the sender may become a follower and \<open>AppendEntries\<close> may
  write other entries into the same cells. This theory adds the arrays to the cluster (without snapshots): the requests
  that are built but not yet encoded refer to cells, and only the encoding of their present contents enters the network.
\<close>

subsection \<open>Arrays and slices\<close>

text \<open>
  An array is the list of its cells that were ever written. When a log \<open>L\<close> becomes \<open>L'\<close>, \<open>append\<close> writes the part that is new into the cells
  behind the common part; the cells behind that keep their old contents.
\<close>

definition overwrite :: "'a list \<Rightarrow> 'a list \<Rightarrow> 'a list \<Rightarrow> 'a list" where
  "overwrite L L' mem =
     (let p = length (longest_common_prefix L L'); es = drop p L' in take p mem @ es @ drop (p + length es) mem)"

text \<open>
  A request that is not encoded yet: the request as it was built; the slice, which starts at a cell of the sender's array (\<open>Inr\<close>), or, when the
  sender's log has moved to another array, is part of an array that nobody writes any more (\<open>Inl\<close>); and the entries that are encoded.
\<close>

record 'c pending =
  pnFrom :: int
  pnTo :: int
  pnArgs :: "'c AppendEntriesArgs"
  pnSlice :: "'c LogEntry list + nat"
  pnRead :: "'c LogEntry list"

record ('c, 'd) shared =
  shBase :: "('c, 'd) cluster"
  shMem :: "int \<Rightarrow> 'c LogEntry list"
  shPend :: "'c pending set"
  shTorn :: bool

definition cell :: "(int \<Rightarrow> 'c LogEntry list) \<Rightarrow> 'c pending \<Rightarrow> nat \<Rightarrow> 'c LogEntry" where
  "cell mem p k = (case pnSlice p of Inl es \<Rightarrow> es ! k | Inr off \<Rightarrow> mem (pnFrom p) ! (off + k))"

definition new_pending :: "int \<Rightarrow> ('c, 'd) Raft \<Rightarrow> ('c, 'd) rpc list \<Rightarrow> 'c pending set" where
  "new_pending i rf ms =
     (\<lambda>(j, args). \<lparr>pnFrom = i, pnTo = j, pnArgs = args, pnSlice = Inr (nat (RealLogIdx rf (aePrevLogIndex args + 1))), pnRead = []\<rparr>)
       ` new_appends ms"

text \<open>
  The logs of the peers in \<open>moved\<close> are in a new array afterwards: the capacity did not suffice for \<open>append\<close>, or the peer restarted and decoded its log.
\<close>

definition new_mem :: "int set \<Rightarrow> ('c, 'd) cluster \<Rightarrow> ('c, 'd) cluster \<Rightarrow> (int \<Rightarrow> 'c LogEntry list) \<Rightarrow> int \<Rightarrow> 'c LogEntry list" where
  "new_mem moved b b' mem i = (if i \<in> moved then log (peers b' i) else overwrite (log (peers b i)) (log (peers b' i)) (mem i))"

definition leave_array :: "int set \<Rightarrow> (int \<Rightarrow> 'c LogEntry list) \<Rightarrow> 'c pending \<Rightarrow> 'c pending" where
  "leave_array moved mem p =
     (case pnSlice p of
        Inl es \<Rightarrow> p
      | Inr off \<Rightarrow>
          if pnFrom p \<in> moved then p\<lparr>pnSlice := Inl (take (length (aeEntries (pnArgs p))) (drop off (mem (pnFrom p))))\<rparr> else p)"

subsection \<open>Steps\<close>

text \<open>
  The steps of the cluster, except that a tick adds its AppendEntries requests to \<open>shPend\<close>; and the steps of the goroutines that encode them, one entry
  at a time; that such a goroutine gives up when it finds a peer that does not lead is covered, since requests may get lost. A request stays in \<open>shPend\<close> when it is encoded, since there may be another one that looks like it, and it may get lost.
  \<open>shTorn\<close> remembers whether a request with other entries than those it was built with was sent.
\<close>

inductive shared_step :: "nat \<Rightarrow> ('c, 'd) shared \<Rightarrow> ('c, 'd) shared \<Rightarrow> bool" for n where
  work:
    "\<lbrakk>cluster_step False n (shBase s) b; appends b = appends (shBase s); \<forall>i. epoch b i \<noteq> epoch (shBase s) i \<longrightarrow> i \<in> moved\<rbrakk> \<Longrightarrow>
     shared_step n s (s\<lparr>shBase := b, shMem := new_mem moved (shBase s) b (shMem s), shPend := leave_array moved (shMem s) ` shPend s\<rparr>)"
| send:
    "\<lbrakk>cluster_step False n (shBase s) b; 0 \<le> i; i < int n; ticker rnd ev (peers (shBase s) i) = Inr (rf', ms);
      peers b = (peers (shBase s))(i := rf'); appends b = appends (shBase s) \<union> new_appends ms\<rbrakk> \<Longrightarrow>
     shared_step n s (s\<lparr>shBase := b\<lparr>appends := appends (shBase s)\<rparr>, shPend := shPend s \<union> new_pending i rf' ms\<rparr>)"
| encode:
    "\<lbrakk>p \<in> shPend s; length (pnRead p) < length (aeEntries (pnArgs p))\<rbrakk> \<Longrightarrow>
     shared_step n s (s\<lparr>shPend := insert (p\<lparr>pnRead := pnRead p @ [cell (shMem s) p (length (pnRead p))]\<rparr>) (shPend s)\<rparr>)"
| encoded:
    "\<lbrakk>p \<in> shPend s; length (pnRead p) = length (aeEntries (pnArgs p))\<rbrakk> \<Longrightarrow>
     shared_step n s (s\<lparr>shBase := (shBase s)\<lparr>appends := insert (pnTo p, (pnArgs p)\<lparr>aeEntries := pnRead p\<rparr>) (appends (shBase s))\<rparr>,
       shTorn := (shTorn s \<or> pnRead p \<noteq> aeEntries (pnArgs p))\<rparr>)"
| lost:
    "shared_step n s (s\<lparr>shPend := shPend s - {p}\<rparr>)"

definition shared_init :: "nat \<Rightarrow> ('c, 'd) shared \<Rightarrow> bool" where
  "shared_init n s \<longleftrightarrow> cluster_init n (shBase s) \<and> (\<forall>i. shMem s i = log (peers (shBase s) i)) \<and> shPend s = {} \<and> \<not> shTorn s"

inductive shared_reach :: "nat \<Rightarrow> ('c, 'd) shared \<Rightarrow> bool" for n where
  init: "shared_init n s \<Longrightarrow> shared_reach n s"
| step: "\<lbrakk>shared_reach n s; shared_step n s s'\<rbrakk> \<Longrightarrow> shared_reach n s'"

subsection \<open>The log is in its array\<close>

lemma lcp_take: "take (length (longest_common_prefix L L')) L = longest_common_prefix L L'"
  "take (length (longest_common_prefix L L')) L' = longest_common_prefix L L'"
  by (induction L L' rule: longest_common_prefix.induct) auto

lemma overwrite_log:
  assumes "take (length L) mem = L"
  shows "take (length L') (overwrite L L' mem) = L'"
proof -
  let ?p = "length (longest_common_prefix L L')"
  have pl: "?p \<le> length L" "?p \<le> length L'"
    using longest_common_prefix_prefix1[of L L'] longest_common_prefix_prefix2[of L L'] by (auto dest: prefix_length_le)
  have lm: "length L \<le> length mem" using arg_cong[OF assms, of length] by simp
  have "take ?p mem = take ?p L" using arg_cong[OF assms, of "take ?p"] pl(1) by simp
  also have "\<dots> = take ?p L'" by (simp only: lcp_take)
  finally have "take ?p mem @ drop ?p L' = L'" by simp
  moreover have "length (take ?p mem @ drop ?p L') = length L'" using pl lm by simp
  ultimately show ?thesis unfolding overwrite_def Let_def
    by (simp flip: append_assoc)
qed

text \<open>When the log only grows, the cells it had keep their contents.\<close>

lemma overwrite_grow: "length L \<le> length mem \<Longrightarrow> take (length L) (overwrite L (L @ es) mem) = take (length L) mem"
proof -
  have "longest_common_prefix L (L @ es) = L" by (induction L) auto
  then show "length L \<le> length mem \<Longrightarrow> take (length L) (overwrite L (L @ es) mem) = take (length L) mem" by (simp add: overwrite_def Let_def)
qed

lemma ticker_log:
  assumes "ticker rnd ev rf = Inr (rf', ms)"
  shows "log rf' = log rf" "lastIncludedIndex rf' = lastIncludedIndex rf"
  using ticker_cases[OF assms] startElection_fields[of rnd rf rf' ms] by auto

lemma shared_mem: "shared_reach n s \<Longrightarrow> take (length (log (peers (shBase s) v))) (shMem s v) = log (peers (shBase s) v)"
proof (induction rule: shared_reach.induct)
  case (init s)
  then show ?case by (simp add: shared_init_def)
next
  case (step s s')
  from step.hyps(2) step.IH show ?case
  proof (cases rule: shared_step.cases)
    case (work b moved)
    then show ?thesis using overwrite_log[OF step.IH] by (auto simp: new_mem_def)
  next
    case (send b i rnd ev rf' ms)
    then show ?thesis using step.IH ticker_log(1)[OF send(5)] by (cases "v = i") simp_all
  qed simp_all
qed

subsection \<open>Requests that are sent as they were built\<close>

text \<open>More requests in the network allow more steps.\<close>

lemma set_peer_more: "set_peer i rf (b\<lparr>appends := A\<rparr>) = (set_peer i rf b)\<lparr>appends := A\<rparr>"
  by (rule cluster.equality) (simp_all add: set_peer_def)

lemma cluster_step_to: "cluster_step compact n b b' \<Longrightarrow> b' = b'' \<Longrightarrow> cluster_step compact n b b''"
  by simp

lemma cluster_step_more:
  assumes "cluster_step compact n b b'" "appends b \<subseteq> A"
  shows "cluster_step compact n (b\<lparr>appends := A\<rparr>) (b'\<lparr>appends := A \<union> appends b'\<rparr>)"
  using assms(1)
proof (cases rule: cluster_step.cases)
  case (vote_request c rf' r)
  show ?thesis
    by (rule cluster_step_to[OF cluster_step.vote_request[of c _ rf' r]])
      (use vote_request assms(2) in \<open>auto simp: set_peer_more intro!: cluster.equality\<close>)
next
  case (vote_reply c r rf' x)
  show ?thesis
    by (rule cluster_step_to[OF cluster_step.vote_reply[of c _ r rf' x]])
      (use vote_reply assms(2) in \<open>auto simp: set_peer_more intro!: cluster.equality\<close>)
next
  case (vote_lost c)
  show ?thesis
    by (rule cluster_step_to[OF cluster_step.vote_lost[of c]]) (use vote_lost assms(2) in \<open>auto intro!: cluster.equality\<close>)
next
  case (tick i rnd ev rf' ms)
  show ?thesis
    by (rule cluster_step_to[OF cluster_step.tick[of i n rnd ev _ rf' ms]])
      (use tick assms(2) in \<open>auto simp: set_peer_more intro!: cluster.equality\<close>)
next
  case (append i args rnd rf' r)
  show ?thesis
    by (rule cluster_step_to[OF cluster_step.append[of i args _ n rnd rf' r]])
      (use append assms(2) in \<open>auto simp: set_peer_more intro!: cluster.equality\<close>)
next
  case (append_reply j args r i rnd rf' x)
  show ?thesis
    by (rule cluster_step_to[OF cluster_step.append_reply[of j args r _ i n rnd rf' x]])
      (use append_reply assms(2) in \<open>auto simp: set_peer_more intro!: cluster.equality\<close>)
next
  case (local i inp rf')
  show ?thesis
    by (rule cluster_step_to[OF cluster_step.local[of i n compact inp _ rf']])
      (use local assms(2) in \<open>auto simp: set_peer_more intro!: cluster.equality\<close>)
next
  case (crash i rnd now)
  show ?thesis
    by (rule cluster_step_to[OF cluster_step.crash[of i n compact _ rnd now]])
      (use crash assms(2) in \<open>auto simp: set_peer_more intro!: cluster.equality\<close>)
qed

lemma leave_array_sel [simp]: "pnTo (leave_array moved mem p) = pnTo p" "pnArgs (leave_array moved mem p) = pnArgs p"
  by (simp_all add: leave_array_def split: sum.splits)

text \<open>As long as no request was torn, the cluster is in a state that it reaches when requests are encoded as soon as they are built.\<close>

lemma shared_simulated:
  "shared_reach n s \<Longrightarrow> \<not> shTorn s \<Longrightarrow>
   \<exists>A. reachable False n ((shBase s)\<lparr>appends := A\<rparr>) \<and> appends (shBase s) \<subseteq> A \<and> (\<forall>p \<in> shPend s. (pnTo p, pnArgs p) \<in> A)"
proof (induction rule: shared_reach.induct)
  case (init s)
  then have "reachable False n ((shBase s)\<lparr>appends := {}\<rparr>)" by (intro reachable.init) (simp add: shared_init_def cluster_init_def)
  with init show ?case by (intro exI[of _ "{}"]) (simp add: shared_init_def cluster_init_def)
next
  case (step s s')
  have "\<not> shTorn s" using step.hyps(2) step.prems by cases auto
  with step.IH obtain A where A: "reachable False n ((shBase s)\<lparr>appends := A\<rparr>)" "appends (shBase s) \<subseteq> A" "\<forall>p \<in> shPend s. (pnTo p, pnArgs p) \<in> A"
    by blast
  from step.hyps(2) show ?case
  proof (cases rule: shared_step.cases)
    case (work b moved)
    have "reachable False n (b\<lparr>appends := A \<union> appends b\<rparr>)" by (rule reachable.step[OF A(1) cluster_step_more[OF work(2) A(2)]])
    with A work(1,3) show ?thesis by (intro exI[of _ "A \<union> appends b"]) auto
  next
    case (send b i rnd ev rf' ms)
    have "reachable False n (b\<lparr>appends := A \<union> appends b\<rparr>)" by (rule reachable.step[OF A(1) cluster_step_more[OF send(2) A(2)]])
    with A send(1,7) show ?thesis by (intro exI[of _ "A \<union> appends b"]) (auto simp: new_pending_def new_appends_def)
  next
    case (encode p)
    with A show ?thesis by (intro exI[of _ A]) auto
  next
    case (encoded p)
    then have "pnRead p = aeEntries (pnArgs p)" using step.prems by simp
    with A encoded show ?thesis by (intro exI[of _ A]) auto
  next
    case (lost p)
    with A show ?thesis by (intro exI[of _ A]) auto
  qed
qed

subsection \<open>Every run of the cluster is one with arrays\<close>

definition intact :: "(int \<Rightarrow> 'c LogEntry list) \<Rightarrow> 'c pending \<Rightarrow> bool" where
  "intact mem p \<longleftrightarrow> pnRead p = [] \<and> (\<forall>k < length (aeEntries (pnArgs p)). cell mem p k = aeEntries (pnArgs p) ! k)"

lemma cell_pnRead [simp]: "cell mem (p\<lparr>pnRead := r\<rparr>) k = cell mem p k"
  by (simp add: cell_def split: sum.splits)

lemma encode_intact:
  assumes "shared_reach n s" "p \<in> shPend s" "intact (shMem s) p" "k \<le> length (aeEntries (pnArgs p))"
  shows "\<exists>P. shPend s \<subseteq> P \<and> shared_reach n (s\<lparr>shPend := P\<rparr>) \<and> p\<lparr>pnRead := take k (aeEntries (pnArgs p))\<rparr> \<in> P"
  using assms(4)
proof (induction k)
  case 0
  have "p\<lparr>pnRead := []\<rparr> = p" using assms(3) by (cases p) (simp add: intact_def)
  with assms(1,2) show ?case by (intro exI[of _ "shPend s"]) simp
next
  case (Suc k)
  let ?es = "aeEntries (pnArgs p)" and ?q = "\<lambda>k. p\<lparr>pnRead := take k (aeEntries (pnArgs p))\<rparr>"
  obtain P where P: "shPend s \<subseteq> P" "shared_reach n (s\<lparr>shPend := P\<rparr>)" "?q k \<in> P" using Suc by auto
  have "cell (shMem s) (?q k) k = ?es ! k" using assms(3) Suc.prems by (simp add: intact_def)
  then have q: "(?q k)\<lparr>pnRead := pnRead (?q k) @ [cell (shMem s) (?q k) (length (pnRead (?q k)))]\<rparr> = ?q (Suc k)"
    using Suc.prems by (simp add: take_Suc_conv_app_nth)
  have "shared_reach n (s\<lparr>shPend := insert (?q (Suc k)) P\<rparr>)"
    using shared_reach.step[OF P(2) shared_step.encode[of "?q k"]] P(3) Suc.prems q by simp
  with P(1) show ?case by (intro exI[of _ "insert (?q (Suc k)) P"]) auto
qed

lemma encoded_intact:
  assumes "shared_reach n s" "p \<in> shPend s" "intact (shMem s) p"
  shows "\<exists>P. shPend s \<subseteq> P \<and>
    shared_reach n (s\<lparr>shBase := (shBase s)\<lparr>appends := insert (pnTo p, pnArgs p) (appends (shBase s))\<rparr>, shPend := P\<rparr>)"
proof -
  let ?q = "p\<lparr>pnRead := aeEntries (pnArgs p)\<rparr>"
  obtain P where P: "shPend s \<subseteq> P" "shared_reach n (s\<lparr>shPend := P\<rparr>)" "?q \<in> P" using encode_intact[OF assms order_refl] by auto
  from shared_reach.step[OF P(2) shared_step.encoded[of ?q]] P(3)
  have "shared_reach n (s\<lparr>shPend := P, shBase := (shBase s)\<lparr>appends := insert (pnTo p, pnArgs p) (appends (shBase s))\<rparr>, shTorn := shTorn s\<rparr>)" by simp
  moreover have "s\<lparr>shPend := P, shBase := b, shTorn := shTorn s\<rparr> = s\<lparr>shBase := b, shPend := P\<rparr>" for b by simp
  ultimately show ?thesis using P(1) by auto
qed

lemma encoded_all:
  assumes "finite Q" "shared_reach n s" "Q \<subseteq> shPend s" "\<And>p. p \<in> Q \<Longrightarrow> intact (shMem s) p"
  shows "\<exists>P. shPend s \<subseteq> P \<and>
    shared_reach n (s\<lparr>shBase := (shBase s)\<lparr>appends := appends (shBase s) \<union> (\<lambda>p. (pnTo p, pnArgs p)) ` Q\<rparr>, shPend := P\<rparr>)"
  using assms
proof (induction Q)
  case empty
  then show ?case by (intro exI[of _ "shPend s"]) simp
next
  case (insert p Q)
  let ?A = "appends (shBase s) \<union> (\<lambda>p. (pnTo p, pnArgs p)) ` Q"
  obtain P where P: "shPend s \<subseteq> P" "shared_reach n (s\<lparr>shBase := (shBase s)\<lparr>appends := ?A\<rparr>, shPend := P\<rparr>)" using insert by auto
  have "p \<in> P" "intact (shMem s) p" using insert.prems P(1) by auto
  with encoded_intact[OF P(2), of p] obtain P' where P': "P \<subseteq> P'"
    "shared_reach n (s\<lparr>shBase := (shBase s)\<lparr>appends := insert (pnTo p, pnArgs p) ?A\<rparr>, shPend := P'\<rparr>)" by auto
  with P(1) show ?case by (intro exI[of _ P']) auto
qed

lemma new_pending_intact:
  assumes "ticker rnd ev rf = Inr (rf', ms)" "log rf \<noteq> []" "take (length (log rf)) (mem i) = log rf" "p \<in> new_pending i rf' ms"
  shows "intact mem p"
proof -
  obtain j args where p: "p = \<lparr>pnFrom = i, pnTo = j, pnArgs = args, pnSlice = Inr (nat (RealLogIdx rf' (aePrevLogIndex args + 1))), pnRead = []\<rparr>"
    and m: "SendAppendEntries j args \<in> set ms" using assms(4) by (auto simp: new_pending_def new_appends_def)
  obtain r where r: "doLeader r = Inr (rf', ms)" using ticker_appends[OF assms(1) m] by blast
  from doLeader_result(2)[OF r m] obtain k where k: "leaderArgs k r = Inr (SendAppendEntries j args)" by blast
  have same: "log r = log rf" "lastIncludedIndex r = lastIncludedIndex rf'" using doLeader_result(1)[OF r] ticker_log(1)[OF assms(1)] by simp_all
  note a = leaderArgs_append(5,9)[OF k, unfolded same, OF assms(2)]
  have off: "nat (RealLogIdx rf' (aePrevLogIndex args + 1)) = nat (aePrevLogIndex args - lastIncludedIndex rf') + 1" (is "?off = _")
    using a(1) by (simp add: RealLogIdx_def)
  have "mem i ! (?off + x) = aeEntries args ! x" if "x < length (aeEntries args)" for x
  proof -
    have x: "?off + x < length (log rf)" using that a(2) off by simp
    have "mem i ! (?off + x) = take (length (log rf)) (mem i) ! (?off + x)" using x by simp
    then show ?thesis using x a(2) off assms(3) by simp
  qed
  then show ?thesis by (simp add: intact_def p cell_def)
qed

lemma cluster_step_appends:
  assumes "cluster_step compact n b b'"
  shows "appends b' = appends b \<or> (\<exists>i rnd ev rf' ms. 0 \<le> i \<and> i < int n \<and> ticker rnd ev (peers b i) = Inr (rf', ms) \<and>
    peers b' = (peers b)(i := rf') \<and> appends b' = appends b \<union> new_appends ms)"
  using assms
proof (cases rule: cluster_step.cases)
  case (tick i rnd ev rf' ms)
  then have "0 \<le> i \<and> i < int n \<and> ticker rnd ev (peers b i) = Inr (rf', ms) \<and>
    peers b' = (peers b)(i := rf') \<and> appends b' = appends b \<union> new_appends ms" by simp
  then show ?thesis by blast
qed simp_all

lemma reachable_shared: "reachable False n b \<Longrightarrow> \<exists>s. shared_reach n s \<and> shBase s = b \<and> \<not> shTorn s"
proof (induction rule: reachable.induct)
  case (init b)
  then have "shared_init n \<lparr>shBase = b, shMem = \<lambda>i. log (peers b i), shPend = {}, shTorn = False\<rparr>" by (simp add: shared_init_def)
  from shared_reach.init[OF this] show ?case by (intro exI conjI) (assumption, simp_all)
next
  case (step b b')
  then obtain s where s: "shared_reach n s" "shBase s = b" "\<not> shTorn s" by blast
  from cluster_step_appends[OF step.hyps(2)] show ?case
  proof (elim disjE exE conjE)
    assume "appends b' = appends b"
    with shared_reach.step[OF s(1) shared_step.work[of n s b' "{i. epoch b' i \<noteq> epoch b i}"]] step.hyps(2) s show ?thesis
      by (intro exI conjI) (simp, simp_all)
  next
    fix i rnd ev rf' ms
    assume t: "0 \<le> i" "i < int n" "ticker rnd ev (peers b i) = Inr (rf', ms)" "peers b' = (peers b)(i := rf')" "appends b' = appends b \<union> new_appends ms"
    let ?Q = "new_pending i rf' ms" and ?s = "s\<lparr>shBase := b'\<lparr>appends := appends b\<rparr>, shPend := shPend s \<union> new_pending i rf' ms\<rparr>"
    have r: "shared_reach n ?s" using shared_reach.step[OF s(1) shared_step.send[of n s b' i rnd ev rf' ms]] step.hyps(2) s t by simp
    have img: "(\<lambda>p. (pnTo p, pnArgs p)) ` ?Q = new_appends ms" by (force simp: new_pending_def image_image split: prod.splits)
    have "new_appends ms = (\<lambda>(j, args). SendAppendEntries j args) -` set ms" by (auto simp: new_appends_def)
    then have "finite (new_appends ms)" by (simp add: finite_vimageI inj_on_def)
    then have fin: "finite ?Q" by (simp add: new_pending_def)
    have ne: "log (peers b i) \<noteq> []" using log_inv_reachable[OF step.hyps(1)] log_invD(2)[of n b i] t(1,2) by (auto simp: assembled_def)
    have "intact (shMem ?s) p" if "p \<in> ?Q" for p
      using new_pending_intact[OF t(3) ne _ that] shared_mem[OF s(1), of i] s(2) by simp
    with encoded_all[OF fin r] obtain P where
      "shared_reach n (?s\<lparr>shBase := (shBase ?s)\<lparr>appends := appends (shBase ?s) \<union> new_appends ms\<rparr>, shPend := P\<rparr>)" unfolding img by auto
    moreover have "(shBase ?s)\<lparr>appends := appends (shBase ?s) \<union> new_appends ms\<rparr> = b'" using t(5) by simp
    ultimately show ?thesis using s(3) by (intro exI conjI) (assumption, simp_all)
  qed
qed

subsection \<open>A torn request\<close>

text \<open>
  A leader of term 2 whose log has the entries \<open>a\<close> and \<open>b\<close> behind the placeholder builds a request with both. It becomes a follower, and the leader of
  term 3 makes it replace \<open>a\<close> by \<open>c\<close>, in place. If the request is encoded only now, its entries are \<open>c\<close> and \<open>b\<close>: a peer that accepts them has an entry of
  term 2 behind one of term 3, and its log does not match that of a peer with \<open>a\<close> and \<open>b\<close>.
\<close>

definition torn_cells :: "nat LogEntry list" where
  "torn_cells = [\<lparr>eTerm = -1, eCommand = None\<rparr>, \<lparr>eTerm = 2, eCommand = Some 10\<rparr>, \<lparr>eTerm = 2, eCommand = Some 11\<rparr>]"

definition torn_pending :: "nat pending" where
  "torn_pending = \<lparr>pnFrom = 0, pnTo = 1, pnArgs = \<lparr>aeTerm = 2, aeLeaderId = 0, aePrevLogIndex = 0, aePrevLogTerm = -1,
     aeEntries = drop 1 torn_cells, aeLeaderCommit = 0\<rparr>, pnSlice = Inr 1, pnRead = []\<rparr>"

lemma torn_request:
  "\<exists>L'. mergeEntries torn_cells 1 [\<lparr>eTerm = 3, eCommand = Some 12\<rparr>] = Inr L' \<and>
     map (cell (\<lambda>_. torn_cells) torn_pending) [0, 1] = aeEntries (pnArgs torn_pending) \<and>
     map (cell (\<lambda>_. overwrite torn_cells L' torn_cells) torn_pending) [0, 1] =
       [\<lparr>eTerm = 3, eCommand = Some 12\<rparr>, \<lparr>eTerm = 2, eCommand = Some 11\<rparr>]"
proof (intro exI conjI)
  let ?L' = "[\<lparr>eTerm = -1, eCommand = None\<rparr>, \<lparr>eTerm = 3, eCommand = Some (12 :: nat)\<rparr>]"
  show "mergeEntries torn_cells 1 [\<lparr>eTerm = 3, eCommand = Some 12\<rparr>] = Inr ?L'" by code_simp
  show "map (cell (\<lambda>_. torn_cells) torn_pending) [0, 1] = aeEntries (pnArgs torn_pending)" by code_simp
  show "map (cell (\<lambda>_. overwrite torn_cells ?L' torn_cells) torn_pending) [0, 1] =
      [\<lparr>eTerm = 3, eCommand = Some 12\<rparr>, \<lparr>eTerm = 2, eCommand = Some 11\<rparr>]" by code_simp
qed

end
