(* ===== verification/RaftProperties.thy ===== *)
theory RaftProperties
  imports RaftSharing
begin

text \<open>
  The properties of the Raft component. They rest on the handler lemmas of
  \<open>RaftElection\<close>, \<open>RaftReplication\<close> and \<open>RaftSnapshot\<close>, on the peer invariant of
  \<open>RaftPeer\<close> and on the cluster invariants of \<open>RaftCluster\<close> and \<open>RaftLogs\<close>.
\<close>

subsection \<open>A run that elects a leader\<close>

definition demo_init :: "(nat, nat) cluster" where
  "demo_init = \<lparr>peers = (\<lambda>i. Make 3 i MakePersister 0 0), epoch = (\<lambda>_. 0), calls = {}, appends = {}, replies = {},
     granted = {}, voteLog = (\<lambda>_. None), leaderLog = (\<lambda>_. None), acked = {}\<rparr>"

lemma demo_init: "cluster_init 3 demo_init"
  by (auto simp: cluster_init_def demo_init_def)

text \<open>Peer 0 times out, gathers a pre-vote and starts an election in term 2.\<close>

definition demo_candidate :: "(nat, nat) Raft" where
  "demo_candidate = sendPreVote True \<lparr>pvIsOk = True\<rparr>
     (timer_reset 0 ((Make 3 0 MakePersister 0 0)\<lparr>state := PreCandidate, preVoteCount := 1\<rparr>))"

definition demo_args :: RequestVoteArgs where
  "demo_args = \<lparr>rvTerm = 2, rvCandidateId = 0, rvLastLogIndex = 1, rvLastLogTerm = -1\<rparr>"

definition demo_asking :: "(nat, nat) Raft" where
  "demo_asking = persist (timer_reset 0 (demo_candidate\<lparr>currentTerm := 2, votedFor := 0, voteCount := 1\<rparr>))"

lemmas demo_defs = Make_def MakePersister_def ReadRaftState_def ReadSnapshot_def readPersist_def
  readSnapshot_def sendPreVote_def majority_def raft_frame_defs

lemma demo_election:
  "ticker 0 TimerFired demo_candidate =
     Inr (demo_asking, [SendRequestVote 1 demo_args, SendRequestVote 2 demo_args])"
  by (simp add: ticker_def startElection_def demo_candidate_def demo_asking_def demo_args_def killed_def
      otherPeers_def demo_defs go_nth_def numeral_3_eq_3)

definition demo_voter :: "(nat, nat) Raft" where
  "demo_voter = persist ((persist ((Make 3 1 MakePersister 0 0)\<lparr>currentTerm := 2, state := Follower, votedFor := -1\<rparr>))
     \<lparr>currentTerm := 2, state := Follower, votedFor := 0\<rparr>)"

lemma demo_vote:
  "RequestVote demo_args (Make 3 1 MakePersister 0 0) = Inr (demo_voter, \<lparr>rvrTerm = 2, rvrVoteGranted = True\<rparr>)"
  by (simp add: RequestVote_def demo_args_def demo_voter_def demo_defs go_nth_def)

definition demo_leader :: "(nat, nat) Raft" where
  "demo_leader = resetHeartBeat (demo_asking\<lparr>voteCount := 2, state := Leader, nextIndex := [1, 1, 1], matchIndex := [0, 0, 0]\<rparr>)"

lemma demo_wins:
  "sendRequestVote demo_args \<lparr>rvrTerm = 2, rvrVoteGranted = True\<rparr> demo_asking = Inr (demo_leader, True)"
  by (simp add: sendRequestVote_def demo_args_def demo_asking_def demo_candidate_def demo_leader_def becomeLeader_def
      less_RaftRole_def demo_defs numeral_3_eq_3)

text \<open>The leader takes a command, sends it, and peer 1 accepts it.\<close>

definition demo_log :: "nat LogEntry list" where
  "demo_log = [placeholder, \<lparr>eTerm = 2, eCommand = Some 7\<rparr>]"

definition demo_append :: "nat AppendEntriesArgs" where
  "demo_append = \<lparr>aeTerm = 2, aeLeaderId = 0, aePrevLogIndex = 0, aePrevLogTerm = -1,
     aeEntries = [\<lparr>eTerm = 2, eCommand = Some 7\<rparr>], aeLeaderCommit = 0\<rparr>"

lemma demo_start:
  "\<exists>rf'. peer_step (PStart 0 (Some 7)) demo_leader = Inr rf' \<and> log rf' = demo_log \<and>
     (\<exists>ms. ticker 0 TimerFired rf' = Inr (resetHeartBeat rf', ms) \<and> SendAppendEntries 1 demo_append \<in> set ms)"
  by (simp add: ticker_def Start_def signalMsg_def demo_leader_def demo_asking_def demo_candidate_def demo_log_def placeholder_def
      demo_append_def demo_defs go_set_def go_nth_def go_from_def doLeader_def otherPeers_def leaderArgs_def killed_def
      max_int_def numeral_3_eq_3 msgGap_def)

lemma demo_accept:
  "\<exists>rf'. AppendEntries 0 demo_append demo_voter = Inr (rf', \<lparr>aerTerm = 2, aerSuccess = True\<rparr>) \<and> log rf' = demo_log"
  by (simp add: AppendEntries_def AppendEntries_log_def demo_append_def demo_voter_def demo_log_def placeholder_def
      demo_defs go_nth_def go_set_def go_from_def)

lemma demo_reachable:
  "\<exists>s. reachable compact 3 s \<and> peers s 0 = demo_leader \<and> peers s 1 = demo_voter"
proof -
  let ?pre = "timer_reset 0 ((Make 3 0 MakePersister 0 0 :: (nat, nat) Raft)\<lparr>state := PreCandidate, preVoteCount := 1\<rparr>)"
  let ?c = "\<lparr>vcFrom = 0, vcTo = 1, vcEpoch = 0, vcArgs = demo_args, vcReply = None\<rparr>"
  let ?yes = "\<lparr>rvrTerm = 2, rvrVoteGranted = True\<rparr>"
  have r0: "reachable compact 3 demo_init" by (rule reachable.init[OF demo_init])
  have "ticker 0 TimerFired (peers demo_init 0) = Inr (?pre, handlePreVote ?pre)"
    by (simp add: ticker_def demo_init_def demo_defs killed_def)
  from reachable.step[OF r0 cluster_step.tick[OF _ _ this]]
  obtain s1 where s1: "reachable compact 3 s1" "peers s1 = (peers demo_init)(0 := ?pre)" "calls s1 = {}" "epoch s1 = epoch demo_init"
    by (fastforce simp: new_calls_def handlePreVote_def demo_init_def)
  have "peer_step (PPreVoteReply True \<lparr>pvIsOk = True\<rparr>) (peers s1 0) = Inr demo_candidate"
    using s1 by (simp add: demo_candidate_def)
  from reachable.step[OF s1(1) cluster_step.local[OF _ _ _ this]]
  obtain s2 where s2: "reachable compact 3 s2" "peers s2 = (peers demo_init)(0 := demo_candidate)" "calls s2 = {}" "epoch s2 = epoch demo_init"
    using s1 by fastforce
  from s2 demo_election have "ticker 0 TimerFired (peers s2 0) =
     Inr (demo_asking, [SendRequestVote 1 demo_args, SendRequestVote 2 demo_args])" by simp
  from reachable.step[OF s2(1) cluster_step.tick[OF _ _ this]]
  obtain s3 where s3: "reachable compact 3 s3" "peers s3 = (peers demo_init)(0 := demo_asking)" "?c \<in> calls s3" "epoch s3 = epoch demo_init"
    using s2 by (fastforce simp: new_calls_def demo_init_def)
  have "RequestVote (vcArgs ?c) (peers s3 (vcTo ?c)) = Inr (demo_voter, ?yes)"
    using s3 demo_vote by (auto simp: demo_init_def)
  from reachable.step[OF s3(1) cluster_step.vote_request[OF s3(3) this]]
  obtain s4 where s4: "reachable compact 3 s4" "peers s4 0 = demo_asking" "peers s4 1 = demo_voter"
      "?c\<lparr>vcReply := Some ?yes\<rparr> \<in> calls s4" "epoch s4 = epoch demo_init"
    using s3 by fastforce
  have w: "sendRequestVote (vcArgs (?c\<lparr>vcReply := Some ?yes\<rparr>)) ?yes
      (peers s4 (vcFrom (?c\<lparr>vcReply := Some ?yes\<rparr>))) = Inr (demo_leader, True)"
    using s4 demo_wins by auto
  from reachable.step[OF s4(1) cluster_step.vote_reply[OF s4(4) _ _ w]] show ?thesis
    using s4(3,5) by (fastforce simp: demo_init_def)
qed

lemma demo_replicated:
  "\<exists>s :: (nat, nat) cluster. reachable compact 3 s \<and> log (peers s 0) = demo_log \<and> log (peers s 1) = demo_log"
proof -
  from demo_reachable[of compact] obtain s1 where s1: "reachable compact 3 s1" "peers s1 0 = demo_leader" "peers s1 1 = demo_voter" by blast
  from demo_start obtain l ms where l: "peer_step (PStart 0 (Some 7)) demo_leader = Inr l" "log l = demo_log"
    "ticker 0 TimerFired l = Inr (resetHeartBeat l, ms)" "SendAppendEntries 1 demo_append \<in> set ms" by blast
  from l(1) s1(2) have "peer_step (PStart 0 (Some 7)) (peers s1 0) = Inr l" by simp
  from reachable.step[OF s1(1) cluster_step.local[OF _ _ _ this]]
  obtain s2 where s2: "reachable compact 3 s2" "peers s2 0 = l" "peers s2 1 = demo_voter" using s1 by fastforce
  from l(3) s2(2) have "ticker 0 TimerFired (peers s2 0) = Inr (resetHeartBeat l, ms)" by simp
  from reachable.step[OF s2(1) cluster_step.tick[OF _ _ this]]
  obtain s3 where s3: "reachable compact 3 s3" "peers s3 0 = resetHeartBeat l" "peers s3 1 = demo_voter" "(1, demo_append) \<in> appends s3"
    using s2 l(4) by (fastforce simp: new_appends_def)
  from demo_accept s3(3) obtain f where "AppendEntries 0 demo_append (peers s3 1) = Inr (f, \<lparr>aerTerm = 2, aerSuccess = True\<rparr>)" "log f = demo_log"
    by auto
  with reachable.step[OF s3(1) cluster_step.append[OF s3(4) _ _ this(1)]] show ?thesis
    using s3 l(2) by fastforce
qed

subsection \<open>Cluster\<close>

text \<open>
  C1: Election safety. In every reachable state of a cluster of \<open>n\<close> peers, whatever messages
  are delayed, lost or duplicated, whichever peers crash and restart, and whether or not
  logs are compacted, two leaders of the same term are the same peer.
\<close>

theorem election_safety:
  assumes "reachable compact n s" "0 \<le> i" "i < int n" "0 \<le> j" "j < int n"
    and "state (peers s i) = Leader" "state (peers s j) = Leader"
    and "currentTerm (peers s i) = currentTerm (peers s j)"
  shows "i = j"
proof -
  have inv: "election_inv n s" by (rule election_inv_reachable[OF assms(1)])
  then have gr: "inv_granted n (peers s) (granted s)" by (simp add: election_inv_def)
  show ?thesis
    using one_winner[OF gr leader_majority[OF inv assms(2,3,6)], of j]
      leader_majority[OF inv assms(4,5,7)] assms(8) by simp
qed

theorem election_safety_witness:
  "\<exists>s :: (nat, nat) cluster. reachable True 3 s \<and> state (peers s 0) = Leader \<and>
     (\<forall>j \<in> {1, 2}. \<not> (state (peers s j) = Leader \<and> currentTerm (peers s j) = currentTerm (peers s 0)))"
proof -
  from demo_reachable[of True] obtain s where s: "reachable True 3 s" "peers s 0 = demo_leader" by blast
  have "state (peers s 0) = Leader" by (simp add: s demo_leader_def)
  with s election_safety[of True 3 s 0 1] election_safety[of True 3 s 0 2] show ?thesis
    by (intro exI[of _ s]) auto
qed

text \<open>
  C2: Log matching. In a cluster whose service takes no snapshots, where the requests of a leader refer to the array of its log until they are encoded,
  and as long as none was sent with other entries than those it was built with, because a former leader overwrote its log in place before the encoding:
  if two logs have an entry of the same term at the same index, they are identical up to and including that index.
\<close>

theorem log_matching:
  assumes "shared_reach n s" "\<not> shTorn s" "0 \<le> i" "i < int n" "0 \<le> j" "j < int n"
    and "k < length (log (peers (shBase s) i))" "k < length (log (peers (shBase s) j))"
    and "eTerm (log (peers (shBase s) i) ! k) = eTerm (log (peers (shBase s) j) ! k)"
  shows "take (Suc k) (log (peers (shBase s) i)) = take (Suc k) (log (peers (shBase s) j))"
proof -
  obtain A where "reachable False n ((shBase s)\<lparr>appends := A\<rparr>)" using shared_simulated[OF assms(1,2)] by blast
  then have inv: "log_inv n ((shBase s)\<lparr>appends := A\<rparr>)" using log_inv_reachable by blast
  show ?thesis
    using assembled_matching[OF log_invD(2)[OF inv assms(3,4)] log_invD(2)[OF inv assms(5,6)], of k] assms(7-9) by simp
qed

theorem log_matching_witness:
  "\<exists>s :: (nat, nat) shared. shared_reach 3 s \<and> \<not> shTorn s \<and>
     eTerm (log (peers (shBase s) 0) ! 1) = 2 \<and> eTerm (log (peers (shBase s) 1) ! 1) = 2 \<and>
     take 2 (log (peers (shBase s) 0)) = take 2 (log (peers (shBase s) 1))"
proof -
  from demo_replicated[of False] obtain b :: "(nat, nat) cluster" where b: "reachable False 3 b"
    "log (peers b 0) = demo_log" "log (peers b 1) = demo_log" by blast
  from reachable_shared[OF b(1)] obtain s where s: "shared_reach 3 s" "\<not> shTorn s" "shBase s = b" by blast
  have l: "1 < length (log (peers (shBase s) 0))" "1 < length (log (peers (shBase s) 1))"
    "eTerm (log (peers (shBase s) 0) ! 1) = 2" "eTerm (log (peers (shBase s) 1) ! 1) = 2"
    using b s(3) by (simp_all add: demo_log_def)
  with log_matching[OF s(1,2), of 0 1 1] s(1,2) show ?thesis by (auto simp: numeral_2_eq_2)
qed

subsection \<open>One peer\<close>

text \<open>
  C5: No handler panics. A peer started on an empty persister, fed any sequence of steps whose
  inputs meet the handlers' conditions, never indexes a slice out of range, and keeps
  \<open>lastIncludedIndex \<le> lastApplied \<le> commitIndex \<le>\<close> last log index.
\<close>

theorem peer_run_safe:
  assumes "0 \<le> i" "i < int n" "inputs_ok is (Make n i MakePersister rnd now)"
  shows "\<exists>rf. peer_run is (Make n i MakePersister rnd now) = Inr rf \<and> raft_wf rf \<and> leader_ok rf"
proof -
  let ?rf = "Make n i MakePersister rnd now"
  have "durable ?rf" by (simp add: durable_def Make_pristine)
  moreover have "leader_ok ?rf"
    by (simp add: leader_ok_def Make_def MakePersister_def ReadRaftState_def ReadSnapshot_def
        readPersist_def readSnapshot_def Let_def)
  ultimately show ?thesis using peer_run_wf[OF Make_wf[OF assms(1,2)] _ _ assms(3)] by blast
qed

definition demo_run :: "(nat, nat) peer_in list" where
  "demo_run =
     [PTick 0 TimerFired, PPreVoteReply True \<lparr>pvIsOk = True\<rparr>, PTick 0 TimerFired,
      PVoteReply demo_args \<lparr>rvrTerm = 2, rvrVoteGranted = True\<rparr>, PStart 20 (Some 7), PTick 0 MsgComing,
      PAppendReply 0 1 demo_append \<lparr>aerTerm = 2, aerSuccess = True\<rparr>, PCollect,
      PApplied \<lparr>amCommandValid = True, amCommand = Some 7, amCommandIndex = 1, amCommandTerm = 2,
        amSnapshotValid = False, amSnapshot = [], amSnapshotTerm = 0, amSnapshotIndex = 0\<rparr>,
      PDone, PSnapshot 1 [5], PStart 40 (Some 8), PRestart 1 50,
      PAppend 0 \<lparr>aeTerm = 3, aeLeaderId = 1, aePrevLogIndex = 1, aePrevLogTerm = 2,
        aeEntries = [\<lparr>eTerm = 3, eCommand = Some 9\<rparr>], aeLeaderCommit = 2\<rparr>]"

lemma demo_run_ok: "inputs_ok demo_run (Make 3 0 MakePersister 0 0)"
  by code_simp

theorem peer_run_safe_witness:
  "inputs_ok demo_run (Make 3 0 MakePersister 0 0) \<and>
   (\<exists>rf. peer_run demo_run (Make 3 0 MakePersister 0 0) = Inr rf \<and> raft_wf rf \<and> leader_ok rf)"
  using demo_run_ok peer_run_safe[of 0 3 demo_run 0 0] by simp

text \<open>
  C6: Crash recovery. After any sequence of steps, the peer that \<open>Make\<close> builds from the persister
  has the term, vote, log, snapshot point and snapshot the crashed peer had, and starts
  as a follower at the snapshot point.
\<close>

theorem crash_recovery:
  assumes "peer_run is (Make n i MakePersister rnd now) = Inr rf"
  shows "currentTerm (restart rnd' now' rf) = currentTerm rf \<and> votedFor (restart rnd' now' rf) = votedFor rf \<and>
    log (restart rnd' now' rf) = log rf \<and>
    lastIncludedIndex (restart rnd' now' rf) = lastIncludedIndex rf \<and>
    lastIncludedTerm (restart rnd' now' rf) = lastIncludedTerm rf \<and>
    snapShot (restart rnd' now' rf) = snapShot rf \<and> state (restart rnd' now' rf) = Follower \<and>
    commitIndex (restart rnd' now' rf) = lastIncludedIndex rf \<and>
    lastApplied (restart rnd' now' rf) = lastIncludedIndex rf"
proof -
  have "durable (Make n i MakePersister rnd now)" by (simp add: durable_def Make_pristine)
  from peer_run_durable[OF this assms] show ?thesis by (simp add: restart_fields restart_indices)
qed

theorem crash_recovery_witness:
  "\<exists>rf. peer_run demo_run (Make 3 0 MakePersister 0 0) = Inr rf \<and>
     log rf = [\<lparr>eTerm = 2, eCommand = Some 7\<rparr>, \<lparr>eTerm = 3, eCommand = Some 9\<rparr>] \<and>
     log (restart 0 0 rf) = log rf \<and> currentTerm (restart 0 0 rf) = 3 \<and> lastApplied (restart 0 0 rf) = 1"
proof -
  define d where "d = peer_run demo_run (Make 3 0 MakePersister 0 0)"
  have *: "case d of Inl _ \<Rightarrow> False | Inr rf \<Rightarrow>
      log rf = [\<lparr>eTerm = 2, eCommand = Some 7\<rparr>, \<lparr>eTerm = 3, eCommand = Some 9\<rparr>] \<and>
      currentTerm rf = 3 \<and> lastIncludedIndex rf = 1"
    unfolding d_def by code_simp
  then obtain rf where "d = Inr rf" by (cases d) auto
  with * crash_recovery[of demo_run 3 0 0 0 rf 0 0] show ?thesis unfolding d_def by auto
qed

text \<open>
  C7: RequestVote. The handler grants a vote exactly when the request is not from an older term,
  the peer has not voted for somebody else in the request's term, and the candidate's log is at
  least as up to date; a granted vote is on stable storage before the reply leaves, and
  the peer never ends in a term below the request's.
\<close>

theorem RequestVote_decision:
  assumes "raft_wf rf"
  shows "\<exists>rf' r. RequestVote args rf = Inr (rf', r) \<and>
    (rvrVoteGranted r \<longleftrightarrow>
       currentTerm rf \<le> rvTerm args \<and>
       (currentTerm rf < rvTerm args \<or> votedFor rf = -1 \<or> votedFor rf = rvCandidateId args) \<and>
       (eTerm (last (log rf)) < rvLastLogTerm args \<or>
        eTerm (last (log rf)) = rvLastLogTerm args \<and> lastLogIndex rf + 1 \<le> rvLastLogIndex args)) \<and>
    (rvrVoteGranted r \<longrightarrow> votedFor rf' = rvCandidateId args \<and> persisted rf') \<and>
    currentTerm rf' = max (currentTerm rf) (rvTerm args) \<and> log rf' = log rf"
proof -
  have ne: "log rf \<noteq> []" using assms by (simp add: raft_wf_def)
  then have l: "go_nth (log rf) (loglen rf - 1) = Inr (last (log rf))" by (simp add: go_nth_last)
  consider "rvTerm args < currentTerm rf" | "rvTerm args = currentTerm rf" | "currentTerm rf < rvTerm args" by linarith
  then show ?thesis
    by cases (auto simp: RequestVote_def Let_def l VirtualLogIdx_def algebra_simps max_def)
qed

theorem RequestVote_decision_witness:
  "raft_wf demo_voter \<and> (\<exists>rf' r. RequestVote \<lparr>rvTerm = 3, rvCandidateId = 2, rvLastLogIndex = 1, rvLastLogTerm = -1\<rparr> demo_voter
      = Inr (rf', r) \<and> rvrVoteGranted r \<and> votedFor rf' = 2)"
proof -
  have wf: "raft_wf demo_voter"
    by (simp add: raft_wf_def demo_voter_def demo_defs numeral_3_eq_3)
  have "currentTerm demo_voter = 2" "log demo_voter = [\<lparr>eTerm = -1, eCommand = None\<rparr>]" "lastIncludedIndex demo_voter = 0"
    by (simp_all add: demo_voter_def demo_defs)
  with wf RequestVote_decision[OF wf, of "\<lparr>rvTerm = 3, rvCandidateId = 2, rvLastLogIndex = 1, rvLastLogTerm = -1\<rparr>"]
  show ?thesis by force
qed

text \<open>
  C8: AppendEntries. An accepted request succeeds; the log keeps everything up to the
  previous-entry index, then carries the request's terms at the following indices, and is left
  alone when it already had them (a late or repeated request never truncates); nothing committed
  is lost, and the commit index moves to the smaller of the leader's and the last index, never back.
\<close>

theorem AppendEntries_effect:
  assumes "raft_wf rf" "append_accepts args rf" "append_safe args rf"
  shows "\<exists>rf'. AppendEntries rnd args rf = Inr (rf', \<lparr>aerTerm = currentTerm rf, aerSuccess = True\<rparr>) \<and>
    take (append_pos args rf) (log rf') = take (append_pos args rf) (log rf) \<and>
    append_pos args rf + length (aeEntries args) \<le> length (log rf') \<and>
    (\<forall>k < length (aeEntries args). eTerm (log rf' ! (append_pos args rf + k)) = eTerm (aeEntries args ! k)) \<and>
    (commonTerms (drop (append_pos args rf) (log rf)) (aeEntries args) = length (aeEntries args) \<longrightarrow>
       log rf' = log rf) \<and>
    take (Suc (nat (commitIndex rf - lastIncludedIndex rf))) (log rf')
      = take (Suc (nat (commitIndex rf - lastIncludedIndex rf))) (log rf) \<and>
    commitIndex rf' = max (commitIndex rf) (min (aeLeaderCommit args) (lastLogIndex rf')) \<and>
    currentTerm rf' = aeTerm args \<and> persisted rf'"
proof -
  let ?rf' = "append_commit args (persist ((append_term args (timer_reset rnd rf))
      \<lparr>log := mergeSpec (log rf) (append_pos args rf) (aeEntries args)\<rparr>))"
  have le: "append_pos args rf \<le> length (log rf)" by (rule append_pos_le[OF assms(2)])
  have p: "persisted ?rf'" by (simp add: persisted_def encodeState_def persist_def Save_def append_commit_def)
  note eq = AppendEntries_accepted[OF assms(2), of rnd]
  have "commitIndex rf \<le> lastLogIndex ?rf'"
    using append_keeps_committed(1)[OF assms(1,3,2)] by simp
  then have c: "commitIndex ?rf' = max (commitIndex rf) (min (aeLeaderCommit args) (lastLogIndex ?rf'))"
    by (simp add: max_def min_def split: if_splits)
  show ?thesis
    using mergeSpec_prefix[OF le] mergeSpec_ge[OF le] mergeSpec_terms[OF le] c assms(2)
      append_keeps_committed(2)[OF assms(1,3,2)]
    by (intro exI[of _ ?rf'] conjI eq p) (simp_all add: mergeSpec_def append_term_role append_accepts_def)
qed

definition demo_stale :: "nat AppendEntriesArgs" where
  "demo_stale = \<lparr>aeTerm = 4, aeLeaderId = 1, aePrevLogIndex = 0, aePrevLogTerm = -1, aeEntries = [], aeLeaderCommit = 5\<rparr>"

theorem AppendEntries_effect_witness:
  "\<exists>rf'. AppendEntries 0 demo_stale (demo_voter\<lparr>log := demo_log\<rparr>) =
      Inr (rf', \<lparr>aerTerm = 2, aerSuccess = True\<rparr>) \<and> log rf' = demo_log \<and> commitIndex rf' = 1"
proof -
  let ?rf = "demo_voter\<lparr>log := demo_log\<rparr>"
  have f: "currentTerm ?rf = 2" "commitIndex ?rf = 0" "lastIncludedIndex ?rf = 0" "state ?rf = Follower"
    "lastApplied ?rf = 0" "me ?rf = 1" "npeers ?rf = 3" "nextIndex ?rf = [1, 1, 1]" "matchIndex ?rf = [0, 0, 0]"
    by (simp_all add: demo_voter_def demo_defs numeral_3_eq_3)
  have h: "raft_wf ?rf" "append_accepts demo_stale ?rf" "append_safe demo_stale ?rf" "append_pos demo_stale ?rf = 1"
    using f by (simp_all add: raft_wf_def append_accepts_def append_safe_def append_pos_def demo_stale_def demo_log_def placeholder_def)
  have "aeEntries demo_stale = []" "aeLeaderCommit demo_stale = 5" "length demo_log = 2" "lastIncludedIndex ?rf = 0"
    using f by (simp_all add: demo_stale_def demo_log_def)
  with AppendEntries_effect[OF h(1-3), of 0] AppendEntries_accepted[OF h(2), of 0] f(1,2)
  show ?thesis by (auto simp: mergeSpec_def)
qed

text \<open>
  C9: Replaying an AppendEntries is harmless: delivered again to the peer that has just
  handled it, it gets the same verdict and changes neither term, vote, log nor commit index.
\<close>

theorem AppendEntries_replay:
  assumes "AppendEntries rnd args rf = Inr (rf1, r1)"
  shows "\<exists>rf2 r2. AppendEntries rnd' args rf1 = Inr (rf2, r2) \<and> aerSuccess r2 = aerSuccess r1 \<and>
    log rf2 = log rf1 \<and> currentTerm rf2 = currentTerm rf1 \<and> votedFor rf2 = votedFor rf1 \<and>
    commitIndex rf2 = commitIndex rf1 \<and> state rf2 = state rf1"
proof (cases rule: AppendEntries_cases[of args rf rnd])
  case stale
  then have "rf1 = timer_reset rnd rf" "r1 = \<lparr>aerTerm = currentTerm rf, aerSuccess = False\<rparr>" using assms by auto
  with stale show ?thesis by (simp add: AppendEntries_eq)
next
  case refused
  then have r: "rf1 = persist (append_term args (timer_reset rnd rf))" "\<not> aerSuccess r1" using assms by auto
  then have "\<not> append_accepts args rf1" "currentTerm rf1 = aeTerm args"
    using refused(1,2) by (auto simp: append_accepts_def append_term_role)
  with AppendEntries_refused[of rf1 args rnd'] r show ?thesis by (simp add: append_term_role)
next
  case accepted
  let ?p = "append_pos args rf" and ?es = "aeEntries args"
  let ?lg = "mergeSpec (log rf) ?p ?es"
  have r: "rf1 = append_commit args (persist ((append_term args (timer_reset rnd rf))\<lparr>log := ?lg\<rparr>))" "aerSuccess r1"
    using accepted assms by auto
  have le: "?p \<le> length (log rf)" by (rule append_pos_le[OF accepted(1)])
  have lg: "log rf1 = ?lg" "lastIncludedIndex rf1 = lastIncludedIndex rf" "currentTerm rf1 = aeTerm args"
    using r accepted(2) by (auto simp: append_term_role)
  have p: "append_pos args rf1 = ?p" by (simp add: append_pos_def lg)
  have same: "mergeSpec ?lg ?p ?es = ?lg" by (rule mergeSpec_again[OF le])
  have "log rf ! nat (aePrevLogIndex args - lastIncludedIndex rf) = ?lg ! nat (aePrevLogIndex args - lastIncludedIndex rf)"
    using mergeSpec_prefix[OF le, of ?es] by (metis append_pos_def less_add_one nth_take)
  moreover have "length ?lg \<ge> ?p" using mergeSpec_ge[OF le, of ?es] by simp
  ultimately have acc: "append_accepts args rf1"
    using accepted(1) lg by (auto simp: append_accepts_def append_pos_def)
  show ?thesis
    using AppendEntries_accepted[OF acc, of rnd'] r lg p same
    by (simp add: append_term_role)
qed

theorem AppendEntries_replay_witness:
  "\<exists>rf1 rf2 r2. AppendEntries 0 demo_append demo_voter = Inr (rf1, \<lparr>aerTerm = 2, aerSuccess = True\<rparr>) \<and>
     AppendEntries 5 demo_append rf1 = Inr (rf2, r2) \<and> aerSuccess r2 \<and> log rf2 = demo_log"
proof -
  from demo_accept obtain rf1 where
    "AppendEntries 0 demo_append demo_voter = Inr (rf1, \<lparr>aerTerm = 2, aerSuccess = True\<rparr>)" "log rf1 = demo_log" by blast
  with AppendEntries_replay[OF this(1), of 5] show ?thesis by auto
qed

text \<open>
  C10: The commit rule. When a leader learns that a peer has its log up to some index, it moves its
  commit index to the largest index above the old one that a majority holds and whose entry is of
  the leader's own term, and leaves it where it is when there is none.
\<close>

theorem commit_rule:
  assumes "raft_wf rf" "0 \<le> server" "server < int (npeers rf)" "aerSuccess reply" "currentTerm rf \<le> aeTerm args"
  defines "seen \<equiv> leader_sees_success server args rf"
  shows "\<exists>rf'. sendAppendEntries rnd server args reply rf = Inr (rf', True) \<and> log rf' = log rf \<and>
     (commitIndex rf' = commitIndex rf \<and>
        (\<forall>M. commitIndex rf < M \<and> M \<le> lastLogIndex rf \<longrightarrow> \<not> replicated seen M) \<or>
      commitIndex rf < commitIndex rf' \<and> commitIndex rf' \<le> lastLogIndex rf \<and> replicated seen (commitIndex rf') \<and>
        (\<forall>K. commitIndex rf' < K \<and> K \<le> lastLogIndex rf \<longrightarrow> \<not> replicated seen K))"
proof -
  have f: "commitIndex seen = commitIndex rf" "lastLogIndex seen = lastLogIndex rf"
    by (simp_all add: seen_def leader_sees_success_def Let_def)
  from sendAppendEntries_success[OF assms(1,4,5,2,3), of rnd] obtain rf' where
    s: "sendAppendEntries rnd server args reply rf = Inr (rf', True)" "advanceCommit seen (lastLogIndex rf) = Inr rf'"
    unfolding seen_def by blast
  have "\<exists>rf'. advanceCommit seen (lastLogIndex rf) = Inr rf' \<and>
    (rf' = seen \<and> (\<forall>M. commitIndex seen < M \<and> M \<le> lastLogIndex rf \<longrightarrow> \<not> replicated seen M) \<or>
     (\<exists>M. commitIndex seen < M \<and> M \<le> lastLogIndex rf \<and> replicated seen M \<and>
          (\<forall>K. M < K \<and> K \<le> lastLogIndex rf \<longrightarrow> \<not> replicated seen K) \<and>
          rf' = signalCommit (seen\<lparr>commitIndex := M\<rparr>)))"
    using leader_sees_success_wf[OF assms(1)] f unfolding seen_def by (intro advanceCommit_result) auto
  with s(2) f(1) have "commitIndex rf' = commitIndex rf \<and>
        (\<forall>M. commitIndex rf < M \<and> M \<le> lastLogIndex rf \<longrightarrow> \<not> replicated seen M) \<or>
      commitIndex rf < commitIndex rf' \<and> commitIndex rf' \<le> lastLogIndex rf \<and> replicated seen (commitIndex rf') \<and>
        (\<forall>K. commitIndex rf' < K \<and> K \<le> lastLogIndex rf \<longrightarrow> \<not> replicated seen K)"
    by auto
  with s(1) sendAppendEntries_log[OF s(1)] show ?thesis by blast
qed

theorem commit_rule_witness:
  "\<exists>rf'. sendAppendEntries 0 1 demo_append \<lparr>aerTerm = 2, aerSuccess = True\<rparr> (demo_leader\<lparr>log := demo_log\<rparr>) = Inr (rf', True) \<and>
     log rf' = demo_log \<and> commitIndex rf' \<in> {0, 1}"
proof -
  let ?rf = "demo_leader\<lparr>log := demo_log\<rparr>" and ?r = "\<lparr>aerTerm = 2, aerSuccess = True\<rparr>"
  have f: "raft_wf ?rf" "npeers ?rf = 3" "currentTerm ?rf = 2" "commitIndex ?rf = 0" "lastLogIndex ?rf = 1"
    by (simp_all add: raft_wf_def demo_leader_def demo_asking_def demo_candidate_def demo_log_def demo_defs numeral_3_eq_3)
  have a: "aeTerm demo_append = 2" by (simp add: demo_append_def)
  from commit_rule[of ?rf 1 ?r demo_append 0] f a obtain rf' where
    r: "sendAppendEntries 0 1 demo_append ?r ?rf = Inr (rf', True)" "log rf' = log ?rf"
      "commitIndex rf' = 0 \<or> 0 < commitIndex rf' \<and> commitIndex rf' \<le> 1" by auto
  from r(3) have "commitIndex rf' \<in> {0, 1}" by auto
  with r(1,2) show ?thesis by auto
qed

text \<open>
  C11: In-order, exactly-once delivery. One round of the commit checker hands the service the entries
  \<open>lastApplied + 1, \<dots>, commitIndex\<close>, each once, in order, with the command the log has there,
  and leaves \<open>lastApplied\<close> at the commit index.
\<close>

theorem commit_delivery:
  assumes "raft_wf rf"
  shows "\<exists>rf' ms. CommitChecker_collect rf = Inr (rf', ms) \<and>
    map amCommandIndex ms = [lastApplied rf + 1..commitIndex rf] \<and>
    map amCommand ms = map (\<lambda>v. eCommand (entryAt rf v)) [lastApplied rf + 1..commitIndex rf] \<and>
    (\<forall>m \<in> set ms. amCommandValid m \<and> \<not> amSnapshotValid m) \<and>
    lastApplied (fold CommitChecker_applied ms rf') = commitIndex rf"
proof -
  let ?r = "rf\<lparr>commitCh := CheckerBusy\<rparr>"
  have "lastApplied rf \<le> commitIndex rf" using assms by (simp add: raft_wf_def)
  with CommitChecker_applied_run[of ?r "commitIndex rf" rf]
  have "lastApplied (fold CommitChecker_applied (map (applyMsgAt rf) [lastApplied rf + 1..commitIndex rf]) ?r) = commitIndex rf"
    by simp
  then show ?thesis
    unfolding CommitChecker_collect_wf[OF assms]
    by (intro exI[of _ ?r] exI[of _ "map (applyMsgAt rf) [lastApplied rf + 1..commitIndex rf]"])
      (auto simp: applyMsgAt_def entryAt_def Let_def intro: map_idI)
qed

theorem commit_delivery_witness:
  "\<exists>rf' ms. CommitChecker_collect (demo_leader\<lparr>log := demo_log, commitIndex := 1\<rparr>) = Inr (rf', ms) \<and>
     map amCommandIndex ms = [1..1] \<and> map amCommand ms = [Some 7]"
proof -
  let ?rf = "demo_leader\<lparr>log := demo_log, commitIndex := 1\<rparr>"
  have f: "raft_wf ?rf" "lastApplied ?rf = 0" "commitIndex ?rf = 1" "entryAt ?rf 1 = \<lparr>eTerm = 2, eCommand = Some 7\<rparr>"
    by (simp_all add: raft_wf_def entryAt_def demo_leader_def demo_asking_def demo_candidate_def demo_log_def demo_defs numeral_3_eq_3)
  with commit_delivery[OF f(1)] show ?thesis by auto
qed

text \<open>
  C12: Compaction keeps the log. Taking a snapshot at a committed index beyond the last one moves
  the snapshot point there, keeps every entry from that index on under its old index and the last index,
  records the entry's term, and is on stable storage when the call returns: the restarted peer
  has the same entries.
\<close>

theorem Snapshot_keeps_entries:
  assumes "raft_wf rf" "lastIncludedIndex rf < index" "index \<le> commitIndex rf"
  shows "\<exists>rf'. Snapshot index snap rf = Inr rf' \<and> raft_wf rf' \<and>
    lastIncludedIndex rf' = index \<and> lastIncludedTerm rf' = eTerm (entryAt rf index) \<and> snapShot rf' = snap \<and>
    lastLogIndex rf' = lastLogIndex rf \<and>
    (\<forall>v. index \<le> v \<and> v \<le> lastLogIndex rf \<longrightarrow>
       entryAt rf' v = entryAt rf v \<and> entryAt (restart rnd now rf') v = entryAt rf v)"
proof -
  let ?rf' = "persist (rf\<lparr>snapShot := snap, lastIncludedTerm := eTerm (entryAt rf index),
      log := drop (nat (index - lastIncludedIndex rf)) (log rf), lastIncludedIndex := index,
      lastApplied := max (lastApplied rf) index\<rparr>)"
  have len: "nat (index - lastIncludedIndex rf) < length (log rf)" using assms by (auto simp: raft_wf_def)
  have ent: "entryAt ?rf' v = entryAt rf v" if "index \<le> v" for v
  proof -
    have "nat (index - lastIncludedIndex rf) + nat (v - index) = nat (v - lastIncludedIndex rf)"
      using that assms(2) by simp
    with len show ?thesis by (simp add: entryAt_def)
  qed
  have "entryAt (restart rnd now ?rf') v = entryAt ?rf' v" for v
    by (simp add: entryAt_def restart_fields)
  moreover have "raft_wf ?rf'" using assms len by (auto simp: raft_wf_def of_nat_diff)
  ultimately show ?thesis
    using ent len assms by (intro exI[of _ ?rf'] conjI Snapshot_taken) (auto simp: of_nat_diff)
qed

theorem Snapshot_keeps_entries_witness:
  "\<exists>rf'. Snapshot 1 [5] (demo_leader\<lparr>log := demo_log, commitIndex := 1\<rparr>) = Inr rf' \<and> lastIncludedIndex rf' = 1 \<and>
     entryAt (restart 0 0 rf') 1 = \<lparr>eTerm = 2, eCommand = Some 7\<rparr>"
proof -
  let ?rf = "demo_leader\<lparr>log := demo_log, commitIndex := 1\<rparr>"
  have f: "raft_wf ?rf" "lastIncludedIndex ?rf = 0" "commitIndex ?rf = 1" "entryAt ?rf 1 = \<lparr>eTerm = 2, eCommand = Some 7\<rparr>"
    "lastLogIndex ?rf = 1"
    by (simp_all add: raft_wf_def entryAt_def demo_leader_def demo_asking_def demo_candidate_def demo_log_def demo_defs numeral_3_eq_3)
  with Snapshot_keeps_entries[of ?rf 1 "[5]" 0 0] show ?thesis by auto
qed

text \<open>
  Back-off makes progress and stays in range. A refusal in the leader's term moves
  \<open>nextIndex\<close> of the peer strictly down, to no less than the snapshot point, unless it was at or below
  the snapshot point already, in which case the leader falls back to it: after finitely many refusals the leader
  sends the snapshot.
\<close>

lemma backoff_progress:
  assumes "raft_wf rf" "leader_ok rf" "state rf = Leader" "0 \<le> server" "server < int (npeers rf)"
    and "\<not> aerSuccess reply" "aerTerm reply = currentTerm rf" "currentTerm rf \<le> aeTerm args" "0 < currentTerm rf"
    and "lastIncludedIndex rf < nextIndex rf ! nat server"
  shows "\<exists>rf'. sendAppendEntries rnd server args reply rf = Inr (rf', False) \<and>
     lastIncludedIndex rf \<le> nextIndex rf' ! nat server \<and>
     nextIndex rf' ! nat server < nextIndex rf ! nat server \<and>
     (\<forall>j. j \<noteq> nat server \<longrightarrow> nextIndex rf' ! j = nextIndex rf ! j) \<and> matchIndex rf' = matchIndex rf \<and>
     commitIndex rf' = commitIndex rf \<and> log rf' = log rf"
proof -
  let ?ni = "nextIndex rf ! nat server"
  have "?ni \<in> set (nextIndex rf)" using assms by (simp add: raft_wf_def)
  then have "?ni \<le> lastLogIndex rf + 1" using assms(2,3) by (simp add: leader_ok_def)
  with backoff_result[of rf ?ni "?ni - 1"] assms(1,10) obtain ni' where
    b: "backoff rf ?ni (?ni - 1) = Inr ni'" "lastIncludedIndex rf \<le> ni'" "ni' < ?ni"
    by (auto simp: raft_wf_def)
  have sv: "nat server < length (nextIndex rf)" using assms by (simp add: raft_wf_def nat_less_iff)
  have "sendAppendEntries rnd server args reply rf = Inr (rf\<lparr>nextIndex := (nextIndex rf)[nat server := ni']\<rparr>, False)"
    using assms b(1) sv by (simp add: sendAppendEntries_def go_simps)
  then show ?thesis using b sv by (auto simp: nth_list_update)
qed

subsection \<open>Corner cases of the code\<close>

text \<open>
  The placeholder a snapshot leaves. When the log has no entry with the index and term of an installed
  snapshot, \<open>InstallSnapshot\<close> writes a one-entry log whose placeholder carries the term of the
  snapshot the peer had before, not of the one it installs; delivering the same snapshot a second time
  does not find its own placeholder, and only then puts the right term there.
\<close>

lemma InstallSnapshot_stale_term:
  assumes "currentTerm rf \<le> isTerm args" "lastIncludedTerm rf \<noteq> isLastIncludedTerm args"
    and "findEntry (lastIncludedIndex rf) (isLastIncludedIndex args) (isLastIncludedTerm args) (log rf) = None"
    and "InstallSnapshot rnd args rf = (rf1, r1, m1)" "InstallSnapshot rnd' args rf1 = (rf2, r2, m2)"
  shows "map eTerm (log rf1) = [lastIncludedTerm rf] \<and> lastIncludedTerm rf1 = isLastIncludedTerm args \<and>
     map eTerm (log rf2) = [isLastIncludedTerm args]"
proof -
  note f1 = InstallSnapshot_fields[OF assms(1,4)]
  have l1: "log rf1 = [\<lparr>eTerm = lastIncludedTerm rf, eCommand = isLastIncludedCmd args\<rparr>]"
    using f1(1) assms(3) by (simp add: install_log_def)
  have "currentTerm rf1 \<le> isTerm args" using f1 by simp
  note f2 = InstallSnapshot_fields[OF this assms(5)]
  have "log rf2 = [\<lparr>eTerm = isLastIncludedTerm args, eCommand = isLastIncludedCmd args\<rparr>]"
    using f2(1) f1 l1 assms(2) by (simp add: install_log_def)
  with l1 f1 show ?thesis by simp
qed

definition demo_install :: "(nat, nat) InstallSnapshotArgs" where
  "demo_install = \<lparr>isTerm = 5, isLeaderId = 0, isLastIncludedIndex = 9, isLastIncludedTerm = 4, isData = [1], isLastIncludedCmd = Some 3\<rparr>"

lemma fold_applied_frame:
  "commitCh (fold CommitChecker_applied ms rf) = commitCh rf \<and>
   commitIndex (fold CommitChecker_applied ms rf) = commitIndex rf \<and> dead (fold CommitChecker_applied ms rf) = dead rf"
  by (induction ms arbitrary: rf) (auto simp: CommitChecker_applied_def)

text \<open>
  A lost wake-up. The signal to the commit checker is dropped while the checker is delivering, and when it
  has finished it waits for the next signal without looking at the commit index again: a commit that
  arrives in between stays undelivered until some later commit.
\<close>

lemma commit_signal_lost:
  assumes "raft_wf rf" "\<not> killed rf" "commitIndex rf < c"
    and "CommitChecker_collect rf = Inr (rf1, ms)"
  shows "\<exists>rf2. CommitChecker_done (fold CommitChecker_applied ms (signalCommit (rf1\<lparr>commitIndex := c\<rparr>))) = rf2 \<and>
    commitCh rf2 = CheckerWaiting \<and> lastApplied rf2 = commitIndex rf \<and> lastApplied rf2 < commitIndex rf2"
proof -
  have c: "rf1 = rf\<lparr>commitCh := CheckerBusy\<rparr>" "ms = map (applyMsgAt rf) [lastApplied rf + 1..commitIndex rf]"
    using assms(4) CommitChecker_collect_wf[OF assms(1)] by auto
  let ?rf2 = "signalCommit (rf1\<lparr>commitIndex := c\<rparr>)"
  have la: "lastApplied ?rf2 = lastApplied rf" by (simp add: c)
  have "lastApplied rf \<le> commitIndex rf" using assms(1) by (simp add: raft_wf_def)
  with CommitChecker_applied_run[of ?rf2 "commitIndex rf" rf]
  have "lastApplied (fold CommitChecker_applied ms ?rf2) = commitIndex rf" unfolding la c(2) by simp
  with fold_applied_frame[of ms ?rf2] assms(2,3) show ?thesis
    by (simp add: CommitChecker_done_def c(1) killed_def)
qed

end
