(* ===== verification/Session.thy ===== *)
theory Session
  imports Prelude
begin

text \<open>
  The contract between a replicated service and clerks that retry. Every server of the
  repository (\<open>kvsrv\<close>, \<open>kvraft\<close>, \<open>shardctrler\<close>, \<open>shardkv\<close>) tags requests with a clerk
  and a sequence number and remembers per clerk what it has executed, so that a request that
  arrives again has no second effect. The laws below are what the services prove; the
  lemmas are what a clerk may rely on.
\<close>

definition run_ops :: "('op \<Rightarrow> 's \<Rightarrow> 's \<times> 'r) \<Rightarrow> 'op list \<Rightarrow> 's \<Rightarrow> 's" where
  "run_ops exec ops s = fold (\<lambda>op s. fst (exec op s)) ops s"

lemma run_ops_Nil [simp]: "run_ops exec [] s = s"
  by (simp add: run_ops_def)

lemma run_ops_Cons [simp]: "run_ops exec (op # ops) s = run_ops exec ops (fst (exec op s))"
  by (simp add: run_ops_def)

lemma run_ops_append [simp]: "run_ops exec (xs @ ys) s = run_ops exec ys (run_ops exec xs s)"
  by (simp add: run_ops_def)

text \<open>The first occurrence of every request of a log.\<close>

fun first_only :: "'a list \<Rightarrow> 'a list" where
  "first_only [] = []"
| "first_only (x # xs) = x # filter (\<lambda>y. y \<noteq> x) (first_only xs)"

lemma set_first_only [simp]: "set (first_only xs) = set xs"
  by (induction xs) auto

lemma distinct_first_only [simp]: "distinct (first_only xs)"
  by (induction xs) auto

text \<open>
  \<open>seen s op\<close>: the request, or a later one of its clerk, has been executed.
  \<open>next s op\<close>: the service will execute it if it arrives now.
\<close>

locale session =
  fixes exec :: "'op \<Rightarrow> 's \<Rightarrow> 's \<times> 'r"
    and seen :: "'s \<Rightarrow> 'op \<Rightarrow> bool"
    and nxt :: "'s \<Rightarrow> 'op \<Rightarrow> bool"
    and ok :: "'s \<Rightarrow> bool"
  assumes ok_exec: "ok s \<Longrightarrow> ok (fst (exec op s))"
    and seen_exec: "ok s \<Longrightarrow> nxt s op \<Longrightarrow> seen (fst (exec op s)) op"
    and seen_mono: "ok s \<Longrightarrow> seen s op \<Longrightarrow> seen (fst (exec op' s)) op"
    and seen_skip: "ok s \<Longrightarrow> seen s op \<Longrightarrow> fst (exec op s) = s"
begin

text \<open>Every request of the log is executed or has been when its turn comes.\<close>

fun inorder :: "'s \<Rightarrow> 'op list \<Rightarrow> bool" where
  "inorder s [] = True"
| "inorder s (op # ops) = ((seen s op \<or> nxt s op) \<and> inorder (fst (exec op s)) ops)"

lemma ok_run: "ok s \<Longrightarrow> ok (run_ops exec ops s)"
  by (induction ops arbitrary: s) (auto intro: ok_exec)

lemma seen_run: "ok s \<Longrightarrow> seen s op \<Longrightarrow> seen (run_ops exec ops s) op"
  by (induction ops arbitrary: s) (auto intro: ok_exec seen_mono)

lemma run_drop_seen:
  "ok s \<Longrightarrow> seen s op \<Longrightarrow> run_ops exec (filter (\<lambda>x. x \<noteq> op) ops) s = run_ops exec ops s"
proof (induction ops arbitrary: s)
  case (Cons x ops)
  show ?case
  proof (cases "x = op")
    case True
    with Cons seen_skip show ?thesis by simp
  next
    case False
    with Cons show ?thesis by (simp add: ok_exec seen_mono)
  qed
qed simp

theorem run_dedup: "ok s \<Longrightarrow> inorder s ops \<Longrightarrow> run_ops exec (first_only ops) s = run_ops exec ops s"
proof (induction ops arbitrary: s)
  case (Cons op ops)
  let ?s = "fst (exec op s)"
  have seen: "seen ?s op" using Cons.prems by (auto intro: seen_exec seen_mono)
  have "run_ops exec (filter (\<lambda>y. y \<noteq> op) (first_only ops)) ?s = run_ops exec (first_only ops) ?s"
    by (rule run_drop_seen[OF ok_exec[OF Cons.prems(1)] seen])
  with Cons show ?case by (simp add: ok_exec)
qed simp

theorem once:
  assumes "ok s" "nxt s op"
  shows "run_ops exec (op # filter (\<lambda>x. x \<noteq> op) ops) s = run_ops exec (op # ops) s"
  using run_drop_seen[OF ok_exec[OF assms(1)] seen_exec[OF assms]] by simp

end

text \<open>The reply to the last request of a clerk is kept until the clerk sends another.\<close>

locale reply_session = session exec seen nxt ok
  for exec :: "'op \<Rightarrow> 's \<Rightarrow> 's \<times> 'r" and seen nxt ok +
  fixes clerk :: "'op \<Rightarrow> 'c"
    and answer :: "'s \<Rightarrow> 'op \<Rightarrow> 'r option"
  assumes answer_exec: "ok s \<Longrightarrow> nxt s op \<Longrightarrow> answer (fst (exec op s)) op = Some (snd (exec op s))"
    and answer_replay: "ok s \<Longrightarrow> answer s op = Some r \<Longrightarrow> exec op s = (s, r)"
    and answer_other: "ok s \<Longrightarrow> clerk op' \<noteq> clerk op \<Longrightarrow> answer (fst (exec op' s)) op = answer s op"
begin

text \<open>
  A clerk waits for its request: the log holds copies of the request and requests of other
  clerks. All copies get the reply of the first, and the state is the one a single copy gives.
\<close>

theorem answer_stable:
  assumes "ok s" "answer s op = Some r" "\<forall>x \<in> set ops. x = op \<or> clerk x \<noteq> clerk op"
  shows "answer (run_ops exec ops s) op = Some r"
    and "exec op (run_ops exec ops s) = (run_ops exec ops s, r)"
    and "run_ops exec (filter (\<lambda>x. x \<noteq> op) ops) s = run_ops exec ops s"
proof -
  have "answer (run_ops exec ops s) op = Some r \<and>
      run_ops exec (filter (\<lambda>x. x \<noteq> op) ops) s = run_ops exec ops s"
    using assms
  proof (induction ops arbitrary: s)
    case (Cons x ops)
    show ?case
    proof (cases "x = op")
      case True
      with answer_replay[OF Cons.prems(1,2)] Cons show ?thesis by simp
    next
      case False
      with Cons answer_other[of s x op] show ?thesis by (simp add: ok_exec)
    qed
  qed simp
  then show "answer (run_ops exec ops s) op = Some r"
    and "run_ops exec (filter (\<lambda>x. x \<noteq> op) ops) s = run_ops exec ops s" by blast+
  then show "exec op (run_ops exec ops s) = (run_ops exec ops s, r)"
    using answer_replay ok_run assms(1) by blast
qed

theorem retry_reply:
  assumes "ok s" "nxt s op" "\<forall>x \<in> set ops. x = op \<or> clerk x \<noteq> clerk op"
  shows "exec op (run_ops exec (op # ops) s) = (run_ops exec (op # filter (\<lambda>x. x \<noteq> op) ops) s, snd (exec op s))"
  using answer_stable(2,3)[OF ok_exec[OF assms(1)] answer_exec[OF assms(1,2)] assms(3)] by simp

end

text \<open>
  The loop of a clerk that does not know the leader. \<open>loop es c\<close> runs attempts \<open>es\<close>; at an attempt the server
  in turn either refuses (\<open>skips\<close>), and the clerk turns to the next one modulo their number, or answers
  (\<open>final\<close>), and the clerk returns after the update \<open>fin\<close>.
\<close>

lemma rotate_closer:
  fixes i l n :: int
  assumes "0 \<le> i" "i < n" "0 \<le> l" "l < n" "i \<noteq> l"
  shows "(l - (i + 1) mod n) mod n = (l - i) mod n - 1" "1 \<le> (l - i) mod n"
proof -
  have "(l - i) mod n \<noteq> 0"
  proof (cases "i < l")
    case True
    then show ?thesis using assms by (simp add: mod_pos_pos_trivial)
  next
    case False
    then have "(l - i + n) mod n = l - i + n" using assms by (intro mod_pos_pos_trivial) auto
    then show ?thesis using assms by simp
  qed
  then show 1: "1 \<le> (l - i) mod n"
    using assms pos_mod_sign[of n "l - i"] by linarith
  have "(l - (i + 1) mod n) mod n = ((l - i) mod n - 1) mod n"
    by (simp add: mod_simps algebra_simps)
  also have "\<dots> = (l - i) mod n - 1"
  proof (rule mod_pos_pos_trivial)
    show "(l - i) mod n - 1 < n" using assms(1,2) pos_mod_bound[of n "l - i"] by linarith
  qed (use 1 in simp)
  finally show "(l - (i + 1) mod n) mod n = (l - i) mod n - 1" .
qed

locale rotation =
  fixes loop :: "'e list \<Rightarrow> 'c \<Rightarrow> ('c \<times> 'v) option res"
    and leader :: "'c \<Rightarrow> int"
    and turn :: "int \<Rightarrow> 'c \<Rightarrow> 'c"
    and servers :: "'c \<Rightarrow> nat"
    and fin :: "'c \<Rightarrow> 'c"
    and skips :: "'e \<Rightarrow> int \<Rightarrow> bool"
    and final :: "'e \<Rightarrow> int \<Rightarrow> 'v option"
  assumes loop_skip: "0 \<le> leader c \<Longrightarrow> leader c < int (servers c) \<Longrightarrow> skips e (leader c) \<Longrightarrow>
      loop (e # es) c = loop es (turn ((leader c + 1) mod int (servers c)) c)"
    and loop_final: "0 \<le> leader c \<Longrightarrow> leader c < int (servers c) \<Longrightarrow> final e (leader c) = Some v \<Longrightarrow>
      loop (e # es) c = Inr (Some (fin c, v))"
    and leader_turn: "leader (turn i c) = i"
    and servers_turn: "servers (turn i c) = servers c"
    and turn_turn: "turn i (turn j c) = turn i c"
    and turn_leader: "turn (leader c) c = c"
begin

lemma finds_within:
  assumes "0 \<le> leader c" "leader c < int (servers c)" "0 \<le> l" "l < int (servers c)"
    and "\<forall>e \<in> set es. final e l = Some v \<and> (\<forall>i. i \<noteq> l \<longrightarrow> skips e i)"
    and "nat ((l - leader c) mod int (servers c)) < length es"
  shows "loop es c = Inr (Some (fin (turn l c), v))"
  using assms
proof (induction es arbitrary: c)
  case (Cons e es)
  let ?n = "int (servers c)"
  show ?case
  proof (cases "leader c = l")
    case True
    with Cons.prems turn_leader[of c] show ?thesis by (simp add: loop_final)
  next
    case False
    let ?c = "turn ((leader c + 1) mod ?n) c"
    note closer = rotate_closer[OF Cons.prems(1-4) False]
    have "loop (e # es) c = loop es ?c" using Cons.prems False by (intro loop_skip) auto
    also have "\<dots> = Inr (Some (fin (turn l ?c), v))"
      using Cons.prems closer by (intro Cons.IH) (auto simp: leader_turn servers_turn)
    finally show ?thesis by (simp add: turn_turn)
  qed
qed simp

lemma finds_any:
  assumes "0 \<le> leader c" "leader c < int (servers c)" "0 \<le> l" "l < int (servers c)"
    and "\<forall>e \<in> set es. final e l = Some v \<and> (\<forall>i. 0 \<le> i \<and> i < int (servers c) \<and> i \<noteq> l \<longrightarrow> skips e i \<or> final e i = Some v)"
    and "nat ((l - leader c) mod int (servers c)) < length es"
  shows "\<exists>l'. 0 \<le> l' \<and> l' < int (servers c) \<and> loop es c = Inr (Some (fin (turn l' c), v))"
  using assms
proof (induction es arbitrary: c)
  case (Cons e es)
  let ?n = "int (servers c)"
  show ?case
  proof (cases "final e (leader c) = Some v")
    case True
    with Cons.prems(1,2) turn_leader[of c] show ?thesis by (intro exI[of _ "leader c"]) (simp add: loop_final)
  next
    case False
    let ?c = "turn ((leader c + 1) mod ?n) c"
    have ne: "leader c \<noteq> l" and sk: "skips e (leader c)" using Cons.prems(1,2,5) False by auto
    note closer = rotate_closer[OF Cons.prems(1-4) ne]
    have "loop (e # es) c = loop es ?c" using Cons.prems sk by (intro loop_skip) auto
    moreover have "\<exists>l'. 0 \<le> l' \<and> l' < int (servers ?c) \<and> loop es ?c = Inr (Some (fin (turn l' ?c), v))"
      by (rule Cons.IH) (use Cons.prems closer in \<open>auto simp: leader_turn servers_turn\<close>)
    ultimately show ?thesis by (simp add: turn_turn servers_turn)
  qed
qed simp

theorem finds:
  assumes "0 \<le> leader c" "leader c < int (servers c)" "0 \<le> l" "l < int (servers c)"
    and "\<forall>e \<in> set es. final e l = Some v \<and> (\<forall>i. i \<noteq> l \<longrightarrow> skips e i)"
    and "servers c \<le> length es"
  shows "loop es c = Inr (Some (fin (turn l c), v))"
proof (rule finds_within[OF assms(1-5)])
  have "nat ((l - leader c) mod int (servers c)) < servers c"
    using assms(1,2) by (subst nat_less_iff) simp_all
  with assms(6) show "nat ((l - leader c) mod int (servers c)) < length es" by simp
qed

end

end
