(* ===== verification/KvSrv.thy ===== *)
theory KvSrv
  imports Session
begin

text \<open>
  The single-machine key/value service: \<open>src/src/kvsrv/server.go\<close>, \<open>client.go\<close> and
  \<open>common.go\<close>. A clerk numbers its updates 0, 1, 2, \<dots>; the server executes an update only
  if its number is the next one of that clerk, and keeps the reply of the clerk's last
  \<open>Append\<close>. Counters are \<open>int\<close>: a clerk would have to issue \<open>2^63\<close> updates to wrap.
\<close>

subsection \<open>Server\<close>

record KvsPutAppendArgs =
  paKey :: string
  paValue :: string
  paClerkId :: int
  paCount :: int

record KvsPutAppendReply =
  parValue :: string
  parVaild_op :: bool

record KvsGetArgs =
  gaKey :: string
  gaClerkId :: int

record KvsServer =
  clerkId_count :: "(int, int) gomap"
  kvs_map :: "(string, string) gomap"
  opReply :: "(int \<times> int, string) gomap"

definition kvs_Get :: "KvsGetArgs \<Rightarrow> KvsServer \<Rightarrow> string" where
  "kvs_Get args kv =
     (case map_of (kvs_map kv) (gaKey args) of None \<Rightarrow> '''' | Some val \<Rightarrow> val)"

text \<open>The test for a new clerk, shared by \<open>Put\<close> and \<open>Append\<close>.\<close>

definition check_clerk :: "int \<Rightarrow> KvsServer \<Rightarrow> KvsServer \<times> int" where
  "check_clerk cid kv =
     (case map_of (clerkId_count kv) cid of
        None \<Rightarrow> (kv\<lparr>clerkId_count := mput cid 0 (clerkId_count kv)\<rparr>, 0)
      | Some now_count \<Rightarrow> (kv, now_count + 1))"

definition kvs_Put :: "KvsPutAppendArgs \<Rightarrow> KvsServer \<Rightarrow> KvsServer \<times> KvsPutAppendReply" where
  "kvs_Put args kv =
     (case check_clerk (paClerkId args) kv of (kv1, except_count) \<Rightarrow>
        if paCount args \<noteq> except_count
        then (kv1, \<lparr>parValue = mget '''' (kvs_map kv1) (paKey args), parVaild_op = False\<rparr>)
        else (kv1\<lparr>kvs_map := mput (paKey args) (paValue args) (kvs_map kv1),
                  clerkId_count := mput (paClerkId args) except_count (clerkId_count kv1)\<rparr>,
              \<lparr>parValue = '''', parVaild_op = True\<rparr>))"

definition kvs_Append :: "KvsPutAppendArgs \<Rightarrow> KvsServer \<Rightarrow> KvsServer \<times> KvsPutAppendReply" where
  "kvs_Append args kv =
     (case check_clerk (paClerkId args) kv of (kv1, except_count) \<Rightarrow>
        if paCount args \<noteq> except_count
        then (kv1, \<lparr>parValue = mget '''' (opReply kv1) (paClerkId args, paCount args), parVaild_op = False\<rparr>)
        else
          let old = mget '''' (kvs_map kv1) (paKey args) in
          (kv1\<lparr>opReply := mdel (paClerkId args, paCount args - 1)
                            (mput (paClerkId args, paCount args) old (opReply kv1)),
               kvs_map := mput (paKey args) (old @ paValue args) (kvs_map kv1),
               clerkId_count := mput (paClerkId args) except_count (clerkId_count kv1)\<rparr>,
           \<lparr>parValue = old, parVaild_op = True\<rparr>))"

definition kvs_StartKVServer :: KvsServer where
  "kvs_StartKVServer = \<lparr>clerkId_count = [], kvs_map = [], opReply = []\<rparr>"

text \<open>One request, with the value in its reply.\<close>

datatype kvs_op = KvsGet KvsGetArgs | KvsPut KvsPutAppendArgs | KvsAppend KvsPutAppendArgs

fun kvs_exec :: "kvs_op \<Rightarrow> KvsServer \<Rightarrow> KvsServer \<times> string" where
  "kvs_exec (KvsGet a) kv = (kv, kvs_Get a kv)"
| "kvs_exec (KvsPut a) kv = (case kvs_Put a kv of (kv', r) \<Rightarrow> (kv', parValue r))"
| "kvs_exec (KvsAppend a) kv = (case kvs_Append a kv of (kv', r) \<Rightarrow> (kv', parValue r))"

subsection \<open>Clerk\<close>

record KvsClerk =
  kckId :: int
  kckCount :: int

definition kvs_MakeClerk :: "int \<Rightarrow> KvsClerk" where
  "kvs_MakeClerk rnd = \<lparr>kckId = rnd, kckCount = 0\<rparr>"

text \<open>
  How one \<open>Call\<close> may end. Before each attempt the server handles some requests of other clerks;
  the list of attempts is the fuel of the clerk's retry loop, and \<open>None\<close> says that no
  attempt of the list got its reply through.
\<close>

datatype attempt = ReqLost | RepLost | Delivered

fun kvs_retry :: "(kvs_op list \<times> attempt) list \<Rightarrow> kvs_op \<Rightarrow> KvsServer \<Rightarrow> (KvsServer \<times> string) option" where
  "kvs_retry [] op kv = None"
| "kvs_retry ((others, a) # as) op kv =
     (let kv1 = run_ops kvs_exec others kv in
      case a of
        ReqLost \<Rightarrow> kvs_retry as op kv1
      | RepLost \<Rightarrow> kvs_retry as op (fst (kvs_exec op kv1))
      | Delivered \<Rightarrow> Some (kvs_exec op kv1))"

definition kvs_clerk_Get ::
  "(kvs_op list \<times> attempt) list \<Rightarrow> string \<Rightarrow> KvsClerk \<Rightarrow> KvsServer \<Rightarrow> (KvsServer \<times> string) option" where
  "kvs_clerk_Get as key ck kv = kvs_retry as (KvsGet \<lparr>gaKey = key, gaClerkId = kckId ck\<rparr>) kv"

definition kvs_clerk_PutAppend ::
  "(kvs_op list \<times> attempt) list \<Rightarrow> string \<Rightarrow> string \<Rightarrow> string \<Rightarrow> KvsClerk \<Rightarrow> KvsServer
   \<Rightarrow> (KvsClerk \<times> KvsServer \<times> string) option" where
  "kvs_clerk_PutAppend as key value op ck kv =
     (let args = \<lparr>paKey = key, paValue = value, paClerkId = kckId ck, paCount = kckCount ck\<rparr> in
      case kvs_retry as (if op = ''Put'' then KvsPut args else KvsAppend args) kv of
        None \<Rightarrow> None
      | Some (kv', v) \<Rightarrow> Some (ck\<lparr>kckCount := kckCount ck + 1\<rparr>, kv', v))"

definition kvs_clerk_Put ::
  "(kvs_op list \<times> attempt) list \<Rightarrow> string \<Rightarrow> string \<Rightarrow> KvsClerk \<Rightarrow> KvsServer
   \<Rightarrow> (KvsClerk \<times> KvsServer) option" where
  "kvs_clerk_Put as key value ck kv =
     map_option (\<lambda>(ck', kv', _). (ck', kv')) (kvs_clerk_PutAppend as key value ''Put'' ck kv)"

definition kvs_clerk_Append ::
  "(kvs_op list \<times> attempt) list \<Rightarrow> string \<Rightarrow> string \<Rightarrow> KvsClerk \<Rightarrow> KvsServer
   \<Rightarrow> (KvsClerk \<times> KvsServer \<times> string) option" where
  "kvs_clerk_Append as key value ck kv = kvs_clerk_PutAppend as key value ''Append'' ck kv"

subsection \<open>The session laws\<close>

fun kvs_clerk_of :: "kvs_op \<Rightarrow> int" where
  "kvs_clerk_of (KvsGet a) = gaClerkId a"
| "kvs_clerk_of (KvsPut a) = paClerkId a"
| "kvs_clerk_of (KvsAppend a) = paClerkId a"

definition kvs_expected :: "KvsServer \<Rightarrow> int \<Rightarrow> int" where
  "kvs_expected kv cid = (case map_of (clerkId_count kv) cid of None \<Rightarrow> 0 | Some k \<Rightarrow> k + 1)"

fun kvs_seen :: "KvsServer \<Rightarrow> kvs_op \<Rightarrow> bool" where
  "kvs_seen kv (KvsGet a) = True"
| "kvs_seen kv (KvsPut a) = (case map_of (clerkId_count kv) (paClerkId a) of None \<Rightarrow> False | Some k \<Rightarrow> paCount a \<le> k)"
| "kvs_seen kv (KvsAppend a) = (case map_of (clerkId_count kv) (paClerkId a) of None \<Rightarrow> False | Some k \<Rightarrow> paCount a \<le> k)"

fun kvs_next :: "KvsServer \<Rightarrow> kvs_op \<Rightarrow> bool" where
  "kvs_next kv (KvsGet a) = False"
| "kvs_next kv (KvsPut a) = (paCount a = kvs_expected kv (paClerkId a))"
| "kvs_next kv (KvsAppend a) = (paCount a = kvs_expected kv (paClerkId a))"

text \<open>A request as its caller sees it: \<open>Clerk.Put\<close> drops the value in the reply, which for a repeated \<open>Put\<close> is whatever the key holds then.\<close>

fun isPut :: "kvs_op \<Rightarrow> bool" where
  "isPut (KvsPut a) = True"
| "isPut _ = False"

definition kvs_visible :: "kvs_op \<Rightarrow> KvsServer \<Rightarrow> KvsServer \<times> string" where
  "kvs_visible op kv = (case kvs_exec op kv of (kv', v) \<Rightarrow> (kv', if isPut op then '''' else v))"

lemma kvs_visible_fst [simp]: "fst (kvs_visible op kv) = fst (kvs_exec op kv)"
  by (simp add: kvs_visible_def split: prod.split)

lemma run_visible [simp]: "run_ops kvs_visible ops kv = run_ops kvs_exec ops kv"
  by (induction ops arbitrary: kv) simp_all

fun kvs_answer :: "KvsServer \<Rightarrow> kvs_op \<Rightarrow> string option" where
  "kvs_answer kv (KvsGet a) = None"
| "kvs_answer kv (KvsPut a) =
     (if map_of (clerkId_count kv) (paClerkId a) = Some (paCount a) then Some '''' else None)"
| "kvs_answer kv (KvsAppend a) =
     (if map_of (clerkId_count kv) (paClerkId a) = Some (paCount a)
      then Some (mget '''' (opReply kv) (paClerkId a, paCount a)) else None)"

lemmas kvs_defs = kvs_Put_def kvs_Append_def check_clerk_def kvs_expected_def Let_def

lemma kvs_counts_grow:
  assumes "map_of (clerkId_count kv) c = Some k"
  shows "\<exists>k'. map_of (clerkId_count (fst (kvs_exec op kv))) c = Some k' \<and> k \<le> k'"
  using assms by (cases op) (auto simp: kvs_defs split: option.splits if_splits)

interpretation kvs: reply_session kvs_visible kvs_seen kvs_next "\<lambda>_. True" kvs_clerk_of kvs_answer
proof
  fix kv op op' r
  show "kvs_next kv op \<Longrightarrow> kvs_seen (fst (kvs_visible op kv)) op"
    by (cases op) (auto simp: kvs_defs split: option.splits)
  show "kvs_seen kv op \<Longrightarrow> kvs_seen (fst (kvs_visible op' kv)) op"
    using kvs_counts_grow[of kv "kvs_clerk_of op" _ op'] by (cases op) (auto split: option.splits)
  show "kvs_seen kv op \<Longrightarrow> fst (kvs_visible op kv) = kv"
    by (cases op) (auto simp: kvs_defs split: option.splits)
  show "kvs_next kv op \<Longrightarrow> kvs_answer (fst (kvs_visible op kv)) op = Some (snd (kvs_visible op kv))"
    by (cases op) (auto simp: kvs_visible_def kvs_defs mget_def split: option.splits)
  show "kvs_answer kv op = Some r \<Longrightarrow> kvs_visible op kv = (kv, r)"
    by (cases op) (auto simp: kvs_visible_def kvs_defs split: option.splits if_splits)
  show "kvs_clerk_of op' \<noteq> kvs_clerk_of op \<Longrightarrow> kvs_answer (fst (kvs_visible op' kv)) op = kvs_answer kv op"
    by (cases op; cases op') (auto simp: kvs_defs mget_def split: option.splits)
qed simp

subsection \<open>Updates take effect once\<close>

text \<open>The contents of the store as the clerks see them: an absent key reads as empty.\<close>

definition kvs_view :: "KvsServer \<Rightarrow> string \<Rightarrow> string" where
  "kvs_view kv key = mget '''' (kvs_map kv) key"

lemma kvs_Get_view: "kvs_Get a kv = kvs_view kv (gaKey a)"
  by (simp add: kvs_Get_def kvs_view_def mget_def)

lemma kvs_exec_view:
  "kvs_next kv (KvsPut a) \<Longrightarrow> kvs_view (fst (kvs_exec (KvsPut a) kv)) = (kvs_view kv)(paKey a := paValue a)"
  "kvs_next kv (KvsAppend a) \<Longrightarrow>
     kvs_view (fst (kvs_exec (KvsAppend a) kv)) = (kvs_view kv)(paKey a := kvs_view kv (paKey a) @ paValue a) \<and>
     snd (kvs_exec (KvsAppend a) kv) = kvs_view kv (paKey a)"
  by (auto simp: kvs_defs kvs_view_def fun_eq_iff split: option.splits)

lemma kvs_expected_other:
  "kvs_clerk_of op \<noteq> c \<Longrightarrow> kvs_expected (fst (kvs_exec op kv)) c = kvs_expected kv c"
  by (cases op) (auto simp: kvs_defs split: option.splits)

lemma kvs_expected_others:
  "\<forall>x \<in> set ops. kvs_clerk_of x \<noteq> c \<Longrightarrow> kvs_expected (run_ops kvs_exec ops kv) c = kvs_expected kv c"
  by (induction ops arbitrary: kv) (auto simp: kvs_expected_other)

lemma kvs_next_expected:
  "(\<nexists>a. op = KvsGet a) \<Longrightarrow>
     kvs_expected kv' (kvs_clerk_of op) = kvs_expected kv (kvs_clerk_of op) \<Longrightarrow> kvs_next kv' op = kvs_next kv op"
  by (cases op) auto

lemma kvs_next_step:
  "kvs_next kv op \<Longrightarrow> kvs_expected (fst (kvs_exec op kv)) (kvs_clerk_of op) = kvs_expected kv (kvs_clerk_of op) + 1"
  by (cases op) (auto simp: kvs_defs split: option.splits)

text \<open>The requests of other clerks that the server handles before the reply gets through.\<close>

fun kvs_meanwhile :: "(kvs_op list \<times> attempt) list \<Rightarrow> kvs_op list" where
  "kvs_meanwhile [] = []"
| "kvs_meanwhile ((others, a) # as) = others @ (if a = Delivered then [] else kvs_meanwhile as)"

definition others_only :: "int \<Rightarrow> (kvs_op list \<times> attempt) list \<Rightarrow> bool" where
  "others_only c as \<longleftrightarrow> (\<forall>(others, a) \<in> set as. \<forall>x \<in> set others. kvs_clerk_of x \<noteq> c)"

definition gets_through :: "(kvs_op list \<times> attempt) list \<Rightarrow> bool" where
  "gets_through as \<longleftrightarrow> (\<exists>others. (others, Delivered) \<in> set as)"

lemma others_only_Cons [simp]:
  "others_only c ((os, a) # as) \<longleftrightarrow> (\<forall>x \<in> set os. kvs_clerk_of x \<noteq> c) \<and> others_only c as"
  by (auto simp: others_only_def)

lemma gets_through_Cons [simp]: "gets_through ((os, a) # as) \<longleftrightarrow> a = Delivered \<or> gets_through as"
  by (auto simp: gets_through_def)

text \<open>The value in the reply to a request that the server has executed already.\<close>

fun repeatedReply :: "kvs_op \<Rightarrow> KvsServer \<Rightarrow> string \<Rightarrow> string" where
  "repeatedReply (KvsPut a) kv r = kvs_view kv (paKey a)"
| "repeatedReply _ kv r = r"

lemma kvs_exec_repeated: "kvs_answer kv op = Some r \<Longrightarrow> kvs_exec op kv = (kv, repeatedReply op kv r)"
  by (cases op) (auto simp: kvs_defs kvs_view_def split: option.splits if_splits)

lemma kvs_next_Put: "kvs_next kv (KvsPut a) \<Longrightarrow> snd (kvs_exec (KvsPut a) kv) = ''''"
  by (auto simp: kvs_defs split: option.splits)

lemma kvs_retry_answered:
  assumes "kvs_answer kv op = Some r" "others_only (kvs_clerk_of op) as" "gets_through as"
  shows "kvs_retry as op kv = Some (run_ops kvs_exec (kvs_meanwhile as) kv, repeatedReply op (run_ops kvs_exec (kvs_meanwhile as) kv) r)"
  using assms
proof (induction as op kv rule: kvs_retry.induct)
  case (2 others a as op kv)
  have o: "\<forall>x \<in> set others. x = op \<or> kvs_clerk_of x \<noteq> kvs_clerk_of op" using "2.prems"(2) by simp
  have st: "kvs_answer (run_ops kvs_exec others kv) op = Some r"
    using kvs.answer_stable(1)[OF TrueI "2.prems"(1) o] by simp
  show ?case
  proof (cases a)
    case ReqLost
    with "2.IH"(1)[OF refl] "2.prems" st show ?thesis by simp
  next
    case RepLost
    with "2.IH"(2)[OF refl] "2.prems" st kvs_exec_repeated[OF st] show ?thesis by simp
  next
    case Delivered
    with kvs_exec_repeated[OF st] show ?thesis by simp
  qed
qed (simp add: gets_through_def)

lemma kvs_retry_once:
  assumes "kvs_next kv op" "others_only (kvs_clerk_of op) as" "gets_through as"
  shows "\<exists>pre post v. kvs_meanwhile as = pre @ post \<and> kvs_next (run_ops kvs_exec pre kv) op \<and>
     kvs_retry as op kv = Some (run_ops kvs_exec (pre @ op # post) kv, v) \<and>
     (v = snd (kvs_exec op (run_ops kvs_exec pre kv)) \<or>
      v = repeatedReply op (run_ops kvs_exec (pre @ op # post) kv) (snd (kvs_visible op (run_ops kvs_exec pre kv))))"
  using assms
proof (induction as op kv rule: kvs_retry.induct)
  case (2 others a as op kv)
  let ?kv = "run_ops kvs_exec others kv"
  have "\<forall>x \<in> set others. kvs_clerk_of x \<noteq> kvs_clerk_of op" using "2.prems"(2) by simp
  from kvs_expected_others[OF this] have nx: "kvs_next ?kv op"
    using "2.prems"(1) by (cases op) auto
  show ?case
  proof (cases a)
    case ReqLost
    with "2.IH"(1)[OF refl _ nx] "2.prems" obtain pre post v where
      "kvs_meanwhile as = pre @ post" "kvs_next (run_ops kvs_exec pre ?kv) op"
      "kvs_retry as op ?kv = Some (run_ops kvs_exec (pre @ op # post) ?kv, v)"
      "v = snd (kvs_exec op (run_ops kvs_exec pre ?kv)) \<or>
       v = repeatedReply op (run_ops kvs_exec (pre @ op # post) ?kv) (snd (kvs_visible op (run_ops kvs_exec pre ?kv)))"
      by auto
    with ReqLost show ?thesis by (intro exI[of _ "others @ pre"] exI[of _ post] exI[of _ v]) simp
  next
    case RepLost
    have "kvs_answer (fst (kvs_exec op ?kv)) op = Some (snd (kvs_visible op ?kv))" using kvs.answer_exec[OF TrueI nx] by simp
    from kvs_retry_answered[OF this, of as] "2.prems" RepLost nx show ?thesis
      by (intro exI[of _ others] exI[of _ "kvs_meanwhile as"]) simp
  next
    case Delivered
    show ?thesis
      by (rule exI[of _ others], rule exI[of _ "[]"], rule exI[of _ "snd (kvs_exec op ?kv)"],
        use nx Delivered in \<open>simp add: prod_eq_iff\<close>)
  qed
qed (simp add: gets_through_def)

text \<open>
  C13: An update of a clerk takes effect exactly once. However many attempts lose the request or the
  reply, and whatever other clerks do in between, once one attempt gets through, the call
  returns; the requests the server handled split into a part before and a part after the
  update, the update changed its key once at that point (a \<open>Put\<close> to the new value, an \<open>Append\<close>
  to the old value followed by the new one), the clerk got the value from before an \<open>Append\<close>, and it
  is in step with the server for its next update. The value a \<open>Put\<close> gets, which \<open>Clerk.Put\<close> drops, is empty, or, if the reply
  that got through is one to a repetition, what the key holds by then.
\<close>

theorem kvs_update_once:
  assumes "kckCount ck = kvs_expected kv (kckId ck)" "others_only (kckId ck) as" "gets_through as"
  shows "\<exists>pre post kv' v. kvs_meanwhile as = pre @ post \<and>
     kvs_clerk_PutAppend as key value op ck kv =
       Some (ck\<lparr>kckCount := kckCount ck + 1\<rparr>, run_ops kvs_exec post kv', v) \<and>
     kvs_view kv' = (kvs_view (run_ops kvs_exec pre kv))
       (key := (if op = ''Put'' then value else kvs_view (run_ops kvs_exec pre kv) key @ value)) \<and>
     (if op = ''Put'' then v = '''' \<or> v = kvs_view (run_ops kvs_exec post kv') key else v = kvs_view (run_ops kvs_exec pre kv) key) \<and>
     kckCount ck + 1 = kvs_expected (run_ops kvs_exec post kv') (kckId ck)"
proof -
  let ?a = "\<lparr>paKey = key, paValue = value, paClerkId = kckId ck, paCount = kckCount ck\<rparr>"
  let ?op = "if op = ''Put'' then KvsPut ?a else KvsAppend ?a"
  have c: "kvs_clerk_of ?op = kckId ck" and n: "kvs_next kv ?op" using assms(1) by auto
  with kvs_retry_once[OF n] assms(2,3) obtain pre post v where
    r: "kvs_meanwhile as = pre @ post" "kvs_next (run_ops kvs_exec pre kv) ?op"
      "kvs_retry as ?op kv = Some (run_ops kvs_exec (pre @ ?op # post) kv, v)"
      "v = snd (kvs_exec ?op (run_ops kvs_exec pre kv)) \<or>
       v = repeatedReply ?op (run_ops kvs_exec (pre @ ?op # post) kv) (snd (kvs_visible ?op (run_ops kvs_exec pre kv)))"
    by (simp only: c) blast
  let ?b = "run_ops kvs_exec pre kv"
  have oth: "\<forall>x \<in> set (kvs_meanwhile as). kvs_clerk_of x \<noteq> kckId ck"
    using assms(2) by (induction as rule: kvs_meanwhile.induct) auto
  then have "kvs_expected ?b (kckId ck) = kvs_expected kv (kckId ck)"
    "\<And>s. kvs_expected (run_ops kvs_exec post s) (kckId ck) = kvs_expected s (kckId ck)"
    using r(1) by (auto intro: kvs_expected_others)
  with kvs_next_step[OF r(2)] c assms(1)
  have e: "kckCount ck + 1 = kvs_expected (run_ops kvs_exec post (fst (kvs_exec ?op ?b))) (kckId ck)" by simp
  have p: "kvs_clerk_PutAppend as key value op ck kv =
      Some (ck\<lparr>kckCount := kckCount ck + 1\<rparr>, run_ops kvs_exec post (fst (kvs_exec ?op ?b)), v)"
    using r(3) by (simp add: kvs_clerk_PutAppend_def Let_def)
  have v: "if op = ''Put'' then v = '''' \<or> v = kvs_view (run_ops kvs_exec post (fst (kvs_exec ?op ?b))) key else v = kvs_view ?b key"
  proof (cases "op = ''Put''")
    case True
    with r(2,4) kvs_next_Put[of ?b ?a] show ?thesis by auto
  next
    case False
    with r(2,4) kvs_exec_view(2)[of ?b ?a] show ?thesis by (auto simp: kvs_visible_def split: prod.splits)
  qed
  from e p v r(1,2) kvs_exec_view[of ?b ?a] show ?thesis
    by (intro exI[of _ pre] exI[of _ post] exI[of _ "fst (kvs_exec ?op ?b)"] exI[of _ v]) auto
qed

definition kvs_demo :: "(kvs_op list \<times> attempt) list" where
  "kvs_demo = [([], RepLost), ([KvsPut \<lparr>paKey = ''x'', paValue = ''b'', paClerkId = 2, paCount = 0\<rparr>], Delivered)]"

theorem kvs_update_once_witness:
  "\<exists>pre post kv' v. kvs_meanwhile kvs_demo = pre @ post \<and>
     kvs_clerk_PutAppend kvs_demo ''x'' ''a'' ''Append'' (kvs_MakeClerk 1) kvs_StartKVServer
       = Some ((kvs_MakeClerk 1)\<lparr>kckCount := 1\<rparr>, run_ops kvs_exec post kv', v)"
proof -
  have c: "kckCount (kvs_MakeClerk 1) = 0" "kckId (kvs_MakeClerk 1) = 1" by (simp_all add: kvs_MakeClerk_def)
  have h: "kckCount (kvs_MakeClerk 1) = kvs_expected kvs_StartKVServer (kckId (kvs_MakeClerk 1))"
    unfolding c by (simp add: kvs_StartKVServer_def kvs_expected_def)
  have o: "others_only (kckId (kvs_MakeClerk 1)) kvs_demo" "gets_through kvs_demo"
    unfolding c by (simp_all add: kvs_demo_def others_only_def gets_through_def)
  from kvs_update_once[OF h o, of "''x''" "''a''" "''Append''"] obtain pre post kv' v where
    "kvs_meanwhile kvs_demo = pre @ post"
    "kvs_clerk_PutAppend kvs_demo ''x'' ''a'' ''Append'' (kvs_MakeClerk 1) kvs_StartKVServer
       = Some ((kvs_MakeClerk 1)\<lparr>kckCount := kckCount (kvs_MakeClerk 1) + 1\<rparr>, run_ops kvs_exec post kv', v)" by blast
  then show ?thesis unfolding c by auto
qed

text \<open>
  A clerk the server does not know must start at number 0. If its first request to arrive carries
  another number, the request is refused, and so is number 0 when it comes afterwards: the server has
  recorded the clerk as if it had executed it.
\<close>

lemma kvs_unknown_clerk:
  assumes "map_of (clerkId_count kv) (paClerkId a) = None" "paCount a \<noteq> 0"
    and "paClerkId b = paClerkId a" "paCount b = 0"
  shows "parVaild_op (snd (kvs_Put a kv)) = False \<and> kvs_view (fst (kvs_Put a kv)) = kvs_view kv \<and>
     parVaild_op (snd (kvs_Put b (fst (kvs_Put a kv)))) = False \<and>
     kvs_view (fst (kvs_Put b (fst (kvs_Put a kv)))) = kvs_view kv"
  using assms by (simp add: kvs_defs kvs_view_def fun_eq_iff)

end
