(* ===== verification/KvRaft.thy ===== *)
theory KvRaft
  imports Session RaftPeer "HOL-Library.Word"
begin

text \<open>
  The replicated key/value service: \<open>src/src/kvraft/server.go\<close>, \<open>client.go\<close> and
  \<open>common.go\<close>. A server owns a Raft peer; \<open>HandleOp\<close> submits an operation and waits on a channel
  registered under the log index, and \<open>ApplyHandler\<close> consumes what the peer delivers. Each
  definition is one critical section of \<open>kv.mu\<close> or one call into the peer. A snapshot is the
  stream of values given to the encoder. Sequence numbers are \<open>uint64\<close>.
\<close>

subsection \<open>Data\<close>

datatype OType = OPGet | OPPut | OPAppend

record KvOp =
  kopType :: OType
  kopKey :: string
  kopVal :: string
  kopSeq :: "64 word"
  kopId :: int

text \<open>\<open>NoErr\<close> is the empty string.\<close>

datatype KvErr = NoErr | ErrNotLeader | ErrKeyNotExist | ErrHandleOpTimeOut | ErrChanClose
  | ErrLeaderOutDated | ERRRPCFailed

record KvResult =
  kresLastSeq :: "64 word"
  kresErr :: KvErr
  kresValue :: string
  kresTerm :: int

definition zero_result :: KvResult where
  "zero_result = \<lparr>kresLastSeq = 0, kresErr = NoErr, kresValue = '''', kresTerm = 0\<rparr>"

type_synonym kv_db = "(string, string) gomap"
type_synonym kv_history = "(int, KvResult) gomap"

datatype kvgob = GDb kv_db | GHist kv_history

text \<open>Channels are named by numbers; \<open>kwaiCh\<close> maps a log index to the channel registered last.\<close>

record KvServer =
  kme :: int
  krf :: "(KvOp, kvgob) Raft"
  kdead :: int
  kwaiCh :: "(int, nat) gomap"
  khistory :: kv_history
  kmaxraftstate :: int
  kdb :: kv_db
  klastApplied :: int

subsection \<open>The state machine\<close>

definition DBExecute :: "KvOp \<Rightarrow> kv_db \<Rightarrow> kv_db \<times> KvResult" where
  "DBExecute op db =
     (let res = zero_result\<lparr>kresLastSeq := kopSeq op\<rparr> in
      case kopType op of
        OPGet \<Rightarrow> (case map_of db (kopKey op) of
            Some val \<Rightarrow> (db, res\<lparr>kresValue := val\<rparr>)
          | None \<Rightarrow> (db, res\<lparr>kresErr := ErrKeyNotExist, kresValue := ''''\<rparr>))
      | OPPut \<Rightarrow> (mput (kopKey op) (kopVal op) db, res)
      | OPAppend \<Rightarrow> (case map_of db (kopKey op) of
            Some val \<Rightarrow> (mput (kopKey op) (val @ kopVal op) db, res)
          | None \<Rightarrow> (mput (kopKey op) (kopVal op) db, res)))"

text \<open>Lines 280 to 303 of \<open>ApplyHandler\<close>: \<open>term\<close> is \<open>log.SnapshotTerm\<close>.\<close>

definition applyOp :: "int \<Rightarrow> KvOp \<Rightarrow> kv_db \<times> kv_history \<Rightarrow> (kv_db \<times> kv_history) \<times> KvResult" where
  "applyOp term op s =
     (case s of (db, hist) \<Rightarrow>
      case map_of hist (kopId op) of
        Some his \<Rightarrow>
          if kresLastSeq his = kopSeq op then ((db, hist), his)
          else if kresLastSeq his < kopSeq op then
            (case DBExecute op db of (db', r) \<Rightarrow>
              let res = r\<lparr>kresTerm := term\<rparr> in ((db', mput (kopId op) res hist), res))
          else ((db, hist), zero_result)
      | None \<Rightarrow>
          (case DBExecute op db of (db', r) \<Rightarrow>
            let res = r\<lparr>kresTerm := term\<rparr> in ((db', mput (kopId op) res hist), res)))"

subsection \<open>Snapshots\<close>

definition GenSnapShot :: "KvServer \<Rightarrow> kvgob list" where
  "GenSnapShot kv = [GDb (kdb kv), GHist (khistory kv)]"

fun decodeDb :: "kvgob list \<Rightarrow> (kv_db \<times> kvgob list) option" where
  "decodeDb (GDb m # r) = Some (m, r)"
| "decodeDb _ = None"

fun decodeHist :: "kvgob list \<Rightarrow> (kv_history \<times> kvgob list) option" where
  "decodeHist (GHist m # r) = Some (m, r)"
| "decodeHist _ = None"

definition LoadSnapShot :: "kvgob list \<Rightarrow> KvServer \<Rightarrow> KvServer" where
  "LoadSnapShot snap kv =
     (if length snap = 0 then kv
      else case decodeDb snap of None \<Rightarrow> kv
      | Some (tmpDB, d1) \<Rightarrow> (case decodeHist d1 of None \<Rightarrow> kv
        | Some (tmpHistoryMap, d2) \<Rightarrow> kv\<lparr>kdb := tmpDB, khistory := tmpHistoryMap\<rparr>))"

subsection \<open>Handling a request\<close>

definition HandleOp_history :: "KvOp \<Rightarrow> KvServer \<Rightarrow> KvResult option" where
  "HandleOp_history op kv =
     (case map_of (khistory kv) (kopId op) of
        Some his \<Rightarrow> if kresLastSeq his = kopSeq op then Some his else None
      | None \<Rightarrow> None)"

text \<open>
  Calls \<open>Start\<close>: \<open>Inl\<close> of the inner sum is the reply of a peer that does not lead, \<open>Inr\<close> the
  index and term to wait for. \<open>now\<close> is the clock \<open>Start\<close> reads.
\<close>

definition HandleOp_start ::
  "int \<Rightarrow> KvOp \<Rightarrow> KvServer \<Rightarrow> (KvServer \<times> (KvResult + int \<times> int)) res" where
  "HandleOp_start now op kv =
     bindR (Start now (Some op) (krf kv)) (\<lambda>(rf', startIndex, startTerm, isLeader).
       if \<not> isLeader then Inr (kv\<lparr>krf := rf'\<rparr>, Inl (zero_result\<lparr>kresErr := ErrNotLeader\<rparr>))
       else Inr (kv\<lparr>krf := rf'\<rparr>, Inr (startIndex, startTerm)))"

definition HandleOp_register :: "int \<Rightarrow> nat \<Rightarrow> KvServer \<Rightarrow> KvServer" where
  "HandleOp_register startIndex newCh kv = kv\<lparr>kwaiCh := mput startIndex newCh (kwaiCh kv)\<rparr>"

datatype wait_event = WaitTimeOut | WaitMsg KvResult | WaitClosed

definition HandleOp_wait :: "int \<Rightarrow> wait_event \<Rightarrow> KvResult" where
  "HandleOp_wait startTerm ev =
     (case ev of
        WaitTimeOut \<Rightarrow> zero_result\<lparr>kresErr := ErrHandleOpTimeOut\<rparr>
      | WaitMsg msg \<Rightarrow>
          (if kresTerm msg = startTerm then msg
           else zero_result\<lparr>kresErr := ErrLeaderOutDated, kresValue := ''''\<rparr>)
      | WaitClosed \<Rightarrow> zero_result\<lparr>kresErr := ErrChanClose\<rparr>)"

definition HandleOp_cleanup :: "int \<Rightarrow> KvServer \<Rightarrow> KvServer" where
  "HandleOp_cleanup startIndex kv = kv\<lparr>kwaiCh := mdel startIndex (kwaiCh kv)\<rparr>"

record KvGetArgs =
  kgKey :: string
  kgSeq :: "64 word"
  kgId :: int

record KvGetReply =
  kgrErr :: KvErr
  kgrValue :: string

record KvPutAppendArgs =
  kpKey :: string
  kpValue :: string
  kpOp :: string
  kpSeq :: "64 word"
  kpId :: int

record KvPutAppendReply =
  kprErr :: KvErr

text \<open>The RPC handlers around \<open>HandleOp\<close>: the operation they submit, and the reply they make of its result.\<close>

definition kv_Get_op :: "KvGetArgs \<Rightarrow> KvOp" where
  "kv_Get_op args = \<lparr>kopType = OPGet, kopKey = kgKey args, kopVal = '''', kopSeq = kgSeq args, kopId = kgId args\<rparr>"

definition kv_Get_reply :: "KvResult \<Rightarrow> KvGetReply" where
  "kv_Get_reply res = \<lparr>kgrErr = kresErr res, kgrValue = kresValue res\<rparr>"

definition kv_PutAppend_op :: "KvPutAppendArgs \<Rightarrow> KvOp" where
  "kv_PutAppend_op args =
     \<lparr>kopType = (if kpOp args = ''Put'' then OPPut else OPAppend), kopKey = kpKey args,
      kopVal = kpValue args, kopSeq = kpSeq args, kopId = kpId args\<rparr>"

definition kv_PutAppend_reply :: "KvResult \<Rightarrow> KvPutAppendReply" where
  "kv_PutAppend_reply res = \<lparr>kprErr = kresErr res\<rparr>"

definition kv_Kill :: "KvServer \<Rightarrow> KvServer" where
  "kv_Kill kv = kv\<lparr>kdead := 1, krf := Kill (krf kv)\<rparr>"

definition kv_killed :: "KvServer \<Rightarrow> bool" where
  "kv_killed kv \<longleftrightarrow> kdead kv = 1"

subsection \<open>Consuming the log\<close>

text \<open>
  One message from \<open>applyCh\<close>, up to the point where the lock is released for the send; the second
  component is the channel to notify and what is sent there.
\<close>

definition ApplyHandler ::
  "(KvOp, kvgob) ApplyMsg \<Rightarrow> KvServer \<Rightarrow> (KvServer \<times> (nat \<times> KvResult) option) res" where
  "ApplyHandler msg kv =
     (if amCommandValid msg then
        (case amCommand msg of
           None \<Rightarrow> Inl TypeAssertion
         | Some op \<Rightarrow>
             if amCommandIndex msg \<le> klastApplied kv then Inr (kv, None)
             else
               (case applyOp (amSnapshotTerm msg) op (kdb kv, khistory kv) of ((db', hist'), res) \<Rightarrow>
                 let kv' = kv\<lparr>klastApplied := amCommandIndex msg, kdb := db', khistory := hist'\<rparr>
                 in Inr (kv', case map_of (kwaiCh kv') (amCommandIndex msg) of
                       None \<Rightarrow> None
                     | Some ch \<Rightarrow> Some (ch, res\<lparr>kresTerm := amSnapshotTerm msg\<rparr>))))
      else if amSnapshotValid msg then
        (if amSnapshotIndex msg \<ge> klastApplied kv
         then Inr ((LoadSnapShot (amSnapshot msg) kv)\<lparr>klastApplied := amSnapshotIndex msg\<rparr>, None)
         else Inr (kv, None))
      else Inr (kv, None))"

text \<open>The check for a snapshot after a command; \<open>nbytes\<close> is the length of the encoded Raft state.\<close>

definition ApplyHandler_snapshot ::
  "(KvOp gob list \<Rightarrow> int) \<Rightarrow> int \<Rightarrow> KvServer \<Rightarrow> KvServer res" where
  "ApplyHandler_snapshot nbytes index kv =
     (if kmaxraftstate kv \<noteq> -1 \<and>
         RaftStateSize nbytes (persister (krf kv)) \<ge> go_quot (kmaxraftstate kv) 100 * 95
      then bindR (Snapshot index (GenSnapShot kv) (krf kv)) (\<lambda>rf'. Inr (kv\<lparr>krf := rf'\<rparr>))
      else Inr kv)"

definition kv_StartKVServer ::
  "nat \<Rightarrow> int \<Rightarrow> (KvOp, kvgob) Persister \<Rightarrow> int \<Rightarrow> int \<Rightarrow> int \<Rightarrow> KvServer" where
  "kv_StartKVServer servers i ps maxraftstate rnd now =
     LoadSnapShot (ReadSnapshot ps)
       \<lparr>kme = i, krf = Make servers i ps rnd now, kdead = 0, kwaiCh = [], khistory = [],
        kmaxraftstate = maxraftstate, kdb = [], klastApplied = 0\<rparr>"

subsection \<open>Clerk\<close>

record KvClerk =
  kcServers :: nat
  kcSeq :: "64 word"
  kcId :: int
  kcLeader :: int

definition kv_MakeClerk :: "nat \<Rightarrow> int \<Rightarrow> KvClerk" where
  "kv_MakeClerk servers rnd = \<lparr>kcServers = servers, kcSeq = 0, kcId = rnd, kcLeader = 0\<rparr>"

definition GetSeq :: "KvClerk \<Rightarrow> KvClerk \<times> 64 word" where
  "GetSeq ck = (ck\<lparr>kcSeq := kcSeq ck + 1\<rparr>, kcSeq ck)"

text \<open>
  The retry loop. The environment says, attempt by attempt, what a call to server \<open>i\<close> would
  return (\<open>None\<close> when the RPC fails); running out of attempts is \<open>None\<close>. The two loops of the code
  differ only in their reply type.
\<close>

definition next_server :: "KvClerk \<Rightarrow> KvClerk res" where
  "next_server ck =
     (if kcServers ck = 0 then Inl DivideByZero
      else Inr (ck\<lparr>kcLeader := go_rem (kcLeader ck + 1) (int (kcServers ck))\<rparr>))"

fun kv_clerk_loop ::
  "(int \<Rightarrow> (KvErr \<times> string) option) list \<Rightarrow> KvClerk \<Rightarrow> (KvClerk \<times> string) option res" where
  "kv_clerk_loop [] ck = Inr None"
| "kv_clerk_loop (env # envs) ck =
     (if \<not> (0 \<le> kcLeader ck \<and> kcLeader ck < int (kcServers ck)) then Inl IndexOutOfRange
      else case env (kcLeader ck) of
        None \<Rightarrow> bindR (next_server ck) (kv_clerk_loop envs)
      | Some (err, val) \<Rightarrow>
          if err = ErrNotLeader \<or> err = ErrLeaderOutDated then bindR (next_server ck) (kv_clerk_loop envs)
          else if err = ErrChanClose \<or> err = ErrHandleOpTimeOut then kv_clerk_loop envs ck
          else Inr (Some (ck, val)))"

definition kv_clerk_Get ::
  "(KvGetArgs \<Rightarrow> int \<Rightarrow> KvGetReply option) list \<Rightarrow> string \<Rightarrow> KvClerk \<Rightarrow> (KvClerk \<times> string) option res" where
  "kv_clerk_Get envs key ck =
     (case GetSeq ck of (ck1, seq) \<Rightarrow>
        let args = \<lparr>kgKey = key, kgSeq = seq, kgId = kcId ck\<rparr> in
        kv_clerk_loop (map (\<lambda>env i. map_option (\<lambda>r. (kgrErr r, kgrValue r)) (env args i)) envs) ck1)"

definition kv_clerk_PutAppend ::
  "(KvPutAppendArgs \<Rightarrow> int \<Rightarrow> KvPutAppendReply option) list \<Rightarrow> string \<Rightarrow> string \<Rightarrow> string \<Rightarrow> KvClerk
   \<Rightarrow> (KvClerk \<times> string) option res" where
  "kv_clerk_PutAppend envs key value op ck =
     (case GetSeq ck of (ck1, seq) \<Rightarrow>
        let args = \<lparr>kpKey = key, kpValue = value, kpOp = op, kpSeq = seq, kpId = kcId ck\<rparr> in
        kv_clerk_loop (map (\<lambda>env i. map_option (\<lambda>r. (kprErr r, '''')) (env args i)) envs) ck1)"

definition kv_clerk_Put ::
  "(KvPutAppendArgs \<Rightarrow> int \<Rightarrow> KvPutAppendReply option) list \<Rightarrow> string \<Rightarrow> string \<Rightarrow> KvClerk
   \<Rightarrow> (KvClerk \<times> string) option res" where
  "kv_clerk_Put envs key value ck = kv_clerk_PutAppend envs key value ''Put'' ck"

definition kv_clerk_Append ::
  "(KvPutAppendArgs \<Rightarrow> int \<Rightarrow> KvPutAppendReply option) list \<Rightarrow> string \<Rightarrow> string \<Rightarrow> KvClerk
   \<Rightarrow> (KvClerk \<times> string) option res" where
  "kv_clerk_Append envs key value ck = kv_clerk_PutAppend envs key value ''Append'' ck"

subsection \<open>The session laws\<close>

definition kv_seen :: "kv_db \<times> kv_history \<Rightarrow> KvOp \<Rightarrow> bool" where
  "kv_seen s op = (case map_of (snd s) (kopId op) of None \<Rightarrow> False | Some r \<Rightarrow> kopSeq op \<le> kresLastSeq r)"

definition kv_answer :: "kv_db \<times> kv_history \<Rightarrow> KvOp \<Rightarrow> KvResult option" where
  "kv_answer s op =
     (case map_of (snd s) (kopId op) of
        None \<Rightarrow> None | Some r \<Rightarrow> if kresLastSeq r = kopSeq op then Some r else None)"

lemma DBExecute_seq: "DBExecute op db = (db', r) \<Longrightarrow> kresLastSeq r = kopSeq op"
  by (auto simp: DBExecute_def Let_def split: OType.splits option.splits)

lemma applyOp_history:
  "map_of (snd (fst (applyOp t op s))) c =
     (if c = kopId op \<and> \<not> kv_seen s op then Some (snd (applyOp t op s)) else map_of (snd s) c)"
  by (cases s) (auto simp: applyOp_def kv_seen_def Let_def split: option.splits prod.splits)

lemma applyOp_new_seq: "\<not> kv_seen s op \<Longrightarrow> kresLastSeq (snd (applyOp t op s)) = kopSeq op"
  by (cases s) (auto simp: applyOp_def kv_seen_def Let_def dest: DBExecute_seq split: option.splits prod.splits)

lemma applyOp_seen: "kv_seen s op \<Longrightarrow> fst (applyOp t op s) = s"
  by (cases s) (auto simp: applyOp_def kv_seen_def split: option.splits)

interpretation kvr: reply_session "applyOp t" kv_seen "\<lambda>s op. \<not> kv_seen s op" "\<lambda>_. True" kopId kv_answer
  for t
proof
  fix s op op' r
  show "\<not> kv_seen s op \<Longrightarrow> kv_seen (fst (applyOp t op s)) op"
    by (simp add: kv_seen_def[of "fst _"] applyOp_history applyOp_new_seq)
  show "kv_seen s op \<Longrightarrow> kv_seen (fst (applyOp t op' s)) op"
  proof (cases "kopId op' = kopId op \<and> \<not> kv_seen s op'")
    case True
    moreover assume "kv_seen s op"
    ultimately have "kopSeq op \<le> kopSeq op'"
      by (auto simp: kv_seen_def split: option.splits)
    with True show ?thesis by (simp add: kv_seen_def[of "fst _"] applyOp_history applyOp_new_seq)
  next
    case False
    moreover assume "kv_seen s op"
    ultimately show ?thesis by (auto simp: kv_seen_def[of _ op] applyOp_history)
  qed
  show "kv_seen s op \<Longrightarrow> fst (applyOp t op s) = s" by (rule applyOp_seen)
  show "\<not> kv_seen s op \<Longrightarrow> kv_answer (fst (applyOp t op s)) op = Some (snd (applyOp t op s))"
    by (simp add: kv_answer_def applyOp_history applyOp_new_seq)
  show "kv_answer s op = Some r \<Longrightarrow> applyOp t op s = (s, r)"
    by (cases s) (auto simp: kv_answer_def applyOp_def split: option.splits if_splits)
  show "kopId op' \<noteq> kopId op \<Longrightarrow> kv_answer (fst (applyOp t op' s)) op = kv_answer s op"
    by (simp add: kv_answer_def applyOp_history)
qed simp

subsection \<open>A server follows the log\<close>

text \<open>
  \<open>kv_spec ops k\<close>: the state the first \<open>k\<close> operations of the log give on an empty store.
  \<open>kv_at ops p kv\<close>: the server holds the state of position \<open>p\<close>.
\<close>

definition kv_spec :: "KvOp list \<Rightarrow> nat \<Rightarrow> kv_db \<times> kv_history" where
  "kv_spec ops k = run_ops (applyOp 0) (take k ops) ([], [])"

definition kv_at :: "KvOp list \<Rightarrow> nat \<Rightarrow> KvServer \<Rightarrow> bool" where
  "kv_at ops p kv \<longleftrightarrow> p \<le> length ops \<and> (kdb kv, khistory kv) = kv_spec ops p \<and> klastApplied kv \<le> int p"

definition gen_spec :: "KvOp list \<Rightarrow> nat \<Rightarrow> kvgob list" where
  "gen_spec ops k = [GDb (fst (kv_spec ops k)), GHist (snd (kv_spec ops k))]"

text \<open>
  What Raft may deliver to a server at position \<open>p\<close>: a command of the log at most one ahead, or a
  snapshot of some position of the log.
\<close>

definition deliverable :: "KvOp list \<Rightarrow> nat \<Rightarrow> (KvOp, kvgob) ApplyMsg \<Rightarrow> bool" where
  "deliverable ops p msg \<longleftrightarrow>
     (if amCommandValid msg
      then 1 \<le> amCommandIndex msg \<and> amCommandIndex msg \<le> int p + 1 \<and> amCommandIndex msg \<le> int (length ops) \<and>
           amCommand msg = Some (ops ! nat (amCommandIndex msg - 1)) \<and> amSnapshotTerm msg = 0
      else amSnapshotValid msg \<and> 0 \<le> amSnapshotIndex msg \<and> amSnapshotIndex msg \<le> int (length ops) \<and>
           amSnapshot msg = gen_spec ops (nat (amSnapshotIndex msg)))"

definition next_pos :: "nat \<Rightarrow> KvServer \<Rightarrow> (KvOp, kvgob) ApplyMsg \<Rightarrow> nat" where
  "next_pos p kv msg =
     (if amCommandValid msg then max p (nat (amCommandIndex msg))
      else if amSnapshotIndex msg \<ge> klastApplied kv then nat (amSnapshotIndex msg) else p)"

lemma kv_spec_Suc: "k < length ops \<Longrightarrow> kv_spec ops (Suc k) = fst (applyOp 0 (ops ! k) (kv_spec ops k))"
  by (simp add: kv_spec_def take_Suc_conv_app_nth)


lemma kv_spec_seen:
  assumes "k < p" "p \<le> length ops"
  shows "kv_seen (kv_spec ops p) (ops ! k)"
proof -
  have "take p ops = take (Suc k) ops @ take (p - Suc k) (drop (Suc k) ops)"
    using assms(1) by (simp flip: take_add)
  then have "kv_spec ops p = run_ops (applyOp 0) (take (p - Suc k) (drop (Suc k) ops)) (kv_spec ops (Suc k))"
    unfolding kv_spec_def by simp
  moreover have "kv_seen (kv_spec ops (Suc k)) (ops ! k)"
    using assms kvr.seen_exec[of "kv_spec ops k" "ops ! k" 0] kvr.seen_mono[of "kv_spec ops k" "ops ! k" 0]
    by (cases "kv_seen (kv_spec ops k) (ops ! k)") (auto simp: kv_spec_Suc)
  ultimately show ?thesis using kvr.seen_run by simp
qed

lemma LoadSnapShot_gen [simp]:
  "LoadSnapShot (gen_spec ops k) kv = kv\<lparr>kdb := fst (kv_spec ops k), khistory := snd (kv_spec ops k)\<rparr>"
  by (simp add: LoadSnapShot_def gen_spec_def)

lemma LoadSnapShot_GenSnapShot: "LoadSnapShot (GenSnapShot kv) kv' = kv'\<lparr>kdb := kdb kv, khistory := khistory kv\<rparr>"
  by (simp add: LoadSnapShot_def GenSnapShot_def)

lemma ApplyHandler_at:
  assumes at: "kv_at ops p kv" and msg: "deliverable ops p msg"
  shows "\<exists>kv' ntf. ApplyHandler msg kv = Inr (kv', ntf) \<and> kv_at ops (next_pos p kv msg) kv' \<and> krf kv' = krf kv"
proof (cases "amCommandValid msg")
  case True
  define i where "i = nat (amCommandIndex msg)"
  have i: "amCommandIndex msg = int i" "0 < i" "i \<le> Suc p" "i \<le> length ops" "amCommand msg = Some (ops ! (i - 1))"
    "amSnapshotTerm msg = 0"
    using msg True by (auto simp: deliverable_def i_def nat_diff_distrib)
  show ?thesis
  proof (cases "int i \<le> klastApplied kv")
    case skip: True
    with at have "i \<le> p" by (simp add: kv_at_def)
    with skip i at True show ?thesis by (simp add: ApplyHandler_def next_pos_def max_def)
  next
    case False
    obtain db' hist' res where a: "applyOp 0 (ops ! (i - 1)) (kdb kv, khistory kv) = ((db', hist'), res)"
      by (metis prod.exhaust)
    let ?kv' = "kv\<lparr>klastApplied := int i, kdb := db', khistory := hist'\<rparr>"
    have "(db', hist') = kv_spec ops (max p i)"
    proof (cases "i \<le> p")
      case True
      with i at have "kv_seen (kdb kv, khistory kv) (ops ! (i - 1))"
        using kv_spec_seen[of "i - 1" p ops] by (simp add: kv_at_def)
      from applyOp_seen[OF this, of 0] a have "(db', hist') = (kdb kv, khistory kv)" by simp
      with at True show ?thesis by (simp add: kv_at_def max_def)
    next
      case False
      with i have "i = Suc p" by simp
      with i at a kv_spec_Suc[of p ops] show ?thesis by (simp add: kv_at_def)
    qed
    then have "kv_at ops (max p i) ?kv'" using at i by (auto simp: kv_at_def)
    with False i a True show ?thesis by (auto simp: ApplyHandler_def next_pos_def)
  qed
next
  case False
  then have s: "amSnapshotValid msg" "0 \<le> amSnapshotIndex msg" "amSnapshotIndex msg \<le> int (length ops)"
    "amSnapshot msg = gen_spec ops (nat (amSnapshotIndex msg))"
    using msg by (auto simp: deliverable_def)
  then show ?thesis using at False by (auto simp: ApplyHandler_def next_pos_def kv_at_def)
qed

text \<open>A whole run of the handler.\<close>

fun kv_run :: "(KvOp, kvgob) ApplyMsg list \<Rightarrow> KvServer \<Rightarrow> KvServer res" where
  "kv_run [] kv = Inr kv"
| "kv_run (msg # msgs) kv = bindR (ApplyHandler msg kv) (\<lambda>(kv', _). kv_run msgs kv')"

fun kv_delivery :: "KvOp list \<Rightarrow> nat \<Rightarrow> KvServer \<Rightarrow> (KvOp, kvgob) ApplyMsg list \<Rightarrow> bool" where
  "kv_delivery ops p kv [] = True"
| "kv_delivery ops p kv (msg # msgs) =
     (deliverable ops p msg \<and>
      (case ApplyHandler msg kv of Inl _ \<Rightarrow> True | Inr (kv', _) \<Rightarrow> kv_delivery ops (next_pos p kv msg) kv' msgs))"

lemma kv_run_at:
  assumes "kv_at ops p kv" "kv_delivery ops p kv msgs"
  shows "\<exists>p' kv'. kv_run msgs kv = Inr kv' \<and> kv_at ops p' kv'"
  using assms
proof (induction msgs arbitrary: p kv)
  case (Cons msg msgs)
  then obtain kv' ntf where "ApplyHandler msg kv = Inr (kv', ntf)" "kv_at ops (next_pos p kv msg) kv'"
    using ApplyHandler_at[of ops p kv msg] by auto
  with Cons show ?case by auto
qed auto

lemma kv_history_origin:
  assumes "p \<le> length ops" "map_of (snd (kv_spec ops p)) c = Some r"
  shows "\<exists>k < p. kopId (ops ! k) = c \<and> kopSeq (ops ! k) = kresLastSeq r \<and> \<not> kv_seen (kv_spec ops k) (ops ! k) \<and>
     r = snd (applyOp 0 (ops ! k) (kv_spec ops k))"
  using assms
proof (induction p)
  case 0
  then show ?case by (simp add: kv_spec_def)
next
  case (Suc p)
  let ?s = "kv_spec ops p"
  have h: "map_of (snd (kv_spec ops (Suc p))) c =
      (if c = kopId (ops ! p) \<and> \<not> kv_seen ?s (ops ! p) then Some (snd (applyOp 0 (ops ! p) ?s)) else map_of (snd ?s) c)"
    using Suc.prems by (simp add: kv_spec_Suc applyOp_history)
  show ?case
  proof (cases "c = kopId (ops ! p) \<and> \<not> kv_seen ?s (ops ! p)")
    case True
    with h Suc.prems show ?thesis by (intro exI[of _ p]) (auto simp: applyOp_new_seq)
  next
    case False
    with h Suc show ?thesis by (auto simp: less_Suc_eq)
  qed
qed

subsection \<open>Properties\<close>

text \<open>
  C14: A replica is a function of the log. A server that has just been created and is then handed commands
  of the log (possibly again, never skipping one) and snapshots of positions of the log, never panics
  and always holds exactly the store and the request history that the first \<open>p\<close>
  operations of the log give, for some \<open>p\<close>; so all servers at the same position agree.
\<close>

theorem kv_replica_follows_log:
  assumes "kv_delivery ops 0 (kv_StartKVServer n i MakePersister mx rnd now) msgs"
  shows "\<exists>p kv. kv_run msgs (kv_StartKVServer n i MakePersister mx rnd now) = Inr kv \<and>
    p \<le> length ops \<and> (kdb kv, khistory kv) = kv_spec ops p \<and> klastApplied kv \<le> int p"
proof -
  have "kv_at ops 0 (kv_StartKVServer n i MakePersister mx rnd now)"
    by (simp add: kv_at_def kv_StartKVServer_def LoadSnapShot_def ReadSnapshot_def MakePersister_def kv_spec_def)
  from kv_run_at[OF this assms] show ?thesis by (auto simp: kv_at_def)
qed

definition demo_ops :: "KvOp list" where
  "demo_ops = [\<lparr>kopType = OPPut, kopKey = ''x'', kopVal = ''1'', kopSeq = 0, kopId = 7\<rparr>,
     \<lparr>kopType = OPAppend, kopKey = ''x'', kopVal = ''2'', kopSeq = 1, kopId = 7\<rparr>]"

definition demo_cmd :: "int \<Rightarrow> (KvOp, kvgob) ApplyMsg" where
  "demo_cmd i = \<lparr>amCommandValid = True, amCommand = Some (demo_ops ! nat (i - 1)), amCommandIndex = i, amCommandTerm = 2,
     amSnapshotValid = False, amSnapshot = [], amSnapshotTerm = 0, amSnapshotIndex = 0\<rparr>"

theorem kv_replica_follows_log_witness:
  "kv_delivery demo_ops 0 (kv_StartKVServer 3 0 MakePersister 1000 0 0) [demo_cmd 1, demo_cmd 1, demo_cmd 2] \<and>
   (\<exists>p kv. kv_run [demo_cmd 1, demo_cmd 1, demo_cmd 2] (kv_StartKVServer 3 0 MakePersister 1000 0 0) = Inr kv \<and>
      (kdb kv, khistory kv) = kv_spec demo_ops p)"
proof -
  have d: "kv_delivery demo_ops 0 (kv_StartKVServer 3 0 MakePersister 1000 0 0) [demo_cmd 1, demo_cmd 1, demo_cmd 2]"
    by code_simp
  with kv_replica_follows_log[OF d] show ?thesis by blast
qed

text \<open>
  C15: A request that occurs several times in the log (a clerk that retries submits it again) has the effect
  of its first occurrence only: the log and the log without the repetitions give the same store and history.
\<close>

theorem kv_log_dedup: "run_ops (applyOp t) (first_only ops) s = run_ops (applyOp t) ops s"
proof -
  have "session.inorder (applyOp t) kv_seen (\<lambda>s op. \<not> kv_seen s op) s ops"
    by (induction ops arbitrary: s) simp_all
  then show ?thesis by (rule kvr.run_dedup[OF TrueI])
qed

text \<open>
  C16: A reply from the request history is the reply of the execution. If \<open>HandleOp\<close> answers from the
  history, the log has an operation of the same clerk and sequence number, executed at a position before the
  server's, and the answer is the result of that execution on the state of that position.
\<close>

theorem HandleOp_history_sound:
  assumes "kv_at ops p kv" "HandleOp_history op kv = Some r"
  shows "\<exists>k < p. kopId (ops ! k) = kopId op \<and> kopSeq (ops ! k) = kopSeq op \<and>
    \<not> kv_seen (kv_spec ops k) (ops ! k) \<and> r = snd (applyOp 0 (ops ! k) (kv_spec ops k))"
proof -
  have "map_of (snd (kv_spec ops p)) (kopId op) = Some r" "kresLastSeq r = kopSeq op"
    using assms by (auto simp: HandleOp_history_def kv_at_def prod_eq_iff split: option.splits if_splits)
  with kv_history_origin[of p ops "kopId op" r] assms(1) show ?thesis by (auto simp: kv_at_def)
qed

theorem HandleOp_history_sound_witness:
  "\<exists>kv r. kv_at demo_ops 2 kv \<and> HandleOp_history (demo_ops ! 1) kv = Some r \<and>
     (\<exists>k < 2. kopSeq (demo_ops ! k) = 1 \<and> r = snd (applyOp 0 (demo_ops ! k) (kv_spec demo_ops k)))"
proof -
  let ?kv = "(kv_StartKVServer 3 0 MakePersister 1000 0 0)\<lparr>kdb := fst (kv_spec demo_ops 2), khistory := snd (kv_spec demo_ops 2)\<rparr>"
  have l: "klastApplied ?kv = 0"
    by (simp add: kv_StartKVServer_def LoadSnapShot_def ReadSnapshot_def MakePersister_def)
  have a: "kv_at demo_ops 2 ?kv" using l by (simp add: kv_at_def demo_ops_def)
  have "map_of (snd (kv_spec demo_ops 2)) 7 \<noteq> None \<and> kresLastSeq (the (map_of (snd (kv_spec demo_ops 2)) 7)) = 1" by code_simp
  then obtain r where "HandleOp_history (demo_ops ! 1) ?kv = Some r"
    by (auto simp: HandleOp_history_def demo_ops_def)
  with HandleOp_history_sound[OF a this] a show ?thesis by (auto simp: demo_ops_def)
qed

text \<open>
  C17: Snapshot round trip. When the check after a command takes a snapshot at the server's position, a
  server started from the persister has the same store and request history, and its Raft peer resumes
  delivery right after that position.
\<close>

theorem kv_snapshot_restart:
  assumes "raft_wf (krf kv)" "kmaxraftstate kv \<noteq> -1"
    and "RaftStateSize nbytes (persister (krf kv)) \<ge> go_quot (kmaxraftstate kv) 100 * 95"
    and "lastIncludedIndex (krf kv) < index" "index \<le> commitIndex (krf kv)"
  shows "\<exists>kv'. ApplyHandler_snapshot nbytes index kv = Inr kv' \<and> kdb kv' = kdb kv \<and> khistory kv' = khistory kv \<and>
    kdb (kv_StartKVServer n i (persister (krf kv')) mx rnd now) = kdb kv \<and>
    khistory (kv_StartKVServer n i (persister (krf kv')) mx rnd now) = khistory kv \<and>
    lastApplied (krf (kv_StartKVServer n i (persister (krf kv')) mx rnd now)) = index"
proof -
  from Snapshot_taken[OF assms(1,4,5), of "GenSnapShot kv"] obtain rf' where
    s: "Snapshot index (GenSnapShot kv) (krf kv) = Inr rf'" "persisted rf'" "snapShot rf' = GenSnapShot kv"
      "lastIncludedIndex rf' = index"
    by (auto simp: persisted_def persist_def Save_def encodeState_def)
  have "snapshot (persister rf') = GenSnapShot kv" "raftstate (persister rf') = encodeState rf'"
    using s by (auto simp: persisted_def)
  then have r: "kv_StartKVServer n i (persister rf') mx rnd now =
      \<lparr>kme = i, krf = Make n i (persister rf') rnd now, kdead = 0, kwaiCh = [], khistory = khistory kv,
        kmaxraftstate = mx, kdb = kdb kv, klastApplied = 0\<rparr>"
    and la: "lastApplied (Make n i (persister rf') rnd now) = index"
    using s(4) by (auto simp: kv_StartKVServer_def LoadSnapShot_GenSnapShot ReadSnapshot_def Make_def ReadRaftState_def Let_def)
  show ?thesis
    using assms(2,3) s(1) r la by (auto simp: ApplyHandler_snapshot_def)
qed

theorem kv_snapshot_restart_witness:
  "\<exists>kv kv'. ApplyHandler_snapshot (\<lambda>_. 1000) 1 kv = Inr kv' \<and> kdb kv = [(''x'', ''1'')] \<and>
     kdb (kv_StartKVServer 3 0 (persister (krf kv')) 100 0 0) = [(''x'', ''1'')]"
proof -
  let ?rf = "(Make 3 0 MakePersister 0 0)\<lparr>log := [\<lparr>eTerm = -1, eCommand = None\<rparr>, \<lparr>eTerm = 2, eCommand = Some (demo_ops ! 0)\<rparr>],
     commitIndex := 1, lastApplied := 1\<rparr>"
  let ?kv = "(kv_StartKVServer 3 0 MakePersister 100 0 0)\<lparr>krf := ?rf, kdb := [(''x'', ''1'')]\<rparr>"
  have f: "raft_wf ?rf" "lastIncludedIndex ?rf = 0" "commitIndex ?rf = 1"
    by (simp_all add: raft_wf_def Make_def MakePersister_def ReadRaftState_def ReadSnapshot_def readPersist_def readSnapshot_def Let_def)
  have g: "kmaxraftstate ?kv = 100"
    by (simp add: kv_StartKVServer_def LoadSnapShot_def ReadSnapshot_def MakePersister_def)
  have k: "krf ?kv = ?rf" "kdb ?kv = [(''x'', ''1'')]" by simp_all
  have "\<exists>kv'. ApplyHandler_snapshot (\<lambda>_. 1000) 1 ?kv = Inr kv' \<and> kdb kv' = kdb ?kv \<and> khistory kv' = khistory ?kv \<and>
    kdb (kv_StartKVServer 3 0 (persister (krf kv')) 100 0 0) = kdb ?kv \<and>
    khistory (kv_StartKVServer 3 0 (persister (krf kv')) 100 0 0) = khistory ?kv \<and>
    lastApplied (krf (kv_StartKVServer 3 0 (persister (krf kv')) 100 0 0)) = 1"
    by (rule kv_snapshot_restart) (simp_all only: k f g, simp_all add: RaftStateSize_def go_quot_def)
  then show ?thesis unfolding k(2) using k(2) by blast
qed


text \<open>
  C18: The term check of \<open>HandleOp\<close> never passes. \<open>ApplyHandler\<close> stamps results with the snapshot term of the
  message, which Raft leaves at 0 in every command it delivers, while the term \<open>Start\<close> returns is
  positive: a handler that receives its result over the channel always reports an outdated
  leader, and the clerk only gets its answer when it retries and hits the history.
\<close>

theorem HandleOp_term_never_matches:
  assumes "raft_wf rf" "CommitChecker_collect rf = Inr (rf', msgs)" "msg \<in> set msgs"
    and "ApplyHandler msg kv = Inr (kv', Some (ch, r))"
    and "0 < currentTerm (krf kv0)" "HandleOp_start now op kv0 = Inr (kv1, Inr (index, startTerm))"
  shows "kresErr (HandleOp_wait startTerm (WaitMsg r)) = ErrLeaderOutDated"
proof -
  have "amSnapshotTerm msg = 0" "amCommandValid msg"
    using assms(3) assms(2) CommitChecker_collect_wf[OF assms(1)] by (auto simp: applyMsgAt_def Let_def)
  with assms(4) have "kresTerm r = 0"
    by (auto simp: ApplyHandler_def Let_def split: option.splits if_splits prod.splits)
  moreover have "startTerm = currentTerm (krf kv0)"
  proof -
    from assms(6) obtain r' where "Start now (Some op) (krf kv0) = Inr (r', index, startTerm, True)"
      by (auto simp: HandleOp_start_def bindR_eq_Inr split: if_splits)
    then show ?thesis using Start_leader(3) Start_follower by (cases "state (krf kv0) = Leader") fastforce+
  qed
  ultimately show ?thesis using assms(5) by (simp add: HandleOp_wait_def)
qed

definition demo_rf :: "(KvOp, kvgob) Raft" where
  "demo_rf = (Make 3 0 MakePersister 0 0)\<lparr>currentTerm := 2, state := Leader,
     log := [\<lparr>eTerm = -1, eCommand = None\<rparr>, \<lparr>eTerm = 2, eCommand = Some (demo_ops ! 0)\<rparr>], commitIndex := 1\<rparr>"

definition demo_kv :: KvServer where
  "demo_kv = (kv_StartKVServer 3 0 MakePersister 100 0 0)\<lparr>krf := demo_rf, kwaiCh := [(1, 5)]\<rparr>"

lemmas demo_kv_defs = demo_kv_def demo_rf_def demo_ops_def kv_StartKVServer_def LoadSnapShot_def Make_def
  MakePersister_def ReadRaftState_def ReadSnapshot_def readPersist_def readSnapshot_def raft_frame_defs

theorem HandleOp_term_never_matches_witness:
  "\<exists>kv' r kv1 index startTerm. ApplyHandler (applyMsgAt demo_rf 1) demo_kv = Inr (kv', Some (5, r)) \<and>
     HandleOp_start 0 (demo_ops ! 1) demo_kv = Inr (kv1, Inr (index, startTerm)) \<and>
     kresErr (HandleOp_wait startTerm (WaitMsg r)) = ErrLeaderOutDated"
proof -
  have wf: "raft_wf demo_rf" "lastApplied demo_rf = 0" "commitIndex demo_rf = 1"
    by (simp_all add: raft_wf_def demo_kv_defs)
  have c: "CommitChecker_collect demo_rf = Inr (demo_rf\<lparr>commitCh := CheckerBusy\<rparr>, [applyMsgAt demo_rf 1])"
    using CommitChecker_collect_wf[OF wf(1)] wf by simp
  obtain kv' r where a: "ApplyHandler (applyMsgAt demo_rf 1) demo_kv = Inr (kv', Some (5, r))"
    by (simp add: ApplyHandler_def applyMsgAt_def applyOp_def DBExecute_def demo_kv_defs)
  obtain kv1 index startTerm where s: "HandleOp_start 0 (demo_ops ! 1) demo_kv = Inr (kv1, Inr (index, startTerm))"
    by (simp add: HandleOp_start_def Start_def signalMsg_def go_set_def demo_kv_defs)
  have "0 < currentTerm (krf demo_kv)" by (simp add: demo_kv_defs)
  from HandleOp_term_never_matches[OF wf(1) c _ a this s] a s show ?thesis by auto
qed

definition kv_final :: "(int \<Rightarrow> (KvErr \<times> string) option) \<Rightarrow> int \<Rightarrow> string option" where
  "kv_final env i = (case env i of Some (err, v) \<Rightarrow> if err \<in> {NoErr, ErrKeyNotExist} then Some v else None | None \<Rightarrow> None)"

definition kv_skips :: "(int \<Rightarrow> (KvErr \<times> string) option) \<Rightarrow> int \<Rightarrow> bool" where
  "kv_skips env i = (case env i of Some (err, v) \<Rightarrow> err \<in> {ErrNotLeader, ErrLeaderOutDated} | None \<Rightarrow> True)"

interpretation kv_clerk: rotation kv_clerk_loop kcLeader "\<lambda>i ck. ck\<lparr>kcLeader := i\<rparr>" kcServers id kv_skips kv_final
  by unfold_locales (auto simp: kv_skips_def kv_final_def next_server_def split: option.splits if_splits)

definition kv_stays :: "(int \<Rightarrow> (KvErr \<times> string) option) \<Rightarrow> int \<Rightarrow> bool" where
  "kv_stays env i = (case env i of Some (err, v) \<Rightarrow> err \<in> {ErrChanClose, ErrHandleOpTimeOut} | None \<Rightarrow> False)"

lemma kv_clerk_undecided:
  assumes "0 \<le> kcLeader ck" "kcLeader ck < int (kcServers ck)"
    and "\<forall>e \<in> set pre. \<forall>i. 0 \<le> i \<and> i < int (kcServers ck) \<longrightarrow> kv_skips e i \<or> kv_stays e i \<or> kv_final e i = Some v"
  shows "\<exists>l'. 0 \<le> l' \<and> l' < int (kcServers ck) \<and>
    (kv_clerk_loop (pre @ post) ck = Inr (Some (ck\<lparr>kcLeader := l'\<rparr>, v)) \<or>
     kv_clerk_loop (pre @ post) ck = kv_clerk_loop post (ck\<lparr>kcLeader := l'\<rparr>))"
  using assms
proof (induction pre arbitrary: ck)
  case Nil
  then show ?case by (intro exI[of _ "kcLeader ck"]) simp
next
  case (Cons e pre)
  let ?n = "int (kcServers ck)"
  consider "kv_final e (kcLeader ck) = Some v" | "kv_skips e (kcLeader ck)" | "kv_stays e (kcLeader ck)" using Cons.prems by auto
  then show ?case
  proof cases
    case 1
    with Cons.prems(1,2) kv_clerk.loop_final[of ck e v "pre @ post"] show ?thesis by (intro exI[of _ "kcLeader ck"]) simp
  next
    case 2
    let ?ck = "ck\<lparr>kcLeader := (kcLeader ck + 1) mod ?n\<rparr>"
    have "kv_clerk_loop ((e # pre) @ post) ck = kv_clerk_loop (pre @ post) ?ck"
      using kv_clerk.loop_skip[of ck e "pre @ post"] 2 Cons.prems(1,2) by simp
    moreover have "0 \<le> kcLeader ?ck" "kcLeader ?ck < int (kcServers ?ck)" using Cons.prems(1,2) by simp_all
    ultimately show ?thesis using Cons.IH[of ?ck] Cons.prems(3) by simp
  next
    case 3
    then have "kv_clerk_loop ((e # pre) @ post) ck = kv_clerk_loop (pre @ post) ck"
      using Cons.prems(1,2) by (auto simp: kv_stays_def split: option.splits)
    with Cons.IH[of ck] Cons.prems show ?thesis by simp
  qed
qed

lemma kv_clerk_returns:
  assumes rng: "0 \<le> kcLeader ck" "kcLeader ck < int (kcServers ck)" "0 \<le> l" "l < int (kcServers ck)"
    and pre: "\<forall>e \<in> set (take k es). \<forall>i. 0 \<le> i \<and> i < int (kcServers ck) \<longrightarrow> kv_skips e i \<or> kv_stays e i \<or> kv_final e i = Some v"
    and post: "\<forall>e \<in> set (drop k es). kv_final e l = Some v \<and>
      (\<forall>i. 0 \<le> i \<and> i < int (kcServers ck) \<and> i \<noteq> l \<longrightarrow> kv_skips e i \<or> kv_final e i = Some v)"
    and enough: "k + kcServers ck \<le> length es"
  shows "\<exists>l'. 0 \<le> l' \<and> l' < int (kcServers ck) \<and> kv_clerk_loop es ck = Inr (Some (ck\<lparr>kcLeader := l'\<rparr>, v))"
proof -
  let ?n = "int (kcServers ck)"
  obtain l1 where l1: "0 \<le> l1" "l1 < ?n" "kv_clerk_loop es ck = Inr (Some (ck\<lparr>kcLeader := l1\<rparr>, v)) \<or>
      kv_clerk_loop es ck = kv_clerk_loop (drop k es) (ck\<lparr>kcLeader := l1\<rparr>)"
    using kv_clerk_undecided[OF rng(1,2) pre, of "drop k es"] by auto
  have "nat ((l - l1) mod ?n) < kcServers ck" using rng by (subst nat_less_iff) simp_all
  then have len: "nat ((l - l1) mod ?n) < length (drop k es)" using enough by simp
  let ?c1 = "ck\<lparr>kcLeader := l1\<rparr>"
  have "\<exists>l'. 0 \<le> l' \<and> l' < int (kcServers ?c1) \<and> kv_clerk_loop (drop k es) ?c1 = Inr (Some (id (?c1\<lparr>kcLeader := l'\<rparr>), v))"
    by (rule kv_clerk.finds_any[where l = l]) (use l1 rng post len in simp_all)
  then show ?thesis using l1 by auto
qed

text \<open>
  What \<open>HandleOp\<close> can return. A request in the history is answered from it; otherwise a server that does not lead refuses, and one that leads waits
  for a message over the channel, which has term 0, or for the time-out or the end of the channel. \<open>leads\<close> is what \<open>Start\<close> finds.
\<close>

definition kv_handled :: "KvOp \<Rightarrow> KvServer \<Rightarrow> bool \<Rightarrow> KvResult \<Rightarrow> bool" where
  "kv_handled op kv leads res \<longleftrightarrow>
     (case HandleOp_history op kv of
        Some r \<Rightarrow> res = r
      | None \<Rightarrow>
          if leads then \<exists>startTerm ev. 0 < startTerm \<and> (\<forall>r. ev = WaitMsg r \<longrightarrow> kresTerm r = 0) \<and> res = HandleOp_wait startTerm ev
          else res = zero_result\<lparr>kresErr := ErrNotLeader\<rparr>)"

lemma applyOp_err: "\<not> kv_seen s op \<Longrightarrow> kresErr (snd (applyOp t op s)) \<in> {NoErr, ErrKeyNotExist}"
  by (cases s) (auto simp: applyOp_def kv_seen_def DBExecute_def zero_result_def Let_def split: option.splits prod.splits OType.splits)

lemma kv_executed_once:
  assumes "j < length ops" "j' < length ops" "\<not> kv_seen (kv_spec ops j) (ops ! j)" "\<not> kv_seen (kv_spec ops j') (ops ! j')"
    and "kopId (ops ! j) = kopId (ops ! j')" "kopSeq (ops ! j) = kopSeq (ops ! j')"
  shows "j = j'"
proof -
  have same: "kv_seen s (ops ! j) = kv_seen s (ops ! j')" for s using assms(5,6) by (simp only: kv_seen_def)
  show ?thesis
    using kv_spec_seen[of j j' ops] kv_spec_seen[of j' j ops] assms(1-4) same by (metis less_or_eq_imp_le linorder_neqE_nat)
qed

lemma kv_history_final:
  assumes "kv_at ops p kv" "HandleOp_history op kv = Some r"
  shows "\<exists>j < length ops. kopId (ops ! j) = kopId op \<and> kopSeq (ops ! j) = kopSeq op \<and> \<not> kv_seen (kv_spec ops j) (ops ! j) \<and>
    r = snd (applyOp 0 (ops ! j) (kv_spec ops j)) \<and> kresErr r \<in> {NoErr, ErrKeyNotExist}"
proof -
  have "map_of (snd (kv_spec ops p)) (kopId op) = Some r" "kresLastSeq r = kopSeq op" "p \<le> length ops"
    using assms by (auto simp: HandleOp_history_def kv_at_def prod_eq_iff split: option.splits if_splits)
  with kv_history_origin[of p ops "kopId op" r] applyOp_err show ?thesis by (metis less_le_trans)
qed

lemma HandleOp_wait_err:
  assumes "0 < startTerm" "\<forall>r. ev = WaitMsg r \<longrightarrow> kresTerm r = 0"
  shows "kresErr (HandleOp_wait startTerm ev) \<in> {ErrLeaderOutDated, ErrChanClose, ErrHandleOpTimeOut}"
  using assms by (cases ev) (auto simp: HandleOp_wait_def)

lemma kv_handled_answer:
  assumes "kv_at ops p kv" "kv_handled op kv leads res" "env i = Some (kresErr res, kresValue res)"
  shows "kv_skips env i \<or> leads \<and> kv_stays env i \<or> (\<exists>j < length ops. kopId (ops ! j) = kopId op \<and> kopSeq (ops ! j) = kopSeq op \<and>
    \<not> kv_seen (kv_spec ops j) (ops ! j) \<and> kv_final env i = Some (kresValue (snd (applyOp 0 (ops ! j) (kv_spec ops j)))))"
proof (cases "HandleOp_history op kv")
  case None
  then have "leads \<and> kresErr res \<in> {ErrLeaderOutDated, ErrChanClose, ErrHandleOpTimeOut} \<or> kresErr res = ErrNotLeader"
    using assms(2) HandleOp_wait_err by (auto simp: kv_handled_def split: if_splits)
  with assms(3) show ?thesis by (auto simp: kv_skips_def kv_stays_def)
next
  case (Some r)
  from kv_history_final[OF assms(1) this] obtain j where
    j: "j < length ops" "kopId (ops ! j) = kopId op" "kopSeq (ops ! j) = kopSeq op" "\<not> kv_seen (kv_spec ops j) (ops ! j)"
      "r = snd (applyOp 0 (ops ! j) (kv_spec ops j))" "kresErr r \<in> {NoErr, ErrKeyNotExist}" by blast
  have "res = r" using assms(2) Some by (simp add: kv_handled_def)
  with j assms(3) show ?thesis by (auto simp: kv_final_def)
qed

text \<open>
  C19: A clerk gets its answer. All servers hold states of the same log, and a call fails or is handled as \<open>HandleOp\<close> does. The first contact with the
  leader only puts the request into the log because its answer over the channel is never accepted, and the clerk moves on. From attempt \<open>k\<close> on
  let server \<open>l\<close> have the request in its history and be reachable, and let no other server take itself for a leader. Then within
  as many further attempts as there are servers the clerk returns, without panic, the value that the one execution of the request in
  the log gave, and remembers the server that answered.
\<close>

theorem kv_clerk_finds_leader:
  assumes "0 \<le> kcLeader ck" "kcLeader ck < int (kcServers ck)" "0 \<le> l" "l < int (kcServers ck)"
    and args: "args = \<lparr>kgKey = key, kgSeq = kcSeq ck, kgId = kcId ck\<rparr>"
    and handled: "\<forall>t < length envs. \<forall>i. 0 \<le> i \<and> i < int (kcServers ck) \<longrightarrow> kv_at ops (pos t i) (servers t i) \<and>
      ((envs ! t) args i = None \<or>
       (\<exists>res. kv_handled (kv_Get_op args) (servers t i) (leads t i) res \<and> (envs ! t) args i = Some (kv_Get_reply res)))"
    and stable: "\<forall>t. k \<le> t \<and> t < length envs \<longrightarrow> (envs ! t) args l \<noteq> None \<and>
      HandleOp_history (kv_Get_op args) (servers t l) \<noteq> None \<and> (\<forall>i. i \<noteq> l \<longrightarrow> \<not> leads t i)"
    and enough: "k + kcServers ck \<le> length envs"
  shows "\<exists>l' j. 0 \<le> l' \<and> l' < int (kcServers ck) \<and> j < length ops \<and> kopId (ops ! j) = kcId ck \<and> kopSeq (ops ! j) = kcSeq ck \<and>
    \<not> kv_seen (kv_spec ops j) (ops ! j) \<and>
    kv_clerk_Get envs key ck = Inr (Some (ck\<lparr>kcSeq := kcSeq ck + 1, kcLeader := l'\<rparr>, kresValue (snd (applyOp 0 (ops ! j) (kv_spec ops j)))))"
proof -
  let ?n = "int (kcServers ck)" and ?ck = "ck\<lparr>kcSeq := kcSeq ck + 1\<rparr>"
  let ?e = "\<lambda>t i. map_option (\<lambda>r. (kgrErr r, kgrValue r)) ((envs ! t) args i)"
  let ?es = "map (\<lambda>env i. map_option (\<lambda>r. (kgrErr r, kgrValue r)) (env args i)) envs"
  let ?exec = "\<lambda>j. j < length ops \<and> kopId (ops ! j) = kcId ck \<and> kopSeq (ops ! j) = kcSeq ck \<and> \<not> kv_seen (kv_spec ops j) (ops ! j)"
  let ?val = "\<lambda>j. kresValue (snd (applyOp 0 (ops ! j) (kv_spec ops j)))"
  have op: "kopId (kv_Get_op args) = kcId ck" "kopSeq (kv_Get_op args) = kcSeq ck" by (simp_all add: kv_Get_op_def args)
  have at: "kv_at ops (pos t i) (servers t i)"
    and rep: "(envs ! t) args i = None \<or>
      (\<exists>res. kv_handled (kv_Get_op args) (servers t i) (leads t i) res \<and> (envs ! t) args i = Some (kv_Get_reply res))"
    if "t < length envs" "0 \<le> i" "i < ?n" for t i
    using handled[rule_format, of t i] that by simp_all
  have ans: "kv_skips (?e t) i \<or> leads t i \<and> kv_stays (?e t) i \<or> (\<exists>j. ?exec j \<and> kv_final (?e t) i = Some (?val j))"
    if t: "t < length envs" "0 \<le> i" "i < ?n" for t i
  proof (cases "(envs ! t) args i")
    case None
    then show ?thesis by (simp add: kv_skips_def)
  next
    case (Some r)
    with rep[OF t] obtain res where res: "kv_handled (kv_Get_op args) (servers t i) (leads t i) res" "r = kv_Get_reply res" by auto
    have "?e t i = Some (kresErr res, kresValue res)" using Some res(2) by (simp add: kv_Get_reply_def)
    from kv_handled_answer[OF at[OF t] res(1), of "?e t" i] this op show ?thesis by auto
  qed
  have fin: "\<exists>j. ?exec j \<and> kv_final (?e t) l = Some (?val j)" if t: "k \<le> t" "t < length envs" for t
  proof -
    obtain r where r: "HandleOp_history (kv_Get_op args) (servers t l) = Some r" "(envs ! t) args l \<noteq> None" using stable t by auto
    with rep[OF t(2) assms(3,4)] obtain res where
      res: "kv_handled (kv_Get_op args) (servers t l) (leads t l) res" "(envs ! t) args l = Some (kv_Get_reply res)" by auto
    have "res = r" using res(1) r by (simp add: kv_handled_def)
    from kv_history_final[OF at[OF t(2) assms(3,4)] r(1)] this res(2) op show ?thesis by (auto simp: kv_final_def kv_Get_reply_def)
  qed
  have "0 < kcServers ck" using assms(1,2) by linarith
  then have "k < length envs" using enough by simp
  with fin[of k] obtain j where j: "?exec j" by blast
  then have uniq: "?val j' = ?val j" if "?exec j'" for j' using kv_executed_once[of j' ops j] that by metis
  have pre: "\<forall>e \<in> set (take k ?es). \<forall>i. 0 \<le> i \<and> i < int (kcServers ?ck) \<longrightarrow> kv_skips e i \<or> kv_stays e i \<or> kv_final e i = Some (?val j)"
  proof (intro ballI allI impI)
    fix e i assume "e \<in> set (take k ?es)" and i: "0 \<le> i \<and> i < int (kcServers ?ck)"
    then obtain t where t: "t < length envs" "e = ?e t" by (auto simp: in_set_conv_nth)
    from ans[of t i] i t uniq show "kv_skips e i \<or> kv_stays e i \<or> kv_final e i = Some (?val j)" by auto
  qed
  have post: "\<forall>e \<in> set (drop k ?es). kv_final e l = Some (?val j) \<and>
      (\<forall>i. 0 \<le> i \<and> i < ?n \<and> i \<noteq> l \<longrightarrow> kv_skips e i \<or> kv_final e i = Some (?val j))"
  proof
    fix e assume "e \<in> set (drop k ?es)"
    then obtain t where t: "k \<le> t" "t < length envs" "e = ?e t"
      by (auto simp: in_set_conv_nth) (metis add.commute le_add1 less_diff_conv nth_map)
    have "kv_skips e i \<or> kv_final e i = Some (?val j)" if "0 \<le> i \<and> i < ?n \<and> i \<noteq> l" for i
      using ans[of t i] stable t that uniq by auto
    with fin[OF t(1,2)] t(3) uniq show "kv_final e l = Some (?val j) \<and> (\<forall>i. 0 \<le> i \<and> i < ?n \<and> i \<noteq> l \<longrightarrow> kv_skips e i \<or> kv_final e i = Some (?val j))"
      by auto
  qed
  have "\<exists>l'. 0 \<le> l' \<and> l' < int (kcServers ?ck) \<and> kv_clerk_loop ?es ?ck = Inr (Some (?ck\<lparr>kcLeader := l'\<rparr>, ?val j))"
    by (rule kv_clerk_returns[where k = k and l = l]) (use pre post assms(1-4) enough in simp_all)
  then show ?thesis using j by (auto simp: kv_clerk_Get_def GetSeq_def args)
qed

text \<open>
  Three servers; the request of clerk 9 is in the log behind a Put of clerk 8. At the first attempt no server has applied it and the
  leader, server 0, reports an outdated leader; then server 0 has it in its history.
\<close>

definition demo_log :: "KvOp list" where
  "demo_log =
     [\<lparr>kopType = OPPut, kopKey = ''x'', kopVal = ''1'', kopSeq = 0, kopId = 8\<rparr>, \<lparr>kopType = OPGet, kopKey = ''x'', kopVal = '''', kopSeq = 4, kopId = 9\<rparr>]"

definition demo_server :: "nat \<Rightarrow> KvServer" where
  "demo_server p = (kv_StartKVServer 3 0 MakePersister 100 0 0)\<lparr>kdb := fst (kv_spec demo_log p), khistory := snd (kv_spec demo_log p), klastApplied := int p\<rparr>"

definition demo_pos :: "nat \<Rightarrow> int \<Rightarrow> nat" where
  "demo_pos t i = (if t = 0 then 1 else if i = 0 then 2 else 0)"

definition demo_answer :: "nat \<Rightarrow> KvGetArgs \<Rightarrow> int \<Rightarrow> KvGetReply option" where
  "demo_answer t args i = Some (kv_Get_reply
     (case HandleOp_history (kv_Get_op args) (demo_server (demo_pos t i)) of
        Some r \<Rightarrow> r
      | None \<Rightarrow> if i = 0 then HandleOp_wait 2 (WaitMsg zero_result) else zero_result\<lparr>kresErr := ErrNotLeader\<rparr>))"

lemma demo_server_at: "p \<le> 2 \<Longrightarrow> kv_at demo_log p (demo_server p)"
  by (simp add: kv_at_def demo_server_def demo_log_def)

lemma demo_log_hist: "map_of (snd (kv_spec demo_log 2)) 9 = Some (zero_result\<lparr>kresLastSeq := 4, kresValue := ''1''\<rparr>)"
  by code_simp

lemma demo_answered: "demo_answer t args i \<noteq> None"
  by (simp add: demo_answer_def)

lemma demo_handled:
  "\<exists>res. kv_handled (kv_Get_op args) (demo_server (demo_pos t i)) (i = 0) res \<and> demo_answer t args i = Some (kv_Get_reply res)"
proof (cases "HandleOp_history (kv_Get_op args) (demo_server (demo_pos t i))")
  case (Some r)
  then show ?thesis by (simp add: demo_answer_def kv_handled_def)
next
  case None
  have "\<exists>startTerm ev. 0 < startTerm \<and> (\<forall>r. ev = WaitMsg r \<longrightarrow> kresTerm r = 0) \<and> HandleOp_wait 2 (WaitMsg zero_result) = HandleOp_wait startTerm ev"
    by (rule exI[of _ 2], rule exI[of _ "WaitMsg zero_result"]) (simp add: zero_result_def)
  with None have "kv_handled (kv_Get_op args) (demo_server (demo_pos t i)) (i = 0)
      (if i = 0 then HandleOp_wait 2 (WaitMsg zero_result) else zero_result\<lparr>kresErr := ErrNotLeader\<rparr>)"
    by (cases "i = 0") (simp_all add: kv_handled_def)
  with None show ?thesis by (auto simp: demo_answer_def)
qed

theorem kv_clerk_finds_leader_witness:
  "\<exists>l'. kv_clerk_Get (map demo_answer [0..<4]) ''x'' \<lparr>kcServers = 3, kcSeq = 4, kcId = 9, kcLeader = 0\<rparr> =
     Inr (Some (\<lparr>kcServers = 3, kcSeq = 5, kcId = 9, kcLeader = l'\<rparr>, ''1''))"
proof -
  let ?args = "\<lparr>kgKey = ''x'', kgSeq = 4, kgId = 9\<rparr>" and ?ck = "\<lparr>kcServers = 3, kcSeq = 4, kcId = 9, kcLeader = 0\<rparr>"
  have hist: "HandleOp_history (kv_Get_op ?args) (demo_server 2) \<noteq> None"
    using demo_log_hist by (auto simp: HandleOp_history_def demo_server_def kv_Get_op_def)
  have "\<exists>l' j. 0 \<le> l' \<and> l' < int (kcServers ?ck) \<and> j < length demo_log \<and> kopId (demo_log ! j) = kcId ?ck \<and> kopSeq (demo_log ! j) = kcSeq ?ck \<and>
    \<not> kv_seen (kv_spec demo_log j) (demo_log ! j) \<and>
    kv_clerk_Get (map demo_answer [0..<4]) ''x'' ?ck =
      Inr (Some (?ck\<lparr>kcSeq := kcSeq ?ck + 1, kcLeader := l'\<rparr>, kresValue (snd (applyOp 0 (demo_log ! j) (kv_spec demo_log j)))))"
    by (rule kv_clerk_finds_leader[where l = 0 and args = ?args and pos = demo_pos and k = 1 and servers = "\<lambda>t i. demo_server (demo_pos t i)"
          and leads = "\<lambda>t i. i = 0"])
      (use demo_server_at demo_handled hist demo_answered in \<open>simp_all add: demo_pos_def\<close>)
  moreover have "j = 1" if "j < length demo_log" "kopId (demo_log ! j) = 9" for j
    using that by (cases j) (auto simp: demo_log_def)
  moreover have "kresValue (snd (applyOp 0 (demo_log ! 1) (kv_spec demo_log 1))) = ''1''"
    by code_simp
  ultimately show ?thesis by fastforce
qed

end
