(* ===== verification/ConfigSM.thy ===== *)
theory ConfigSM
  imports Prelude "HOL-Library.Multiset"
begin

text \<open>
  The configuration state machine of the shard controller:
  \<open>src/src/shardctrler/configStateMachine.go\<close> and the types of \<open>common.go\<close>. A configuration
  assigns each of \<open>NShards\<close> shards to a group; \<open>Join\<close>, \<open>Leave\<close> and \<open>Move\<close> append a configuration to
  the history and \<open>Query\<close> reads one. Groups and the table \<open>group2Shards\<close> are Go maps, so the list
  order of the model is one possible iteration order; the results are shown not to depend on it.
\<close>

subsection \<open>Data\<close>

definition NShards :: nat where
  "NShards = 10"

record Config =
  cfNum :: int
  cfShards :: "int list"
  cfGroups :: "(int, string list) gomap"

datatype CErr = COK | CErrWrongLeader | CErrTimeout

type_synonym table = "(int, int list) gomap"

definition DefaultConfig :: Config where
  "DefaultConfig = \<lparr>cfNum = 0, cfShards = replicate NShards 0, cfGroups = []\<rparr>"

definition NewMemoryConfigStateMachine :: "Config list" where
  "NewMemoryConfigStateMachine = [DefaultConfig]"

definition deepCopy :: "(int, string list) gomap \<Rightarrow> (int, string list) gomap" where
  "deepCopy groups = fold (\<lambda>(gid, servers). mput gid servers) groups []"

subsection \<open>The table of groups\<close>

definition Group2Shards :: "Config \<Rightarrow> table" where
  "Group2Shards config =
     fold (\<lambda>(shard, gid) g. mput gid (mget [] g gid @ [shard]) g)
       (zip (map int [0..<length (cfShards config)]) (cfShards config))
       (fold (\<lambda>gid. mput gid []) (mkeys (cfGroups config)) [])"

definition load :: "table \<Rightarrow> int \<Rightarrow> nat" where
  "load g gid = length (mget [] g gid)"

definition GetGIDWithMinimumShards :: "table \<Rightarrow> int" where
  "GetGIDWithMinimumShards g =
     fst (fold (\<lambda>gid (index, minShards).
            if gid \<noteq> 0 \<and> int (load g gid) < minShards then (gid, int (load g gid)) else (index, minShards))
          (sort (mkeys g)) (-1, int NShards + 1))"

definition GetGIDWithMaximumShards :: "table \<Rightarrow> int" where
  "GetGIDWithMaximumShards g =
     (if map_of g 0 \<noteq> None \<and> load g 0 \<noteq> 0 then 0
      else fst (fold (\<lambda>gid (index, maxShards).
             if int (load g gid) > maxShards then (gid, int (load g gid)) else (index, maxShards))
           (sort (mkeys g)) (-1, -1)))"

text \<open>One iteration of the loop of \<open>Join\<close>: \<open>group2Shards[source][0]\<close> goes to the target.\<close>

definition moveShard :: "int \<Rightarrow> int \<Rightarrow> table \<Rightarrow> table res" where
  "moveShard source target g =
     (case go_nth (mget [] g source) 0 of
        Inl e \<Rightarrow> Inl e
      | Inr shard \<Rightarrow>
          let g1 = mput target (mget [] g target @ [shard]) g in
          case go_from (mget [] g1 source) 1 of
            Inl e \<Rightarrow> Inl e
          | Inr rest \<Rightarrow> Inr (mput source rest g1))"

text \<open>The loads, read as a measure: unassigned shards first, then the sum of squares.\<close>

definition squares :: "table \<Rightarrow> nat" where
  "squares g = sum_list (map (\<lambda>(gid, shards). length shards * length shards) g)"

lemma squares_mput: "squares (mput k v g) + load g k * load g k = squares g + length v * length v"
  by (induction g) (auto simp: squares_def load_def mget_def)

lemma load_mput [simp]: "load (mput k v g) k' = (if k' = k then length v else load g k')"
  by (simp add: load_def)

lemma moveShard_Inr:
  "moveShard s t g = Inr g' \<longleftrightarrow>
     mget [] g s \<noteq> [] \<and>
     g' = mput s (tl (mget [] (mput t (mget [] g t @ [hd (mget [] g s)]) g) s))
            (mput t (mget [] g t @ [hd (mget [] g s)]) g)"
  by (cases "mget [] g s")
    (auto simp: moveShard_def go_nth_def go_from_def Let_def drop_Suc nth_Cons hd_append split: sum.splits if_splits)

lemma min_not_zero: "GetGIDWithMinimumShards g \<noteq> 0"
proof -
  have "fst (fold (\<lambda>gid (index, minShards).
          if gid \<noteq> 0 \<and> f gid < minShards then (gid, f gid) else (index, minShards)) xs (i, m)) \<noteq> 0"
    if "i \<noteq> 0" for xs i and f :: "int \<Rightarrow> int" and m
    using that by (induction xs arbitrary: i m) auto
  from this[of "-1" "\<lambda>gid. int (load g gid)"] show ?thesis by (simp add: GetGIDWithMinimumShards_def)
qed

lemma moveShard_zero:
  "moveShard 0 t g = Inr g' \<Longrightarrow> t \<noteq> 0 \<Longrightarrow> load g' 0 < load g 0"
  by (auto simp: moveShard_Inr load_def)

lemma moveShard_squares:
  assumes "moveShard s t g = Inr g'" "load g t + 1 < load g s"
  shows "squares g' < squares g"
proof -
  from assms have st: "s \<noteq> t" by auto
  let ?h = "mget [] g t @ [hd (mget [] g s)]"
  have g': "g' = mput s (tl (mget [] g s)) (mput t ?h g)" "load g s > 0"
    using assms(1) st by (auto simp: moveShard_Inr load_def)
  obtain d where d: "load g s = load g t + 2 + d" using assms(2) by (metis add.assoc less_iff_Suc_add add_2_eq_Suc' add_Suc_right Suc_eq_plus1 add.commute)
  have 1: "squares (mput t ?h g) + load g t * load g t = squares g + (load g t + 1) * (load g t + 1)"
    using squares_mput[of t ?h g] by (simp add: load_def)
  have 2: "squares g' + load g s * load g s = squares (mput t ?h g) + (load g s - 1) * (load g s - 1)"
    using squares_mput[of s "tl (mget [] g s)" "mput t ?h g"] st by (simp add: g' load_def)
  show ?thesis using 1 2 by (simp add: d algebra_simps)
qed

lemma moveShard_zero_kept: "moveShard s t g = Inr g' \<Longrightarrow> s \<noteq> 0 \<Longrightarrow> t \<noteq> 0 \<Longrightarrow> load g' 0 = load g 0"
  by (auto simp: moveShard_Inr)

function rebalance :: "table \<Rightarrow> table res" where
  "rebalance g =
     (let source = GetGIDWithMaximumShards g; target = GetGIDWithMinimumShards g in
      if source \<noteq> 0 \<and> int (load g source) - int (load g target) \<le> 1 then Inr g
      else case moveShard source target g of Inl e \<Rightarrow> Inl e | Inr g' \<Rightarrow> rebalance g')"
  by pat_completeness auto
termination
proof (relation "measures [\<lambda>g. load g 0, squares]")
  fix g source target and g' :: table
  assume s: "source = GetGIDWithMaximumShards g" and t: "target = GetGIDWithMinimumShards g"
    and go: "\<not> (source \<noteq> 0 \<and> int (load g source) - int (load g target) \<le> 1)"
    and mv: "moveShard source target g = Inr g'"
  have t0: "target \<noteq> 0" using t min_not_zero by simp
  show "(g', g) \<in> measures [\<lambda>g. load g 0, squares]"
  proof (cases "source = 0")
    case True
    with moveShard_zero[of target g g'] mv t0 show ?thesis by simp
  next
    case False
    with moveShard_zero_kept[OF mv] moveShard_squares[OF mv] go t0 show ?thesis by simp
  qed
qed simp

declare rebalance.simps [simp del]

text \<open>The loops that write \<open>newShards\<close>; the array has \<open>NShards\<close> entries, an index beyond it panics.\<close>

fun assignGroup :: "int \<Rightarrow> int list \<Rightarrow> int list \<Rightarrow> int list res" where
  "assignGroup gid [] newShards = Inr newShards"
| "assignGroup gid (shard # shards) newShards =
     (case go_set newShards shard gid of Inl e \<Rightarrow> Inl e | Inr a \<Rightarrow> assignGroup gid shards a)"

fun assignAll :: "table \<Rightarrow> int list \<Rightarrow> int list res" where
  "assignAll [] newShards = Inr newShards"
| "assignAll ((gid, shards) # g) newShards =
     (case assignGroup gid shards newShards of Inl e \<Rightarrow> Inl e | Inr a \<Rightarrow> assignAll g a)"

subsection \<open>Operations\<close>

text \<open>The new configuration starts as a copy of the last one; \<open>Configs[len(Configs)-1]\<close> panics on none.\<close>

definition newConfig :: "Config list \<Rightarrow> Config res" where
  "newConfig cf =
     (case go_nth cf (int (length cf) - 1) of Inl e \<Rightarrow> Inl e
      | Inr lastConfig \<Rightarrow>
          Inr \<lparr>cfNum = int (length cf), cfShards = cfShards lastConfig, cfGroups = deepCopy (cfGroups lastConfig)\<rparr>)"

definition joinGroups ::
  "(int, string list) gomap \<Rightarrow> (int, string list) gomap \<Rightarrow> (int, string list) gomap" where
  "joinGroups groups old =
     fold (\<lambda>(gid, servers) gs. if map_of gs gid = None then mput gid servers gs else gs) groups old"

definition cf_Join :: "(int, string list) gomap \<Rightarrow> Config list \<Rightarrow> (Config list \<times> CErr) res" where
  "cf_Join groups cf =
     (case newConfig cf of Inl e \<Rightarrow> Inl e
      | Inr c0 \<Rightarrow>
          let c = c0\<lparr>cfGroups := joinGroups groups (cfGroups c0)\<rparr> in
          case rebalance (Group2Shards c) of Inl e \<Rightarrow> Inl e
          | Inr group2Shards \<Rightarrow>
              (case assignAll group2Shards (replicate NShards 0) of Inl e \<Rightarrow> Inl e
               | Inr newShards \<Rightarrow> Inr (cf @ [c\<lparr>cfShards := newShards\<rparr>], COK)))"

definition removeGroups ::
  "int list \<Rightarrow> (int, string list) gomap \<times> table \<times> int list \<Rightarrow> (int, string list) gomap \<times> table \<times> int list" where
  "removeGroups gids = fold (\<lambda>gid (groups, g, orphanShards).
     let groups' = (if map_of groups gid \<noteq> None then mdel gid groups else groups) in
     case map_of g gid of
       None \<Rightarrow> (groups', g, orphanShards)
     | Some shards \<Rightarrow> (groups', mdel gid g, orphanShards @ shards)) gids"

fun placeOrphans :: "int list \<Rightarrow> table \<times> int list \<Rightarrow> (table \<times> int list) res" where
  "placeOrphans [] s = Inr s"
| "placeOrphans (shard # orphans) (g, newShards) =
     (let gid = GetGIDWithMinimumShards g in
      case go_set newShards shard gid of Inl e \<Rightarrow> Inl e
      | Inr a \<Rightarrow> placeOrphans orphans (mput gid (mget [] g gid @ [shard]) g, a))"

text \<open>The array of the new configuration: zero when no group is left.\<close>

definition leaveShards :: "(int, string list) gomap \<Rightarrow> table \<Rightarrow> int list \<Rightarrow> int list res" where
  "leaveShards groups g orphanShards =
     (if 0 < length groups
      then (case placeOrphans orphanShards (g, replicate NShards 0) of Inl e \<Rightarrow> Inl e
            | Inr (g', newShards) \<Rightarrow> assignAll g' newShards)
      else Inr (replicate NShards 0))"

definition cf_Leave :: "int list \<Rightarrow> Config list \<Rightarrow> (Config list \<times> CErr) res" where
  "cf_Leave gids cf =
     (case newConfig cf of Inl e \<Rightarrow> Inl e
      | Inr c \<Rightarrow>
          case removeGroups gids (cfGroups c, Group2Shards c, []) of (groups, g, orphanShards) \<Rightarrow>
          case leaveShards groups g orphanShards of
            Inl e \<Rightarrow> Inl e
          | Inr newShards \<Rightarrow> Inr (cf @ [c\<lparr>cfGroups := groups, cfShards := newShards\<rparr>], COK))"

definition cf_Move :: "int \<Rightarrow> int \<Rightarrow> Config list \<Rightarrow> (Config list \<times> CErr) res" where
  "cf_Move shard gid cf =
     (case newConfig cf of Inl e \<Rightarrow> Inl e
      | Inr c \<Rightarrow>
          case go_set (cfShards c) shard gid of Inl e \<Rightarrow> Inl e
          | Inr a \<Rightarrow> Inr (cf @ [c\<lparr>cfShards := a\<rparr>], COK))"

definition cf_Query :: "int \<Rightarrow> Config list \<Rightarrow> (Config \<times> CErr) res" where
  "cf_Query num cf =
     (case (if num < 0 \<or> num \<ge> int (length cf) then go_nth cf (int (length cf) - 1) else go_nth cf num) of
        Inl e \<Rightarrow> Inl e | Inr c \<Rightarrow> Inr (c, COK))"

subsection \<open>Well-formed configurations\<close>

text \<open>\<open>owned c gid\<close>: how many shards the group serves.\<close>

definition owned :: "Config \<Rightarrow> int \<Rightarrow> nat" where
  "owned c gid = length (filter (\<lambda>g. g = gid) (cfShards c))"

definition cf_valid :: "Config \<Rightarrow> bool" where
  "cf_valid c \<longleftrightarrow> length (cfShards c) = NShards \<and> wf_map (cfGroups c) \<and> 0 \<notin> set (mkeys (cfGroups c)) \<and>
     (\<forall>gid \<in> set (cfShards c). gid \<in> set (mkeys (cfGroups c)) \<or> cfGroups c = [] \<and> gid = 0)"

definition cf_balanced :: "Config \<Rightarrow> bool" where
  "cf_balanced c \<longleftrightarrow> (\<forall>g \<in> set (mkeys (cfGroups c)). \<forall>h \<in> set (mkeys (cfGroups c)). owned c g \<le> owned c h + 1)"

text \<open>A table distributes the shards: every shard is in the list of exactly one group.\<close>

definition all_shards :: "int list" where
  "all_shards = map int [0..<NShards]"

definition distributes :: "table \<Rightarrow> bool" where
  "distributes g \<longleftrightarrow> wf_map g \<and> mset (concat (map snd g)) = mset all_shards"

lemma mset_concat_mput:
  "mset (concat (map snd (mput k v g))) + mset (mget [] g k) = mset (concat (map snd g)) + mset v"
proof (induction g)
  case (Cons p g)
  then show ?case by (cases p) (auto simp: mget_def ac_simps)
qed (simp add: mget_def)

lemma distributes_shard:
  "distributes g \<Longrightarrow> map_of g gid = Some ss \<Longrightarrow> s \<in> set ss \<Longrightarrow> 0 \<le> s \<and> s < int NShards"
proof -
  assume d: "distributes g" and m: "map_of g gid = Some ss" and s: "s \<in> set ss"
  then have "s \<in> set (concat (map snd g))" by (force dest: map_of_SomeD)
  then have "s \<in># mset all_shards" using d by (simp add: distributes_def flip: set_mset_mset)
  then show ?thesis by (auto simp: all_shards_def)
qed

lemma distributes_distinct: "distributes g \<Longrightarrow> distinct (concat (map snd g))"
  using mset_eq_imp_distinct_iff[of "concat (map snd g)" all_shards]
  by (simp add: distributes_def all_shards_def distinct_map)

lemma distributes_set: "distributes g \<Longrightarrow> set (concat (map snd g)) = {0..<int NShards}"
  using mset_eq_setD[of "concat (map snd g)" all_shards]
  by (simp add: distributes_def all_shards_def image_int_atLeastLessThan)

lemma assignGroup_ok:
  assumes "set ss \<subseteq> {0..<int (length a)}"
  shows "\<exists>a'. assignGroup gid ss a = Inr a' \<and> length a' = length a \<and>
    (\<forall>s < length a. a' ! s = (if int s \<in> set ss then gid else a ! s))"
  using assms
proof (induction ss arbitrary: a)
  case (Cons x ss)
  then have x: "0 \<le> x" "x < int (length a)" by auto
  from Cons.IH[of "a[nat x := gid]"] Cons.prems obtain a' where
    "assignGroup gid ss (a[nat x := gid]) = Inr a'" "length a' = length a"
    "\<forall>s < length a. a' ! s = (if int s \<in> set ss then gid else a[nat x := gid] ! s)" by auto
  with x show ?case by (auto simp: go_set_in nth_list_update)
qed simp

lemma assignAll_ok:
  assumes "distinct (concat (map snd g))" "set (concat (map snd g)) \<subseteq> {0..<int (length a)}"
  shows "\<exists>a'. assignAll g a = Inr a' \<and> length a' = length a \<and>
    (\<forall>s < length a. (\<forall>gid ss. (gid, ss) \<in> set g \<longrightarrow> int s \<in> set ss \<longrightarrow> a' ! s = gid) \<and>
       (int s \<notin> set (concat (map snd g)) \<longrightarrow> a' ! s = a ! s))"
  using assms
proof (induction g arbitrary: a)
  case (Cons p g)
  obtain gid ss where p: "p = (gid, ss)" by force
  from Cons.prems p obtain b where b: "assignGroup gid ss a = Inr b" "length b = length a"
    "\<forall>s < length a. b ! s = (if int s \<in> set ss then gid else a ! s)"
    using assignGroup_ok[of ss a gid] by auto
  from Cons.IH[of b] Cons.prems p b(2) obtain a' where a': "assignAll g b = Inr a'" "length a' = length a"
    "\<forall>s < length a. (\<forall>gid ss. (gid, ss) \<in> set g \<longrightarrow> int s \<in> set ss \<longrightarrow> a' ! s = gid) \<and>
       (int s \<notin> set (concat (map snd g)) \<longrightarrow> a' ! s = b ! s)"
    by auto
  have "a' ! s = gid" if "s < length a" "int s \<in> set ss" for s
  proof -
    have "int s \<notin> set (concat (map snd g))" using Cons.prems(1) p that(2) by auto
    with a'(3) b(3) that show ?thesis by simp
  qed
  with a' b p show ?case by auto
qed simp

lemma mget_key: "mget [] g k \<noteq> [] \<Longrightarrow> k \<in> set (mkeys g)"
  by (auto simp: mget_def split: option.splits dest: map_of_SomeD intro: rev_image_eqI)

lemma mget_mem: "wf_map g \<Longrightarrow> (k, v) \<in> set g \<Longrightarrow> mget z g k = v"
  by (simp add: mget_def wf_map_def)

lemma mget_entry: "s \<in> set (mget [] g k) \<Longrightarrow> (k, mget [] g k) \<in> set g"
  by (auto simp: mget_def split: option.splits dest: map_of_SomeD)

lemma mkeys_mput [simp]: "fst ` set (mput k v g) = insert k (fst ` set g)"
  by (induction g) auto

lemma one_list:
  "distinct (concat (map snd g)) \<Longrightarrow> (k, v) \<in> set g \<Longrightarrow> (k', v') \<in> set g \<Longrightarrow> s \<in> set v \<Longrightarrow> s \<in> set v' \<Longrightarrow> k = k'"
  by (induction g) force+

lemma distributes_mget:
  assumes "distributes g" "s < NShards"
  shows "\<exists>!gid. int s \<in> set (mget [] g gid)"
proof -
  have "int s \<in> set (concat (map snd g))" using assms distributes_set by auto
  then obtain gid ss where gs: "(gid, ss) \<in> set g" "int s \<in> set ss" by auto
  show ?thesis
  proof
    show "int s \<in> set (mget [] g gid)" using gs assms(1) mget_mem by (fastforce simp: distributes_def)
    fix gid' assume s: "int s \<in> set (mget [] g gid')"
    from one_list[OF distributes_distinct[OF assms(1)] mget_entry[OF s] gs(1) s gs(2)]
    show "gid' = gid" .
  qed
qed

lemma distinct_entry: "distinct (concat (map snd g)) \<Longrightarrow> (k, v) \<in> set g \<Longrightarrow> distinct v"
  by (induction g) auto

lemma distributes_mget_distinct: "distributes g \<Longrightarrow> distinct (mget [] g k)"
proof (cases "mget [] g k")
  case (Cons s ss)
  assume "distributes g"
  with distinct_entry[OF distributes_distinct mget_entry[of s g k]] Cons show ?thesis by simp
qed simp

lemma assignAll_owner:
  assumes "distributes g" "length a = NShards"
  obtains a' where "assignAll g a = Inr a'" "length a' = NShards"
    "\<And>s gid. s < NShards \<Longrightarrow> a' ! s = gid \<longleftrightarrow> int s \<in> set (mget [] g gid)"
proof -
  obtain a' where a': "assignAll g a = Inr a'" "length a' = NShards"
    "\<And>s gid ss. s < NShards \<Longrightarrow> (gid, ss) \<in> set g \<Longrightarrow> int s \<in> set ss \<Longrightarrow> a' ! s = gid"
    using assignAll_ok[of g a] distributes_distinct[OF assms(1)] distributes_set[OF assms(1)] assms(2) by auto
  have "a' ! s = gid \<longleftrightarrow> int s \<in> set (mget [] g gid)" if "s < NShards" for s gid
  proof
    assume "int s \<in> set (mget [] g gid)"
    with a'(3)[OF that mget_entry] show "a' ! s = gid" by blast
  next
    assume "a' ! s = gid"
    moreover from distributes_mget[OF assms(1) that] obtain h where "int s \<in> set (mget [] g h)" by blast
    ultimately show "int s \<in> set (mget [] g gid)" using a'(3)[OF that mget_entry] by blast
  qed
  with a' that show thesis by blast
qed

lemma owned_load:
  assumes "distributes g" "length a = NShards"
    "\<And>s gid. s < NShards \<Longrightarrow> a ! s = gid \<longleftrightarrow> int s \<in> set (mget [] g gid)"
  shows "length (filter (\<lambda>x. x = gid) a) = load g gid"
proof -
  have "int ` {i. i < length a \<and> a ! i = gid} = set (mget [] g gid)"
  proof (intro equalityI subsetI)
    fix s assume s: "s \<in> set (mget [] g gid)"
    then have "s \<in> {0..<int NShards}" using mget_entry[OF s] distributes_set[OF assms(1)] by force
    then show "s \<in> int ` {i. i < length a \<and> a ! i = gid}"
      using s assms(2,3) by (auto intro!: image_eqI[of _ _ "nat s"] simp: nat_less_iff)
  qed (use assms in auto)
  then have "card (set (mget [] g gid)) = card {i. i < length a \<and> a ! i = gid}"
    using card_image[of int "{i. i < length a \<and> a ! i = gid}", OF inj_on_of_nat] by simp
  then show ?thesis
    using distinct_card[OF distributes_mget_distinct[OF assms(1)], of gid]
    by (simp add: length_filter_conv_card load_def)
qed

lemma sum_lengths: "length (mget [] g k) \<le> length (concat (map snd g))"
  by (induction g) (auto simp: mget_def)

lemma load_le: "distributes g \<Longrightarrow> load g k \<le> NShards"
  using sum_lengths[of g k] mset_eq_length[of "concat (map snd g)" all_shards]
  by (simp add: distributes_def load_def all_shards_def del: length_concat)

subsection \<open>Least and most loaded group\<close>

lemma fold_min:
  fixes f :: "'a \<Rightarrow> int"
  assumes "fold (\<lambda>x (i, m). if P x \<and> f x < m then (x, f x) else (i, m)) xs (i, m) = (i', m')"
  shows "m' \<le> m \<and> (\<forall>x \<in> set xs. P x \<longrightarrow> m' \<le> f x) \<and>
    ((i', m') = (i, m) \<and> (\<forall>x \<in> set xs. P x \<longrightarrow> m \<le> f x) \<or> i' \<in> set xs \<and> P i' \<and> m' = f i')"
  using assms
proof (induction xs arbitrary: i m)
  case (Cons x xs)
  show ?case
  proof (cases "P x \<and> f x < m")
    case True
    with Cons.prems Cons.IH[of x "f x"] show ?thesis by auto
  next
    case False
    with Cons.prems Cons.IH[of i m] show ?thesis by auto
  qed
qed simp

lemma fold_max:
  fixes f :: "'a \<Rightarrow> int"
  assumes "fold (\<lambda>x (i, m). if f x > m then (x, f x) else (i, m)) xs (i, m) = (i', m')"
  shows "m \<le> m' \<and> (\<forall>x \<in> set xs. f x \<le> m') \<and> ((i', m') = (i, m) \<or> m' = f i')"
  using assms
proof (induction xs arbitrary: i m)
  case (Cons x xs)
  show ?case
  proof (cases "f x > m")
    case True
    with Cons.prems Cons.IH[of x "f x"] show ?thesis by auto
  next
    case False
    with Cons.prems Cons.IH[of i m] show ?thesis by auto
  qed
qed simp

lemma min_spec:
  assumes "load g k \<le> NShards" "k \<in> set (mkeys g)" "k \<noteq> 0"
  shows "GetGIDWithMinimumShards g \<in> set (mkeys g)" "load g (GetGIDWithMinimumShards g) \<le> load g k"
proof -
  obtain i m where f: "fold (\<lambda>gid (index, minShards).
            if gid \<noteq> 0 \<and> int (load g gid) < minShards then (gid, int (load g gid)) else (index, minShards))
          (sort (mkeys g)) (-1, int NShards + 1) = (i, m)" by force
  have "i \<in> set (mkeys g) \<and> load g i \<le> load g k"
    using fold_min[OF f] assms by auto
  with f show "GetGIDWithMinimumShards g \<in> set (mkeys g)" "load g (GetGIDWithMinimumShards g) \<le> load g k"
    by (simp_all add: GetGIDWithMinimumShards_def)
qed

lemma max_spec:
  assumes "distributes g" "load g 0 = 0"
  shows "GetGIDWithMaximumShards g \<noteq> 0" "load g k \<le> load g (GetGIDWithMaximumShards g)"
proof -
  obtain i m where f: "fold (\<lambda>gid (index, maxShards).
      if int (load g gid) > maxShards then (gid, int (load g gid)) else (index, maxShards))
    (sort (mkeys g)) (-1, -1) = (i, m)" by force
  have fm: "\<forall>x \<in> set (mkeys g). int (load g x) \<le> m" "m = -1 \<or> m = int (load g i)"
    using fold_max[OF f] by auto
  have "0 < NShards" by (simp add: NShards_def)
  then obtain gid where gid: "int 0 \<in> set (mget [] g gid)" using distributes_mget[OF assms(1)] by blast
  then have ne: "mget [] g gid \<noteq> []" by auto
  then have "0 < load g gid" "gid \<in> set (mkeys g)" using mget_key[OF ne] by (simp_all add: load_def)
  with fm have m: "m = int (load g i)" "m > 0" by fastforce+
  have "load g k \<le> load g i"
  proof (cases "k \<in> set (mkeys g)")
    case True
    with fm(1) m show ?thesis by fastforce
  next
    case False
    then have "load g k = 0" using mget_key[of g k] by (cases "mget [] g k") (simp_all add: load_def)
    then show ?thesis by simp
  qed
  moreover have "GetGIDWithMaximumShards g = i" using f assms(2) by (simp add: GetGIDWithMaximumShards_def)
  moreover have "i \<noteq> 0" using m assms(2) by auto
  ultimately show "GetGIDWithMaximumShards g \<noteq> 0" "load g k \<le> load g (GetGIDWithMaximumShards g)" by simp_all
qed

subsection \<open>The balancing loop\<close>

lemma moveShard_cases:
  assumes "moveShard s t g = Inr g'" "s \<noteq> t"
  obtains x xs where "mget [] g s = x # xs" "g' = mput s xs (mput t (mget [] g t @ [x]) g)"
  using assms by (cases "mget [] g s") (auto simp: moveShard_Inr)

lemma moveShard_distributes:
  assumes "moveShard s t g = Inr g'" "s \<noteq> t" "distributes g"
  shows "distributes g'"
proof -
  from assms(1,2) obtain x xs where x: "mget [] g s = x # xs" "g' = mput s xs (mput t (mget [] g t @ [x]) g)"
    by (rule moveShard_cases)
  let ?h = "mput t (mget [] g t @ [x]) g"
  have "mset (concat (map snd ?h)) = mset (concat (map snd g)) + {#x#}"
    using mset_concat_mput[of t "mget [] g t @ [x]" g] by simp
  moreover have "mset (concat (map snd g')) + {#x#} = mset (concat (map snd ?h))"
    using mset_concat_mput[of s xs ?h] x assms(2) by simp
  ultimately show ?thesis using assms(3) x(2) by (simp add: distributes_def)
qed

lemma moveShard_total: "0 < load g s \<Longrightarrow> \<exists>g'. moveShard s t g = Inr g'"
  by (auto simp: moveShard_Inr load_def)

definition members :: "table \<Rightarrow> int set" where
  "members g = set (mkeys g) - {0}"

lemma moveShard_keys:
  assumes "moveShard s t g = Inr g'" "s \<noteq> t" "t \<in> set (mkeys g)"
  shows "set (mkeys g') = set (mkeys g)"
proof -
  from assms(1,2) obtain x xs where x: "mget [] g s = x # xs" "g' = mput s xs (mput t (mget [] g t @ [x]) g)"
    by (rule moveShard_cases)
  with mget_key[of g s] assms(3) show ?thesis by auto
qed

text \<open>What one round of the loop does when some group can take shards.\<close>

lemma rebalance_round [consumes 2, case_names stop round]:
  assumes g: "distributes g" and k: "k \<in> members g"
  defines "s \<equiv> GetGIDWithMaximumShards g" and "t \<equiv> GetGIDWithMinimumShards g"
  obtains (stop) "s \<noteq> 0" "rebalance g = Inr g" "load g 0 = 0" "load g s \<le> load g t + 1"
  | (round) g' where "moveShard s t g = Inr g'" "rebalance g = rebalance g'" "s \<noteq> t" "t \<in> members g"
      "distributes g'" "members g' = members g" "load g 0 = 0 \<Longrightarrow> load g t + 1 < load g s"
proof (cases "s \<noteq> 0 \<and> int (load g s) - int (load g t) \<le> 1")
  case True
  then have 1: "s \<noteq> 0" "rebalance g = Inr g" "load g s \<le> load g t + 1"
    by (simp_all add: rebalance.simps[of g] Let_def s_def t_def)
  have "load g 0 = 0"
  proof (rule ccontr)
    assume "load g 0 \<noteq> 0"
    then have "s = 0" by (cases "map_of g 0") (auto simp: s_def GetGIDWithMaximumShards_def load_def mget_def)
    with 1 show False by simp
  qed
  with 1 stop show thesis by blast
next
  case False
  have t: "t \<in> members g" using min_spec(1)[OF load_le[OF g], of k] min_not_zero k by (simp add: members_def t_def)
  have gap: "load g t + 1 < load g s" if "load g 0 = 0"
    using False max_spec(1)[OF g that] by (simp add: s_def)
  have "0 < load g s"
  proof (cases "load g 0 = 0")
    case False
    then have "s = 0" by (cases "map_of g 0") (auto simp: s_def GetGIDWithMaximumShards_def load_def mget_def)
    with False show ?thesis by simp
  qed (use gap in simp)
  then obtain g' where g': "moveShard s t g = Inr g'" using moveShard_total by blast
  have st: "s \<noteq> t"
  proof
    assume "s = t"
    with False t show False by (simp add: members_def)
  qed
  have r: "rebalance g = rebalance g'"
    using False g' by (subst rebalance.simps) (auto simp: Let_def s_def t_def)
  have m: "members g' = members g"
    using moveShard_keys[OF g' st] t by (simp add: members_def)
  show thesis by (rule round[OF g' r st t moveShard_distributes[OF g' st g] m gap])
qed

lemma rebalance_ok:
  assumes "distributes g" "members g \<noteq> {}"
  shows "\<exists>g'. rebalance g = Inr g' \<and> distributes g' \<and> members g' = members g \<and> load g' 0 = 0 \<and>
    (\<forall>h \<in> members g. \<forall>k. load g' k \<le> load g' h + 1)"
  using assms
proof (induction g rule: rebalance.induct)
  case (1 g)
  from "1.prems"(2) obtain k where k: "k \<in> members g" by blast
  from "1.prems"(1) k show ?case
  proof (cases rule: rebalance_round)
    case stop
    have "load g j \<le> load g h + 1" if "h \<in> members g" for h j
      using max_spec(2)[OF "1.prems"(1) stop(3), of j] min_spec(2)[OF load_le[OF "1.prems"(1)], of h] that stop(4)
      by (simp add: members_def)
    with stop "1.prems" show ?thesis by blast
  next
    case (round g')
    have "\<not> (GetGIDWithMaximumShards g \<noteq> 0 \<and>
        int (load g (GetGIDWithMaximumShards g)) - int (load g (GetGIDWithMinimumShards g)) \<le> 1)"
    proof
      assume a: "GetGIDWithMaximumShards g \<noteq> 0 \<and>
        int (load g (GetGIDWithMaximumShards g)) - int (load g (GetGIDWithMinimumShards g)) \<le> 1"
      then have "load g 0 = 0"
        by (cases "map_of g 0") (auto simp: GetGIDWithMaximumShards_def load_def mget_def split: if_splits)
      with round(7) a show False by simp
    qed
    from "1.IH"[OF refl refl this round(1,5)] round "1.prems"(2) show ?thesis by simp
  qed
qed

text \<open>Groups that are within one of every other group only give shards away.\<close>

lemma rebalance_keeps:
  assumes "distributes g" "members g \<noteq> {}" "load g 0 = 0" "rebalance g = Inr g'"
    and "o1 \<in> members g" "\<forall>k. load g k \<le> load g o1 + 1"
  shows "set (mget [] g' o1) \<subseteq> set (mget [] g o1)"
  using assms
proof (induction g rule: rebalance.induct)
  case (1 g)
  from "1.prems"(2) obtain k where k: "k \<in> members g" by blast
  let ?s = "GetGIDWithMaximumShards g" and ?t = "GetGIDWithMinimumShards g"
  from "1.prems"(1) k show ?case
  proof (cases rule: rebalance_round)
    case stop
    with "1.prems"(4) show ?thesis by simp
  next
    case (round g1)
    have s0: "?s \<noteq> 0" by (rule max_spec(1)[OF "1.prems"(1,3)])
    have gap: "load g ?t + 1 < load g ?s" by (rule round(7)[OF "1.prems"(3)])
    with "1.prems"(6) have to: "?t \<noteq> o1" by (meson leD)
    from round(1,3) obtain x xs where x: "mget [] g ?s = x # xs" "g1 = mput ?s xs (mput ?t (mget [] g ?t @ [x]) g)"
      by (rule moveShard_cases)
    have l: "load g1 j = (if j = ?s then load g j - 1 else if j = ?t then load g j + 1 else load g j)" for j
      using x round(3) by (simp add: load_def[of g])
    have "load g1 j \<le> load g1 o1 + 1" for j
    proof -
      have "load g j \<le> load g ?s" "load g j \<le> load g o1 + 1" "load g ?s \<le> load g o1 + 1"
        using max_spec(2)[OF "1.prems"(1,3), of j] "1.prems"(6) by auto
      with gap to show ?thesis unfolding l by auto
    qed
    moreover have "load g1 0 = 0" using moveShard_zero_kept[OF round(1) s0 min_not_zero] "1.prems"(3) by simp
    ultimately have "set (mget [] g' o1) \<subseteq> set (mget [] g1 o1)"
      using "1.IH"[OF refl refl _ round(1,5)] round(2,6) "1.prems"(2,4,5) gap by simp
    also have "\<dots> \<subseteq> set (mget [] g o1)" using x to by auto
    finally show ?thesis .
  qed
qed

subsection \<open>Tables of configurations\<close>

lemma fold_put_wf: "wf_map g \<Longrightarrow> wf_map (fold (\<lambda>gid. mput gid []) ks g)"
  by (induction ks arbitrary: g) auto

lemma fold_put_keys: "fst ` set (fold (\<lambda>gid. mput gid []) ks g) = fst ` set g \<union> set ks"
  by (induction ks arbitrary: g) auto

lemma fold_put_empty: "(\<And>k. mget [] g k = []) \<Longrightarrow> mget [] (fold (\<lambda>gid. mput gid []) ks g) k = []"
  by (induction ks arbitrary: g) auto

lemma empty_concat:
  assumes "wf_map g" "\<And>k. mget [] g k = []"
  shows "concat (map snd g) = []"
proof -
  have "v = []" if "(k, v) \<in> set g" for k v
    using mget_mem[OF assms(1) that, of "[]"] assms(2)[of k] by simp
  then show ?thesis by force
qed

lemma mput_fresh: "k \<notin> fst ` set m \<Longrightarrow> mput k v m = m @ [(k, v)]"
  by (induction m) auto

lemma fold_shards:
  fixes ps :: "(int \<times> int) list"
  defines "add \<equiv> \<lambda>ps. fold (\<lambda>(shard, gid) g. mput gid (mget [] g gid @ [shard]) g) ps"
  shows "wf_map g \<Longrightarrow> wf_map (add ps g)"
    and "fst ` set (add ps g) = fst ` set g \<union> snd ` set ps"
    and "mget [] (add ps g) k = mget [] g k @ map fst (filter (\<lambda>p. snd p = k) ps)"
    and "mset (concat (map snd (add ps g))) = mset (concat (map snd g)) + mset (map fst ps)"
proof (induction ps arbitrary: g)
  case (Cons p ps)
  obtain s gid where p: "p = (s, gid)" by force
  have step: "add (p # ps) g = add ps (mput gid (mget [] g gid @ [s]) g)" for g by (simp add: add_def p)
  { case (1 g) then show ?case unfolding step by (intro Cons.IH(1)) simp }
  { case (2 g) show ?case unfolding step Cons.IH(2) by (auto simp: p) }
  { case (3 g) show ?case unfolding step Cons.IH(3) by (auto simp: p) }
  { case (4 g)
    let ?g = "mput gid (mget [] g gid @ [s]) g"
    have "mset (concat (map snd ?g)) = mset (concat (map snd g)) + {#s#}"
      using mset_concat_mput[of gid "mget [] g gid @ [s]" g] by simp
    then show ?case unfolding step Cons.IH(4) by (simp add: p) }
qed (simp_all add: add_def)

lemma Group2Shards_distributes:
  assumes "length (cfShards c) = NShards"
  shows "distributes (Group2Shards c)"
proof -
  let ?g0 = "fold (\<lambda>gid. mput gid []) (mkeys (cfGroups c)) [] :: table"
  have g0: "wf_map ?g0" "concat (map snd ?g0) = []"
    using fold_put_wf[OF wf_map_Nil] empty_concat[OF fold_put_wf[OF wf_map_Nil] fold_put_empty] by auto
  have z: "map fst (zip (map int [0..<length (cfShards c)]) (cfShards c)) = all_shards"
    using assms by (simp add: all_shards_def)
  show ?thesis
    unfolding distributes_def Group2Shards_def fold_shards(4) g0(2) z using fold_shards(1)[OF g0(1)] by simp
qed

lemma Group2Shards_keys:
  "fst ` set (Group2Shards c) = fst ` set (cfGroups c) \<union> set (cfShards c)"
proof -
  have "snd ` set (zip (map int [0..<length (cfShards c)]) (cfShards c)) = set (cfShards c)"
    by (metis length_map length_upt diff_zero map_snd_zip set_map)
  then show ?thesis unfolding Group2Shards_def fold_shards(2) fold_put_keys by simp
qed

lemma Group2Shards_mget:
  assumes "length (cfShards c) = NShards" "s < NShards"
  shows "int s \<in> set (mget [] (Group2Shards c) gid) \<longleftrightarrow> cfShards c ! s = gid"
proof -
  let ?ps = "zip (map int [0..<length (cfShards c)]) (cfShards c)"
  have m: "mget [] (Group2Shards c) gid = map fst (filter (\<lambda>p. snd p = gid) ?ps)"
    unfolding Group2Shards_def fold_shards(3) by (simp add: fold_put_empty)
  show ?thesis unfolding m using assms by (force simp: set_zip)
qed

lemma Group2Shards_load: "length (cfShards c) = NShards \<Longrightarrow> load (Group2Shards c) gid = owned c gid"
  using owned_load[OF Group2Shards_distributes, of c "cfShards c" gid] by (simp add: Group2Shards_mget owned_def)

lemma deepCopy_id [simp]: "wf_map m \<Longrightarrow> deepCopy m = m"
proof -
  have "wf_map (acc @ m) \<Longrightarrow> fold (\<lambda>(gid, servers). mput gid servers) m acc = acc @ m" for acc
  proof (induction m arbitrary: acc)
    case (Cons p m)
    obtain k v where p: "p = (k, v)" by force
    have "mput k v acc = acc @ [(k, v)]"
      using Cons.prems p by (intro mput_fresh) (simp add: wf_map_def)
    with Cons p show ?case by simp
  qed simp
  from this[of "[]"] show "wf_map m \<Longrightarrow> deepCopy m = m" by (simp add: deepCopy_def)
qed

lemma newConfig_last:
  "cf \<noteq> [] \<Longrightarrow> wf_map (cfGroups (last cf)) \<Longrightarrow>
   newConfig cf = Inr \<lparr>cfNum = int (length cf), cfShards = cfShards (last cf), cfGroups = cfGroups (last cf)\<rparr>"
  by (simp add: newConfig_def go_nth_last)

lemma joinGroups_props:
  shows "wf_map old \<Longrightarrow> wf_map (joinGroups groups old)"
    and "map_of (joinGroups groups old) k = (case map_of old k of Some v \<Rightarrow> Some v | None \<Rightarrow> map_of groups k)"
    and "fst ` set (joinGroups groups old) = fst ` set old \<union> fst ` set groups"
proof (induction groups arbitrary: old)
  case (Cons p groups)
  obtain gid sv where p: "p = (gid, sv)" by force
  have step: "joinGroups (p # groups) old =
      joinGroups groups (if map_of old gid = None then mput gid sv old else old)" for old
    by (simp add: joinGroups_def p)
  { case (1 old) then show ?case unfolding step by (intro Cons.IH(1)) simp }
  { case (2 old) show ?case unfolding step Cons.IH(2) by (auto simp: p split: option.splits) }
  { case (3 old) show ?case unfolding step Cons.IH(3) by (auto simp: p map_of_eq_None_iff) }
qed (simp_all add: joinGroups_def split: option.splits)

lemma wf_member: "map_of m k = Some v \<longleftrightarrow> (k, v) \<in> set m" if "wf_map m"
  using that by (simp add: wf_map_def)

lemma mkeys_nonempty: "set (mkeys m) \<noteq> {} \<longleftrightarrow> m \<noteq> []"
  by (cases m) auto

text \<open>The configuration a table gives.\<close>

lemma table_config:
  assumes d: "distributes g" and a: "length a = NShards"
    and gs: "wf_map gs" "gs \<noteq> []" "0 \<notin> set (mkeys gs)"
    and own: "\<And>k. 0 < load g k \<Longrightarrow> k \<in> set (mkeys gs)"
  obtains a' where "assignAll g a = Inr a'"
    "\<And>n. cf_valid \<lparr>cfNum = n, cfShards = a', cfGroups = gs\<rparr>"
    "\<And>n. (\<forall>h \<in> set (mkeys gs). \<forall>k \<in> set (mkeys gs). load g k \<le> load g h + 1) \<Longrightarrow>
       cf_balanced \<lparr>cfNum = n, cfShards = a', cfGroups = gs\<rparr>"
    "\<And>s gid. s < NShards \<Longrightarrow> a' ! s = gid \<longleftrightarrow> int s \<in> set (mget [] g gid)"
proof -
  obtain a' where a': "assignAll g a = Inr a'" "length a' = NShards"
    "\<And>s gid. s < NShards \<Longrightarrow> a' ! s = gid \<longleftrightarrow> int s \<in> set (mget [] g gid)"
    using assignAll_owner[OF d a] by blast
  have ld: "length (filter (\<lambda>x. x = k) a') = load g k" for k by (rule owned_load[OF d a'(2,3)])
  have "gid \<in> set (mkeys gs)" if "gid \<in> set a'" for gid
  proof (rule own)
    have "filter (\<lambda>x. x = gid) a' \<noteq> []" using that by (simp add: filter_empty_conv)
    then show "0 < load g gid" by (simp flip: ld)
  qed
  then have v: "cf_valid \<lparr>cfNum = n, cfShards = a', cfGroups = gs\<rparr>" for n
    using gs a'(2) by (simp add: cf_valid_def)
  show thesis
    by (rule that[OF a'(1) v _ a'(3)]) (simp_all add: cf_balanced_def owned_def ld)
qed

lemma cf_balancedD:
  "cf_balanced c \<Longrightarrow> g \<in> set (mkeys (cfGroups c)) \<Longrightarrow> h \<in> set (mkeys (cfGroups c)) \<Longrightarrow> owned c g \<le> owned c h + 1"
  unfolding cf_balanced_def by blast

subsection \<open>Join\<close>

lemma Join_spec:
  assumes cf: "cf \<noteq> []" "cf_valid (last cf)" and gr: "0 \<notin> set (mkeys groups)"
    and some: "cfGroups (last cf) \<noteq> [] \<or> groups \<noteq> []"
  shows "\<exists>c. cf_Join groups cf = Inr (cf @ [c], COK) \<and> cfNum c = int (length cf) \<and>
    cfGroups c = joinGroups groups (cfGroups (last cf)) \<and> cf_valid c \<and> cf_balanced c \<and>
    (cf_balanced (last cf) \<longrightarrow> (\<forall>s < NShards.
       cfShards c ! s = cfShards (last cf) ! s \<or> cfShards c ! s \<notin> set (mkeys (cfGroups (last cf)))))"
proof -
  define old gs where "old = last cf" and "gs = joinGroups groups (cfGroups old)"
  have old: "length (cfShards old) = NShards" "wf_map (cfGroups old)" "0 \<notin> fst ` set (cfGroups old)"
    "\<And>gid. gid \<in> set (cfShards old) \<Longrightarrow> gid \<in> fst ` set (cfGroups old) \<or> cfGroups old = [] \<and> gid = 0"
    using cf(2) by (auto simp: cf_valid_def old_def)
  have gs: "wf_map gs" "fst ` set gs = fst ` set (cfGroups old) \<union> fst ` set groups"
    using joinGroups_props(1)[OF old(2)] joinGroups_props(3) by (auto simp: gs_def)
  have ne: "gs \<noteq> []" using gs(2) some by (auto simp: old_def)
  have z: "0 \<notin> set (mkeys gs)" using gs(2) old(3) gr by simp
  define c1 where "c1 = \<lparr>cfNum = int (length cf), cfShards = cfShards old, cfGroups = gs\<rparr>"
  define g where "g = Group2Shards c1"
  have len: "length (cfShards c1) = NShards" using old(1) by (simp add: c1_def)
  have d: "distributes g" unfolding g_def by (rule Group2Shards_distributes[OF len])
  have "fst ` set g = fst ` set gs \<union> set (cfShards old)" by (simp add: g_def Group2Shards_keys c1_def)
  moreover have "gid \<in> fst ` set gs" if "gid \<in> set (cfShards old)" "gid \<noteq> 0" for gid
    using old(4)[OF that(1)] that(2) gs(2) by simp
  ultimately have mem: "members g = fst ` set gs" using z by (auto simp: members_def)
  have ld: "load g k = owned old k" for k
    using Group2Shards_load[OF len, of k] by (simp add: g_def owned_def c1_def)
  obtain g' where g': "rebalance g = Inr g'" "distributes g'" "members g' = members g" "load g' 0 = 0"
    "\<forall>h \<in> members g. \<forall>k. load g' k \<le> load g' h + 1"
    using rebalance_ok[OF d] mem ne mkeys_nonempty[of gs] by auto
  have own: "k \<in> set (mkeys gs)" if "0 < load g' k" for k
  proof -
    have "k \<noteq> 0" using that g'(4) by auto
    with that g'(3) mem mget_key[of g' k] show ?thesis by (auto simp: load_def members_def)
  qed
  obtain a where a: "assignAll g' (replicate NShards 0) = Inr a"
    "\<And>n. cf_valid \<lparr>cfNum = n, cfShards = a, cfGroups = gs\<rparr>"
    "\<And>n. (\<forall>h \<in> set (mkeys gs). \<forall>k \<in> set (mkeys gs). load g' k \<le> load g' h + 1) \<Longrightarrow>
       cf_balanced \<lparr>cfNum = n, cfShards = a, cfGroups = gs\<rparr>"
    "\<And>s gid. s < NShards \<Longrightarrow> a ! s = gid \<longleftrightarrow> int s \<in> set (mget [] g' gid)"
    using table_config[OF g'(2) length_replicate[of NShards 0] gs(1) ne z own] by auto
  let ?c = "\<lparr>cfNum = int (length cf), cfShards = a, cfGroups = gs\<rparr>"
  have join: "cf_Join groups cf = Inr (cf @ [?c], COK)"
    using newConfig_last[OF cf(1)] old(2) g'(1) a(1)
    by (simp add: cf_Join_def Let_def old_def[symmetric] gs_def[symmetric] g_def c1_def)
  have keep: "a ! s = cfShards old ! s" if bal: "cf_balanced old" and s: "s < NShards" and o1: "a ! s \<in> fst ` set (cfGroups old)" for s
  proof -
    have "cfGroups old \<noteq> []" using o1 by auto
    with old(4) have ow: "\<And>gid. gid \<in> set (cfShards old) \<Longrightarrow> gid \<in> fst ` set (cfGroups old)" by simp
    have "load g k \<le> load g (a ! s) + 1" for k
    proof (cases "k \<in> fst ` set (cfGroups old)")
      case True
      with bal o1 show ?thesis unfolding ld by (intro cf_balancedD) auto
    next
      case False
      with ow have "owned old k = 0" by (auto simp: owned_def filter_empty_conv)
      then show ?thesis by (simp add: ld)
    qed
    moreover have "load g 0 = 0" using ow old(3) by (auto simp: ld owned_def filter_empty_conv)
    moreover have "a ! s \<in> members g" using mem gs(2) o1 by simp
    ultimately have "set (mget [] g' (a ! s)) \<subseteq> set (mget [] g (a ! s))"
      using rebalance_keeps[OF d _ _ g'(1), of "a ! s"] by blast
    moreover have "int s \<in> set (mget [] g' (a ! s))" using a(4)[OF s, of "a ! s"] by simp
    ultimately show ?thesis using Group2Shards_mget[OF len s, of "a ! s"] by (auto simp: g_def c1_def)
  qed
  have "cf_balanced ?c" by (rule a(3)) (use g'(5) mem in auto)
  with join a(2) keep show ?thesis
    unfolding old_def[symmetric] gs_def[symmetric] by (intro exI[of _ ?c]) auto
qed

subsection \<open>Leave\<close>

lemma mset_concat_mdel:
  "wf_map g \<Longrightarrow> mset (concat (map snd (mdel k g))) + mset (mget [] g k) = mset (concat (map snd g))"
proof (induction g)
  case (Cons p g)
  obtain h v where p: "p = (h, v)" by force
  have wf: "wf_map g" "h \<notin> fst ` set g" using Cons.prems by (auto simp: wf_map_def p)
  show ?case
  proof (cases "h = k")
    case True
    then have "mdel k g = g" using wf(2) by (simp add: delete_id)
    with True show ?thesis by (simp add: p mget_def)
  next
    case False
    then have "mget [] (p # g) k = mget [] g k" "mdel k (p # g) = (h, v) # mdel k g" by (simp_all add: p mget_def)
    with Cons.IH[OF wf(1)] show ?thesis by (simp add: p ac_simps)
  qed
qed (simp add: mget_def)

lemma removeGroups_props:
  assumes "removeGroups gids (gs, g, os) = (gs', g', os')" "wf_map gs" "wf_map g"
  shows "wf_map gs' \<and> wf_map g' \<and>
    (\<forall>k. map_of gs' k = (if k \<in> set gids then None else map_of gs k)) \<and>
    (\<forall>k. map_of g' k = (if k \<in> set gids then None else map_of g k)) \<and>
    mset (concat (map snd g')) + mset os' = mset (concat (map snd g)) + mset os"
  using assms
proof (induction gids arbitrary: gs g os)
  case Nil
  then show ?case by (simp add: removeGroups_def)
next
  case (Cons gid gids)
  define gs1 where "gs1 = (if map_of gs gid \<noteq> None then mdel gid gs else gs)"
  define g1 os1 where "g1 = (if map_of g gid = None then g else mdel gid g)" and "os1 = os @ mget [] g gid"
  have "removeGroups (gid # gids) (gs, g, os) = removeGroups gids (gs1, g1, os1)"
    by (auto simp: removeGroups_def gs1_def g1_def os1_def Let_def mget_def split: option.splits)
  moreover have "wf_map gs1" "wf_map g1" using Cons.prems(2,3) by (simp_all add: gs1_def g1_def)
  ultimately have IH: "wf_map gs' \<and> wf_map g' \<and>
    (\<forall>k. map_of gs' k = (if k \<in> set gids then None else map_of gs1 k)) \<and>
    (\<forall>k. map_of g' k = (if k \<in> set gids then None else map_of g1 k)) \<and>
    mset (concat (map snd g')) + mset os' = mset (concat (map snd g1)) + mset os1"
    using Cons.IH[of gs1 g1 os1] Cons.prems(1) by simp
  have "mset (concat (map snd g1)) + mset os1 = mset (concat (map snd g)) + mset os"
  proof (cases "map_of g gid")
    case None
    then show ?thesis by (simp add: g1_def os1_def mget_def)
  next
    case (Some v)
    with mset_concat_mdel[OF Cons.prems(3), of gid] show ?thesis by (simp add: g1_def os1_def ac_simps)
  qed
  moreover have "map_of gs1 k = (if k = gid then None else map_of gs k)"
    "map_of g1 k = (if k = gid then None else map_of g k)" for k
    by (auto simp: gs1_def g1_def)
  ultimately show ?case using IH by auto
qed

lemma placeOrphans_ok:
  assumes "wf_map g" "mset (concat (map snd g)) + mset os = mset all_shards" "members g \<noteq> {}" "length a = NShards"
  shows "\<exists>g' a'. placeOrphans os (g, a) = Inr (g', a') \<and> distributes g' \<and> length a' = NShards \<and>
    fst ` set g' = fst ` set g \<and> (\<forall>k. set (mget [] g k) \<subseteq> set (mget [] g' k)) \<and>
    ((\<forall>h \<in> members g. \<forall>k \<in> members g. load g k \<le> load g h + 1) \<longrightarrow>
     (\<forall>h \<in> members g. \<forall>k \<in> members g. load g' k \<le> load g' h + 1))"
  using assms
proof (induction os arbitrary: g a)
  case Nil
  then show ?case by (simp add: distributes_def)
next
  case (Cons s os)
  define t where "t = GetGIDWithMinimumShards g"
  define g1 where "g1 = mput t (mget [] g t @ [s]) g"
  have "length (concat (map snd g)) \<le> NShards"
    using arg_cong[OF Cons.prems(2), of size] by (simp add: all_shards_def del: length_concat)
  then have le: "load g k \<le> NShards" for k using sum_lengths[of g k] unfolding load_def by (rule order_trans[rotated])
  have t: "t \<in> fst ` set g" "t \<noteq> 0" and least: "\<And>h. h \<in> members g \<Longrightarrow> load g t \<le> load g h"
    using min_spec[OF le] min_not_zero Cons.prems(3) by (auto simp: t_def members_def)
  have "s \<in># mset all_shards" unfolding Cons.prems(2)[symmetric] by simp
  then have s: "0 \<le> s" "s < int (length a)" by (auto simp: all_shards_def Cons.prems(4))
  have keys: "fst ` set g1 = fst ` set g" "members g1 = members g"
    using t(1) by (auto simp: g1_def members_def)
  have tot: "mset (concat (map snd g1)) + mset os = mset all_shards"
    using mset_concat_mput[of t "mget [] g t @ [s]" g] Cons.prems(2) by (simp add: g1_def)
  have step: "placeOrphans (s # os) (g, a) = placeOrphans os (g1, a[nat s := t])"
    using s by (simp add: Let_def go_set_in t_def g1_def)
  have bal: "load g1 k \<le> load g1 h + 1"
    if "\<forall>h \<in> members g. \<forall>k \<in> members g. load g k \<le> load g h + 1" "h \<in> members g" "k \<in> members g" for h k
    using that least[of h] by (auto simp: g1_def load_def le_Suc_eq)
  have sub: "set (mget [] g k) \<subseteq> set (mget [] g1 k)" for k by (auto simp: g1_def)
  have pre: "wf_map g1" "members g1 \<noteq> {}" "length (a[nat s := t]) = NShards"
    using Cons.prems(1,3,4) keys(2) by (simp_all add: g1_def)
  from Cons.IH[OF pre(1) tot pre(2,3), unfolded keys] obtain g' a' where
    "placeOrphans os (g1, a[nat s := t]) = Inr (g', a')" "distributes g'" "length a' = NShards"
    "fst ` set g' = fst ` set g" "\<forall>k. set (mget [] g1 k) \<subseteq> set (mget [] g' k)"
    "(\<forall>h \<in> members g. \<forall>k \<in> members g. load g1 k \<le> load g1 h + 1) \<longrightarrow>
     (\<forall>h \<in> members g. \<forall>k \<in> members g. load g' k \<le> load g' h + 1)"
    by blast
  moreover have "set (mget [] g k) \<subseteq> set (mget [] g' k)" for k using sub[of k] calculation(5) by blast
  ultimately show ?case using step bal by (intro exI[of _ g'] exI[of _ a']) simp
qed

lemma keys_map_of: "fst ` set m = {k. map_of m k \<noteq> None}"
  by (auto simp: map_of_eq_None_iff)

lemma load_map_of: "map_of g k = map_of h k \<Longrightarrow> load g k = load h k"
  by (simp add: load_def mget_def)

lemma Leave_spec:
  assumes cf: "cf \<noteq> []" "cf_valid (last cf)"
  shows "\<exists>c. cf_Leave gids cf = Inr (cf @ [c], COK) \<and> cfNum c = int (length cf) \<and>
    (\<forall>k. map_of (cfGroups c) k = (if k \<in> set gids then None else map_of (cfGroups (last cf)) k)) \<and>
    cf_valid c \<and> (cf_balanced (last cf) \<longrightarrow> cf_balanced c) \<and>
    (\<forall>s < NShards. cfShards (last cf) ! s \<notin> set gids \<longrightarrow> cfShards c ! s = cfShards (last cf) ! s)"
proof -
  define old g where "old = last cf" and "g = Group2Shards (last cf)"
  have old: "length (cfShards old) = NShards" "wf_map (cfGroups old)" "0 \<notin> fst ` set (cfGroups old)"
    "\<And>gid. gid \<in> set (cfShards old) \<Longrightarrow> gid \<in> fst ` set (cfGroups old) \<or> cfGroups old = [] \<and> gid = 0"
    using cf(2) by (auto simp: cf_valid_def old_def)
  have d: "distributes g" using Group2Shards_distributes[OF old(1)] by (simp add: g_def old_def)
  then have wf: "wf_map g" by (simp add: distributes_def)
  obtain gs g1 os where rm: "removeGroups gids (cfGroups old, g, []) = (gs, g1, os)" by (metis prod_cases3)
  from removeGroups_props[OF this old(2) wf] d have r: "wf_map gs" "wf_map g1"
    "\<And>k. map_of gs k = (if k \<in> set gids then None else map_of (cfGroups old) k)"
    "\<And>k. map_of g1 k = (if k \<in> set gids then None else map_of g k)"
    "mset (concat (map snd g1)) + mset os = mset all_shards"
    by (auto simp: distributes_def)
  have new: "newConfig cf = Inr \<lparr>cfNum = int (length cf), cfShards = cfShards old, cfGroups = cfGroups old\<rparr>"
    using newConfig_last[OF cf(1)] old(2) by (simp add: old_def)
  have g2: "Group2Shards \<lparr>cfNum = n, cfShards = cfShards old, cfGroups = cfGroups old\<rparr> = g" for n
    by (simp add: Group2Shards_def g_def old_def)
  show ?thesis
  proof (cases "gs = []")
    case True
    let ?c = "\<lparr>cfNum = int (length cf), cfShards = replicate NShards 0, cfGroups = []\<rparr>"
    have "cf_Leave gids cf = Inr (cf @ [?c], COK)"
      using new rm True by (simp add: cf_Leave_def leaveShards_def g2)
    moreover have "replicate NShards 0 ! s = cfShards old ! s" if "s < NShards" "cfShards old ! s \<notin> set gids" for s
      using old(4)[of "cfShards old ! s"] r(3)[of "cfShards old ! s"] that old(1) True
      by (auto simp: keys_map_of split: if_splits)
    moreover have "cf_valid ?c" "cf_balanced ?c" by (simp_all add: cf_valid_def cf_balanced_def)
    ultimately show ?thesis using r(3) True unfolding old_def[symmetric] by (intro exI[of _ ?c]) auto
  next
    case ne: False
    have one: "cfGroups old \<noteq> []"
    proof
      assume "cfGroups old = []"
      with r(3) have "map_of gs = Map.empty" by (intro ext) simp
      with ne show False by simp
    qed
    with old(4) have ow: "\<And>gid. gid \<in> set (cfShards old) \<Longrightarrow> gid \<in> fst ` set (cfGroups old)" by blast
    have "fst ` set g = fst ` set (cfGroups old)"
      using ow by (auto simp: g_def old_def Group2Shards_keys)
    then have k1: "fst ` set g1 = fst ` set gs"
      by (simp add: keys_map_of r(3,4) set_eq_iff)
    have z: "0 \<notin> fst ` set gs" using old(3) by (auto simp: keys_map_of r(3) split: if_splits)
    have m1: "members g1 = fst ` set gs" using k1 z by (auto simp: members_def)
    then have "members g1 \<noteq> {}" using ne by auto
    from placeOrphans_ok[OF r(2,5) this length_replicate[of NShards 0]] obtain g' a where
      p: "placeOrphans os (g1, replicate NShards 0) = Inr (g', a)" "distributes g'" "length a = NShards"
      "fst ` set g' = fst ` set g1" "\<forall>k. set (mget [] g1 k) \<subseteq> set (mget [] g' k)"
      "(\<forall>h \<in> members g1. \<forall>k \<in> members g1. load g1 k \<le> load g1 h + 1) \<longrightarrow>
       (\<forall>h \<in> members g1. \<forall>k \<in> members g1. load g' k \<le> load g' h + 1)"
      by blast
    have own: "k \<in> set (mkeys gs)" if "0 < load g' k" for k
      using that mget_key[of g' k] p(4) k1 by (simp add: load_def)
    have z': "0 \<notin> set (mkeys gs)" using z by simp
    obtain a' where a': "assignAll g' a = Inr a'"
      "\<And>n. cf_valid \<lparr>cfNum = n, cfShards = a', cfGroups = gs\<rparr>"
      "\<And>n. (\<forall>h \<in> set (mkeys gs). \<forall>k \<in> set (mkeys gs). load g' k \<le> load g' h + 1) \<Longrightarrow>
         cf_balanced \<lparr>cfNum = n, cfShards = a', cfGroups = gs\<rparr>"
      "\<And>s gid. s < NShards \<Longrightarrow> a' ! s = gid \<longleftrightarrow> int s \<in> set (mget [] g' gid)"
      using table_config[OF p(2,3) r(1) ne z' own] by auto
    let ?c = "\<lparr>cfNum = int (length cf), cfShards = a', cfGroups = gs\<rparr>"
    have "cf_Leave gids cf = Inr (cf @ [?c], COK)"
      using new rm ne p(1) a'(1) by (simp add: cf_Leave_def leaveShards_def g2)
    moreover have "a' ! s = cfShards old ! s" if "s < NShards" "cfShards old ! s \<notin> set gids" for s
    proof -
      have "int s \<in> set (mget [] g (cfShards old ! s))"
        using Group2Shards_mget[OF old(1) that(1)] by (simp add: g_def old_def)
      then have "int s \<in> set (mget [] g1 (cfShards old ! s))" using r(4) that(2) by (simp add: mget_def)
      with p(5) a'(4)[OF that(1)] show ?thesis by blast
    qed
    moreover have "cf_balanced ?c" if "cf_balanced old"
    proof (rule a'(3))
      have "load g1 k = owned old k" if "k \<in> members g1" for k
      proof -
        have "k \<notin> set gids" using that r(3)[of k] by (auto simp: m1 keys_map_of split: if_splits)
        then have "load g1 k = load g k" by (intro load_map_of) (simp add: r(4))
        then show ?thesis using Group2Shards_load[OF old(1)] by (simp add: g_def old_def)
      qed
      moreover have "members g1 \<subseteq> set (mkeys (cfGroups old))"
        unfolding m1 by (auto simp: keys_map_of r(3) split: if_splits)
      ultimately have "\<forall>h \<in> members g1. \<forall>k \<in> members g1. load g1 k \<le> load g1 h + 1"
        using cf_balancedD[OF that] by (simp add: subset_iff)
      with p(6) show "\<forall>h \<in> set (mkeys gs). \<forall>k \<in> set (mkeys gs). load g' k \<le> load g' h + 1"
        by (simp add: m1)
    qed
    ultimately show ?thesis using r(3) a'(2) unfolding old_def[symmetric] by (intro exI[of _ ?c]) auto
  qed
qed

subsection \<open>Independence of the iteration order\<close>

text \<open>Two lists that stand for the same Go map.\<close>

definition same_map :: "('k, 'v) gomap \<Rightarrow> ('k, 'v) gomap \<Rightarrow> bool" where
  "same_map m m' \<longleftrightarrow> wf_map m \<and> wf_map m' \<and> map_of m = map_of m'"

lemma same_map_refl: "wf_map m \<Longrightarrow> same_map m m"
  by (simp add: same_map_def)

lemma same_map_mput: "same_map m m' \<Longrightarrow> same_map (mput k v m) (mput k v m')"
  by (simp add: same_map_def)

lemma same_map_mdel: "same_map m m' \<Longrightarrow> same_map (mdel k m) (mdel k m')"
  by (simp add: same_map_def)

lemma same_map_mget: "same_map m m' \<Longrightarrow> mget z m k = mget z m' k"
  by (simp add: same_map_def mget_def)

lemma same_map_load: "same_map g h \<Longrightarrow> load g = load h"
  by (simp add: fun_eq_iff load_def same_map_mget)

lemma same_map_keys: "same_map m m' \<Longrightarrow> fst ` set m = fst ` set m'"
  by (simp add: same_map_def keys_map_of)

lemma same_map_sort: "same_map (m :: (int, 'v) gomap) m' \<Longrightarrow> sort (mkeys m) = sort (mkeys m')"
  using same_map_keys[of m m'] by (intro sorted_distinct_set_unique) (simp_all add: same_map_def wf_map_def)

lemma same_map_min: "same_map g h \<Longrightarrow> GetGIDWithMinimumShards g = GetGIDWithMinimumShards h"
proof -
  assume same: "same_map g h"
  show ?thesis unfolding GetGIDWithMinimumShards_def same_map_sort[OF same] same_map_load[OF same] ..
qed

lemma same_map_max: "same_map g h \<Longrightarrow> GetGIDWithMaximumShards g = GetGIDWithMaximumShards h"
proof -
  assume same: "same_map g h"
  then have "map_of g = map_of h" by (simp add: same_map_def)
  then show ?thesis unfolding GetGIDWithMaximumShards_def same_map_sort[OF same] same_map_load[OF same] by simp
qed

lemma moveShard_same:
  "same_map g h \<Longrightarrow> rel_sum (=) same_map (moveShard s t g) (moveShard s t h)"
  by (auto simp: moveShard_def same_map_mget[of g h] Let_def intro!: same_map_mput split: sum.splits)

lemma rebalance_same: "same_map g h \<Longrightarrow> rel_sum (=) same_map (rebalance g) (rebalance h)"
proof (induction g arbitrary: h rule: rebalance.induct)
  case (1 g)
  let ?s = "GetGIDWithMaximumShards g" and ?t = "GetGIDWithMinimumShards g"
  note eq = same_map_max[OF "1.prems"] same_map_min[OF "1.prems"] same_map_load[OF "1.prems"]
  show ?case
  proof (cases "?s \<noteq> 0 \<and> int (load g ?s) - int (load g ?t) \<le> 1")
    case True
    then have "rebalance g = Inr g" "rebalance h = Inr h"
      by (simp_all add: rebalance.simps[of g] rebalance.simps[of h] Let_def flip: eq)
    with "1.prems" show ?thesis by simp
  next
    case False
    then have r: "rebalance g = (case moveShard ?s ?t g of Inl e \<Rightarrow> Inl e | Inr g' \<Rightarrow> rebalance g')"
      "rebalance h = (case moveShard ?s ?t h of Inl e \<Rightarrow> Inl e | Inr g' \<Rightarrow> rebalance g')"
      by (subst rebalance.simps, auto simp: Let_def simp flip: eq)+
    have mv: "rel_sum (=) same_map (moveShard ?s ?t g) (moveShard ?s ?t h)" by (rule moveShard_same[OF "1.prems"])
    show ?thesis
    proof (cases "moveShard ?s ?t g")
      case (Inl e)
      with mv have "moveShard ?s ?t h = Inl e" by (cases "moveShard ?s ?t h") auto
      with Inl r show ?thesis by simp
    next
      case (Inr g')
      with mv obtain h' where h': "moveShard ?s ?t h = Inr h'" "same_map g' h'"
        by (cases "moveShard ?s ?t h") auto
      from "1.IH"[OF refl refl False Inr h'(2)] r Inr h'(1) show ?thesis by simp
    qed
  qed
qed

lemma removeGroups_same:
  assumes "same_map gs gs'" "same_map g g'"
  shows "rel_prod same_map (rel_prod same_map (=)) (removeGroups gids (gs, g, os)) (removeGroups gids (gs', g', os))"
  using assms
proof (induction gids arbitrary: gs gs' g g' os)
  case (Cons gid gids)
  have "map_of gs gid = map_of gs' gid" "map_of g gid = map_of g' gid"
    using Cons.prems by (simp_all add: same_map_def)
  with Cons show ?case
    by (auto simp: removeGroups_def Let_def same_map_mdel split: option.splits)
qed (simp add: removeGroups_def)

lemma placeOrphans_same:
  "same_map g g' \<Longrightarrow> rel_sum (=) (rel_prod same_map (=)) (placeOrphans os (g, a)) (placeOrphans os (g', a))"
proof (induction os arbitrary: g g' a)
  case (Cons s os)
  note eq = same_map_min[OF Cons.prems] same_map_mget[OF Cons.prems]
  show ?case
    by (cases "go_set a s (GetGIDWithMinimumShards g')")
      (simp_all add: Let_def eq Cons.IH same_map_mput[OF Cons.prems])
qed simp

lemma joinGroups_same:
  assumes "same_map gs gs'" "map_of groups = map_of groups'"
  shows "same_map (joinGroups groups gs) (joinGroups groups' gs')"
  using assms by (auto simp: same_map_def joinGroups_props fun_eq_iff split: option.splits)

lemma Group2Shards_same:
  assumes "cfShards c = cfShards c'" "same_map (cfGroups c) (cfGroups c')"
  shows "same_map (Group2Shards c) (Group2Shards c')"
proof -
  have wf: "wf_map (Group2Shards c)" for c
    unfolding Group2Shards_def by (intro fold_shards(1) fold_put_wf) simp
  have m: "mget [] (Group2Shards c) k = mget [] (Group2Shards c') k" for k
    using assms(1) by (simp add: Group2Shards_def fold_shards(3) fold_put_empty)
  have k: "map_of (Group2Shards c) k = None \<longleftrightarrow> map_of (Group2Shards c') k = None" for k
    using assms by (simp add: map_of_eq_None_iff Group2Shards_keys same_map_keys)
  have "map_of (Group2Shards c) k = map_of (Group2Shards c') k" for k
    using m[of k] k[of k] by (auto simp: mget_def split: option.splits)
  with wf show ?thesis by (auto simp: same_map_def)
qed

lemma rebalance_distributes: "rebalance g = Inr g' \<Longrightarrow> distributes g \<Longrightarrow> distributes g'"
proof (induction g rule: rebalance.induct)
  case (1 g)
  let ?s = "GetGIDWithMaximumShards g" and ?t = "GetGIDWithMinimumShards g"
  show ?case
  proof (cases "?s \<noteq> 0 \<and> int (load g ?s) - int (load g ?t) \<le> 1")
    case True
    with "1.prems" show ?thesis by (simp add: rebalance.simps[of g] Let_def)
  next
    case False
    with min_not_zero[of g] have st: "?s \<noteq> ?t" by auto
    have "(case moveShard ?s ?t g of Inl e \<Rightarrow> Inl e | Inr h \<Rightarrow> rebalance h) = Inr g'"
      using "1.prems"(1) False by (subst (asm) rebalance.simps) (auto simp: Let_def)
    then obtain h where h: "moveShard ?s ?t g = Inr h" "rebalance h = Inr g'" by (auto split: sum.splits)
    from "1.IH"[OF refl refl False h(1,2)] moveShard_distributes[OF h(1) st "1.prems"(2)] show ?thesis .
  qed
qed

lemma placeOrphans_total:
  "placeOrphans os (g, a) = Inr (g', a') \<Longrightarrow> wf_map g \<Longrightarrow>
   wf_map g' \<and> mset (concat (map snd g')) = mset (concat (map snd g)) + mset os \<and> length a' = length a"
proof (induction os arbitrary: g a)
  case (Cons s os)
  let ?t = "GetGIDWithMinimumShards g"
  let ?g = "mput ?t (mget [] g ?t @ [s]) g"
  from Cons.prems obtain b where b: "go_set a s ?t = Inr b" "placeOrphans os (?g, b) = Inr (g', a')"
    by (auto simp: Let_def split: sum.splits)
  have "mset (concat (map snd ?g)) = mset (concat (map snd g)) + {#s#}"
    using mset_concat_mput[of ?t "mget [] g ?t @ [s]" g] by simp
  with Cons.IH[OF b(2)] Cons.prems(2) b(1) show ?case by (auto simp: go_set_Inr)
qed simp

lemma same_map_distributes:
  assumes "same_map g h" "distributes g"
  shows "distributes h"
proof -
  have "set g = set h" using assms(1) wf_map_eq_set[of g h] by (simp add: same_map_def)
  moreover have "distinct g" "distinct h"
    using assms(1) by (simp_all add: same_map_def wf_map_def distinct_map)
  ultimately have "mset g = mset h" by (simp add: set_eq_iff_mset_eq_distinct)
  then have "mset (concat (map snd g)) = mset (concat (map snd h))"
    by (simp add: mset_concat flip: sum_mset_sum_list)
  with assms show ?thesis by (simp add: distributes_def same_map_def)
qed

lemma assignAll_same:
  assumes "same_map g h" "distributes g" "length a = NShards"
  shows "\<exists>b. assignAll g a = Inr b \<and> assignAll h a = Inr b \<and> length b = NShards"
proof -
  obtain b where b: "assignAll g a = Inr b" "length b = NShards"
    "\<And>s gid. s < NShards \<Longrightarrow> b ! s = gid \<longleftrightarrow> int s \<in> set (mget [] g gid)"
    using assignAll_owner[OF assms(2,3)] by blast
  obtain b' where b': "assignAll h a = Inr b'" "length b' = NShards"
    "\<And>s gid. s < NShards \<Longrightarrow> b' ! s = gid \<longleftrightarrow> int s \<in> set (mget [] h gid)"
    using assignAll_owner[OF same_map_distributes[OF assms(1,2)] assms(3)] by blast
  have "b = b'"
  proof (rule nth_equalityI)
    fix s assume "s < length b"
    with b(2) have s: "s < NShards" by simp
    from b(3)[OF s, of "b ! s"] b'(3)[OF s, of "b ! s"] same_map_mget[OF assms(1)]
    show "b ! s = b' ! s" by simp
  qed (simp add: b(2) b'(2))
  with b b' show ?thesis by blast
qed

text \<open>Two histories with the same configurations, whatever the order of their group maps.\<close>

definition same_config :: "Config \<Rightarrow> Config \<Rightarrow> bool" where
  "same_config c c' \<longleftrightarrow> cfNum c = cfNum c' \<and> cfShards c = cfShards c' \<and> length (cfShards c) = NShards \<and>
     same_map (cfGroups c) (cfGroups c')"

abbreviation same_history :: "Config list \<Rightarrow> Config list \<Rightarrow> bool" where
  "same_history \<equiv> list_all2 same_config"

lemma newConfig_same:
  assumes "same_history cf cf'" "cf \<noteq> []"
  obtains c c' where "newConfig cf = Inr c" "newConfig cf' = Inr c'" "same_config c c'"
proof -
  have ne: "cf' \<noteq> []" using assms by auto
  moreover have "same_config (last cf) (last cf')"
    using assms ne by (simp add: list_all2_conv_all_nth last_conv_nth)
  ultimately show thesis
    using that[OF newConfig_last[OF assms(2)] newConfig_last[OF ne]] list_all2_lengthD[OF assms(1)]
    by (auto simp: same_config_def same_map_def)
qed

lemma Join_same:
  assumes cf: "same_history cf cf'" "cf \<noteq> []" and groups: "map_of groups = map_of groups'"
  shows "rel_sum (=) (rel_prod same_history (=)) (cf_Join groups cf) (cf_Join groups' cf')"
proof -
  from cf obtain c c' where c: "newConfig cf = Inr c" "newConfig cf' = Inr c'" "same_config c c'"
    by (rule newConfig_same)
  define d d' where "d = c\<lparr>cfGroups := joinGroups groups (cfGroups c)\<rparr>"
    and "d' = c'\<lparr>cfGroups := joinGroups groups' (cfGroups c')\<rparr>"
  have dd: "same_map (cfGroups d) (cfGroups d')" "cfShards d = cfShards d'" "length (cfShards d) = NShards"
    "cfNum d = cfNum d'"
    using c(3) groups by (auto simp: same_config_def d_def d'_def joinGroups_same)
  note g = Group2Shards_same[OF dd(2,1)] Group2Shards_distributes[OF dd(3)]
  show ?thesis
  proof (cases "rebalance (Group2Shards d)")
    case (Inl e)
    with rebalance_same[OF g(1)] have "rebalance (Group2Shards d') = Inl e"
      by (cases "rebalance (Group2Shards d')") auto
    with Inl c(1,2) show ?thesis by (simp add: cf_Join_def Let_def d_def d'_def)
  next
    case (Inr h)
    with rebalance_same[OF g(1)] obtain h' where h: "rebalance (Group2Shards d') = Inr h'" "same_map h h'"
      by (cases "rebalance (Group2Shards d')") auto
    obtain a where a: "assignAll h (replicate NShards 0) = Inr a" "assignAll h' (replicate NShards 0) = Inr a"
      "length a = NShards"
      using assignAll_same[OF h(2) rebalance_distributes[OF Inr g(2)] length_replicate] by blast
    have "cf_Join groups cf = Inr (cf @ [d\<lparr>cfShards := a\<rparr>], COK)"
      "cf_Join groups' cf' = Inr (cf' @ [d'\<lparr>cfShards := a\<rparr>], COK)"
      using c(1,2) Inr h(1) a(1,2) by (simp_all add: cf_Join_def Let_def d_def d'_def)
    with cf(1) dd a(3) show ?thesis by (simp add: same_config_def list_all2_appendI)
  qed
qed

lemma leaveShards_same:
  assumes h: "same_map h h'" and tot: "mset (concat (map snd h)) + mset os = mset all_shards" "wf_map h"
    and len: "length gs = length gs'"
  shows "leaveShards gs h os = leaveShards gs' h' os \<and> (\<forall>a. leaveShards gs h os = Inr a \<longrightarrow> length a = NShards)"
proof (cases "placeOrphans os (h, replicate NShards 0)")
  case (Inl e)
  with placeOrphans_same[OF h, of os "replicate NShards 0"] have "placeOrphans os (h', replicate NShards 0) = Inl e"
    by (cases "placeOrphans os (h', replicate NShards 0)") auto
  with Inl len show ?thesis by (simp add: leaveShards_def)
next
  case (Inr p)
  obtain g a where p: "p = (g, a)" by force
  with Inr placeOrphans_same[OF h, of os "replicate NShards 0"] obtain g' where
    g': "placeOrphans os (h', replicate NShards 0) = Inr (g', a)" "same_map g g'"
    by (cases "placeOrphans os (h', replicate NShards 0)") auto
  from placeOrphans_total[OF Inr[unfolded p] tot(2)] tot(1) have "distributes g" "length a = NShards"
    by (simp_all add: distributes_def)
  from assignAll_same[OF g'(2) this] obtain b where "assignAll g a = Inr b" "assignAll g' a = Inr b" "length b = NShards"
    by blast
  with Inr p g'(1) len show ?thesis by (simp add: leaveShards_def)
qed

lemma Leave_same:
  assumes cf: "same_history cf cf'" "cf \<noteq> []"
  shows "rel_sum (=) (rel_prod same_history (=)) (cf_Leave gids cf) (cf_Leave gids cf')"
proof -
  from cf obtain c c' where c: "newConfig cf = Inr c" "newConfig cf' = Inr c'" "same_config c c'"
    by (rule newConfig_same)
  have cc: "same_map (cfGroups c) (cfGroups c')" "cfShards c = cfShards c'" "length (cfShards c) = NShards"
    "cfNum c = cfNum c'"
    using c(3) by (auto simp: same_config_def)
  note g = Group2Shards_same[OF cc(2,1)] Group2Shards_distributes[OF cc(3)]
  obtain gs h os where r: "removeGroups gids (cfGroups c, Group2Shards c, []) = (gs, h, os)" by (metis prod_cases3)
  obtain gs' h' where r': "removeGroups gids (cfGroups c', Group2Shards c', []) = (gs', h', os)"
    "same_map gs gs'" "same_map h h'"
    using removeGroups_same[OF cc(1) g(1), of gids "[]"] r by (auto simp: rel_prod_conv split: prod.splits)
  have tot: "mset (concat (map snd h)) + mset os = mset all_shards" "wf_map h"
    using removeGroups_props[OF r] cc(1) g by (auto simp: same_map_def distributes_def)
  have len: "length gs = length gs'"
    using same_map_keys[OF r'(2)] r'(2) by (metis distinct_card length_map same_map_def set_map wf_map_def)
  from leaveShards_same[OF r'(3) tot len] c(1,2) r r'(1,2) cc(4) cf(1) show ?thesis
    by (cases "leaveShards gs' h' os") (auto simp: cf_Leave_def same_config_def intro: list_all2_appendI)
qed

lemma Move_same:
  assumes cf: "same_history cf cf'" "cf \<noteq> []"
  shows "rel_sum (=) (rel_prod same_history (=)) (cf_Move s gid cf) (cf_Move s gid cf')"
proof -
  from cf obtain c c' where c: "newConfig cf = Inr c" "newConfig cf' = Inr c'" "same_config c c'"
    by (rule newConfig_same)
  with cf(1) show ?thesis
    by (auto simp: cf_Move_def same_config_def go_set_def intro: list_all2_appendI split: sum.splits)
qed

subsection \<open>Properties\<close>

definition demo_groups :: "(int, string list) gomap" where
  "demo_groups = [(7, [''a'', ''b'']), (3, [''c''])]"

definition demo_history :: "Config list" where
  "demo_history = [DefaultConfig, \<lparr>cfNum = 1, cfShards = [3, 3, 3, 3, 3, 7, 7, 7, 7, 7], cfGroups = demo_groups\<rparr>]"

lemma demo_history_valid:
  "demo_history \<noteq> []" "cf_valid (last demo_history)" "cf_balanced (last demo_history)"
  by (simp_all add: demo_history_def demo_groups_def cf_valid_def cf_balanced_def owned_def NShards_def wf_map_def)

lemma DefaultConfig_valid: "cf_valid DefaultConfig"
  by (simp add: DefaultConfig_def cf_valid_def)

text \<open>
  A careful administrator: groups have non-zero ids, the first \<open>Join\<close> brings a group, \<open>Leave\<close> leaves a group behind if there was one, and
  \<open>Move\<close> hands a shard to a group that has joined.
\<close>

inductive careful :: "Config list \<Rightarrow> bool" where
  start: "careful NewMemoryConfigStateMachine"
| Join: "careful cf \<Longrightarrow> 0 \<notin> set (mkeys groups) \<Longrightarrow> cfGroups (last cf) \<noteq> [] \<or> groups \<noteq> [] \<Longrightarrow> cf_Join groups cf = Inr (cf', e) \<Longrightarrow> careful cf'"
| Leave: "careful cf \<Longrightarrow> cf_Leave gids cf = Inr (cf', e) \<Longrightarrow> cfGroups (last cf) \<noteq> [] \<longrightarrow> cfGroups (last cf') \<noteq> [] \<Longrightarrow> careful cf'"
| Move: "careful cf \<Longrightarrow> gid \<in> set (mkeys (cfGroups (last cf))) \<Longrightarrow> cf_Move shard gid cf = Inr (cf', e) \<Longrightarrow> careful cf'"

definition kept :: "Config list \<Rightarrow> bool" where
  "kept cf \<longleftrightarrow> cf \<noteq> [] \<and> cf ! 0 = DefaultConfig \<and> (\<forall>n < length cf. cfNum (cf ! n) = int n \<and> cf_valid (cf ! n)) \<and>
     (\<forall>n. Suc n < length cf \<longrightarrow> cfGroups (cf ! n) \<noteq> [] \<longrightarrow> cfGroups (cf ! Suc n) \<noteq> [])"

lemma kept_snoc:
  assumes "kept cf" "cfNum c = int (length cf)" "cf_valid c" "cfGroups (last cf) \<noteq> [] \<longrightarrow> cfGroups c \<noteq> []"
  shows "kept (cf @ [c])"
proof -
  have l: "last cf = cf ! (length cf - 1)" "0 < length cf" using assms(1) by (simp_all add: kept_def last_conv_nth)
  have "cfGroups ((cf @ [c]) ! Suc n) \<noteq> []" if "Suc n < length (cf @ [c])" "cfGroups ((cf @ [c]) ! n) \<noteq> []" for n
  proof (cases "Suc n < length cf")
    case True
    with that assms(1) show ?thesis by (simp add: kept_def nth_append)
  next
    case False
    with that(1) have n: "length cf = Suc n" by simp
    have "cfGroups (last cf) \<noteq> []" using that(2) l(1) n by (simp add: nth_append)
    with assms(4) n show ?thesis by (simp add: nth_append)
  qed
  then show ?thesis using assms(1-3) by (auto simp: kept_def nth_append less_Suc_eq)
qed

lemma Move_spec:
  assumes "cf \<noteq> []" "cf_valid (last cf)" "gid \<in> set (mkeys (cfGroups (last cf)))" "cf_Move shard gid cf = Inr (cf', e)"
  shows "\<exists>c. cf' = cf @ [c] \<and> cfNum c = int (length cf) \<and> cf_valid c \<and> cfGroups c = cfGroups (last cf)"
proof -
  have v: "length (cfShards (last cf)) = NShards" "wf_map (cfGroups (last cf))" using assms(2) by (simp_all add: cf_valid_def)
  have ne: "cfGroups (last cf) \<noteq> []" using assms(3) by auto
  let ?c = "\<lparr>cfNum = int (length cf), cfShards = (cfShards (last cf))[nat shard := gid], cfGroups = cfGroups (last cf)\<rparr>"
  have "cf' = cf @ [?c]"
    using assms(1,4) v(2) by (auto simp: cf_Move_def newConfig_last go_set_def split: if_splits)
  moreover have "cf_valid ?c"
    using assms(2,3) v ne by (auto simp: cf_valid_def dest!: subsetD[OF set_update_subset_insert])
  ultimately show ?thesis by auto
qed

lemma careful_kept: "careful cf \<Longrightarrow> kept cf"
proof (induction rule: careful.induct)
  case start
  show ?case using DefaultConfig_valid by (simp add: kept_def NewMemoryConfigStateMachine_def DefaultConfig_def)
next
  case (Join cf groups cf' e)
  have cf: "cf \<noteq> []" "cf_valid (last cf)" using Join.IH by (auto simp: kept_def last_conv_nth)
  from Join_spec[OF cf Join.hyps(2,3)] Join.hyps(4) obtain c where c: "cf' = cf @ [c]" "cfNum c = int (length cf)"
    "cfGroups c = joinGroups groups (cfGroups (last cf))" "cf_valid c" by auto
  have "set (mkeys (cfGroups c)) \<noteq> {}" using Join.hyps(3) by (auto simp: c(3) joinGroups_props(3))
  then show ?case unfolding c(1) by (intro kept_snoc[OF Join.IH c(2,4)]) auto
next
  case (Leave cf gids cf' e)
  have cf: "cf \<noteq> []" "cf_valid (last cf)" using Leave.IH by (auto simp: kept_def last_conv_nth)
  from Leave_spec[OF cf, of gids] Leave.hyps(2) obtain c where c: "cf' = cf @ [c]" "cfNum c = int (length cf)" "cf_valid c" by auto
  show ?case unfolding c(1) by (rule kept_snoc[OF Leave.IH c(2,3)]) (use Leave.hyps(3) c(1) in simp)
next
  case (Move cf gid shard cf' e)
  have cf: "cf \<noteq> []" "cf_valid (last cf)" using Move.IH by (auto simp: kept_def last_conv_nth)
  from Move_spec[OF cf Move.hyps(2,3)] obtain c where c: "cf' = cf @ [c]" "cfNum c = int (length cf)" "cf_valid c"
    "cfGroups c = cfGroups (last cf)" by blast
  show ?case unfolding c(1) by (rule kept_snoc[OF Move.IH c(2,3)]) (simp add: c(4))
qed

lemma kept_owner:
  assumes "kept cf" "Suc n < length cf" "i < NShards" "cfShards (cf ! n) ! i \<noteq> 0"
  shows "cfShards (cf ! Suc n) ! i \<noteq> 0"
proof -
  have v: "cf_valid (cf ! n)" "cf_valid (cf ! Suc n)" using assms(1,2) by (simp_all add: kept_def)
  have "cfShards (cf ! n) ! i \<in> set (cfShards (cf ! n))" using v(1) assms(3) by (simp add: cf_valid_def)
  with v(1) assms(4) have "cfGroups (cf ! n) \<noteq> []" by (auto simp: cf_valid_def)
  then have ne: "cfGroups (cf ! Suc n) \<noteq> []" using assms(1,2) by (simp add: kept_def)
  have "cfShards (cf ! Suc n) ! i \<in> set (cfShards (cf ! Suc n))" using v(2) assms(3) by (simp add: cf_valid_def)
  with v(2) ne show ?thesis by (force simp: cf_valid_def)
qed

text \<open>C20: Joining groups ends and gives a configuration with the next number in which every shard is served by a
  group that was there or joins, no group serves two shards more than another, groups that were there keep
  their servers and the others get those of the request.\<close>

theorem Join_balances:
  assumes "cf \<noteq> []" "cf_valid (last cf)" "0 \<notin> set (mkeys groups)" "cfGroups (last cf) \<noteq> [] \<or> groups \<noteq> []"
  defines "K \<equiv> set (mkeys (cfGroups (last cf))) \<union> set (mkeys groups)"
  shows "\<exists>c. cf_Join groups cf = Inr (cf @ [c], COK) \<and> cfNum c = int (length cf) \<and>
    length (cfShards c) = NShards \<and> (\<forall>gid \<in> set (cfShards c). gid \<in> K) \<and>
    (\<forall>g \<in> K. \<forall>h \<in> K. owned c g \<le> owned c h + 1) \<and>
    (\<forall>k. map_of (cfGroups c) k =
       (case map_of (cfGroups (last cf)) k of Some servers \<Rightarrow> Some servers | None \<Rightarrow> map_of groups k))"
proof -
  from Join_spec[OF assms(1-4)] obtain c where c: "cf_Join groups cf = Inr (cf @ [c], COK)"
    "cfNum c = int (length cf)" "cfGroups c = joinGroups groups (cfGroups (last cf))" "cf_valid c" "cf_balanced c"
    by blast
  have K: "set (mkeys (cfGroups c)) = K" by (simp add: c(3) joinGroups_props(3) K_def)
  have "cfGroups c \<noteq> []" using K assms(4) by (auto simp: K_def)
  with c(4) have "length (cfShards c) = NShards" "\<forall>gid \<in> set (cfShards c). gid \<in> K"
    unfolding cf_valid_def K by auto
  moreover have "\<forall>g \<in> K. \<forall>h \<in> K. owned c g \<le> owned c h + 1" using c(5) unfolding cf_balanced_def K .
  ultimately show ?thesis using c(1-3) joinGroups_props(2) by (intro exI[of _ c]) simp
qed

theorem Join_balances_witness:
  "\<exists>c. cf_Join [(5, [''d''])] demo_history = Inr (demo_history @ [c], COK) \<and>
     (\<forall>g \<in> {3, 5, 7}. \<forall>h \<in> {3, 5, 7}. owned c g \<le> owned c h + 1)"
proof -
  have K: "set (mkeys (cfGroups (last demo_history))) \<union> set (mkeys [(5, [''d''])]) = {3, 5, 7}"
    by (auto simp: demo_history_def demo_groups_def)
  from Join_balances[OF demo_history_valid(1,2), of "[(5, [''d''])]", unfolded K] show ?thesis by auto
qed

text \<open>C21: When the load was balanced, joining groups moves shards only to groups that were not there.\<close>

theorem Join_moves_to_new:
  assumes "cf \<noteq> []" "cf_valid (last cf)" "cf_balanced (last cf)" "0 \<notin> set (mkeys groups)"
    "cfGroups (last cf) \<noteq> [] \<or> groups \<noteq> []" "s < NShards"
  shows "\<exists>c. cf_Join groups cf = Inr (cf @ [c], COK) \<and>
    (cfShards c ! s = cfShards (last cf) ! s \<or>
     cfShards c ! s \<in> set (mkeys groups) - set (mkeys (cfGroups (last cf))))"
proof -
  from Join_spec[OF assms(1,2,4,5)] assms(3,6) obtain c where c: "cf_Join groups cf = Inr (cf @ [c], COK)"
    "cfGroups c = joinGroups groups (cfGroups (last cf))" "cf_valid c"
    "cfShards c ! s = cfShards (last cf) ! s \<or> cfShards c ! s \<notin> set (mkeys (cfGroups (last cf)))"
    by blast
  have K: "set (mkeys (cfGroups c)) = set (mkeys (cfGroups (last cf))) \<union> set (mkeys groups)"
    by (simp add: c(2) joinGroups_props(3))
  with assms(5) have "cfGroups c \<noteq> []" by auto
  moreover have "cfShards c ! s \<in> set (cfShards c)" using c(3) assms(6) by (simp add: cf_valid_def)
  ultimately have "cfShards c ! s \<in> set (mkeys (cfGroups c))" using c(3) unfolding cf_valid_def by blast
  with K c(1,4) show ?thesis by (intro exI[of _ c]) auto
qed

theorem Join_moves_to_new_witness:
  "\<exists>c. cf_Join [(5, [''d''])] demo_history = Inr (demo_history @ [c], COK) \<and> cfShards c ! 9 \<in> {5, 7}"
  using Join_moves_to_new[OF demo_history_valid, of "[(5, [''d''])]" 9]
  by (auto simp: demo_history_def demo_groups_def NShards_def)

text \<open>C22: When groups leave, every shard is served by a remaining group (by group 0 when none remains), the shards of
  the remaining groups stay where they are, and a balanced load stays balanced.\<close>

theorem Leave_reassigns:
  assumes "cf \<noteq> []" "cf_valid (last cf)"
  shows "\<exists>c. cf_Leave gids cf = Inr (cf @ [c], COK) \<and> cfNum c = int (length cf) \<and>
    (\<forall>k. map_of (cfGroups c) k = (if k \<in> set gids then None else map_of (cfGroups (last cf)) k)) \<and>
    (\<forall>gid \<in> set (cfShards c). map_of (cfGroups c) gid \<noteq> None \<or> cfGroups c = [] \<and> gid = 0) \<and>
    (\<forall>s < NShards. cfShards (last cf) ! s \<notin> set gids \<longrightarrow> cfShards c ! s = cfShards (last cf) ! s) \<and>
    (cf_balanced (last cf) \<longrightarrow> cf_balanced c)"
proof -
  from Leave_spec[OF assms, of gids] obtain c where c: "cf_Leave gids cf = Inr (cf @ [c], COK)"
    "cfNum c = int (length cf)"
    "\<forall>k. map_of (cfGroups c) k = (if k \<in> set gids then None else map_of (cfGroups (last cf)) k)"
    "cf_valid c" "cf_balanced (last cf) \<longrightarrow> cf_balanced c"
    "\<forall>s < NShards. cfShards (last cf) ! s \<notin> set gids \<longrightarrow> cfShards c ! s = cfShards (last cf) ! s" by blast
  have "\<forall>gid \<in> set (cfShards c). map_of (cfGroups c) gid \<noteq> None \<or> cfGroups c = [] \<and> gid = 0"
    using c(4) by (auto simp: cf_valid_def map_of_eq_None_iff)
  with c show ?thesis by blast
qed

theorem Leave_reassigns_witness:
  "\<exists>c. cf_Leave [7] demo_history = Inr (demo_history @ [c], COK) \<and> cfShards c ! 0 = 3 \<and> cf_balanced c"
proof -
  from Leave_reassigns[OF demo_history_valid(1,2), of "[7]"] obtain c where
    "cf_Leave [7] demo_history = Inr (demo_history @ [c], COK)"
    "\<forall>s < NShards. cfShards (last demo_history) ! s \<notin> set [7] \<longrightarrow> cfShards c ! s = cfShards (last demo_history) ! s"
    "cf_balanced c"
    using demo_history_valid(3) by blast
  then show ?thesis by (auto simp: demo_history_def NShards_def)
qed

text \<open>A request to join no groups on a controller without groups is accepted and hands every shard to group -1,
  which has no servers.\<close>

lemma Join_nothing:
  "cf_Join [] NewMemoryConfigStateMachine =
     Inr ([DefaultConfig, \<lparr>cfNum = 1, cfShards = replicate NShards (-1), cfGroups = []\<rparr>], COK)"
  by code_simp

text \<open>\<open>Move\<close> accepts any group: the shard is handed to a group without servers when the group has not joined, and an
  index outside the array panics.\<close>

lemma Move_unchecked:
  assumes "cf \<noteq> []" "cf_valid (last cf)" "gid \<notin> set (mkeys (cfGroups (last cf)))" "gid \<noteq> 0"
  shows "if 0 \<le> shard \<and> shard < int NShards
    then \<exists>c. cf_Move shard gid cf = Inr (cf @ [c], COK) \<and> cfShards c ! nat shard = gid \<and>
           map_of (cfGroups c) gid = None \<and> \<not> cf_valid c
    else cf_Move shard gid cf = Inl IndexOutOfRange"
proof -
  have v: "length (cfShards (last cf)) = NShards" "wf_map (cfGroups (last cf))"
    using assms(2) by (simp_all add: cf_valid_def)
  show ?thesis
  proof (cases "0 \<le> shard \<and> shard < int NShards")
    case True
    then have "nat shard < NShards" by auto
    then have "(cfShards (last cf))[nat shard := gid] ! nat shard = gid"
      "gid \<in> set ((cfShards (last cf))[nat shard := gid])"
      using v(1) by (simp_all add: set_update_memI)
    with True assms v show ?thesis
      by (auto simp: cf_Move_def newConfig_last go_set_in cf_valid_def map_of_eq_None_iff intro: bexI[of _ gid])
  next
    case False
    with assms v show ?thesis by (auto simp: cf_Move_def newConfig_last go_set_def)
  qed
qed

end
