(* ===== verification/ShardCtrler.thy ===== *)
theory ShardCtrler
  imports ConfigSM Session RaftPeer
begin

text \<open>
  The shard controller: \<open>src/src/shardctrler/server.go\<close>, \<open>client.go\<close> and the message types of \<open>common.go\<close>.
  The controller replicates the configuration state machine of \<open>ConfigSM\<close> over a Raft peer.
  Each definition is one critical section of \<open>sc.mu\<close>. Channels are cells of capacity one in a
  store, since two waiting requests can hold the same channel.
\<close>

subsection \<open>Data\<close>

datatype OpType = OpJoin | OpLeave | OpMove | OpQuery

record CommandArgs =
  caServers :: "(int, string list) gomap"
  caGIDs :: "int list"
  caShard :: int
  caGID :: int
  caNum :: int
  caOp :: OpType
  caClientId :: int
  caCommandId :: int

record CommandReply =
  crErr :: CErr
  crConfig :: Config

text \<open>The zero value of \<open>Config\<close> has the same fields as \<open>DefaultConfig\<close>.\<close>

definition zero_reply :: CommandReply where
  "zero_reply = \<lparr>crErr = COK, crConfig = DefaultConfig\<rparr>"

record OperationContext =
  ocMaxAppliedCommandId :: int
  ocLastReply :: CommandReply

type_synonym last_ops = "(int, OperationContext) gomap"

record ShardCtrler =
  scRf :: "(CommandArgs, unit) Raft"
  scDead :: int
  scConfigs :: "Config list"
  scLastOperations :: last_ops
  scNotifyChans :: "(int, nat) gomap"
  scChans :: "CommandReply list list"

subsection \<open>The replicated state machine\<close>

definition isDuplicateRequest :: "int \<Rightarrow> int \<Rightarrow> last_ops \<Rightarrow> bool" where
  "isDuplicateRequest clientId commandId ops =
     (case map_of ops clientId of None \<Rightarrow> False | Some ctx \<Rightarrow> commandId \<le> ocMaxAppliedCommandId ctx)"

definition lastReply :: "int \<Rightarrow> last_ops \<Rightarrow> CommandReply" where
  "lastReply clientId ops = (case map_of ops clientId of None \<Rightarrow> zero_reply | Some ctx \<Rightarrow> ocLastReply ctx)"

definition applyLogToStateMachine :: "CommandArgs \<Rightarrow> Config list \<Rightarrow> (Config list \<times> CommandReply) res" where
  "applyLogToStateMachine cmd cf =
     (case caOp cmd of
        OpJoin \<Rightarrow> (case cf_Join (caServers cmd) cf of Inl e \<Rightarrow> Inl e | Inr (cf', err) \<Rightarrow> Inr (cf', zero_reply\<lparr>crErr := err\<rparr>))
      | OpLeave \<Rightarrow> (case cf_Leave (caGIDs cmd) cf of Inl e \<Rightarrow> Inl e | Inr (cf', err) \<Rightarrow> Inr (cf', zero_reply\<lparr>crErr := err\<rparr>))
      | OpMove \<Rightarrow> (case cf_Move (caShard cmd) (caGID cmd) cf of Inl e \<Rightarrow> Inl e | Inr (cf', err) \<Rightarrow> Inr (cf', zero_reply\<lparr>crErr := err\<rparr>))
      | OpQuery \<Rightarrow> (case cf_Query (caNum cmd) cf of Inl e \<Rightarrow> Inl e | Inr (c, err) \<Rightarrow> Inr (cf, \<lparr>crErr = err, crConfig = c\<rparr>)))"

text \<open>Lines 99 to 109 of \<open>applier\<close>.\<close>

definition applyCommand ::
  "CommandArgs \<Rightarrow> Config list \<times> last_ops \<Rightarrow> ((Config list \<times> last_ops) \<times> CommandReply) res" where
  "applyCommand cmd s =
     (case s of (cf, ops) \<Rightarrow>
      if caOp cmd \<noteq> OpQuery \<and> isDuplicateRequest (caClientId cmd) (caCommandId cmd) ops
      then Inr (s, lastReply (caClientId cmd) ops)
      else case applyLogToStateMachine cmd cf of
        Inl e \<Rightarrow> Inl e
      | Inr (cf', reply) \<Rightarrow>
          if caOp cmd \<noteq> OpQuery
          then Inr ((cf', mput (caClientId cmd)
                 \<lparr>ocMaxAppliedCommandId = caCommandId cmd, ocLastReply = reply\<rparr> ops), reply)
          else Inr ((cf', ops), reply))"

subsection \<open>Channels\<close>

definition getNotifyChan :: "int \<Rightarrow> ShardCtrler \<Rightarrow> ShardCtrler \<times> nat" where
  "getNotifyChan index sc =
     (case map_of (scNotifyChans sc) index of
        Some ch \<Rightarrow> (sc, ch)
      | None \<Rightarrow> (sc\<lparr>scChans := scChans sc @ [[]], scNotifyChans := mput index (length (scChans sc)) (scNotifyChans sc)\<rparr>,
                 length (scChans sc)))"

definition removeOutdatedNotifyChan :: "int \<Rightarrow> ShardCtrler \<Rightarrow> ShardCtrler" where
  "removeOutdatedNotifyChan index sc = sc\<lparr>scNotifyChans := mdel index (scNotifyChans sc)\<rparr>"

text \<open>Sending blocks, here \<open>None\<close>, when the cell is full; receiving when it is empty.\<close>

definition chan_send :: "nat \<Rightarrow> CommandReply \<Rightarrow> ShardCtrler \<Rightarrow> ShardCtrler option" where
  "chan_send ch v sc =
     (if length (scChans sc ! ch) < 1 then Some (sc\<lparr>scChans := (scChans sc)[ch := scChans sc ! ch @ [v]]\<rparr>) else None)"

definition chan_recv :: "nat \<Rightarrow> ShardCtrler \<Rightarrow> (CommandReply \<times> ShardCtrler) option" where
  "chan_recv ch sc =
     (case scChans sc ! ch of [] \<Rightarrow> None | v # vs \<Rightarrow> Some (v, sc\<lparr>scChans := (scChans sc)[ch := vs]\<rparr>))"

subsection \<open>Handlers\<close>

definition Command_duplicate :: "CommandArgs \<Rightarrow> ShardCtrler \<Rightarrow> CommandReply option" where
  "Command_duplicate args sc =
     (if caOp args \<noteq> OpQuery \<and> isDuplicateRequest (caClientId args) (caCommandId args) (scLastOperations sc)
      then Some (lastReply (caClientId args) (scLastOperations sc)) else None)"

text \<open>\<open>Start\<close> and the registration of a channel; \<open>Inl\<close> of the inner sum is the final reply.\<close>

definition Command_start ::
  "int \<Rightarrow> CommandArgs \<Rightarrow> ShardCtrler \<Rightarrow> (ShardCtrler \<times> (CommandReply + int)) res" where
  "Command_start now args sc =
     bindR (Start now (Some args) (scRf sc)) (\<lambda>(rf', index, _, isLeader).
       if \<not> isLeader then Inr (sc\<lparr>scRf := rf'\<rparr>, Inl (zero_reply\<lparr>crErr := CErrWrongLeader\<rparr>))
       else Inr (sc\<lparr>scRf := rf'\<rparr>, Inr index))"

text \<open>The \<open>select\<close>: \<open>timeout\<close> says which branch is taken; with the channel empty only the timer is ready.\<close>

definition Command_wait :: "bool \<Rightarrow> nat \<Rightarrow> ShardCtrler \<Rightarrow> ShardCtrler \<times> CommandReply" where
  "Command_wait timeout notifyChan sc =
     (case (if timeout then None else chan_recv notifyChan sc) of
        None \<Rightarrow> (sc, zero_reply\<lparr>crErr := CErrTimeout\<rparr>)
      | Some (result, sc') \<Rightarrow> (sc', result))"

text \<open>One message of \<open>applyCh\<close>; \<open>None\<close> is a goroutine blocked with the lock held.\<close>

definition applier :: "(CommandArgs, unit) ApplyMsg \<Rightarrow> ShardCtrler \<Rightarrow> ShardCtrler option res" where
  "applier message sc =
     (if amCommandValid message then
        (case amCommand message of
           None \<Rightarrow> Inl TypeAssertion
         | Some command \<Rightarrow>
            (case applyCommand command (scConfigs sc, scLastOperations sc) of
               Inl e \<Rightarrow> Inl e
             | Inr ((cf, ops), reply) \<Rightarrow>
                 let sc1 = sc\<lparr>scConfigs := cf, scLastOperations := ops\<rparr>; (term, isLeader) = GetState (scRf sc1) in
                 if isLeader \<and> amCommandTerm message = term
                 then (case getNotifyChan (amCommandIndex message) sc1 of (sc2, ch) \<Rightarrow> Inr (chan_send ch reply sc2))
                 else Inr (Some sc1)))
      else Inr (Some sc))"

definition sc_Kill :: "ShardCtrler \<Rightarrow> ShardCtrler" where
  "sc_Kill sc = sc\<lparr>scRf := Kill (scRf sc), scDead := 1\<rparr>"

definition sc_killed :: "ShardCtrler \<Rightarrow> bool" where
  "sc_killed sc \<longleftrightarrow> scDead sc = 1"

definition sc_StartServer :: "nat \<Rightarrow> int \<Rightarrow> (CommandArgs, unit) Persister \<Rightarrow> int \<Rightarrow> int \<Rightarrow> ShardCtrler" where
  "sc_StartServer servers i ps rnd now =
     \<lparr>scRf = Make servers i ps rnd now, scDead = 0, scConfigs = NewMemoryConfigStateMachine,
      scLastOperations = [], scNotifyChans = [], scChans = []\<rparr>"

subsection \<open>Clerk\<close>

record CtrlClerk =
  ccServers :: nat
  ccLeaderId :: int
  ccClientId :: int
  ccCommandId :: int

definition sc_MakeClerk :: "nat \<Rightarrow> int \<Rightarrow> CtrlClerk" where
  "sc_MakeClerk servers rnd = \<lparr>ccServers = servers, ccLeaderId = 0, ccClientId = rnd, ccCommandId = 0\<rparr>"

text \<open>The retry loop over attempts; \<open>env i\<close> is what a call to server \<open>i\<close> gives, \<open>None\<close> when it fails.\<close>

fun sc_clerk_loop :: "(int \<Rightarrow> CommandReply option) list \<Rightarrow> CtrlClerk \<Rightarrow> (CtrlClerk \<times> Config) option res" where
  "sc_clerk_loop [] ck = Inr None"
| "sc_clerk_loop (env # envs) ck =
     (if \<not> (0 \<le> ccLeaderId ck \<and> ccLeaderId ck < int (ccServers ck)) then Inl IndexOutOfRange
      else let retry = sc_clerk_loop envs (ck\<lparr>ccLeaderId := go_rem (ccLeaderId ck + 1) (int (ccServers ck))\<rparr>) in
        case env (ccLeaderId ck) of
          None \<Rightarrow> retry
        | Some reply \<Rightarrow>
            if crErr reply = CErrWrongLeader \<or> crErr reply = CErrTimeout then retry
            else Inr (Some (ck\<lparr>ccCommandId := ccCommandId ck + 1\<rparr>, crConfig reply)))"

definition sc_clerk_Command ::
  "(CommandArgs \<Rightarrow> int \<Rightarrow> CommandReply option) list \<Rightarrow> CommandArgs \<Rightarrow> CtrlClerk \<Rightarrow> (CtrlClerk \<times> Config) option res" where
  "sc_clerk_Command envs args ck =
     (let args' = args\<lparr>caClientId := ccClientId ck, caCommandId := ccCommandId ck\<rparr> in
      sc_clerk_loop (map (\<lambda>env. env args') envs) ck)"

definition zero_args :: "OpType \<Rightarrow> CommandArgs" where
  "zero_args op = \<lparr>caServers = [], caGIDs = [], caShard = 0, caGID = 0, caNum = 0, caOp = op, caClientId = 0, caCommandId = 0\<rparr>"

definition sc_clerk_Query ::
  "(CommandArgs \<Rightarrow> int \<Rightarrow> CommandReply option) list \<Rightarrow> int \<Rightarrow> CtrlClerk \<Rightarrow> (CtrlClerk \<times> Config) option res" where
  "sc_clerk_Query envs num ck = sc_clerk_Command envs ((zero_args OpQuery)\<lparr>caNum := num\<rparr>) ck"

definition sc_clerk_Join ::
  "(CommandArgs \<Rightarrow> int \<Rightarrow> CommandReply option) list \<Rightarrow> (int, string list) gomap \<Rightarrow> CtrlClerk
   \<Rightarrow> (CtrlClerk \<times> Config) option res" where
  "sc_clerk_Join envs servers ck = sc_clerk_Command envs ((zero_args OpJoin)\<lparr>caServers := servers\<rparr>) ck"

definition sc_clerk_Leave ::
  "(CommandArgs \<Rightarrow> int \<Rightarrow> CommandReply option) list \<Rightarrow> int list \<Rightarrow> CtrlClerk \<Rightarrow> (CtrlClerk \<times> Config) option res" where
  "sc_clerk_Leave envs gids ck = sc_clerk_Command envs ((zero_args OpLeave)\<lparr>caGIDs := gids\<rparr>) ck"

definition sc_clerk_Move ::
  "(CommandArgs \<Rightarrow> int \<Rightarrow> CommandReply option) list \<Rightarrow> int \<Rightarrow> int \<Rightarrow> CtrlClerk \<Rightarrow> (CtrlClerk \<times> Config) option res" where
  "sc_clerk_Move envs shard gid ck =
     sc_clerk_Command envs ((zero_args OpMove)\<lparr>caShard := shard, caGID := gid\<rparr>) ck"

subsection \<open>The session laws\<close>

text \<open>A controller that has panicked executes nothing more.\<close>

definition sc_exec ::
  "CommandArgs \<Rightarrow> (Config list \<times> last_ops) res \<Rightarrow> (Config list \<times> last_ops) res \<times> CommandReply res" where
  "sc_exec cmd s =
     (case s of Inl e \<Rightarrow> (Inl e, Inl e)
      | Inr st \<Rightarrow> (case applyCommand cmd st of Inl e \<Rightarrow> (Inl e, Inl e) | Inr (st', r) \<Rightarrow> (Inr st', Inr r)))"

definition sc_seen :: "(Config list \<times> last_ops) res \<Rightarrow> CommandArgs \<Rightarrow> bool" where
  "sc_seen s cmd =
     (case s of Inl _ \<Rightarrow> True
      | Inr (cf, ops) \<Rightarrow> caOp cmd = OpQuery \<or> isDuplicateRequest (caClientId cmd) (caCommandId cmd) ops)"

definition sc_ok :: "(Config list \<times> last_ops) res \<Rightarrow> bool" where
  "sc_ok s = (case s of Inl _ \<Rightarrow> True | Inr (cf, ops) \<Rightarrow> cf \<noteq> [])"

lemma applyLog_extends:
  "applyLogToStateMachine cmd cf = Inr (cf', r) \<Longrightarrow>
   (if caOp cmd = OpQuery then cf' = cf else \<exists>c. cf' = cf @ [c] \<and> r = zero_reply)"
  by (auto simp: applyLogToStateMachine_def cf_Join_def cf_Leave_def cf_Move_def cf_Query_def Let_def zero_reply_def
      split: OpType.splits sum.splits prod.splits if_splits)

lemma applyCommand_cases:
  assumes "applyCommand cmd (cf, ops) = Inr ((cf', ops'), r)"
  obtains (dup) "caOp cmd \<noteq> OpQuery" "isDuplicateRequest (caClientId cmd) (caCommandId cmd) ops" "cf' = cf" "ops' = ops"
      "r = lastReply (caClientId cmd) ops"
  | (query) "caOp cmd = OpQuery" "cf' = cf" "ops' = ops"
  | (update) c where "caOp cmd \<noteq> OpQuery" "\<not> isDuplicateRequest (caClientId cmd) (caCommandId cmd) ops"
      "applyLogToStateMachine cmd cf = Inr (cf', r)" "cf' = cf @ [c]" "r = zero_reply"
      "ops' = mput (caClientId cmd) \<lparr>ocMaxAppliedCommandId = caCommandId cmd, ocLastReply = r\<rparr> ops"
proof (cases "caOp cmd \<noteq> OpQuery \<and> isDuplicateRequest (caClientId cmd) (caCommandId cmd) ops")
  case True
  with assms have "cf' = cf" "ops' = ops" "r = lastReply (caClientId cmd) ops" by (auto simp: applyCommand_def)
  with True show thesis by (intro dup) simp_all
next
  case False
  with assms obtain q where "applyLogToStateMachine cmd cf = Inr q"
    by (cases "applyLogToStateMachine cmd cf") (simp_all add: applyCommand_def)
  moreover obtain cf1 r1 where "q = (cf1, r1)" by force
  ultimately have q: "applyLogToStateMachine cmd cf = Inr (cf1, r1)" by simp
  show thesis
  proof (cases "caOp cmd = OpQuery")
    case True
    with assms q applyLog_extends[OF q] have "cf' = cf" "ops' = ops" by (auto simp: applyCommand_def)
    with True show thesis by (intro query)
  next
    case upd: False
    with assms q False have e: "cf' = cf1" "r = r1"
      "ops' = mput (caClientId cmd) \<lparr>ocMaxAppliedCommandId = caCommandId cmd, ocLastReply = r1\<rparr> ops"
      by (auto simp: applyCommand_def)
    moreover from applyLog_extends[OF q] upd obtain c where "cf1 = cf @ [c]" "r1 = zero_reply" by auto
    ultimately show thesis using upd False q by (intro update[of c]) simp_all
  qed
qed

lemma query_Inr:
  assumes "caOp cmd = OpQuery" "cf \<noteq> []"
  shows "\<exists>r. applyCommand cmd (cf, ops) = Inr ((cf, ops), r)"
  using assms go_nth_last[of cf] by (auto simp: applyCommand_def applyLogToStateMachine_def cf_Query_def go_nth_in)

lemma sc_exec_dup:
  assumes "sc_ok s" "sc_seen s cmd"
  shows "fst (sc_exec cmd s) = s"
proof (cases s)
  case (Inr st)
  obtain cf ops where st: "st = (cf, ops)" by force
  show ?thesis
  proof (cases "caOp cmd = OpQuery")
    case True
    with query_Inr[of cmd cf ops] assms(1) Inr st show ?thesis by (auto simp: sc_exec_def sc_ok_def)
  next
    case False
    with assms(2) Inr st show ?thesis by (simp add: sc_exec_def sc_seen_def applyCommand_def)
  qed
qed (simp add: sc_exec_def)

lemma isDuplicateRequest_mput:
  "isDuplicateRequest k n (mput k' ctx ops) =
     (if k = k' then n \<le> ocMaxAppliedCommandId ctx else isDuplicateRequest k n ops)"
  by (simp add: isDuplicateRequest_def)

interpretation sc: session sc_exec sc_seen "\<lambda>s cmd. \<not> sc_seen s cmd" sc_ok
proof
  fix s op op'
  assume ok: "sc_ok s"
  show "sc_ok (fst (sc_exec op s))"
  proof (cases s)
    case (Inr st)
    obtain cf ops where st: "st = (cf, ops)" by force
    show ?thesis
    proof (cases "applyCommand op (cf, ops)")
      case r: (Inr p)
      obtain cf' ops' rep where p: "p = ((cf', ops'), rep)" by (metis prod.exhaust)
      from r[unfolded p] have "cf' \<noteq> []" using ok Inr st
        by (cases rule: applyCommand_cases) (auto simp: sc_ok_def)
      with r p Inr st show ?thesis by (simp add: sc_exec_def sc_ok_def)
    qed (simp add: sc_exec_def sc_ok_def Inr st)
  qed (simp add: sc_exec_def sc_ok_def)
  show "\<not> sc_seen s op \<Longrightarrow> sc_seen (fst (sc_exec op s)) op"
  proof (cases s)
    case (Inr st)
    obtain cf ops where st: "st = (cf, ops)" by force
    assume "\<not> sc_seen s op"
    with Inr st show ?thesis
      by (auto simp: sc_seen_def sc_exec_def applyCommand_def isDuplicateRequest_mput split: sum.splits prod.splits)
  qed (simp add: sc_exec_def sc_seen_def)
  show "sc_seen s op \<Longrightarrow> sc_seen (fst (sc_exec op' s)) op"
  proof (cases s)
    case (Inr st)
    obtain cf ops where st: "st = (cf, ops)" by force
    assume seen: "sc_seen s op"
    show ?thesis
    proof (cases "applyCommand op' (cf, ops)")
      case r: (Inr p)
      obtain cf' ops' rep where p: "p = ((cf', ops'), rep)" by (metis prod.exhaust)
      from r[unfolded p] have "caOp op = OpQuery \<or> isDuplicateRequest (caClientId op) (caCommandId op) ops'"
        using seen Inr st
        by (cases rule: applyCommand_cases)
          (auto simp: sc_seen_def isDuplicateRequest_def split: option.splits)
      with r p Inr st show ?thesis by (simp add: sc_exec_def sc_seen_def)
    qed (simp add: sc_exec_def sc_seen_def Inr st)
  qed (simp add: sc_exec_def sc_seen_def)
  show "sc_seen s op \<Longrightarrow> fst (sc_exec op s) = s" by (rule sc_exec_dup[OF ok])
qed

lemma sc_inorder: "sc.inorder s cmds"
  by (induction cmds arbitrary: s) auto

subsection \<open>Histories of configurations\<close>

fun sc_run :: "CommandArgs list \<Rightarrow> Config list \<times> last_ops \<Rightarrow> (Config list \<times> last_ops) res" where
  "sc_run [] s = Inr s"
| "sc_run (cmd # cmds) s = (case applyCommand cmd s of Inl e \<Rightarrow> Inl e | Inr (s', _) \<Rightarrow> sc_run cmds s')"

lemma sc_run_exec: "sc_run cmds s = run_ops sc_exec cmds (Inr s)"
proof -
  have dead: "run_ops sc_exec cmds (Inl e) = Inl e" for cmds e
    by (induction cmds) (simp_all add: sc_exec_def)
  show ?thesis
    by (induction cmds arbitrary: s) (auto simp: sc_exec_def dead split: sum.splits prod.splits)
qed

text \<open>A request that keeps configurations well formed when it is executed on history \<open>cf\<close>.\<close>

definition admissible :: "CommandArgs \<Rightarrow> Config list \<Rightarrow> bool" where
  "admissible cmd cf =
     (case caOp cmd of
        OpJoin \<Rightarrow> 0 \<notin> set (mkeys (caServers cmd)) \<and> (cfGroups (last cf) \<noteq> [] \<or> caServers cmd \<noteq> [])
      | OpMove \<Rightarrow> 0 \<le> caShard cmd \<and> caShard cmd < int NShards \<and> caGID cmd \<in> set (mkeys (cfGroups (last cf)))
      | _ \<Rightarrow> True)"

fun admissible_run :: "CommandArgs list \<Rightarrow> Config list \<times> last_ops \<Rightarrow> bool" where
  "admissible_run [] s = True"
| "admissible_run (cmd # cmds) s =
     (admissible cmd (fst s) \<and> (case applyCommand cmd s of Inl e \<Rightarrow> True | Inr (s', _) \<Rightarrow> admissible_run cmds s'))"

definition history_ok :: "Config list \<Rightarrow> bool" where
  "history_ok cf \<longleftrightarrow> cf \<noteq> [] \<and> list_all (\<lambda>i. cfNum (cf ! i) = int i \<and> cf_valid (cf ! i)) [0..<length cf]"

lemma history_ok_snoc:
  "history_ok cf \<Longrightarrow> cfNum c = int (length cf) \<Longrightarrow> cf_valid c \<Longrightarrow> history_ok (cf @ [c])"
  by (auto simp: history_ok_def list_all_iff nth_append)

lemma history_ok_last: "history_ok cf \<Longrightarrow> cf \<noteq> [] \<and> cf_valid (last cf)"
  by (simp add: history_ok_def list_all_iff last_conv_nth)

lemma Move_valid:
  assumes "cf \<noteq> []" "cf_valid (last cf)" "0 \<le> shard" "shard < int NShards" "gid \<in> set (mkeys (cfGroups (last cf)))"
  shows "\<exists>c. cf_Move shard gid cf = Inr (cf @ [c], COK) \<and> cfNum c = int (length cf) \<and> cf_valid c"
proof -
  have v: "length (cfShards (last cf)) = NShards" "wf_map (cfGroups (last cf))"
    using assms(2) by (simp_all add: cf_valid_def)
  have "set ((cfShards (last cf))[nat shard := gid]) \<subseteq> insert gid (set (cfShards (last cf)))"
    by (rule set_update_subset_insert)
  then have "cf_valid \<lparr>cfNum = int (length cf), cfShards = (cfShards (last cf))[nat shard := gid], cfGroups = cfGroups (last cf)\<rparr>"
    using assms(2,5) by (auto simp: cf_valid_def)
  then show ?thesis using assms v by (simp add: cf_Move_def newConfig_last go_set_in)
qed

lemma applyLog_ok:
  assumes "history_ok cf" "admissible cmd cf" "caOp cmd \<noteq> OpQuery"
  shows "\<exists>c. applyLogToStateMachine cmd cf = Inr (cf @ [c], zero_reply) \<and> history_ok (cf @ [c])"
proof -
  note l = history_ok_last[OF assms(1), THEN conjunct1] history_ok_last[OF assms(1), THEN conjunct2]
  have "\<exists>c. applyLogToStateMachine cmd cf = Inr (cf @ [c], zero_reply) \<and> cfNum c = int (length cf) \<and> cf_valid c"
  proof (cases "caOp cmd")
    case OpJoin
    with assms(2) Join_spec[OF l, of "caServers cmd"] show ?thesis
      by (auto simp: applyLogToStateMachine_def admissible_def zero_reply_def)
  next
    case OpLeave
    with Leave_spec[OF l, of "caGIDs cmd"] show ?thesis
      by (auto simp: applyLogToStateMachine_def zero_reply_def)
  next
    case OpMove
    with assms(2) Move_valid[OF l, of "caShard cmd" "caGID cmd"] show ?thesis
      by (auto simp: applyLogToStateMachine_def admissible_def zero_reply_def)
  qed (use assms(3) in simp)
  with assms(1) history_ok_snoc show ?thesis by blast
qed

lemma sc_run_ok:
  assumes "history_ok cf" "admissible_run cmds (cf, ops)"
  shows "\<exists>cf' ops'. sc_run cmds (cf, ops) = Inr (cf', ops') \<and> history_ok cf' \<and> take (length cf) cf' = cf"
  using assms
proof (induction cmds arbitrary: cf ops)
  case (Cons cmd cmds)
  from Cons.prems(2) have adm: "admissible cmd cf" by simp
  have "\<exists>cf1 ops1 r. applyCommand cmd (cf, ops) = Inr ((cf1, ops1), r) \<and> history_ok cf1 \<and> take (length cf) cf1 = cf \<and> length cf \<le> length cf1"
  proof (cases "caOp cmd = OpQuery")
    case True
    with query_Inr[of cmd cf ops] Cons.prems(1) show ?thesis by (auto simp: history_ok_def)
  next
    case False
    show ?thesis
    proof (cases "isDuplicateRequest (caClientId cmd) (caCommandId cmd) ops")
      case True
      with False Cons.prems(1) show ?thesis by (simp add: applyCommand_def)
    next
      case new: False
      from applyLog_ok[OF Cons.prems(1) adm False] obtain c where
        "applyLogToStateMachine cmd cf = Inr (cf @ [c], zero_reply)" "history_ok (cf @ [c])" by blast
      with False new show ?thesis by (simp add: applyCommand_def)
    qed
  qed
  then obtain cf1 ops1 r where a: "applyCommand cmd (cf, ops) = Inr ((cf1, ops1), r)" "history_ok cf1"
    "take (length cf) cf1 = cf" "length cf \<le> length cf1" by blast
  with Cons.prems(2) have "admissible_run cmds (cf1, ops1)" by simp
  from Cons.IH[OF a(2) this] obtain cf' ops' where i: "sc_run cmds (cf1, ops1) = Inr (cf', ops')"
    "history_ok cf'" "take (length cf1) cf' = cf1" by blast
  have "take (length cf) cf' = take (length cf) (take (length cf1) cf')" using a(4) by (simp add: min_def)
  with a i show ?case by simp
qed simp

text \<open>The same command with its map of servers in another order.\<close>

definition same_command :: "CommandArgs \<Rightarrow> CommandArgs \<Rightarrow> bool" where
  "same_command c c' \<longleftrightarrow> c'\<lparr>caServers := caServers c\<rparr> = c \<and> map_of (caServers c) = map_of (caServers c')"

lemma same_command_fields:
  "same_command c c' \<Longrightarrow> caOp c' = caOp c \<and> caClientId c' = caClientId c \<and> caCommandId c' = caCommandId c \<and>
     caGIDs c' = caGIDs c \<and> caShard c' = caShard c \<and> caGID c' = caGID c \<and> caNum c' = caNum c"
  by (cases c; cases c') (simp add: same_command_def)

lemma same_history_Nil: "same_history cf cf' \<Longrightarrow> cf = [] \<longleftrightarrow> cf' = []"
  by (cases cf; cases cf') auto

lemma applyCommand_same:
  assumes "same_history cf cf'" "cf \<noteq> []" "same_command c c'"
  shows "rel_sum (=) (\<lambda>((g, o1), _) ((g', o2), _). same_history g g' \<and> o1 = o2 \<and> g \<noteq> [])
    (applyCommand c (cf, ops)) (applyCommand c' (cf', ops))"
proof (cases "caOp c \<noteq> OpQuery \<and> isDuplicateRequest (caClientId c) (caCommandId c) ops")
  case True
  with assms same_command_fields[OF assms(3)] show ?thesis by (simp add: applyCommand_def)
next
  case False
  note f = same_command_fields[OF assms(3)]
  show ?thesis
  proof (cases "caOp c")
    case OpQuery
    moreover from query_Inr[OF this assms(2), of ops] obtain r where "applyCommand c (cf, ops) = Inr ((cf, ops), r)" by blast
    moreover from assms(1,2) same_history_Nil have "cf' \<noteq> []" by blast
    then obtain r' where "applyCommand c' (cf', ops) = Inr ((cf', ops), r')"
      using query_Inr[of c' cf' ops] OpQuery f by auto
    ultimately show ?thesis using assms by simp
  next
    case OpJoin
    have m: "map_of (caServers c) = map_of (caServers c')" using assms(3) by (simp add: same_command_def)
    from Join_same[OF assms(1,2) m] OpJoin f False show ?thesis
      by (cases "cf_Join (caServers c) cf"; cases "cf_Join (caServers c') cf'")
        (auto simp: applyCommand_def applyLogToStateMachine_def cf_Join_def[of _ cf] Let_def rel_prod_conv
          split: prod.splits sum.splits)
  next
    case OpLeave
    from Leave_same[OF assms(1,2), of "caGIDs c"] OpLeave f False show ?thesis
      by (cases "cf_Leave (caGIDs c) cf"; cases "cf_Leave (caGIDs c) cf'")
        (auto simp: applyCommand_def applyLogToStateMachine_def cf_Leave_def[of _ cf] rel_prod_conv
          split: prod.splits sum.splits)
  next
    case OpMove
    from Move_same[OF assms(1,2), of "caShard c" "caGID c"] OpMove f False show ?thesis
      by (cases "cf_Move (caShard c) (caGID c) cf"; cases "cf_Move (caShard c) (caGID c) cf'")
        (auto simp: applyCommand_def applyLogToStateMachine_def cf_Move_def[of _ _ cf] rel_prod_conv
          split: prod.splits sum.splits)
  qed
qed

lemma sc_run_same:
  assumes "list_all2 same_command cmds cmds'" "same_history cf cf'" "cf \<noteq> []"
  shows "rel_sum (=) (rel_prod same_history (=)) (sc_run cmds (cf, ops)) (sc_run cmds' (cf', ops))"
  using assms
proof (induction cmds cmds' arbitrary: cf cf' ops rule: list_all2_induct)
  case (Cons c cs c' cs')
  from applyCommand_same[OF Cons.prems Cons.hyps(1), of ops] Cons.IH show ?case
    by (cases "applyCommand c (cf, ops)"; cases "applyCommand c' (cf', ops)") (auto split: prod.splits)
qed simp

definition sc_skips :: "(int \<Rightarrow> CommandReply option) \<Rightarrow> int \<Rightarrow> bool" where
  "sc_skips env i = (case env i of None \<Rightarrow> True | Some r \<Rightarrow> crErr r = CErrWrongLeader \<or> crErr r = CErrTimeout)"

definition sc_final :: "(int \<Rightarrow> CommandReply option) \<Rightarrow> int \<Rightarrow> Config option" where
  "sc_final env i = (case env i of None \<Rightarrow> None | Some r \<Rightarrow> if crErr r = COK then Some (crConfig r) else None)"

interpretation sc_clerk: rotation sc_clerk_loop ccLeaderId "\<lambda>i ck. ck\<lparr>ccLeaderId := i\<rparr>" ccServers
  "\<lambda>ck. ck\<lparr>ccCommandId := ccCommandId ck + 1\<rparr>" sc_skips sc_final
  by unfold_locales (auto simp: sc_skips_def sc_final_def Let_def split: option.splits if_splits)

lemma sc_clerk_finds:
  assumes "0 \<le> ccLeaderId ck" "ccLeaderId ck < int (ccServers ck)" "0 \<le> l" "l < int (ccServers ck)"
    and "ccServers ck \<le> length envs"
    and "\<forall>env \<in> set envs. \<forall>args. env args l = Some \<lparr>crErr = COK, crConfig = c\<rparr> \<and> (\<forall>i. i \<noteq> l \<longrightarrow> sc_skips (env args) i)"
  shows "sc_clerk_Command envs args ck =
    Inr (Some (ck\<lparr>ccLeaderId := l, ccCommandId := ccCommandId ck + 1\<rparr>, c))"
proof -
  let ?args = "args\<lparr>caClientId := ccClientId ck, caCommandId := ccCommandId ck\<rparr>"
  have "sc_clerk_loop (map (\<lambda>env. env ?args) envs) ck =
      Inr (Some ((\<lambda>ck. ck\<lparr>ccCommandId := ccCommandId ck + 1\<rparr>) (ck\<lparr>ccLeaderId := l\<rparr>), c))"
    by (rule sc_clerk.finds) (use assms in \<open>auto simp: sc_final_def\<close>)
  then show ?thesis by (simp add: sc_clerk_Command_def Let_def)
qed

subsection \<open>Properties\<close>

definition demo_join :: "int \<Rightarrow> int \<Rightarrow> int \<Rightarrow> CommandArgs" where
  "demo_join gid client n =
     (zero_args OpJoin)\<lparr>caServers := [(gid, [''s''])], caClientId := client, caCommandId := n\<rparr>"

text \<open>Copies of a request in the log have no effect: a controller that executes a log ends like one that executes
  only the first occurrence of every request.\<close>

lemma sc_log_dedup:
  assumes "cf \<noteq> []"
  shows "sc_run (first_only cmds) (cf, ops) = sc_run cmds (cf, ops)"
  using sc.run_dedup[OF _ sc_inorder, of "Inr (cf, ops)" cmds] assms by (simp add: sc_run_exec sc_ok_def)

text \<open>C23: As long as every request names proper groups and \<open>Move\<close> a group that has joined, a new controller never
  panics, its configurations are numbered from 0 and well formed, and a configuration once made is never changed:
  a query for its number returns it after any further requests.\<close>

theorem sc_history_stable:
  assumes "admissible_run (cmds @ cmds') (scConfigs (sc_StartServer n i ps rnd now), [])"
  shows "\<exists>cf cf' ops ops'. sc_run cmds (scConfigs (sc_StartServer n i ps rnd now), []) = Inr (cf, ops) \<and>
    sc_run (cmds @ cmds') (scConfigs (sc_StartServer n i ps rnd now), []) = Inr (cf', ops') \<and> history_ok cf' \<and>
    (\<forall>k < length cf. cf_Query (int k) cf = Inr (cf ! k, COK) \<and> cf_Query (int k) cf' = Inr (cf ! k, COK))"
proof -
  let ?s = "(NewMemoryConfigStateMachine, []) :: Config list \<times> last_ops"
  have init: "history_ok NewMemoryConfigStateMachine"
    by (simp add: history_ok_def NewMemoryConfigStateMachine_def DefaultConfig_valid) (simp add: DefaultConfig_def)
  have run: "sc_run (cmds @ cmds') s = (case sc_run cmds s of Inl e \<Rightarrow> Inl e | Inr s' \<Rightarrow> sc_run cmds' s')" for s
    by (induction cmds arbitrary: s) (auto split: sum.splits)
  have adm: "admissible_run (cmds @ cmds') s \<longleftrightarrow> admissible_run cmds s \<and>
      (case sc_run cmds s of Inl e \<Rightarrow> True | Inr s' \<Rightarrow> admissible_run cmds' s')" for s
    by (induction cmds arbitrary: s) (auto split: sum.splits)
  have start: "scConfigs (sc_StartServer n i ps rnd now) = NewMemoryConfigStateMachine" by (simp add: sc_StartServer_def)
  from assms have a: "admissible_run cmds ?s" by (simp add: start adm)
  from sc_run_ok[OF init a] obtain cf ops where 1: "sc_run cmds ?s = Inr (cf, ops)" "history_ok cf" by blast
  with assms have "admissible_run cmds' (cf, ops)" by (simp add: start adm)
  from sc_run_ok[OF 1(2) this] obtain cf' ops' where 2: "sc_run cmds' (cf, ops) = Inr (cf', ops')" "history_ok cf'"
    "take (length cf) cf' = cf" by blast
  have "cf_Query (int k) cf = Inr (cf ! k, COK) \<and> cf_Query (int k) cf' = Inr (cf ! k, COK)" if "k < length cf" for k
  proof -
    have "k < length cf'" using that arg_cong[OF 2(3), of length] by simp
    moreover have "cf' ! k = cf ! k" using that 2(3) by (metis nth_take)
    ultimately show ?thesis using that by (simp add: cf_Query_def go_nth_of_nat)
  qed
  with 1 2 show ?thesis by (simp add: start run)
qed

theorem sc_history_stable_witness:
  "\<exists>cf cf' ops ops'. sc_run [demo_join 1 7 0] (NewMemoryConfigStateMachine, []) = Inr (cf, ops) \<and>
    sc_run [demo_join 1 7 0, zero_args OpQuery] (NewMemoryConfigStateMachine, []) = Inr (cf', ops') \<and> history_ok cf'"
proof -
  have "admissible_run ([demo_join 1 7 0] @ [zero_args OpQuery]) (scConfigs (sc_StartServer 3 0 MakePersister 0 0), [])"
    by (simp add: admissible_def demo_join_def zero_args_def sc_StartServer_def NewMemoryConfigStateMachine_def split: sum.splits)
  from sc_history_stable[OF this] show ?thesis by (auto simp: sc_StartServer_def)
qed

text \<open>C24: Replicas agree although Go iterates over maps in an arbitrary order: two controllers that execute the same
  requests, each with its own order of every map, end with the same configurations and the same memory of requests,
  or panic with the same error.\<close>

theorem sc_replicas_agree:
  assumes "list_all2 same_command cmds cmds'" "same_history cf cf'" "cf \<noteq> []"
  shows "rel_sum (=) (rel_prod same_history (=)) (sc_run cmds (cf, ops)) (sc_run cmds' (cf', ops))"
  by (rule sc_run_same[OF assms])

theorem sc_replicas_agree_witness:
  "rel_sum (=) (rel_prod same_history (=))
     (sc_run [(zero_args OpJoin)\<lparr>caServers := [(2, [''x'']), (1, [''y''])]\<rparr>] (NewMemoryConfigStateMachine, []))
     (sc_run [(zero_args OpJoin)\<lparr>caServers := [(1, [''y'']), (2, [''x''])]\<rparr>] (NewMemoryConfigStateMachine, []))"
  by (rule sc_replicas_agree)
    (auto simp: same_command_def zero_args_def NewMemoryConfigStateMachine_def same_config_def DefaultConfig_def same_map_refl)

text \<open>Two requests that the controller has put at the same log index, in two of its terms, wait on the same channel, so
  the one that reads first is answered with the reply to the command that was committed there, even when its own
  command was not.\<close>

lemma Command_shared_channel:
  assumes "map_of (scNotifyChans sc) index = None"
    and "getNotifyChan index sc = (sc1, ch1)" "getNotifyChan index sc1 = (sc2, ch2)"
    and "amCommandValid msg" "amCommand msg = Some cmd" "amCommandIndex msg = index"
    and "GetState (scRf sc) = (amCommandTerm msg, True)"
    and "applyCommand cmd (scConfigs sc, scLastOperations sc) = Inr (s, reply)"
  shows "ch1 = ch2 \<and> (\<exists>sc3. applier msg sc2 = Inr (Some sc3) \<and> snd (Command_wait False ch1 sc3) = reply)"
proof -
  have sc1: "ch1 = length (scChans sc)"
    "sc1 = sc\<lparr>scChans := scChans sc @ [[]], scNotifyChans := mput index (length (scChans sc)) (scNotifyChans sc)\<rparr>"
    using assms(1,2) by (auto simp: getNotifyChan_def)
  then have sc2: "ch2 = ch1" "sc2 = sc1" using assms(3) by (auto simp: getNotifyChan_def)
  obtain cf ops where s: "s = (cf, ops)" by force
  show ?thesis
    using assms(4-8) by (simp add: sc2 applier_def sc1 s Let_def getNotifyChan_def chan_send_def Command_wait_def chan_recv_def)
qed

definition demo_sc :: ShardCtrler where
  "demo_sc = (sc_StartServer 3 0 MakePersister 0 0)\<lparr>scRf := (Make 3 0 MakePersister 0 0)\<lparr>currentTerm := 3, state := Leader\<rparr>\<rparr>"

end
