(* ===== verification/ShardKV.thy ===== *)
theory ShardKV
  imports ShardCtrler
begin

text \<open>
  The sharded key/value service: \<open>src/src/shardkv/server.go\<close>, \<open>shard.go\<close>, \<open>common.go\<close> and \<open>client.go\<close>.
  A server of a group executes client operations, configuration changes, insertions of shards
  pulled from other groups and deletions, all taken from its Raft log. The fields that
  the log determines form the record \<open>ShardCore\<close>, which \<open>ShardKV\<close> extends with the Raft peer and the
  channels, so the functions that apply an entry work on both.
\<close>

subsection \<open>Data\<close>

datatype SErr = SOK | SErrNoKey | SErrWrongGroup | SErrWrongLeader | SErrOutDated | SErrTimeout | SErrNotReady

datatype ShardStatus = Serving | Pulling | BePulling | GCing

datatype OperationType = SGet | SPut | SAppend

record SCommandArgs =
  saKey :: string
  saValue :: string
  saOp :: OperationType
  saClientId :: int
  saCommandId :: int

record SCommandReply =
  srErr :: SErr
  srValue :: string

definition zero_sreply :: SCommandReply where
  "zero_sreply = \<lparr>srErr = SOK, srValue = ''''\<rparr>"

record SOperationContext =
  soMaxAppliedCommandId :: int
  soLastReply :: SCommandReply

type_synonym slast_ops = "(int, SOperationContext) gomap"

record ShardOperationArgs =
  shaConfigNum :: int
  shaShardIDs :: "int list"

record ShardOperationReply =
  shrErr :: SErr
  shrConfigNum :: int
  shrShards :: "(int, (string, string) gomap) gomap"
  shrLastOperations :: slast_ops

text \<open>\<open>Command\<close> with the dynamic type of its \<open>Data\<close>; the \<open>New...Command\<close> functions are its constructors.\<close>

datatype SCommand =
    Operation SCommandArgs
  | Configuration Config
  | InsertShards ShardOperationReply
  | DeleteShards ShardOperationArgs
  | EmptyShards

record Shard =
  shKV :: "(string, string) gomap"
  shStatus :: ShardStatus

definition NewShard :: Shard where
  "NewShard = \<lparr>shKV = [], shStatus = Serving\<rparr>"

definition shard_Get :: "string \<Rightarrow> Shard \<Rightarrow> string \<times> SErr" where
  "shard_Get key sh = (case map_of (shKV sh) key of Some value \<Rightarrow> (value, SOK) | None \<Rightarrow> ('''', SErrNoKey))"

definition shard_Put :: "string \<Rightarrow> string \<Rightarrow> Shard \<Rightarrow> Shard" where
  "shard_Put key value sh = sh\<lparr>shKV := mput key value (shKV sh)\<rparr>"

definition shard_Append :: "string \<Rightarrow> string \<Rightarrow> Shard \<Rightarrow> Shard" where
  "shard_Append key value sh = sh\<lparr>shKV := mput key (mget '''' (shKV sh) key @ value) (shKV sh)\<rparr>"

definition shard_deepCopy :: "Shard \<Rightarrow> (string, string) gomap" where
  "shard_deepCopy sh = fold (\<lambda>(k, v). mput k v) (shKV sh) []"

record ShardCore =
  svGid :: int
  svLastConfig :: Config
  svCurrentConfig :: Config
  svStateMachine :: "(int, Shard) gomap"
  svLastOperations :: slast_ops

definition key2shard :: "string \<Rightarrow> int" where
  "key2shard key = go_rem (case key of [] \<Rightarrow> 0 | c # _ \<Rightarrow> of_char c) (int NShards)"

subsection \<open>Applying an entry\<close>

definition skv_isDuplicate :: "int \<Rightarrow> int \<Rightarrow> slast_ops \<Rightarrow> bool" where
  "skv_isDuplicate clientId commandId ops =
     (case map_of ops clientId of None \<Rightarrow> False | Some ctx \<Rightarrow> commandId \<le> soMaxAppliedCommandId ctx)"

definition skv_lastReply :: "int \<Rightarrow> slast_ops \<Rightarrow> SCommandReply" where
  "skv_lastReply clientId ops = (case map_of ops clientId of None \<Rightarrow> zero_sreply | Some ctx \<Rightarrow> soLastReply ctx)"

text \<open>\<open>stateMachine[shardID]\<close> of an absent key is a nil pointer.\<close>

definition shardAt :: "int \<Rightarrow> 'a ShardCore_scheme \<Rightarrow> Shard res" where
  "shardAt shardID kv = (case map_of (svStateMachine kv) shardID of None \<Rightarrow> Inl NilDereference | Some sh \<Rightarrow> Inr sh)"

definition setShard :: "int \<Rightarrow> Shard \<Rightarrow> 'a ShardCore_scheme \<Rightarrow> 'a ShardCore_scheme" where
  "setShard shardID sh kv = kv\<lparr>svStateMachine := mput shardID sh (svStateMachine kv)\<rparr>"

definition canServe :: "int \<Rightarrow> 'a ShardCore_scheme \<Rightarrow> bool res" where
  "canServe shardID kv =
     (case go_nth (cfShards (svCurrentConfig kv)) shardID of Inl e \<Rightarrow> Inl e
      | Inr gid \<Rightarrow>
          if gid = svGid kv
          then (case shardAt shardID kv of Inl e \<Rightarrow> Inl e
                | Inr sh \<Rightarrow> Inr (shStatus sh = Serving \<or> shStatus sh = GCing))
          else Inr False)"

definition skv_applyLog ::
  "SCommandArgs \<Rightarrow> int \<Rightarrow> 'a ShardCore_scheme \<Rightarrow> ('a ShardCore_scheme \<times> SCommandReply) res" where
  "skv_applyLog operation shardID kv =
     (case shardAt shardID kv of Inl e \<Rightarrow> Inl e
      | Inr sh \<Rightarrow>
        (case saOp operation of
           SGet \<Rightarrow> (case shard_Get (saKey operation) sh of (value, err) \<Rightarrow> Inr (kv, \<lparr>srErr = err, srValue = value\<rparr>))
         | SPut \<Rightarrow> Inr (setShard shardID (shard_Put (saKey operation) (saValue operation) sh) kv, zero_sreply)
         | SAppend \<Rightarrow> Inr (setShard shardID (shard_Append (saKey operation) (saValue operation) sh) kv, zero_sreply)))"

definition applyOperation :: "SCommandArgs \<Rightarrow> 'a ShardCore_scheme \<Rightarrow> ('a ShardCore_scheme \<times> SCommandReply) res" where
  "applyOperation operation kv =
     (case canServe (key2shard (saKey operation)) kv of Inl e \<Rightarrow> Inl e
      | Inr ok \<Rightarrow>
          if \<not> ok then Inr (kv, zero_sreply\<lparr>srErr := SErrWrongGroup\<rparr>)
          else if saOp operation \<noteq> SGet \<and> skv_isDuplicate (saClientId operation) (saCommandId operation) (svLastOperations kv)
          then Inr (kv, skv_lastReply (saClientId operation) (svLastOperations kv))
          else (case skv_applyLog operation (key2shard (saKey operation)) kv of Inl e \<Rightarrow> Inl e
            | Inr (kv', reply) \<Rightarrow>
                if saOp operation \<noteq> SGet
                then Inr (kv'\<lparr>svLastOperations := mput (saClientId operation)
                       \<lparr>soMaxAppliedCommandId = saCommandId operation, soLastReply = reply\<rparr> (svLastOperations kv')\<rparr>, reply)
                else Inr (kv', reply)))"

text \<open>The loop over \<open>shardID < NShards\<close>, called with the list of identifiers.\<close>

fun updateShardStatus :: "int list \<Rightarrow> Config \<Rightarrow> 'a ShardCore_scheme \<Rightarrow> 'a ShardCore_scheme res" where
  "updateShardStatus [] nextConfig kv = Inr kv"
| "updateShardStatus (shardID # ids) nextConfig kv =
     (case go_nth (cfShards (svCurrentConfig kv)) shardID of Inl e \<Rightarrow> Inl e
      | Inr cur \<Rightarrow>
      (case go_nth (cfShards nextConfig) shardID of Inl e \<Rightarrow> Inl e
      | Inr nxt \<Rightarrow>
          let new = (if cur \<noteq> svGid kv \<and> nxt = svGid kv \<and> cur \<noteq> 0 then Some Pulling
                     else if cur = svGid kv \<and> nxt \<noteq> svGid kv \<and> nxt \<noteq> 0 then Some BePulling else None) in
          (case new of None \<Rightarrow> updateShardStatus ids nextConfig kv
           | Some st \<Rightarrow>
              (case shardAt shardID kv of Inl e \<Rightarrow> Inl e
               | Inr sh \<Rightarrow> updateShardStatus ids nextConfig (setShard shardID (sh\<lparr>shStatus := st\<rparr>) kv)))))"

definition applyConfiguration :: "Config \<Rightarrow> 'a ShardCore_scheme \<Rightarrow> ('a ShardCore_scheme \<times> SCommandReply) res" where
  "applyConfiguration nextConfig kv =
     (if cfNum nextConfig = cfNum (svCurrentConfig kv) + 1
      then (case updateShardStatus (map int [0..<NShards]) nextConfig kv of Inl e \<Rightarrow> Inl e
            | Inr kv' \<Rightarrow> Inr (kv'\<lparr>svLastConfig := svCurrentConfig kv', svCurrentConfig := nextConfig\<rparr>, zero_sreply))
      else Inr (kv, zero_sreply\<lparr>srErr := SErrOutDated\<rparr>))"

text \<open>The loop over the shards of a pull reply; it stops at the first shard that is not being pulled.\<close>

fun insertLoop :: "(int, (string, string) gomap) gomap \<Rightarrow> 'a ShardCore_scheme \<Rightarrow> 'a ShardCore_scheme res" where
  "insertLoop [] kv = Inr kv"
| "insertLoop ((shardID, shardData) # rest) kv =
     (case shardAt shardID kv of Inl e \<Rightarrow> Inl e
      | Inr sh \<Rightarrow>
          if shStatus sh = Pulling
          then insertLoop rest (setShard shardID ((fold (\<lambda>(k, v). shard_Put k v) shardData sh)\<lparr>shStatus := GCing\<rparr>) kv)
          else Inr kv)"

definition mergeOperations :: "slast_ops \<Rightarrow> slast_ops \<Rightarrow> slast_ops" where
  "mergeOperations new old =
     fold (\<lambda>(clientId, ctx) ops. case map_of ops clientId of
          None \<Rightarrow> mput clientId ctx ops
        | Some lastOperation \<Rightarrow>
            if soMaxAppliedCommandId lastOperation < soMaxAppliedCommandId ctx then mput clientId ctx ops else ops) new old"

definition applyInsertShards ::
  "ShardOperationReply \<Rightarrow> 'a ShardCore_scheme \<Rightarrow> ('a ShardCore_scheme \<times> SCommandReply) res" where
  "applyInsertShards shardsInfo kv =
     (if shrConfigNum shardsInfo = cfNum (svCurrentConfig kv)
      then (case insertLoop (shrShards shardsInfo) kv of Inl e \<Rightarrow> Inl e
            | Inr kv' \<Rightarrow> Inr (kv'\<lparr>svLastOperations :=
                   mergeOperations (shrLastOperations shardsInfo) (svLastOperations kv')\<rparr>, zero_sreply))
      else Inr (kv, zero_sreply\<lparr>srErr := SErrOutDated\<rparr>))"

fun deleteLoop :: "int list \<Rightarrow> 'a ShardCore_scheme \<Rightarrow> 'a ShardCore_scheme res" where
  "deleteLoop [] kv = Inr kv"
| "deleteLoop (shardID # ids) kv =
     (case shardAt shardID kv of Inl e \<Rightarrow> Inl e
      | Inr sh \<Rightarrow>
          if shStatus sh = GCing then deleteLoop ids (setShard shardID (sh\<lparr>shStatus := Serving\<rparr>) kv)
          else if shStatus sh = BePulling then deleteLoop ids (setShard shardID NewShard kv)
          else Inr kv)"

definition applyDeleteShards ::
  "ShardOperationArgs \<Rightarrow> 'a ShardCore_scheme \<Rightarrow> ('a ShardCore_scheme \<times> SCommandReply) res" where
  "applyDeleteShards shardsInfo kv =
     (if shaConfigNum shardsInfo = cfNum (svCurrentConfig kv)
      then (case deleteLoop (shaShardIDs shardsInfo) kv of Inl e \<Rightarrow> Inl e | Inr kv' \<Rightarrow> Inr (kv', zero_sreply))
      else Inr (kv, zero_sreply))"

definition applyEmptyShards :: SCommandReply where
  "applyEmptyShards = zero_sreply"

text \<open>The switch of \<open>applier\<close>.\<close>

definition skv_apply :: "SCommand \<Rightarrow> 'a ShardCore_scheme \<Rightarrow> ('a ShardCore_scheme \<times> SCommandReply) res" where
  "skv_apply command kv =
     (case command of
        Operation operation \<Rightarrow> applyOperation operation kv
      | Configuration nextConfig \<Rightarrow> applyConfiguration nextConfig kv
      | InsertShards shardsInfo \<Rightarrow> applyInsertShards shardsInfo kv
      | DeleteShards shardsInfo \<Rightarrow> applyDeleteShards shardsInfo kv
      | EmptyShards \<Rightarrow> Inr (kv, applyEmptyShards))"

subsection \<open>The server\<close>

datatype skvgob = GConfig Config | GShards "(int, Shard) gomap" | GOperations slast_ops

record ShardKV = ShardCore +
  svDead :: int
  svRf :: "(SCommand, skvgob) Raft"
  svMaxRaftState :: int
  svLastApplied :: int
  svNotifyChans :: "(int, nat) gomap"
  svChans :: "SCommandReply list list"

definition skv_getNotifyChan :: "int \<Rightarrow> ShardKV \<Rightarrow> ShardKV \<times> nat" where
  "skv_getNotifyChan index kv =
     (let kv' = (if map_of (svNotifyChans kv) index = None
         then kv\<lparr>svChans := svChans kv @ [[]], svNotifyChans := mput index (length (svChans kv)) (svNotifyChans kv)\<rparr>
         else kv)
      in (kv', mget 0 (svNotifyChans kv') index))"

definition skv_removeOutdatedNotifyChan :: "int \<Rightarrow> ShardKV \<Rightarrow> ShardKV" where
  "skv_removeOutdatedNotifyChan index kv = kv\<lparr>svNotifyChans := mdel index (svNotifyChans kv)\<rparr>"

definition skv_send :: "nat \<Rightarrow> SCommandReply \<Rightarrow> ShardKV \<Rightarrow> ShardKV option" where
  "skv_send ch v kv =
     (if length (svChans kv ! ch) < 1 then Some (kv\<lparr>svChans := (svChans kv)[ch := svChans kv ! ch @ [v]]\<rparr>) else None)"

definition skv_recv :: "nat \<Rightarrow> ShardKV \<Rightarrow> (SCommandReply \<times> ShardKV) option" where
  "skv_recv ch kv =
     (case svChans kv ! ch of [] \<Rightarrow> None | v # vs \<Rightarrow> Some (v, kv\<lparr>svChans := (svChans kv)[ch := vs]\<rparr>))"

subsection \<open>Handlers\<close>

text \<open>\<open>Command\<close> up to the call of \<open>Execute\<close>: \<open>Some\<close> is a reply without the log.\<close>

definition skv_Command :: "SCommandArgs \<Rightarrow> ShardKV \<Rightarrow> SCommandReply option res" where
  "skv_Command args kv =
     (if saOp args \<noteq> SGet \<and> skv_isDuplicate (saClientId args) (saCommandId args) (svLastOperations kv)
      then Inr (Some (skv_lastReply (saClientId args) (svLastOperations kv)))
      else case canServe (key2shard (saKey args)) kv of Inl e \<Rightarrow> Inl e
        | Inr ok \<Rightarrow> Inr (if ok then None else Some (zero_sreply\<lparr>srErr := SErrWrongGroup\<rparr>)))"

definition Execute_start :: "int \<Rightarrow> SCommand \<Rightarrow> ShardKV \<Rightarrow> (ShardKV \<times> (SCommandReply + int)) res" where
  "Execute_start now command kv =
     bindR (Start now (Some command) (svRf kv)) (\<lambda>(rf', index, _, isLeader).
       if \<not> isLeader then Inr (kv\<lparr>svRf := rf'\<rparr>, Inl (zero_sreply\<lparr>srErr := SErrWrongLeader\<rparr>))
       else Inr (kv\<lparr>svRf := rf'\<rparr>, Inr index))"

definition Execute_wait :: "bool \<Rightarrow> nat \<Rightarrow> ShardKV \<Rightarrow> ShardKV \<times> SCommandReply" where
  "Execute_wait timeout notifyChan kv =
     (case (if timeout then None else skv_recv notifyChan kv) of
        None \<Rightarrow> (kv, zero_sreply\<lparr>srErr := SErrTimeout\<rparr>)
      | Some (result, kv') \<Rightarrow> (kv', result))"

text \<open>The copies \<open>GetShardsData\<close> makes, in the order of \<open>ShardIDs\<close>.\<close>

fun copyShards :: "int list \<Rightarrow> 'a ShardCore_scheme \<Rightarrow> (int, (string, string) gomap) gomap
    \<Rightarrow> (int, (string, string) gomap) gomap res" where
  "copyShards [] kv acc = Inr acc"
| "copyShards (shardID # ids) kv acc =
     (case shardAt shardID kv of Inl e \<Rightarrow> Inl e
      | Inr sh \<Rightarrow> copyShards ids kv (mput shardID (shard_deepCopy sh) acc))"

definition copyOperations :: "slast_ops \<Rightarrow> slast_ops" where
  "copyOperations ops = fold (\<lambda>(clientId, ctx). mput clientId ctx) ops []"

definition zero_shreply :: ShardOperationReply where
  "zero_shreply = \<lparr>shrErr = SOK, shrConfigNum = 0, shrShards = [], shrLastOperations = []\<rparr>"

definition pullShards :: "ShardOperationArgs \<Rightarrow> 'a ShardCore_scheme \<Rightarrow> ShardOperationReply res" where
  "pullShards args kv =
     (if cfNum (svCurrentConfig kv) < shaConfigNum args then Inr (zero_shreply\<lparr>shrErr := SErrNotReady\<rparr>)
      else case copyShards (shaShardIDs args) kv [] of Inl e \<Rightarrow> Inl e
        | Inr shards \<Rightarrow> Inr \<lparr>shrErr = SOK, shrConfigNum = shaConfigNum args, shrShards = shards,
              shrLastOperations = copyOperations (svLastOperations kv)\<rparr>)"

definition GetShardsData :: "ShardOperationArgs \<Rightarrow> ShardKV \<Rightarrow> ShardOperationReply res" where
  "GetShardsData args kv =
     (if \<not> snd (GetState (svRf kv)) then Inr (zero_shreply\<lparr>shrErr := SErrWrongLeader\<rparr>) else pullShards args kv)"

text \<open>\<open>DeleteShardsData\<close> up to the call of \<open>Execute\<close>.\<close>

definition DeleteShardsData :: "ShardOperationArgs \<Rightarrow> ShardKV \<Rightarrow> SErr option" where
  "DeleteShardsData args kv =
     (if \<not> snd (GetState (svRf kv)) then Some SErrWrongLeader
      else if cfNum (svCurrentConfig kv) > shaConfigNum args then Some SOK else None)"

subsection \<open>Snapshots\<close>

definition needSnapshot :: "(SCommand gob list \<Rightarrow> int) \<Rightarrow> ShardKV \<Rightarrow> bool" where
  "needSnapshot nbytes kv \<longleftrightarrow> svMaxRaftState kv \<noteq> -1 \<and> GetRaftStateSize nbytes (svRf kv) \<ge> svMaxRaftState kv"

definition encodeShards :: "'a ShardCore_scheme \<Rightarrow> skvgob list" where
  "encodeShards kv = [GConfig (svLastConfig kv), GConfig (svCurrentConfig kv), GShards (svStateMachine kv),
     GOperations (svLastOperations kv)]"

definition takeSnapshot :: "int \<Rightarrow> ShardKV \<Rightarrow> ShardKV res" where
  "takeSnapshot index kv = bindR (Snapshot index (encodeShards kv) (svRf kv)) (\<lambda>rf'. Inr (kv\<lparr>svRf := rf'\<rparr>))"

fun initLoop :: "int list \<Rightarrow> (int, Shard) gomap \<Rightarrow> (int, Shard) gomap" where
  "initLoop [] m = m"
| "initLoop (shardID # ids) m = initLoop ids (if map_of m shardID = None then mput shardID NewShard m else m)"

definition initStateMachines :: "'a ShardCore_scheme \<Rightarrow> 'a ShardCore_scheme" where
  "initStateMachines kv = kv\<lparr>svStateMachine := initLoop (map int [0..<NShards]) (svStateMachine kv)\<rparr>"

text \<open>
  The decoders stop at the first that fails, and the variables that were not decoded keep their zero
  values; they are assigned even then.
\<close>

definition zero_config :: Config where
  "zero_config = \<lparr>cfNum = 0, cfShards = replicate NShards 0, cfGroups = []\<rparr>"

fun decodeConfig :: "skvgob list \<Rightarrow> (Config \<times> skvgob list) option" where
  "decodeConfig (GConfig c # r) = Some (c, r)"
| "decodeConfig _ = None"

fun decodeShards :: "skvgob list \<Rightarrow> ((int, Shard) gomap \<times> skvgob list) option" where
  "decodeShards (GShards m # r) = Some (m, r)"
| "decodeShards _ = None"

fun decodeOperations :: "skvgob list \<Rightarrow> (slast_ops \<times> skvgob list) option" where
  "decodeOperations (GOperations m # r) = Some (m, r)"
| "decodeOperations _ = None"

definition decodeState :: "skvgob list \<Rightarrow> Config \<times> Config \<times> (int, Shard) gomap \<times> slast_ops" where
  "decodeState snap =
     (case decodeConfig snap of None \<Rightarrow> (zero_config, zero_config, [], [])
      | Some (lc, r1) \<Rightarrow> (case decodeConfig r1 of None \<Rightarrow> (lc, zero_config, [], [])
      | Some (cc, r2) \<Rightarrow> (case decodeShards r2 of None \<Rightarrow> (lc, cc, [], [])
      | Some (sm, r3) \<Rightarrow> (case decodeOperations r3 of None \<Rightarrow> (lc, cc, sm, [])
      | Some (ops, r4) \<Rightarrow> (lc, cc, sm, ops)))))"

definition restoreSnapshot :: "skvgob list \<Rightarrow> 'a ShardCore_scheme \<Rightarrow> 'a ShardCore_scheme" where
  "restoreSnapshot snap kv =
     (if length snap < 1 then initStateMachines kv
      else case decodeState snap of (lc, cc, sm, ops) \<Rightarrow>
        kv\<lparr>svLastConfig := lc, svCurrentConfig := cc, svStateMachine := sm, svLastOperations := ops\<rparr>)"

subsection \<open>The applier\<close>

text \<open>One message of \<open>applyCh\<close>; \<open>None\<close> is a goroutine blocked on a full channel with the lock held.\<close>

definition skv_applier ::
  "(SCommand gob list \<Rightarrow> int) \<Rightarrow> (SCommand, skvgob) ApplyMsg \<Rightarrow> ShardKV \<Rightarrow> ShardKV option res" where
  "skv_applier nbytes message kv =
     (if amCommandValid message then
        (if amCommandIndex message \<le> svLastApplied kv then Inr (Some kv)
         else case amCommand message of None \<Rightarrow> Inl TypeAssertion
         | Some command \<Rightarrow>
            (case skv_apply command (kv\<lparr>svLastApplied := amCommandIndex message\<rparr>) of Inl e \<Rightarrow> Inl e
             | Inr (kv1, reply) \<Rightarrow>
                (case (let (term, isLeader) = GetState (svRf kv1) in
                       if isLeader \<and> amCommandTerm message = term
                       then (case skv_getNotifyChan (amCommandIndex message) kv1 of (kv2, ch) \<Rightarrow> skv_send ch reply kv2)
                       else Some kv1) of
                   None \<Rightarrow> Inr None
                 | Some kv3 \<Rightarrow>
                     if needSnapshot nbytes kv3
                     then bindR (takeSnapshot (amCommandIndex message) kv3) (\<lambda>kv4. Inr (Some kv4))
                     else Inr (Some kv3))))
      else if amSnapshotValid message then
        Inr (Some ((restoreSnapshot (amSnapshot message) kv)\<lparr>svLastApplied := amSnapshotIndex message\<rparr>))
      else Inl (Explicit ''invalid apply message''))"

subsection \<open>Monitors\<close>

fun statusLoop :: "ShardStatus \<Rightarrow> int list \<Rightarrow> (int, Shard) gomap \<Rightarrow> (int, int list) gomap \<Rightarrow> (int, int list) gomap res" where
  "statusLoop status lastShards [] gid2shardIDs = Inr gid2shardIDs"
| "statusLoop status lastShards ((shardID, sh) # rest) gid2shardIDs =
     (if shStatus sh = status
      then (case go_nth lastShards shardID of Inl e \<Rightarrow> Inl e
            | Inr gid \<Rightarrow> statusLoop status lastShards rest
                (if gid \<noteq> 0 then mput gid (mget [] gid2shardIDs gid @ [shardID]) gid2shardIDs else gid2shardIDs))
      else statusLoop status lastShards rest gid2shardIDs)"

definition getShardIDsByStatus :: "ShardStatus \<Rightarrow> 'a ShardCore_scheme \<Rightarrow> (int, int list) gomap res" where
  "getShardIDsByStatus status kv = statusLoop status (cfShards (svLastConfig kv)) (svStateMachine kv) []"

text \<open>The check of \<open>configurationAction\<close>, and the command it submits for the configuration the controller returns.\<close>

definition configurationCheck :: "'a ShardCore_scheme \<Rightarrow> int option" where
  "configurationCheck kv =
     (if list_all (\<lambda>(_, sh). shStatus sh = Serving) (svStateMachine kv) then Some (cfNum (svCurrentConfig kv)) else None)"

definition configurationAction :: "(int \<Rightarrow> Config) \<Rightarrow> 'a ShardCore_scheme \<Rightarrow> SCommand option" where
  "configurationAction query kv =
     (case configurationCheck kv of None \<Rightarrow> None
      | Some num \<Rightarrow> if cfNum (query (num + 1)) = num + 1 then Some (Configuration (query (num + 1))) else None)"

text \<open>
  The tasks of \<open>migrationAction\<close> and \<open>gcAction\<close>: for every group the servers to call and the arguments. \<open>pullTask\<close> and
  \<open>gcTask\<close> go over the servers, whose answers the environment gives, and list what is submitted.
\<close>

definition groupTasks :: "ShardStatus \<Rightarrow> 'a ShardCore_scheme \<Rightarrow> (string list \<times> ShardOperationArgs) list res" where
  "groupTasks status kv =
     (case getShardIDsByStatus status kv of Inl e \<Rightarrow> Inl e
      | Inr gid2Shards \<Rightarrow> Inr (map (\<lambda>(gid, shardIDs). (mget [] (cfGroups (svLastConfig kv)) gid,
            \<lparr>shaConfigNum = cfNum (svCurrentConfig kv), shaShardIDs = shardIDs\<rparr>)) gid2Shards))"

definition migrationAction :: "'a ShardCore_scheme \<Rightarrow> (string list \<times> ShardOperationArgs) list res" where
  "migrationAction kv = groupTasks Pulling kv"

definition gcAction :: "'a ShardCore_scheme \<Rightarrow> (string list \<times> ShardOperationArgs) list res" where
  "gcAction kv = groupTasks GCing kv"

fun pullTask :: "(string \<Rightarrow> ShardOperationReply option) \<Rightarrow> string list \<Rightarrow> SCommand list" where
  "pullTask call [] = []"
| "pullTask call (server # servers) =
     (case call server of
        Some reply \<Rightarrow> (if shrErr reply = SOK then InsertShards reply # pullTask call servers else pullTask call servers)
      | None \<Rightarrow> pullTask call servers)"

fun gcTask :: "(string \<Rightarrow> SErr option) \<Rightarrow> ShardOperationArgs \<Rightarrow> string list \<Rightarrow> SCommand list" where
  "gcTask call args [] = []"
| "gcTask call args (server # servers) =
     (if call server = Some SOK then DeleteShards args # gcTask call args servers else gcTask call args servers)"

definition checkEntryInCurrentTermAction :: "ShardKV \<Rightarrow> SCommand option res" where
  "checkEntryInCurrentTermAction kv =
     bindR (HasLogInCurrentTerm (svRf kv)) (\<lambda>has. Inr (if has then None else Some EmptyShards))"

definition skv_Kill :: "ShardKV \<Rightarrow> ShardKV" where
  "skv_Kill kv = kv\<lparr>svDead := 1, svRf := Kill (svRf kv)\<rparr>"

definition skv_killed :: "ShardKV \<Rightarrow> bool" where
  "skv_killed kv \<longleftrightarrow> svDead kv = 1"

definition skv_StartServer ::
  "nat \<Rightarrow> int \<Rightarrow> (SCommand, skvgob) Persister \<Rightarrow> int \<Rightarrow> int \<Rightarrow> int \<Rightarrow> int \<Rightarrow> ShardKV" where
  "skv_StartServer servers i ps maxraftstate gid rnd now =
     restoreSnapshot (ReadSnapshot ps)
       \<lparr>svGid = gid, svLastConfig = DefaultConfig, svCurrentConfig = DefaultConfig, svStateMachine = [],
        svLastOperations = [], svDead = 0, svRf = Make servers i ps rnd now, svMaxRaftState = maxraftstate,
        svLastApplied = 0, svNotifyChans = [], svChans = []\<rparr>"

subsection \<open>Clerk\<close>

record SClerk =
  skConfig :: Config
  skLeaderIds :: "(int, int) gomap"
  skClientId :: int
  skCommandId :: int

definition skv_MakeClerk :: "Config \<Rightarrow> int \<Rightarrow> SClerk" where
  "skv_MakeClerk latest rnd = \<lparr>skConfig = latest, skLeaderIds = [], skClientId = rnd, skCommandId = 0\<rparr>"

text \<open>
  The inner loop over the servers of a group: \<open>Some (Some v)\<close> is an answer, \<open>Some None\<close> leaves the loop, \<open>None\<close> runs out of
  attempts. Each attempt says what a call to a server gives.
\<close>

fun skv_try ::
  "(string \<Rightarrow> SCommandReply option) list \<Rightarrow> string list \<Rightarrow> int \<Rightarrow> int \<Rightarrow> string option option res" where
  "skv_try [] servers old new = Inr None"
| "skv_try (call # calls) servers old new =
     (case go_nth servers new of Inl e \<Rightarrow> Inl e
      | Inr server \<Rightarrow>
         let next = go_rem (new + 1) (int (length servers));
             step = (if next = old then Inr (Some None) else skv_try calls servers old next) in
         (case call server of None \<Rightarrow> step
          | Some reply \<Rightarrow>
              if srErr reply = SOK \<or> srErr reply = SErrNoKey then Inr (Some (Some (srValue reply)))
              else if srErr reply = SErrWrongGroup then Inr (Some None)
              else step))"

text \<open>The outer loop; a round holds the attempts of its inner loop and the configuration fetched at its end.\<close>

fun skv_clerk_loop ::
  "((SCommandArgs \<Rightarrow> string \<Rightarrow> SCommandReply option) list \<times> Config) list \<Rightarrow> SCommandArgs \<Rightarrow> SClerk
   \<Rightarrow> (SClerk \<times> string) option res" where
  "skv_clerk_loop [] args ck = Inr None"
| "skv_clerk_loop ((calls, latest) # rounds) args ck =
     (case go_nth (cfShards (skConfig ck)) (key2shard (saKey args)) of Inl e \<Rightarrow> Inl e
      | Inr gid \<Rightarrow>
        (case map_of (cfGroups (skConfig ck)) gid of
           None \<Rightarrow> skv_clerk_loop rounds args (ck\<lparr>skConfig := latest\<rparr>)
         | Some servers \<Rightarrow>
            let ck1 = (if map_of (skLeaderIds ck) gid = None then ck\<lparr>skLeaderIds := mput gid 0 (skLeaderIds ck)\<rparr> else ck);
                old = mget 0 (skLeaderIds ck1) gid in
            (case skv_try (map (\<lambda>call. call args) calls) servers old old of
               Inl e \<Rightarrow> Inl e
             | Inr None \<Rightarrow> Inr None
             | Inr (Some (Some value)) \<Rightarrow> Inr (Some (ck1\<lparr>skCommandId := skCommandId ck1 + 1\<rparr>, value))
             | Inr (Some None) \<Rightarrow> skv_clerk_loop rounds args (ck1\<lparr>skConfig := latest\<rparr>))))"

definition skv_clerk_Command ::
  "((SCommandArgs \<Rightarrow> string \<Rightarrow> SCommandReply option) list \<times> Config) list \<Rightarrow> SCommandArgs \<Rightarrow> SClerk
   \<Rightarrow> (SClerk \<times> string) option res" where
  "skv_clerk_Command rounds args ck =
     skv_clerk_loop rounds (args\<lparr>saClientId := skClientId ck, saCommandId := skCommandId ck\<rparr>) ck"

definition skv_clerk_Get ::
  "((SCommandArgs \<Rightarrow> string \<Rightarrow> SCommandReply option) list \<times> Config) list \<Rightarrow> string \<Rightarrow> SClerk
   \<Rightarrow> (SClerk \<times> string) option res" where
  "skv_clerk_Get rounds key ck =
     skv_clerk_Command rounds \<lparr>saKey = key, saValue = '''', saOp = SGet, saClientId = 0, saCommandId = 0\<rparr> ck"

definition skv_clerk_Put ::
  "((SCommandArgs \<Rightarrow> string \<Rightarrow> SCommandReply option) list \<times> Config) list \<Rightarrow> string \<Rightarrow> string \<Rightarrow> SClerk
   \<Rightarrow> (SClerk \<times> string) option res" where
  "skv_clerk_Put rounds key value ck =
     skv_clerk_Command rounds \<lparr>saKey = key, saValue = value, saOp = SPut, saClientId = 0, saCommandId = 0\<rparr> ck"

definition skv_clerk_Append ::
  "((SCommandArgs \<Rightarrow> string \<Rightarrow> SCommandReply option) list \<times> Config) list \<Rightarrow> string \<Rightarrow> string \<Rightarrow> SClerk
   \<Rightarrow> (SClerk \<times> string) option res" where
  "skv_clerk_Append rounds key value ck =
     skv_clerk_Command rounds \<lparr>saKey = key, saValue = value, saOp = SAppend, saClientId = 0, saCommandId = 0\<rparr> ck"

subsection \<open>Well-formed servers\<close>

definition shard_ids :: "int set" where
  "shard_ids = {0..<int NShards}"

definition skv_wf :: "'a ShardCore_scheme \<Rightarrow> bool" where
  "skv_wf kv \<longleftrightarrow> wf_map (svStateMachine kv) \<and> set (mkeys (svStateMachine kv)) = shard_ids \<and> wf_map (svLastOperations kv) \<and>
     NShards \<le> length (cfShards (svCurrentConfig kv)) \<and> NShards \<le> length (cfShards (svLastConfig kv))"

definition command_ok :: "SCommand \<Rightarrow> bool" where
  "command_ok c =
     (case c of Configuration cf \<Rightarrow> NShards \<le> length (cfShards cf)
      | InsertShards r \<Rightarrow> set (mkeys (shrShards r)) \<subseteq> shard_ids
      | DeleteShards a \<Rightarrow> set (shaShardIDs a) \<subseteq> shard_ids
      | _ \<Rightarrow> True)"

definition status :: "'a ShardCore_scheme \<Rightarrow> int \<Rightarrow> ShardStatus option" where
  "status kv s = map_option shStatus (map_of (svStateMachine kv) s)"

lemma key2shard_in: "key2shard key \<in> shard_ids"
proof -
  have "0 \<le> (of_char c :: int)" for c by (metis of_nat_0_le_iff of_nat_of_char)
  then show ?thesis by (cases key) (simp_all add: key2shard_def shard_ids_def NShards_def)
qed

lemma shardAt_wf: "skv_wf kv \<Longrightarrow> s \<in> shard_ids \<Longrightarrow> \<exists>sh. shardAt s kv = Inr sh \<and> map_of (svStateMachine kv) s = Some sh"
  by (auto simp: skv_wf_def shardAt_def keys_map_of split: option.splits)

lemma shardAt_Inr: "shardAt s kv = Inr sh \<longleftrightarrow> map_of (svStateMachine kv) s = Some sh"
  by (auto simp: shardAt_def split: option.splits)

lemma setShard_sel [simp]:
  "svGid (setShard s sh kv) = svGid kv" "svLastConfig (setShard s sh kv) = svLastConfig kv"
  "svCurrentConfig (setShard s sh kv) = svCurrentConfig kv" "svLastOperations (setShard s sh kv) = svLastOperations kv"
  "svStateMachine (setShard s sh kv) = mput s sh (svStateMachine kv)"
  by (simp_all add: setShard_def)

lemma setShard_wf: "skv_wf kv \<Longrightarrow> s \<in> shard_ids \<Longrightarrow> skv_wf (setShard s sh kv)"
  by (auto simp: skv_wf_def)

lemma status_setShard: "status (setShard s sh kv) t = (if t = s then Some (shStatus sh) else status kv t)"
  by (simp add: status_def)

lemma canServe_wf:
  assumes "skv_wf kv" "s \<in> shard_ids"
  shows "canServe s kv =
    Inr (cfShards (svCurrentConfig kv) ! nat s = svGid kv \<and> status kv s \<in> {Some Serving, Some GCing})"
proof -
  from shardAt_wf[OF assms] obtain sh where "shardAt s kv = Inr sh" "map_of (svStateMachine kv) s = Some sh" by blast
  moreover have "go_nth (cfShards (svCurrentConfig kv)) s = Inr (cfShards (svCurrentConfig kv) ! nat s)"
    using assms by (intro go_nth_in) (auto simp: skv_wf_def shard_ids_def)
  ultimately show ?thesis by (simp add: canServe_def status_def)
qed

lemma shard_Put_fold [simp]: "shStatus (fold (\<lambda>(k, v). shard_Put k v) d sh) = shStatus sh"
  by (induction d arbitrary: sh) (auto simp: shard_Put_def)

text \<open>The fields the loops leave alone.\<close>

definition same_frame :: "'a ShardCore_scheme \<Rightarrow> 'a ShardCore_scheme \<Rightarrow> bool" where
  "same_frame kv kv' \<longleftrightarrow> svGid kv' = svGid kv \<and> svLastConfig kv' = svLastConfig kv \<and>
     svCurrentConfig kv' = svCurrentConfig kv \<and> svLastOperations kv' = svLastOperations kv"

lemma shardAt_id: "skv_wf kv \<Longrightarrow> shardAt s kv = Inr sh \<Longrightarrow> s \<in> shard_ids"
  unfolding shardAt_Inr skv_wf_def by (metis domI dom_map_of_conv_image_fst set_map)

lemma insertLoop_effect:
  assumes "insertLoop d kv = Inr kv'" "skv_wf kv"
  shows "skv_wf kv' \<and> same_frame kv kv' \<and>
    (\<forall>s. status kv' s = status kv s \<or> status kv s = Some Pulling \<and> status kv' s = Some GCing \<and> s \<in> set (mkeys d))"
  using assms
proof (induction d arbitrary: kv)
  case (Cons p d)
  obtain s sd where p: "p = (s, sd)" by force
  from Cons.prems(1) obtain sh where sh: "shardAt s kv = Inr sh" by (auto simp: p split: sum.splits)
  show ?case
  proof (cases "shStatus sh = Pulling")
    case True
    let ?kv = "setShard s ((fold (\<lambda>(k, v). shard_Put k v) sd sh)\<lparr>shStatus := GCing\<rparr>) kv"
    have "insertLoop d ?kv = Inr kv'" using Cons.prems(1) sh True by (simp add: p)
    from Cons.IH[OF this setShard_wf[OF Cons.prems(2) shardAt_id[OF Cons.prems(2) sh]]] have
      k: "skv_wf kv'" "same_frame ?kv kv'"
      "\<forall>t. status kv' t = status ?kv t \<or> status ?kv t = Some Pulling \<and> status kv' t = Some GCing \<and> t \<in> set (mkeys d)"
      by auto
    have "status kv' t = status kv t \<or> status kv t = Some Pulling \<and> status kv' t = Some GCing \<and> t \<in> set (mkeys (p # d))" for t
      using k(3)[rule_format, of t] sh True by (cases "t = s") (auto simp: status_setShard status_def[of kv] p shardAt_Inr)
    with k show ?thesis by (auto simp: same_frame_def)
  next
    case False
    with sh Cons.prems show ?thesis by (simp add: p same_frame_def)
  qed
qed (simp add: same_frame_def)

lemma insertLoop_total:
  "skv_wf kv \<Longrightarrow> set (mkeys d) \<subseteq> shard_ids \<Longrightarrow> \<exists>kv'. insertLoop d kv = Inr kv'"
proof (induction d arbitrary: kv)
  case (Cons p d)
  obtain s sd where p: "p = (s, sd)" by force
  from Cons.prems p shardAt_wf[of kv s] obtain sh where "shardAt s kv = Inr sh" by auto
  with Cons setShard_wf[of kv s] show ?case by (auto simp: p)
qed simp

lemma deleteLoop_effect:
  assumes "deleteLoop ids kv = Inr kv'" "skv_wf kv"
  shows "skv_wf kv' \<and> same_frame kv kv' \<and>
    (\<forall>s. status kv' s = status kv s \<or> status kv s \<in> {Some GCing, Some BePulling} \<and> status kv' s = Some Serving)"
  using assms
proof (induction ids arbitrary: kv)
  case (Cons s ids)
  from Cons.prems(1) obtain sh where sh: "shardAt s kv = Inr sh" by (auto split: sum.splits)
  show ?case
  proof (cases "shStatus sh = GCing \<or> shStatus sh = BePulling")
    case True
    let ?kv = "setShard s (if shStatus sh = GCing then sh\<lparr>shStatus := Serving\<rparr> else NewShard) kv"
    have st: "status ?kv t = (if t = s then Some Serving else status kv t)" for t
      by (simp add: status_setShard NewShard_def)
    have "deleteLoop ids ?kv = Inr kv'" using Cons.prems(1) sh True by (auto split: if_splits)
    from Cons.IH[OF this setShard_wf[OF Cons.prems(2) shardAt_id[OF Cons.prems(2) sh]]] have
      k: "skv_wf kv'" "same_frame ?kv kv'"
      "\<forall>t. status kv' t = status ?kv t \<or> status ?kv t \<in> {Some GCing, Some BePulling} \<and> status kv' t = Some Serving"
      by auto
    have "status kv' t = status kv t \<or> status kv t \<in> {Some GCing, Some BePulling} \<and> status kv' t = Some Serving" for t
      using k(3)[rule_format, of t] sh True unfolding st by (cases "t = s") (auto simp: status_def[of kv] shardAt_Inr)
    with k show ?thesis by (auto simp: same_frame_def)
  next
    case False
    with sh Cons.prems show ?thesis by (simp add: same_frame_def)
  qed
qed (simp add: same_frame_def)

lemma deleteLoop_total:
  "skv_wf kv \<Longrightarrow> set ids \<subseteq> shard_ids \<Longrightarrow> \<exists>kv'. deleteLoop ids kv = Inr kv'"
proof (induction ids arbitrary: kv)
  case (Cons s ids)
  from Cons.prems shardAt_wf[of kv s] obtain sh where "shardAt s kv = Inr sh" by auto
  with Cons setShard_wf[of kv s] show ?case by auto
qed simp

text \<open>The status a shard gets when the configuration changes.\<close>

definition next_status :: "int \<Rightarrow> int \<Rightarrow> int \<Rightarrow> ShardStatus option \<Rightarrow> ShardStatus option" where
  "next_status gid cur nxt st =
     (if cur \<noteq> gid \<and> nxt = gid \<and> cur \<noteq> 0 then Some Pulling
      else if cur = gid \<and> nxt \<noteq> gid \<and> nxt \<noteq> 0 then Some BePulling else st)"

lemma updateShardStatus_ok:
  assumes "skv_wf kv" "set ids \<subseteq> shard_ids" "distinct ids" "NShards \<le> length (cfShards c)"
  shows "\<exists>kv'. updateShardStatus ids c kv = Inr kv' \<and> skv_wf kv' \<and> same_frame kv kv' \<and>
    (\<forall>s. status kv' s = (if s \<in> set ids
       then next_status (svGid kv) (cfShards (svCurrentConfig kv) ! nat s) (cfShards c ! nat s) (status kv s)
       else status kv s))"
  using assms
proof (induction ids arbitrary: kv)
  case (Cons s ids)
  then have s: "s \<in> shard_ids" by simp
  from shardAt_wf[OF Cons.prems(1) this] obtain sh where sh: "shardAt s kv = Inr sh" "map_of (svStateMachine kv) s = Some sh" by blast
  let ?cur = "cfShards (svCurrentConfig kv) ! nat s" and ?nxt = "cfShards c ! nat s"
  have g: "go_nth (cfShards (svCurrentConfig kv)) s = Inr ?cur" "go_nth (cfShards c) s = Inr ?nxt"
    using Cons.prems s by (auto simp: go_nth_in skv_wf_def shard_ids_def)
  define new where "new = (if ?cur \<noteq> svGid kv \<and> ?nxt = svGid kv \<and> ?cur \<noteq> 0 then Some Pulling
      else if ?cur = svGid kv \<and> ?nxt \<noteq> svGid kv \<and> ?nxt \<noteq> 0 then Some BePulling else None)"
  define kv1 where "kv1 = (case new of None \<Rightarrow> kv | Some st \<Rightarrow> setShard s (sh\<lparr>shStatus := st\<rparr>) kv)"
  have step: "updateShardStatus (s # ids) c kv = updateShardStatus ids c kv1"
    using g sh(1) by (simp add: Let_def kv1_def split: option.split flip: new_def)
  have wf1: "skv_wf kv1" using Cons.prems(1) setShard_wf[OF Cons.prems(1) s] by (simp add: kv1_def split: option.split)
  have fr: "same_frame kv kv1" by (simp add: kv1_def same_frame_def split: option.split)
  have st1: "status kv1 t = (if t = s then next_status (svGid kv) ?cur ?nxt (status kv s) else status kv t)" for t
    by (auto simp: kv1_def new_def status_setShard next_status_def)
  from Cons.IH[OF wf1] Cons.prems(2-4) obtain kv' where
    k: "updateShardStatus ids c kv1 = Inr kv'" "skv_wf kv'" "same_frame kv1 kv'"
    "\<forall>t. status kv' t = (if t \<in> set ids
       then next_status (svGid kv1) (cfShards (svCurrentConfig kv1) ! nat t) (cfShards c ! nat t) (status kv1 t)
       else status kv1 t)"
    by auto
  have "status kv' t = (if t \<in> set (s # ids)
       then next_status (svGid kv) (cfShards (svCurrentConfig kv) ! nat t) (cfShards c ! nat t) (status kv t)
       else status kv t)" for t
    using k(4)[rule_format, of t] fr Cons.prems(3) by (auto simp: st1 same_frame_def)
  with k step fr show ?case by (simp add: same_frame_def)
qed (simp add: same_frame_def)


lemma updateShardStatus_short:
  "updateShardStatus ids c kv = Inr kv' \<Longrightarrow> s \<in> set ids \<Longrightarrow> s < int (length (cfShards c))"
  by (induction ids c kv rule: updateShardStatus.induct)
    (auto simp: Let_def go_nth_def split: if_splits sum.splits option.splits)

subsection \<open>The effect of an entry\<close>

definition skv_effect :: "SCommand \<Rightarrow> 'a ShardCore_scheme \<Rightarrow> 'a ShardCore_scheme \<Rightarrow> bool" where
  "skv_effect c kv kv' \<longleftrightarrow> svGid kv' = svGid kv \<and>
     (case c of
        Configuration cf \<Rightarrow>
          if cfNum cf = cfNum (svCurrentConfig kv) + 1
          then svCurrentConfig kv' = cf \<and> svLastConfig kv' = svCurrentConfig kv \<and>
               svLastOperations kv' = svLastOperations kv \<and>
               (\<forall>s \<in> shard_ids. status kv' s =
                  next_status (svGid kv) (cfShards (svCurrentConfig kv) ! nat s) (cfShards cf ! nat s) (status kv s))
          else kv' = kv
      | _ \<Rightarrow> svCurrentConfig kv' = svCurrentConfig kv \<and> svLastConfig kv' = svLastConfig kv \<and>
          (\<forall>s. status kv' s = status kv s \<or>
             (case c of
                InsertShards r \<Rightarrow> shrConfigNum r = cfNum (svCurrentConfig kv) \<and> s \<in> set (mkeys (shrShards r)) \<and>
                  status kv s = Some Pulling \<and> status kv' s = Some GCing
              | DeleteShards a \<Rightarrow> status kv s \<in> {Some GCing, Some BePulling} \<and> status kv' s = Some Serving
              | _ \<Rightarrow> False)))"

lemma skv_applyLog_effect:
  assumes "skv_applyLog op s kv = Inr (kv', r)" "skv_wf kv"
  shows "skv_wf kv' \<and> same_frame kv kv' \<and> (\<forall>t. status kv' t = status kv t)"
proof -
  from assms(1) obtain sh where sh: "shardAt s kv = Inr sh" by (auto simp: skv_applyLog_def split: sum.splits)
  have st: "status kv s = Some (shStatus sh)" using sh by (simp add: shardAt_Inr status_def)
  note wf = setShard_wf[OF assms(2) shardAt_id[OF assms(2) sh]]
  show ?thesis
  proof (cases "saOp op")
    case SGet
    with assms sh show ?thesis by (auto simp: skv_applyLog_def same_frame_def split: prod.splits)
  next
    case SPut
    with assms(1) sh have "kv' = setShard s (shard_Put (saKey op) (saValue op) sh) kv" by (simp add: skv_applyLog_def)
    with wf st show ?thesis by (simp add: same_frame_def status_setShard shard_Put_def)
  next
    case SAppend
    with assms(1) sh have "kv' = setShard s (shard_Append (saKey op) (saValue op) sh) kv" by (simp add: skv_applyLog_def)
    with wf st show ?thesis by (simp add: same_frame_def status_setShard shard_Append_def)
  qed
qed

lemma skv_applyLog_total:
  "skv_wf kv \<Longrightarrow> s \<in> shard_ids \<Longrightarrow> \<exists>kv' r. skv_applyLog op s kv = Inr (kv', r)"
  using shardAt_wf[of kv s] by (auto simp: skv_applyLog_def split: OperationType.splits prod.splits)

text \<open>The three ways an operation can go on a well-formed server.\<close>

lemma applyOperation_cases [consumes 1, case_names refused duplicate read update]:
  assumes "skv_wf kv"
  obtains (refused) "canServe (key2shard (saKey op)) kv = Inr False"
      "applyOperation op kv = Inr (kv, zero_sreply\<lparr>srErr := SErrWrongGroup\<rparr>)"
  | (duplicate) "canServe (key2shard (saKey op)) kv = Inr True" "saOp op \<noteq> SGet"
      "skv_isDuplicate (saClientId op) (saCommandId op) (svLastOperations kv)"
      "applyOperation op kv = Inr (kv, skv_lastReply (saClientId op) (svLastOperations kv))"
  | (read) r where "canServe (key2shard (saKey op)) kv = Inr True" "saOp op = SGet" "applyOperation op kv = Inr (kv, r)"
  | (update) kv1 where "canServe (key2shard (saKey op)) kv = Inr True" "saOp op \<noteq> SGet"
      "\<not> skv_isDuplicate (saClientId op) (saCommandId op) (svLastOperations kv)"
      "skv_applyLog op (key2shard (saKey op)) kv = Inr (kv1, zero_sreply)"
      "applyOperation op kv = Inr (kv1\<lparr>svLastOperations := mput (saClientId op)
         \<lparr>soMaxAppliedCommandId = saCommandId op, soLastReply = zero_sreply\<rparr> (svLastOperations kv)\<rparr>, zero_sreply)"
proof -
  let ?s = "key2shard (saKey op)"
  from skv_applyLog_total[OF assms key2shard_in] obtain kv1 r where l: "skv_applyLog op ?s kv = Inr (kv1, r)" by blast
  note fr = skv_applyLog_effect[OF l assms]
  obtain ok where ok: "canServe ?s kv = Inr ok" using canServe_wf[OF assms key2shard_in] by blast
  show thesis
  proof (cases ok)
    case False
    with ok refused show thesis by (simp add: applyOperation_def)
  next
    case ok': True
    show thesis
    proof (cases "saOp op = SGet")
      case True
      moreover from l True have "kv1 = kv" by (auto simp: skv_applyLog_def split: sum.splits prod.splits)
      ultimately show thesis using ok ok' l by (intro read) (simp_all add: applyOperation_def)
    next
      case up: False
      show thesis
      proof (cases "skv_isDuplicate (saClientId op) (saCommandId op) (svLastOperations kv)")
        case True
        with ok ok' up show thesis by (intro duplicate) (simp_all add: applyOperation_def)
      next
        case False
        have "r = zero_sreply" using l up by (auto simp: skv_applyLog_def split: sum.splits OperationType.splits)
        with False ok ok' up l fr show thesis by (intro update) (simp_all add: applyOperation_def same_frame_def)
      qed
    qed
  qed
qed

lemma mergeOperations_wf: "wf_map old \<Longrightarrow> wf_map (mergeOperations new old)"
  unfolding mergeOperations_def by (induction new arbitrary: old) (auto split: option.splits)

lemma skv_wf_update [simp]:
  "skv_wf (kv\<lparr>svLastOperations := ops\<rparr>) \<longleftrightarrow> wf_map (svStateMachine kv) \<and> set (mkeys (svStateMachine kv)) = shard_ids \<and>
     wf_map ops \<and> NShards \<le> length (cfShards (svCurrentConfig kv)) \<and> NShards \<le> length (cfShards (svLastConfig kv))"
  by (simp add: skv_wf_def)

lemma status_update [simp]: "status (kv\<lparr>svLastOperations := ops\<rparr>) s = status kv s"
  "status (kv\<lparr>svLastConfig := c1, svCurrentConfig := c2\<rparr>) s = status kv s"
  by (simp_all add: status_def)

lemma ids_list: "set (map int [0..<NShards]) = shard_ids" "distinct (map int [0..<NShards])"
  by (simp_all add: shard_ids_def image_int_atLeastLessThan distinct_map)

lemma skv_apply_effect:
  assumes "skv_apply c kv = Inr (kv', r)" and wf: "skv_wf kv"
  shows "skv_wf kv' \<and> skv_effect c kv kv'"
proof (cases c)
  case (Operation op)
  from wf show ?thesis
  proof (cases rule: applyOperation_cases[where op = op])
    case (update kv1)
    then have "kv' = kv1\<lparr>svLastOperations := mput (saClientId op)
         \<lparr>soMaxAppliedCommandId = saCommandId op, soLastReply = zero_sreply\<rparr> (svLastOperations kv)\<rparr>"
      using assms(1) Operation by (simp add: skv_apply_def)
    with wf Operation skv_applyLog_effect[OF update(4) wf] show ?thesis
      by (simp add: skv_effect_def same_frame_def skv_wf_def)
  qed (use assms Operation in \<open>auto simp: skv_apply_def skv_effect_def\<close>)
next
  case (Configuration cf)
  show ?thesis
  proof (cases "cfNum cf = cfNum (svCurrentConfig kv) + 1")
    case True
    from assms(1) Configuration True obtain kv1 where u: "updateShardStatus (map int [0..<NShards]) cf kv = Inr kv1"
      "kv' = kv1\<lparr>svLastConfig := svCurrentConfig kv1, svCurrentConfig := cf\<rparr>"
      by (auto simp: skv_apply_def applyConfiguration_def split: sum.splits)
    have "int (NShards - 1) \<in> set (map int [0..<NShards])" by (auto simp: NShards_def)
    from updateShardStatus_short[OF u(1) this] have len: "NShards \<le> length (cfShards cf)" by simp
    from updateShardStatus_ok[OF wf _ ids_list(2) len] ids_list(1) u(1) have
      "skv_wf kv1" "same_frame kv kv1" "\<forall>s \<in> shard_ids. status kv1 s =
         next_status (svGid kv) (cfShards (svCurrentConfig kv) ! nat s) (cfShards cf ! nat s) (status kv s)"
      by auto
    with u(2) len Configuration True wf show ?thesis by (simp add: skv_effect_def same_frame_def skv_wf_def)
  next
    case False
    with assms Configuration show ?thesis by (auto simp: skv_apply_def applyConfiguration_def skv_effect_def)
  qed
next
  case (InsertShards i)
  show ?thesis
  proof (cases "shrConfigNum i = cfNum (svCurrentConfig kv)")
    case True
    from assms(1) InsertShards True obtain kv1 where k: "insertLoop (shrShards i) kv = Inr kv1"
      "kv' = kv1\<lparr>svLastOperations := mergeOperations (shrLastOperations i) (svLastOperations kv1)\<rparr>"
      by (auto simp: skv_apply_def applyInsertShards_def split: sum.splits)
    from insertLoop_effect[OF k(1) wf] have i: "skv_wf kv1" "same_frame kv kv1" "\<And>s. status kv1 s = status kv s \<or>
        status kv s = Some Pulling \<and> status kv1 s = Some GCing \<and> s \<in> set (mkeys (shrShards i))"
      by auto
    then have "skv_wf kv'" using k(2) by (simp add: mergeOperations_wf skv_wf_def)
    with i InsertShards True k(2) show ?thesis by (auto simp: skv_effect_def same_frame_def)
  next
    case False
    with assms InsertShards show ?thesis by (auto simp: skv_apply_def applyInsertShards_def skv_effect_def)
  qed
next
  case (DeleteShards a)
  show ?thesis
  proof (cases "shaConfigNum a = cfNum (svCurrentConfig kv)")
    case True
    from assms(1) DeleteShards True have "deleteLoop (shaShardIDs a) kv = Inr kv'"
      by (auto simp: skv_apply_def applyDeleteShards_def split: sum.splits)
    from deleteLoop_effect[OF this wf] DeleteShards show ?thesis by (auto simp: skv_effect_def same_frame_def)
  next
    case False
    with assms DeleteShards show ?thesis by (auto simp: skv_apply_def applyDeleteShards_def skv_effect_def)
  qed
next
  case EmptyShards
  with assms show ?thesis by (auto simp: skv_apply_def skv_effect_def)
qed

lemma skv_apply_total:
  assumes wf: "skv_wf kv" and ok: "command_ok c"
  shows "\<exists>kv' r. skv_apply c kv = Inr (kv', r)"
proof (cases c)
  case (Operation op)
  from wf show ?thesis by (cases rule: applyOperation_cases[where op = op]) (simp_all add: skv_apply_def Operation)
next
  case (Configuration cf)
  with ok have "NShards \<le> length (cfShards cf)" by (simp add: command_ok_def)
  from updateShardStatus_ok[OF wf _ ids_list(2) this] ids_list(1) Configuration show ?thesis
    by (auto simp: skv_apply_def applyConfiguration_def)
next
  case (InsertShards i)
  with ok insertLoop_total[OF wf, of "shrShards i"] show ?thesis
    by (auto simp: command_ok_def skv_apply_def applyInsertShards_def)
next
  case (DeleteShards a)
  with ok deleteLoop_total[OF wf, of "shaShardIDs a"] show ?thesis
    by (auto simp: command_ok_def skv_apply_def applyDeleteShards_def)
qed (simp add: skv_apply_def)

subsection \<open>The session laws\<close>

lemma skv_isDuplicate_mput:
  "skv_isDuplicate k n (mput k' ctx ops) = (if k = k' then n \<le> soMaxAppliedCommandId ctx else skv_isDuplicate k n ops)"
  by (simp add: skv_isDuplicate_def)

lemma mergeOperations_Cons:
  "mergeOperations ((k, ctx) # new) old = mergeOperations new (if skv_isDuplicate k (soMaxAppliedCommandId ctx) old then old else mput k ctx old)"
  by (auto simp: mergeOperations_def skv_isDuplicate_def split: option.splits)

lemma mergeOperations_mono: "skv_isDuplicate k n old \<Longrightarrow> skv_isDuplicate k n (mergeOperations new old)"
proof (induction new arbitrary: old)
  case (Cons p new)
  obtain k' ctx where p: "p = (k', ctx)" by force
  have "skv_isDuplicate k n (if skv_isDuplicate k' (soMaxAppliedCommandId ctx) old then old else mput k' ctx old)"
    using Cons.prems by (auto simp: skv_isDuplicate_def split: option.splits)
  then show ?case unfolding p mergeOperations_Cons by (rule Cons.IH)
qed (simp add: mergeOperations_def)

lemma mergeOperations_covers:
  "(k, ctx) \<in> set new \<Longrightarrow> skv_isDuplicate k (soMaxAppliedCommandId ctx) (mergeOperations new old)"
proof (induction new arbitrary: old)
  case (Cons p new)
  obtain k' ctx' where p: "p = (k', ctx')" by force
  show ?case
  proof (cases "p = (k, ctx)")
    case True
    then show ?thesis unfolding True mergeOperations_Cons
      by (intro mergeOperations_mono) (simp add: skv_isDuplicate_mput)
  next
    case False
    with Cons show ?thesis by (auto simp: p mergeOperations_Cons)
  qed
qed simp

lemma mergeOperations_again:
  "(\<And>k ctx. (k, ctx) \<in> set new \<Longrightarrow> skv_isDuplicate k (soMaxAppliedCommandId ctx) old) \<Longrightarrow> mergeOperations new old = old"
proof (induction new arbitrary: old)
  case (Cons p new)
  obtain k ctx where p: "p = (k, ctx)" by force
  with Cons.prems have "skv_isDuplicate k (soMaxAppliedCommandId ctx) old" by auto
  with Cons p show ?case by (simp add: mergeOperations_Cons)
qed (simp add: mergeOperations_def)

lemma skv_apply_operations:
  assumes "skv_apply c kv = Inr (kv', r)" "skv_wf kv" "skv_isDuplicate k n (svLastOperations kv)"
  shows "skv_isDuplicate k n (svLastOperations kv')"
proof (cases c)
  case (Operation op)
  from assms(2) show ?thesis
  proof (cases rule: applyOperation_cases[where op = op])
    case (update kv1)
    with assms(1) Operation have "svLastOperations kv' = mput (saClientId op)
        \<lparr>soMaxAppliedCommandId = saCommandId op, soLastReply = zero_sreply\<rparr> (svLastOperations kv)"
      by (auto simp: skv_apply_def)
    with update(3) assms(3) show ?thesis by (auto simp: skv_isDuplicate_def split: option.splits)
  qed (use assms Operation in \<open>auto simp: skv_apply_def\<close>)
next
  case (InsertShards i)
  show ?thesis
  proof (cases "shrConfigNum i = cfNum (svCurrentConfig kv)")
    case True
    from assms(1) InsertShards True obtain kv1 where k: "insertLoop (shrShards i) kv = Inr kv1"
      "kv' = kv1\<lparr>svLastOperations := mergeOperations (shrLastOperations i) (svLastOperations kv1)\<rparr>"
      by (auto simp: skv_apply_def applyInsertShards_def split: sum.splits)
    with insertLoop_effect[OF k(1) assms(2)] assms(3) show ?thesis by (simp add: same_frame_def mergeOperations_mono)
  next
    case False
    with assms InsertShards show ?thesis by (auto simp: skv_apply_def applyInsertShards_def)
  qed
next
  case (DeleteShards a)
  with assms deleteLoop_effect[of "shaShardIDs a" kv kv'] show ?thesis
    by (auto simp: skv_apply_def applyDeleteShards_def same_frame_def split: if_splits sum.splits)
qed (use assms skv_apply_effect[OF assms(1,2)] in \<open>auto simp: skv_effect_def skv_apply_def split: if_splits\<close>)

definition sk_exec :: "SCommand \<Rightarrow> ShardCore res \<Rightarrow> ShardCore res \<times> SCommandReply res" where
  "sk_exec c s =
     (case s of Inl e \<Rightarrow> (Inl e, Inl e)
      | Inr kv \<Rightarrow> (case skv_apply c kv of Inl e \<Rightarrow> (Inl e, Inl e) | Inr (kv', r) \<Rightarrow> (Inr kv', Inr r)))"

definition sk_done :: "SCommand \<Rightarrow> 'a ShardCore_scheme \<Rightarrow> bool" where
  "sk_done c kv =
     (case c of
        Operation op \<Rightarrow> saOp op = SGet \<or> skv_isDuplicate (saClientId op) (saCommandId op) (svLastOperations kv)
      | Configuration cf \<Rightarrow> cfNum cf \<le> cfNum (svCurrentConfig kv)
      | InsertShards i \<Rightarrow> shrConfigNum i < cfNum (svCurrentConfig kv) \<or>
          shrConfigNum i = cfNum (svCurrentConfig kv) \<and>
          (\<forall>s \<in> set (mkeys (shrShards i)). s \<in> shard_ids \<and> status kv s \<noteq> Some Pulling) \<and>
          (\<forall>(k, ctx) \<in> set (shrLastOperations i). skv_isDuplicate k (soMaxAppliedCommandId ctx) (svLastOperations kv))
      | DeleteShards a \<Rightarrow> shaConfigNum a < cfNum (svCurrentConfig kv) \<or>
          shaConfigNum a = cfNum (svCurrentConfig kv) \<and> (\<forall>s \<in> set (shaShardIDs a). status kv s = Some Serving)
      | EmptyShards \<Rightarrow> True)"

text \<open>The entry takes effect now.\<close>

definition sk_due :: "SCommand \<Rightarrow> 'a ShardCore_scheme \<Rightarrow> bool" where
  "sk_due c kv =
     (case c of
        Operation op \<Rightarrow> saOp op \<noteq> SGet \<and> canServe (key2shard (saKey op)) kv = Inr True \<and>
          \<not> skv_isDuplicate (saClientId op) (saCommandId op) (svLastOperations kv)
      | Configuration cf \<Rightarrow> cfNum cf = cfNum (svCurrentConfig kv) + 1
      | InsertShards i \<Rightarrow> shrConfigNum i = cfNum (svCurrentConfig kv) \<and> wf_map (shrShards i) \<and>
          (\<forall>s \<in> set (mkeys (shrShards i)). status kv s = Some Pulling)
      | DeleteShards a \<Rightarrow> shaConfigNum a = cfNum (svCurrentConfig kv) \<and> distinct (shaShardIDs a) \<and>
          (\<forall>s \<in> set (shaShardIDs a). status kv s \<in> {Some GCing, Some BePulling})
      | EmptyShards \<Rightarrow> False)"

definition sk_seen :: "ShardCore res \<Rightarrow> SCommand \<Rightarrow> bool" where
  "sk_seen s c = (case s of Inl _ \<Rightarrow> True | Inr kv \<Rightarrow> sk_done c kv)"

definition sk_next :: "ShardCore res \<Rightarrow> SCommand \<Rightarrow> bool" where
  "sk_next s c = (case s of Inl _ \<Rightarrow> False | Inr kv \<Rightarrow> sk_due c kv)"

definition sk_ok :: "ShardCore res \<Rightarrow> bool" where
  "sk_ok s = (case s of Inl _ \<Rightarrow> True | Inr kv \<Rightarrow> skv_wf kv)"

lemma insertLoop_all:
  assumes "insertLoop d kv = Inr kv'" "wf_map d" "\<forall>s \<in> set (mkeys d). status kv s = Some Pulling"
  shows "(\<forall>s \<in> set (mkeys d). status kv' s = Some GCing) \<and> (\<forall>s. s \<notin> set (mkeys d) \<longrightarrow> status kv' s = status kv s)"
  using assms
proof (induction d arbitrary: kv)
  case (Cons p d)
  obtain s sd where p: "p = (s, sd)" by force
  from Cons.prems(1) obtain sh where sh: "shardAt s kv = Inr sh" by (auto simp: p split: sum.splits)
  with Cons.prems(3) have st: "shStatus sh = Pulling" by (auto simp: p status_def shardAt_Inr)
  let ?kv = "setShard s ((fold (\<lambda>(k, v). shard_Put k v) sd sh)\<lparr>shStatus := GCing\<rparr>) kv"
  have l: "insertLoop d ?kv = Inr kv'" using Cons.prems(1) sh st by (simp add: p)
  have ns: "s \<notin> set (mkeys d)" "wf_map d" using Cons.prems(2) by (auto simp: wf_map_def p)
  have "\<forall>t \<in> set (mkeys d). status ?kv t = Some Pulling"
    using Cons.prems(3) ns(1) by (auto simp: status_setShard)
  from Cons.IH[OF l ns(2) this] ns(1) show ?case by (auto simp: p status_setShard)
qed simp

lemma deleteLoop_all:
  assumes "deleteLoop ids kv = Inr kv'" "distinct ids" "\<forall>s \<in> set ids. status kv s \<in> {Some GCing, Some BePulling}"
  shows "(\<forall>s \<in> set ids. status kv' s = Some Serving) \<and> (\<forall>s. s \<notin> set ids \<longrightarrow> status kv' s = status kv s)"
  using assms
proof (induction ids arbitrary: kv)
  case (Cons s ids)
  from Cons.prems(1) obtain sh where sh: "shardAt s kv = Inr sh" by (auto split: sum.splits)
  with Cons.prems(3) have st: "shStatus sh = GCing \<or> shStatus sh = BePulling" by (auto simp: status_def shardAt_Inr)
  let ?kv = "setShard s (if shStatus sh = GCing then sh\<lparr>shStatus := Serving\<rparr> else NewShard) kv"
  have l: "deleteLoop ids ?kv = Inr kv'" using Cons.prems(1) sh st by (auto split: if_splits)
  have "\<forall>t \<in> set ids. status ?kv t \<in> {Some GCing, Some BePulling}"
    using Cons.prems(2,3) by (auto simp: status_setShard)
  from Cons.IH[OF l _ this] Cons.prems(2) show ?case by (auto simp: status_setShard NewShard_def)
qed simp

lemma sk_due_done:
  assumes "sk_due c kv" "skv_wf kv" "skv_apply c kv = Inr (kv', r)"
  shows "sk_done c kv'"
proof (cases c)
  case (Operation op)
  from assms(2) show ?thesis
  proof (cases rule: applyOperation_cases[where op = op])
    case (update kv1)
    with assms(3) Operation have "svLastOperations kv' = mput (saClientId op)
        \<lparr>soMaxAppliedCommandId = saCommandId op, soLastReply = zero_sreply\<rparr> (svLastOperations kv)"
      by (auto simp: skv_apply_def)
    with Operation show ?thesis by (simp add: sk_done_def skv_isDuplicate_mput)
  qed (use assms(1) Operation in \<open>simp_all add: sk_due_def\<close>)
next
  case (Configuration cf)
  with skv_apply_effect[OF assms(3,2)] assms(1) show ?thesis by (simp add: sk_due_def sk_done_def skv_effect_def)
next
  case (InsertShards i)
  with assms(1,3) obtain kv1 where k: "insertLoop (shrShards i) kv = Inr kv1"
    "kv' = kv1\<lparr>svLastOperations := mergeOperations (shrLastOperations i) (svLastOperations kv1)\<rparr>"
    by (auto simp: sk_due_def skv_apply_def applyInsertShards_def split: sum.splits)
  have "s \<in> shard_ids \<and> status kv1 s \<noteq> Some Pulling" if "s \<in> set (mkeys (shrShards i))" for s
  proof -
    have "status kv s = Some Pulling" using assms(1) InsertShards that by (auto simp: sk_due_def)
    then have "s \<in> fst ` set (svStateMachine kv)" by (auto simp: status_def keys_map_of)
    moreover have "status kv1 s = Some GCing"
      using insertLoop_all[OF k(1)] assms(1) InsertShards that by (auto simp: sk_due_def)
    ultimately show ?thesis using assms(2) by (simp add: skv_wf_def)
  qed
  moreover have "cfNum (svCurrentConfig kv1) = shrConfigNum i"
    using insertLoop_effect[OF k(1) assms(2)] assms(1) InsertShards by (simp add: same_frame_def sk_due_def)
  ultimately show ?thesis using InsertShards mergeOperations_covers by (auto simp: sk_done_def k(2))
next
  case (DeleteShards a)
  with assms(1,3) have d: "deleteLoop (shaShardIDs a) kv = Inr kv'" "shaConfigNum a = cfNum (svCurrentConfig kv)"
    by (auto simp: sk_due_def skv_apply_def applyDeleteShards_def split: sum.splits)
  with deleteLoop_all[OF d(1)] deleteLoop_effect[OF d(1) assms(2)] assms(1) DeleteShards show ?thesis
    by (simp add: sk_due_def sk_done_def same_frame_def)
qed (use assms(1) in \<open>simp add: sk_due_def\<close>)

lemma effect_num:
  "skv_effect c kv kv' \<Longrightarrow> cfNum (svCurrentConfig kv') = cfNum (svCurrentConfig kv) \<or>
     cfNum (svCurrentConfig kv') = cfNum (svCurrentConfig kv) + 1"
  by (cases c) (auto simp: skv_effect_def split: if_splits)

lemma effect_status:
  assumes "skv_effect c kv kv'" "cfNum (svCurrentConfig kv') = cfNum (svCurrentConfig kv)"
  shows "status kv s \<noteq> Some Pulling \<Longrightarrow> status kv' s \<noteq> Some Pulling"
    and "status kv s = Some Serving \<Longrightarrow> status kv' s = Some Serving"
proof -
  have "status kv' s = status kv s \<or> status kv s = Some Pulling \<and> status kv' s = Some GCing \<or>
      status kv s \<in> {Some GCing, Some BePulling} \<and> status kv' s = Some Serving"
    using assms by (cases c) (auto simp: skv_effect_def dest: spec[of _ s] split: if_splits)
  then show "status kv s \<noteq> Some Pulling \<Longrightarrow> status kv' s \<noteq> Some Pulling"
    and "status kv s = Some Serving \<Longrightarrow> status kv' s = Some Serving" by auto
qed

lemma sk_done_mono:
  assumes "sk_done c kv" "skv_wf kv" "skv_apply c' kv = Inr (kv', r)"
  shows "sk_done c kv'"
proof -
  note eff = skv_apply_effect[OF assms(3,2)]
  then have e: "skv_effect c' kv kv'" by simp
  note num = effect_num[OF e] effect_status[OF e]
  have ops: "skv_isDuplicate k n (svLastOperations kv')" if "skv_isDuplicate k n (svLastOperations kv)" for k n
    by (rule skv_apply_operations[OF assms(3,2) that])
  show ?thesis
  proof (cases c)
    case (InsertShards i)
    with assms(1) num ops show ?thesis by (fastforce simp: sk_done_def)
  qed (use assms(1) num ops in \<open>auto simp: sk_done_def\<close>)
qed

lemma sk_done_skip:
  assumes "sk_done c kv" "skv_wf kv"
  shows "\<exists>r. skv_apply c kv = Inr (kv, r)"
proof (cases c)
  case (Operation op)
  from assms(2) show ?thesis
    by (cases rule: applyOperation_cases[where op = op]) (use assms(1) Operation in \<open>auto simp: skv_apply_def sk_done_def\<close>)
next
  case (Configuration cf)
  with assms(1) show ?thesis by (simp add: skv_apply_def applyConfiguration_def sk_done_def)
next
  case (InsertShards i)
  show ?thesis
  proof (cases "shrConfigNum i = cfNum (svCurrentConfig kv)")
    case True
    with assms(1) InsertShards have i: "\<forall>s \<in> set (mkeys (shrShards i)). s \<in> shard_ids \<and> status kv s \<noteq> Some Pulling"
      "mergeOperations (shrLastOperations i) (svLastOperations kv) = svLastOperations kv"
      by (auto simp: sk_done_def intro!: mergeOperations_again)
    have "insertLoop (shrShards i) kv = Inr kv"
    proof (cases "shrShards i")
      case (Cons p d)
      obtain s sd where p: "p = (s, sd)" by force
      with i(1) Cons shardAt_wf[OF assms(2), of s] show ?thesis by (auto simp: status_def)
    qed simp
    with i(2) True InsertShards show ?thesis by (simp add: skv_apply_def applyInsertShards_def)
  next
    case False
    with InsertShards show ?thesis by (simp add: skv_apply_def applyInsertShards_def)
  qed
next
  case (DeleteShards a)
  show ?thesis
  proof (cases "shaConfigNum a = cfNum (svCurrentConfig kv)")
    case True
    with assms(1) DeleteShards have i: "\<forall>s \<in> set (shaShardIDs a). status kv s = Some Serving" by (auto simp: sk_done_def)
    have "deleteLoop (shaShardIDs a) kv = Inr kv"
    proof (cases "shaShardIDs a")
      case (Cons s ids)
      with i have "status kv s = Some Serving" by simp
      with Cons show ?thesis by (auto simp: status_def shardAt_def)
    qed simp
    with True DeleteShards show ?thesis by (simp add: skv_apply_def applyDeleteShards_def)
  next
    case False
    with DeleteShards show ?thesis by (simp add: skv_apply_def applyDeleteShards_def)
  qed
qed (simp add: skv_apply_def)

interpretation sk: session sk_exec sk_seen sk_next sk_ok
proof
  fix s op op'
  assume ok: "sk_ok s"
  show "sk_ok (fst (sk_exec op s))"
    using ok skv_apply_effect by (fastforce simp: sk_ok_def sk_exec_def split: sum.splits)
  show "sk_next s op \<Longrightarrow> sk_seen (fst (sk_exec op s)) op"
    using ok sk_due_done by (fastforce simp: sk_ok_def sk_exec_def sk_next_def sk_seen_def split: sum.splits)
  show "sk_seen s op \<Longrightarrow> sk_seen (fst (sk_exec op' s)) op"
    using ok sk_done_mono by (fastforce simp: sk_ok_def sk_exec_def sk_seen_def split: sum.splits)
  show "sk_seen s op \<Longrightarrow> fst (sk_exec op s) = s"
    using ok sk_done_skip by (fastforce simp: sk_ok_def sk_exec_def sk_seen_def split: sum.splits)
qed

end
