(* ===== verification/ShardGroups.thy ===== *)
theory ShardGroups
  imports ShardKV
begin

text \<open>
  The replica groups of \<open>src/src/shardkv\<close> together, under the configurations of the controller. Raft makes the
  replicas of a group execute one log, so a group is the list of the states its log has gone
  through, latest first; a replica, and so the leader that runs a monitor or answers a pull, may hold any of them.
  Commands reach the log of a group only through the handlers and monitors of \<open>ShardKV\<close>, and may be
  executed late and more than once.
\<close>

record shard_system =
  states :: "int \<Rightarrow> ShardCore list"
  submitted :: "(int \<times> SCommand) set"
  executed :: "(int \<times> SCommand) set"

definition head :: "shard_system \<Rightarrow> int \<Rightarrow> ShardCore" where
  "head sys g = hd (states sys g)"

definition num :: "'a ShardCore_scheme \<Rightarrow> nat" where
  "num kv = nat (cfNum (svCurrentConfig kv))"

definition submit :: "int \<Rightarrow> SCommand \<Rightarrow> shard_system \<Rightarrow> shard_system" where
  "submit g c sys = sys\<lparr>submitted := insert (g, c) (submitted sys)\<rparr>"

definition group_start :: "int \<Rightarrow> ShardCore" where
  "group_start g = restoreSnapshot []
     \<lparr>svGid = g, svLastConfig = DefaultConfig, svCurrentConfig = DefaultConfig, svStateMachine = [], svLastOperations = []\<rparr>"

definition system_init :: shard_system where
  "system_init = \<lparr>states = (\<lambda>g. [group_start g]), submitted = {}, executed = {}\<rparr>"

text \<open>The steps, for a controller whose query for number \<open>n\<close> gives \<open>hist n\<close>.\<close>

inductive system_step :: "(nat \<Rightarrow> Config) \<Rightarrow> shard_system \<Rightarrow> shard_system \<Rightarrow> bool" for hist where
  client: "system_step hist sys (submit g (Operation op) sys)"
| empty: "system_step hist sys (submit g EmptyShards sys)"
| configure: "kv \<in> set (states sys g) \<Longrightarrow> configurationAction (\<lambda>n. hist (nat n)) kv = Some c \<Longrightarrow>
    system_step hist sys (submit g c sys)"
| pull: "kv \<in> set (states sys g) \<Longrightarrow> getShardIDsByStatus Pulling kv = Inr tasks \<Longrightarrow> (a, ids) \<in> set tasks \<Longrightarrow>
    kva \<in> set (states sys a) \<Longrightarrow>
    pullShards \<lparr>shaConfigNum = cfNum (svCurrentConfig kv), shaShardIDs = ids\<rparr> kva = Inr r \<Longrightarrow> shrErr r = SOK \<Longrightarrow>
    system_step hist sys (submit g (InsertShards r) sys)"
| gc_remote: "kv \<in> set (states sys g) \<Longrightarrow> getShardIDsByStatus GCing kv = Inr tasks \<Longrightarrow> (a, ids) \<in> set tasks \<Longrightarrow>
    kva \<in> set (states sys a) \<Longrightarrow> \<not> cfNum (svCurrentConfig kva) > cfNum (svCurrentConfig kv) \<Longrightarrow>
    system_step hist sys (submit a (DeleteShards \<lparr>shaConfigNum = cfNum (svCurrentConfig kv), shaShardIDs = ids\<rparr>) sys)"
| gc_local: "kv \<in> set (states sys g) \<Longrightarrow> getShardIDsByStatus GCing kv = Inr tasks \<Longrightarrow> (a, ids) \<in> set tasks \<Longrightarrow>
    args = \<lparr>shaConfigNum = cfNum (svCurrentConfig kv), shaShardIDs = ids\<rparr> \<Longrightarrow>
    (a, DeleteShards args) \<in> executed sys \<or>
    (\<exists>kva \<in> set (states sys a). cfNum (svCurrentConfig kva) > cfNum (svCurrentConfig kv)) \<Longrightarrow>
    system_step hist sys (submit g (DeleteShards args) sys)"
| execute: "(g, c) \<in> submitted sys \<Longrightarrow> skv_apply c (head sys g) = Inr (kv', reply) \<Longrightarrow>
    system_step hist sys (sys\<lparr>states := (states sys)(g := kv' # states sys g), executed := insert (g, c) (executed sys)\<rparr>)"

inductive system_reachable :: "(nat \<Rightarrow> Config) \<Rightarrow> shard_system \<Rightarrow> bool" for hist where
  init: "system_reachable hist system_init"
| step: "system_reachable hist sys \<Longrightarrow> system_step hist sys sys' \<Longrightarrow> system_reachable hist sys'"

inductive_cases system_stepE: "system_step hist sys sys'"

text \<open>
  What the groups rely on from the controller: configurations are numbered, the first one assigns
  no shard, and a shard that has been assigned stays assigned.
\<close>

definition history :: "(nat \<Rightarrow> Config) \<Rightarrow> bool" where
  "history hist \<longleftrightarrow> hist 0 = DefaultConfig \<and> (\<forall>n. cfNum (hist n) = int n \<and> NShards \<le> length (cfShards (hist n)))"

definition owner :: "(nat \<Rightarrow> Config) \<Rightarrow> int \<Rightarrow> nat \<Rightarrow> int" where
  "owner hist s n = cfShards (hist n) ! nat s"

definition stays_assigned :: "(nat \<Rightarrow> Config) \<Rightarrow> bool" where
  "stays_assigned hist \<longleftrightarrow> (\<forall>s \<in> shard_ids. \<forall>n. owner hist s n \<noteq> 0 \<longrightarrow> owner hist s (Suc n) \<noteq> 0)"

text \<open>The history of a controller that is used carefully is one of these; a \<open>Leave\<close> of all groups or a \<open>Move\<close> to group 0 breaks it.\<close>

lemma careful_history:
  assumes "\<And>n. careful (map hist [0..<Suc n])"
  shows "history hist" "stays_assigned hist"
proof -
  have k: "kept (map hist [0..<Suc n])" for n by (rule careful_kept[OF assms])
  have at: "map hist [0..<Suc n] ! i = hist i" if "i \<le> n" for i n using that by (simp del: upt_Suc)
  have "hist 0 = DefaultConfig" using k[of 0] by (simp add: kept_def)
  moreover have "cfNum (hist n) = int n \<and> NShards \<le> length (cfShards (hist n))" for n
  proof -
    have "cfNum (map hist [0..<Suc n] ! n) = int n \<and> cf_valid (map hist [0..<Suc n] ! n)" using k[of n] unfolding kept_def by simp
    then show ?thesis unfolding at[OF order_refl] by (simp add: cf_valid_def)
  qed
  ultimately show "history hist" by (simp add: history_def)
  show "stays_assigned hist" unfolding stays_assigned_def
  proof (intro ballI allI impI)
    fix s n
    assume s: "s \<in> shard_ids" and o: "owner hist s n \<noteq> 0"
    have "nat s < NShards" using s by (auto simp: shard_ids_def)
    from kept_owner[OF k[of "Suc n"], of n, OF _ this] o show "owner hist s (Suc n) \<noteq> 0" by (simp add: owner_def at del: upt_Suc)
  qed
qed

subsection \<open>Groups follow the configurations\<close>

definition all_serving :: "'a ShardCore_scheme \<Rightarrow> bool" where
  "all_serving kv \<longleftrightarrow> (\<forall>s \<in> shard_ids. status kv s = Some Serving)"

definition state_ok :: "(nat \<Rightarrow> Config) \<Rightarrow> int \<Rightarrow> ShardCore \<Rightarrow> bool" where
  "state_ok hist g kv \<longleftrightarrow> skv_wf kv \<and> svGid kv = g \<and> 0 \<le> cfNum (svCurrentConfig kv) \<and> svCurrentConfig kv = hist (num kv) \<and>
     svLastConfig kv = hist (num kv - 1)"

text \<open>\<open>later kv h\<close>: what an earlier state of a group says about a later one.\<close>

definition later :: "ShardCore \<Rightarrow> ShardCore \<Rightarrow> bool" where
  "later kv h \<longleftrightarrow> num kv \<le> num h \<and>
     (num kv = num h \<longrightarrow> (\<forall>s. status kv s \<noteq> Some Pulling \<longrightarrow> status h s \<noteq> Some Pulling) \<and>
        (\<forall>s. status kv s = Some Serving \<longrightarrow> status h s = Some Serving))"

lemma later_refl: "later kv kv"
  by (simp add: later_def)

lemma later_trans: "later kv h \<Longrightarrow> later h k \<Longrightarrow> later kv k"
  by (auto simp: later_def)

text \<open>What is known of a submitted command.\<close>

definition cmd_inv :: "(nat \<Rightarrow> Config) \<Rightarrow> shard_system \<Rightarrow> int \<Rightarrow> SCommand \<Rightarrow> bool" where
  "cmd_inv hist sys g c =
     (case c of
        Configuration cf \<Rightarrow> (\<exists>kv \<in> set (states sys g). all_serving kv \<and> cf = hist (Suc (num kv)))
      | InsertShards r \<Rightarrow> (\<exists>kv \<in> set (states sys g). shrConfigNum r = cfNum (svCurrentConfig kv) \<and>
          (\<exists>a. a \<noteq> 0 \<and> (\<forall>s \<in> set (mkeys (shrShards r)). s \<in> shard_ids \<and> status kv s = Some Pulling \<and> owner hist s (num kv - 1) = a) \<and>
               (\<exists>kva \<in> set (states sys a). num kv \<le> num kva)))
      | _ \<Rightarrow> True)"

definition group_inv :: "(nat \<Rightarrow> Config) \<Rightarrow> shard_system \<Rightarrow> bool" where
  "group_inv hist sys \<longleftrightarrow>
     (\<forall>g. states sys g \<noteq> [] \<and> (\<forall>kv \<in> set (states sys g). state_ok hist g kv \<and> later kv (head sys g))) \<and>
     (\<forall>(g, c) \<in> submitted sys. cmd_inv hist sys g c)"

lemma statusLoop_spec:
  assumes "statusLoop st ls sm acc = Inr tasks" "(a, ids) \<in> set tasks" "wf_map acc"
    and "\<And>a ids s. (a, ids) \<in> set acc \<Longrightarrow> s \<in> set ids \<Longrightarrow> a \<noteq> 0 \<and> P s \<and> ls ! nat s = a"
    and "\<And>s sh. (s, sh) \<in> set sm \<Longrightarrow> shStatus sh = st \<Longrightarrow> P s"
    and "\<And>a ids. (a, ids) \<in> set acc \<Longrightarrow> a \<noteq> 0"
  shows "a \<noteq> 0 \<and> (\<forall>s \<in> set ids. P s \<and> ls ! nat s = a)"
  using assms
proof (induction st ls sm acc rule: statusLoop.induct)
  case (1 st ls acc)
  then show ?case by auto
next
  case (2 st ls shardID sh rest acc)
  show ?case
  proof (cases "shStatus sh = st")
    case True
    with "2.prems"(1) obtain gid where g: "go_nth ls shardID = Inr gid" by (auto split: sum.splits)
    let ?acc = "if gid \<noteq> 0 then mput gid (mget [] acc gid @ [shardID]) acc else acc"
    have r: "statusLoop st ls rest ?acc = Inr tasks" using "2.prems"(1) True g by simp
    have entry: "b \<noteq> 0 \<and> (\<forall>s \<in> set js. P s \<and> ls ! nat s = b)" if "(b, js) \<in> set ?acc" for b js
    proof (cases "gid \<noteq> 0 \<and> b = gid")
      case b: True
      with that have "js = mget [] acc gid @ [shardID]"
        using mget_mem[of ?acc b js "[]"] "2.prems"(3) by simp
      moreover have "P s \<and> ls ! nat s = b" if "s \<in> set (mget [] acc gid)" for s
        using "2.prems"(4)[OF mget_entry[OF that] that] b by simp
      moreover have "P shardID" using "2.prems"(5)[of shardID sh] True by simp
      ultimately show ?thesis using b g by (auto simp: go_nth_Inr)
    next
      case False
      then have "(b, js) \<in> set acc"
        using that wf_member[of ?acc b js] wf_member[of acc b js] "2.prems"(3) by (auto split: if_splits)
      then show ?thesis using "2.prems"(4,6) by blast
    qed
    show ?thesis
    proof (rule "2.IH"(1)[OF True g r "2.prems"(2)])
      show "wf_map ?acc" using "2.prems"(3) by simp
      show "b \<noteq> 0 \<and> P t \<and> ls ! nat t = b" if "(b, js) \<in> set ?acc" "t \<in> set js" for b js t
        using entry[OF that(1)] that(2) by blast
      show "P t" if "(t, sh') \<in> set rest" "shStatus sh' = st" for t sh'
        using "2.prems"(5)[of t sh'] that by simp
      show "b \<noteq> 0" if "(b, js) \<in> set ?acc" for b js
        using entry[OF that] by blast
    qed
  next
    case False
    then have r: "statusLoop st ls rest acc = Inr tasks" using "2.prems"(1) by simp
    show ?thesis
    proof (rule "2.IH"(2)[OF False r "2.prems"(2,3)])
      show "P t" if "(t, sh') \<in> set rest" "shStatus sh' = st" for t sh'
        using "2.prems"(5)[of t sh'] that by simp
    qed (use "2.prems"(4,6) in blast)+
  qed
qed

lemma getShardIDsByStatus_spec:
  assumes "getShardIDsByStatus st kv = Inr tasks" "(a, ids) \<in> set tasks" "skv_wf kv"
  shows "a \<noteq> 0 \<and> (\<forall>s \<in> set ids. s \<in> shard_ids \<and> status kv s = Some st \<and> cfShards (svLastConfig kv) ! nat s = a)"
proof -
  have P: "s \<in> shard_ids \<and> status kv s = Some st" if "(s, sh) \<in> set (svStateMachine kv)" "shStatus sh = st" for s sh
    using that assms(3) by (force simp: skv_wf_def status_def wf_member)
  show ?thesis
    using statusLoop_spec[OF assms(1)[unfolded getShardIDsByStatus_def] assms(2) wf_map_Nil,
        where P = "\<lambda>s. s \<in> shard_ids \<and> status kv s = Some st"] P by auto
qed

lemma copyShards_spec:
  "copyShards ids kv acc = Inr d \<Longrightarrow> wf_map acc \<Longrightarrow>
   wf_map d \<and> set (mkeys d) = set (mkeys acc) \<union> set ids \<and>
   (\<forall>s. map_of d s = (if s \<in> set ids then map_option shard_deepCopy (map_of (svStateMachine kv) s) else map_of acc s))"
proof (induction ids kv acc rule: copyShards.induct)
  case (2 s ids kv acc)
  from "2.prems"(1) obtain sh where sh: "shardAt s kv = Inr sh" by (auto split: sum.splits)
  with "2.prems" have "copyShards ids kv (mput s (shard_deepCopy sh) acc) = Inr d" by simp
  from "2.IH"[OF sh this] "2.prems"(2) sh show ?case by (auto simp: shardAt_Inr)
qed simp

lemma pullShards_spec:
  assumes "pullShards args kv = Inr r" "shrErr r = SOK"
  shows "shaConfigNum args \<le> cfNum (svCurrentConfig kv)" "shrConfigNum r = shaConfigNum args"
    "copyShards (shaShardIDs args) kv [] = Inr (shrShards r)" "shrLastOperations r = copyOperations (svLastOperations kv)"
    "wf_map (shrShards r)" "set (mkeys (shrShards r)) = set (shaShardIDs args)"
proof -
  have "\<not> cfNum (svCurrentConfig kv) < shaConfigNum args"
    using assms by (auto simp: pullShards_def zero_shreply_def)
  with assms obtain d where d: "copyShards (shaShardIDs args) kv [] = Inr d"
    "r = \<lparr>shrErr = SOK, shrConfigNum = shaConfigNum args, shrShards = d, shrLastOperations = copyOperations (svLastOperations kv)\<rparr>"
    by (auto simp: pullShards_def split: sum.splits)
  with copyShards_spec[OF d(1)] \<open>\<not> _\<close>
  show "shaConfigNum args \<le> cfNum (svCurrentConfig kv)" "shrConfigNum r = shaConfigNum args"
    "copyShards (shaShardIDs args) kv [] = Inr (shrShards r)" "shrLastOperations r = copyOperations (svLastOperations kv)"
    "wf_map (shrShards r)" "set (mkeys (shrShards r)) = set (shaShardIDs args)"
    by simp_all
qed

lemma initLoop_spec:
  "wf_map m \<Longrightarrow> wf_map (initLoop ids m) \<and>
   (\<forall>s. map_of (initLoop ids m) s = (if s \<in> set ids \<and> map_of m s = None then Some NewShard else map_of m s))"
  by (induction ids m rule: initLoop.induct) auto

lemma group_start_state:
  "map_of (svStateMachine (group_start g)) s = (if s \<in> shard_ids then Some NewShard else None)"
  "svGid (group_start g) = g" "svCurrentConfig (group_start g) = DefaultConfig" "svLastConfig (group_start g) = DefaultConfig"
  "svLastOperations (group_start g) = []" "wf_map (svStateMachine (group_start g))"
  using initLoop_spec[OF wf_map_Nil, of "map int [0..<NShards]"] ids_list(1)
  by (auto simp: group_start_def restoreSnapshot_def initStateMachines_def)

lemma group_start_ok:
  assumes "history hist"
  shows "state_ok hist g (group_start g)" "all_serving (group_start g)" "num (group_start g) = 0"
proof -
  have d: "NShards \<le> length (cfShards DefaultConfig)" "cfNum DefaultConfig = 0" by (simp_all add: DefaultConfig_def)
  show n: "num (group_start g) = 0" by (simp add: num_def group_start_state d)
  have "set (mkeys (svStateMachine (group_start g))) = shard_ids"
    by (auto simp: keys_map_of group_start_state)
  then have "skv_wf (group_start g)" using d by (simp add: skv_wf_def group_start_state)
  then show "state_ok hist g (group_start g)"
    using assms n by (simp add: state_ok_def group_start_state d history_def)
  show "all_serving (group_start g)" by (simp add: all_serving_def status_def group_start_state NewShard_def)
qed

lemma configurationAction_spec:
  assumes "configurationAction query kv = Some c" "skv_wf kv"
  shows "all_serving kv \<and> c = Configuration (query (cfNum (svCurrentConfig kv) + 1))"
proof -
  from assms(1) have chk: "configurationCheck kv = Some (cfNum (svCurrentConfig kv))"
    and c: "c = Configuration (query (cfNum (svCurrentConfig kv) + 1))"
    by (auto simp: configurationAction_def configurationCheck_def split: if_splits)
  have "status kv s = Some Serving" if s: "s \<in> shard_ids" for s
  proof -
    from shardAt_wf[OF assms(2) s] obtain sh where sh: "map_of (svStateMachine kv) s = Some sh" by blast
    with chk map_of_SomeD[OF sh] show ?thesis
      by (auto simp: configurationCheck_def list_all_iff status_def split: if_splits)
  qed
  with c show ?thesis by (simp add: all_serving_def)
qed

lemma group_invD:
  assumes "group_inv hist sys"
  shows "(g, c) \<in> submitted sys \<Longrightarrow> cmd_inv hist sys g c" "states sys g \<noteq> []"
    "kv \<in> set (states sys g) \<Longrightarrow> state_ok hist g kv" "kv \<in> set (states sys g) \<Longrightarrow> later kv (head sys g)"
    "state_ok hist g (head sys g)" "head sys g \<in> set (states sys g)"
  using assms by (auto simp: group_inv_def head_def)

lemma cmd_inv_mono:
  "cmd_inv hist sys g c \<Longrightarrow> (\<And>a. set (states sys a) \<subseteq> set (states sys' a)) \<Longrightarrow> cmd_inv hist sys' g c"
  unfolding cmd_inv_def by (cases c) (simp_all, (meson subsetD)+)

lemma submit_sel [simp]: "states (submit g c sys) = states sys" "executed (submit g c sys) = executed sys"
  "submitted (submit g c sys) = insert (g, c) (submitted sys)" "head (submit g c sys) = head sys"
  by (simp_all add: submit_def head_def fun_eq_iff)

lemma group_inv_submit:
  assumes "group_inv hist sys" "cmd_inv hist sys g c"
  shows "group_inv hist (submit g c sys)"
proof -
  have "cmd_inv hist (submit g c sys) h d" if "cmd_inv hist sys h d" for h d
    by (rule cmd_inv_mono[OF that]) simp
  with assms show ?thesis by (auto simp: group_inv_def)
qed

definition execute_step :: "int \<Rightarrow> SCommand \<Rightarrow> ShardCore \<Rightarrow> shard_system \<Rightarrow> shard_system" where
  "execute_step g c kv' sys =
     sys\<lparr>states := (states sys)(g := kv' # states sys g), executed := insert (g, c) (executed sys)\<rparr>"

lemma execute_sel [simp]: "states (execute_step g c kv' sys) = (states sys)(g := kv' # states sys g)"
  "submitted (execute_step g c kv' sys) = submitted sys" "executed (execute_step g c kv' sys) = insert (g, c) (executed sys)"
  "head (execute_step g c kv' sys) = (head sys)(g := kv')"
  by (simp_all add: execute_step_def head_def fun_eq_iff)

lemma num_of_nat: "cfNum (svCurrentConfig kv) = int n \<Longrightarrow> num kv = n"
  by (simp add: num_def)

lemma state_ok_num: "state_ok hist g kv \<Longrightarrow> cfNum (svCurrentConfig kv) = int (num kv)"
  by (simp add: state_ok_def num_def)

text \<open>Executing a command: the configuration moves to the next one only when every shard is being served.\<close>

lemma execute_state:
  assumes h: "history hist" and inv: "group_inv hist sys" and sub: "(g, c) \<in> submitted sys"
    and app: "skv_apply c (head sys g) = Inr (kv', r)"
  shows "state_ok hist g kv' \<and> later (head sys g) kv' \<and>
    (num kv' = num (head sys g) \<or> num kv' = Suc (num (head sys g)) \<and> all_serving (head sys g) \<and> c = Configuration (hist (num kv')))"
proof -
  let ?h = "head sys g"
  have ok: "state_ok hist g ?h" by (rule group_invD(5)[OF inv])
  then have wf: "skv_wf ?h" by (simp add: state_ok_def)
  from skv_apply_effect[OF app wf] have e: "skv_wf kv'" "skv_effect c ?h kv'" by auto
  show ?thesis
  proof (cases "\<exists>cf. c = Configuration cf \<and> cfNum cf = cfNum (svCurrentConfig ?h) + 1")
    case True
    then obtain cf where cf: "c = Configuration cf" "cfNum cf = cfNum (svCurrentConfig ?h) + 1" by blast
    from group_invD(1)[OF inv sub] cf(1) obtain kv where kv: "kv \<in> set (states sys g)" "all_serving kv" "cf = hist (Suc (num kv))"
      by (auto simp: cmd_inv_def)
    have n: "num kv = num ?h" using cf(2) kv(3) h state_ok_num[OF ok] by (simp add: history_def)
    have "later kv ?h" by (rule group_invD(4)[OF inv kv(1)])
    with kv(2) n have srv: "all_serving ?h" by (simp add: later_def all_serving_def)
    have cur: "svCurrentConfig kv' = cf" "svLastConfig kv' = svCurrentConfig ?h" "svGid kv' = svGid ?h"
      using e(2) cf by (simp_all add: skv_effect_def)
    have n': "num kv' = Suc (num ?h)" using cur(1) kv(3) n h by (intro num_of_nat) (simp add: history_def)
    have "state_ok hist g kv'" using ok e(1) cur kv(3) n n' h by (simp add: state_ok_def history_def)
    moreover have "later ?h kv'" using n' by (simp add: later_def)
    ultimately show ?thesis using n' srv cf(1) kv(3) n by simp
  next
    case False
    then have same: "svGid kv' = svGid ?h" "svCurrentConfig kv' = svCurrentConfig ?h" "svLastConfig kv' = svLastConfig ?h"
      using e(2) by (cases c; auto simp: skv_effect_def split: if_splits)+
    then have "num kv' = num ?h" by (simp add: num_def)
    moreover have "later ?h kv'" using effect_status[OF e(2)] same(2) by (simp add: later_def num_def)
    moreover have "state_ok hist g kv'" using ok same e(1) by (simp add: state_ok_def num_def)
    ultimately show ?thesis by simp
  qed
qed

lemma group_inv_execute:
  assumes h: "history hist" and inv: "group_inv hist sys" and sub: "(g, c) \<in> submitted sys"
    and app: "skv_apply c (head sys g) = Inr (kv', r)"
  shows "group_inv hist (execute_step g c kv' sys)"
proof -
  note ex = execute_state[OF assms]
  have "cmd_inv hist (execute_step g c kv' sys) f d" if "cmd_inv hist sys f d" for f d
    by (rule cmd_inv_mono[OF that]) auto
  moreover have "state_ok hist f kv \<and> later kv (head (execute_step g c kv' sys) f)"
    if "kv \<in> set (states (execute_step g c kv' sys) f)" for f kv
  proof (cases "f = g")
    case True
    show ?thesis
    proof (cases "kv = kv'")
      case True
      with ex \<open>f = g\<close> show ?thesis by (simp add: later_refl)
    next
      case False
      with that True have "kv \<in> set (states sys g)" by simp
      with group_invD(3,4)[OF inv] have "state_ok hist g kv" "later kv (head sys g)" by auto
      with ex True later_trans show ?thesis by auto
    qed
  next
    case False
    with group_invD(3,4)[OF inv] that show ?thesis by auto
  qed
  ultimately show ?thesis using group_invD(1,2)[OF inv] unfolding group_inv_def by auto
qed

lemma pull_cmd:
  assumes h: "history hist" and inv: "group_inv hist sys" and kv: "kv \<in> set (states sys g)" "getShardIDsByStatus Pulling kv = Inr tasks"
    "(a, ids) \<in> set tasks" and kva: "kva \<in> set (states sys a)"
    "pullShards \<lparr>shaConfigNum = cfNum (svCurrentConfig kv), shaShardIDs = ids\<rparr> kva = Inr r" "shrErr r = SOK"
  shows "cmd_inv hist sys g (InsertShards r)"
proof -
  note p = pullShards_spec[OF kva(2,3)]
  have ok: "state_ok hist g kv" "state_ok hist a kva" using group_invD(3)[OF inv] kv(1) kva(1) by auto
  then have wf: "skv_wf kv" by (simp add: state_ok_def)
  note sp = getShardIDsByStatus_spec[OF kv(2,3) wf]
  have "num kv \<le> num kva" using p(1) by (simp add: num_def nat_mono)
  moreover have "\<forall>s \<in> set (mkeys (shrShards r)). s \<in> shard_ids \<and> status kv s = Some Pulling \<and> owner hist s (num kv - 1) = a"
    using sp p(6) ok(1) by (simp add: owner_def state_ok_def)
  ultimately show ?thesis using kv(1) kva(1) p(2) sp unfolding cmd_inv_def by auto
qed

lemma group_inv_step:
  assumes h: "history hist" and inv: "group_inv hist sys" and st: "system_step hist sys sys'"
  shows "group_inv hist sys'"
  using st
proof (cases rule: system_step.cases)
  case (configure kv g c)
  then have ok: "state_ok hist g kv" using group_invD(3)[OF inv] by auto
  with configurationAction_spec[OF configure(3)] have "all_serving kv" "c = Configuration (hist (Suc (num kv)))"
    by (auto simp: state_ok_def num_def Suc_nat_eq_nat_zadd1 add.commute)
  with configure(2) have "cmd_inv hist sys g c" by (auto simp: cmd_inv_def)
  with configure(1) group_inv_submit[OF inv] show ?thesis by simp
next
  case (pull kv g tasks a ids kva r)
  with group_inv_submit[OF inv] pull_cmd[OF h inv] show ?thesis by blast
next
  case (execute g c kv' reply)
  with group_inv_execute[OF h inv] show ?thesis by (simp flip: execute_step_def)
qed (use group_inv_submit[OF inv] in \<open>auto simp: cmd_inv_def\<close>)

lemma group_inv_init: "history hist \<Longrightarrow> group_inv hist system_init"
  using group_start_ok by (simp add: group_inv_def system_init_def head_def later_refl)

lemma group_inv_reachable: "system_reachable hist sys \<Longrightarrow> history hist \<Longrightarrow> group_inv hist sys"
  by (induction rule: system_reachable.induct) (auto intro: group_inv_init group_inv_step)

subsection \<open>One group serves a shard\<close>

text \<open>The group has reached configuration \<open>j\<close> and has the shard.\<close>

definition arrived :: "shard_system \<Rightarrow> int \<Rightarrow> nat \<Rightarrow> int \<Rightarrow> bool" where
  "arrived sys g j s \<longleftrightarrow> j < num (head sys g) \<or> j = num (head sys g) \<and> status (head sys g) s \<noteq> Some Pulling"

text \<open>A group has a shard only when all earlier owners have moved past the configuration that took it from them.\<close>

definition own_inv :: "(nat \<Rightarrow> Config) \<Rightarrow> shard_system \<Rightarrow> bool" where
  "own_inv hist sys \<longleftrightarrow> (\<forall>s \<in> shard_ids. \<forall>j. owner hist s j \<noteq> 0 \<longrightarrow> arrived sys (owner hist s j) j s \<longrightarrow>
     (\<forall>i < j. owner hist s i \<noteq> 0 \<longrightarrow> owner hist s i \<noteq> owner hist s (Suc i) \<longrightarrow> i < num (head sys (owner hist s i))))"

lemma own_invD:
  "own_inv hist sys \<Longrightarrow> s \<in> shard_ids \<Longrightarrow> owner hist s j \<noteq> 0 \<Longrightarrow> arrived sys (owner hist s j) j s \<Longrightarrow> i < j \<Longrightarrow>
   owner hist s i \<noteq> 0 \<Longrightarrow> owner hist s i \<noteq> owner hist s (Suc i) \<Longrightarrow> i < num (head sys (owner hist s i))"
  unfolding own_inv_def by blast

lemma own_inv_same:
  assumes "head sys' = head sys" "own_inv hist sys"
  shows "own_inv hist sys'"
  using assms(2) unfolding own_inv_def arrived_def assms(1) .

lemma assigned_earlier: "stays_assigned hist \<Longrightarrow> s \<in> shard_ids \<Longrightarrow> owner hist s n = 0 \<Longrightarrow> i \<le> n \<Longrightarrow> owner hist s i = 0"
proof (induction n)
  case (Suc n)
  then show ?case unfolding stays_assigned_def by (metis le_Suc_eq)
qed simp

lemma effect_inserted:
  assumes "skv_effect c kv kv'" "svCurrentConfig kv' = svCurrentConfig kv" "status kv s = Some Pulling" "status kv' s \<noteq> Some Pulling"
  shows "\<exists>ir. c = InsertShards ir \<and> shrConfigNum ir = cfNum (svCurrentConfig kv) \<and> s \<in> set (mkeys (shrShards ir)) \<and>
    status kv' s = Some GCing"
proof (cases c)
  case (InsertShards ir)
  with assms(1) have "status kv' s = status kv s \<or> shrConfigNum ir = cfNum (svCurrentConfig kv) \<and>
      s \<in> set (mkeys (shrShards ir)) \<and> status kv s = Some Pulling \<and> status kv' s = Some GCing"
    by (simp add: skv_effect_def)
  with assms(3,4) InsertShards show ?thesis by auto
qed (use assms in \<open>auto simp: skv_effect_def dest: spec[of _ s] split: if_splits\<close>)

lemma own_inv_execute:
  assumes h: "history hist" "stays_assigned hist" and inv: "group_inv hist sys" and own: "own_inv hist sys"
    and sub: "(g, c) \<in> submitted sys" and app: "skv_apply c (head sys g) = Inr (kv', r)"
  shows "own_inv hist (execute_step g c kv' sys)"
  unfolding own_inv_def
proof (intro ballI allI impI)
  let ?sys = "execute_step g c kv' sys" and ?h = "head sys g"
  fix s j i
  assume s: "s \<in> shard_ids" and g0: "owner hist s j \<noteq> 0" and arr: "arrived ?sys (owner hist s j) j s"
    and i: "i < j" "owner hist s i \<noteq> 0" "owner hist s i \<noteq> owner hist s (Suc i)"
  note ex = execute_state[OF h(1) inv sub app]
  have okh: "state_ok hist g ?h" "skv_wf ?h" using group_invD(5)[OF inv, of g] by (auto simp: state_ok_def)
  have e: "skv_effect c ?h kv'" using skv_apply_effect[OF app okh(2)] by simp
  have mono: "num (head sys f) \<le> num (head ?sys f)" for f using ex by (auto simp: later_def)
  have old: "i < num (head ?sys (owner hist s i))" if "arrived sys (owner hist s j) j s"
    using own_invD[OF own s g0 that i] mono by (meson less_le_trans)
  show "i < num (head ?sys (owner hist s i))"
  proof (cases "arrived sys (owner hist s j) j s")
    case False
    then have o: "owner hist s j = g" using arr by (auto simp: arrived_def split: if_splits)
    show ?thesis
    proof (cases "num kv' = num ?h")
      case True
      \<comment> \<open>the shard has just been inserted\<close>
      then have j: "j = num ?h" "status ?h s = Some Pulling" "status kv' s \<noteq> Some Pulling"
        using False arr o by (auto simp: arrived_def)
      have cur: "svCurrentConfig kv' = svCurrentConfig ?h"
        using True ex okh(1) by (simp add: state_ok_def)
      obtain ir where ir: "c = InsertShards ir" "shrConfigNum ir = cfNum (svCurrentConfig ?h)" "s \<in> set (mkeys (shrShards ir))"
        using effect_inserted[OF e cur j(2,3)] by blast
      from group_invD(1)[OF inv sub] ir(1) obtain kv a kva where kv: "kv \<in> set (states sys g)"
        "shrConfigNum ir = cfNum (svCurrentConfig kv)" "a \<noteq> 0"
        "\<forall>s \<in> set (mkeys (shrShards ir)). s \<in> shard_ids \<and> status kv s = Some Pulling \<and> owner hist s (num kv - 1) = a"
        "kva \<in> set (states sys a)" "num kv \<le> num kva"
        by (auto simp: cmd_inv_def)
      have n: "num kv = j" using kv(2) ir(2) j(1) by (simp add: num_def)
      have a: "owner hist s (j - 1) = a" using kv(4) ir(3) n by blast
      have "num kva \<le> num (head sys a)" using group_invD(4)[OF inv kv(5)] by (simp add: later_def)
      then have ja: "j \<le> num (head sys a)" using kv(6) n by simp
      show ?thesis
      proof (cases "i = j - 1")
        case True
        with a ja i(1) mono[of a] show ?thesis by simp
      next
        case False
        with i(1) have "i < j - 1" by simp
        moreover have "arrived sys a (j - 1) s" using ja i(1) unfolding arrived_def by linarith
        ultimately have "i < num (head sys (owner hist s i))"
          using own_invD[OF own s, of "j - 1" i] a kv(3) i(2,3) by simp
        with mono show ?thesis by (meson less_le_trans)
      qed
    next
      case False
      with ex have n: "num kv' = Suc (num ?h)" "all_serving ?h" "c = Configuration (hist (num kv'))" by auto
      have at: "arrived sys g (num ?h) s" using n(2) s by (simp add: arrived_def all_serving_def)
      have j: "j = Suc (num ?h)" "status kv' s \<noteq> Some Pulling"
        using \<open>\<not> arrived sys (owner hist s j) j s\<close> arr o n(1) at by (auto simp: arrived_def less_Suc_eq)
      have "status kv' s = next_status g (owner hist s (num ?h)) (owner hist s j) (status ?h s)"
        using e n j(1) s okh(1) state_ok_num[OF okh(1)] h(1)
        by (simp add: skv_effect_def owner_def state_ok_def history_def)
      with j(2) o have "owner hist s (num ?h) = g \<or> owner hist s (num ?h) = 0" by (auto simp: next_status_def split: if_splits)
      then show ?thesis
      proof
        assume og: "owner hist s (num ?h) = g"
        with i(3) j(1) o have "i \<noteq> num ?h" by auto
        with i(1) j(1) have "i < num ?h" by simp
        with own_invD[OF own s, of "num ?h" i] og at g0 o i(2,3) have "i < num (head sys (owner hist s i))" by simp
        with mono show ?thesis by (meson less_le_trans)
      next
        assume "owner hist s (num ?h) = 0"
        with assigned_earlier[OF h(2) s, of "num ?h" i] i(1,2) j(1) show ?thesis by simp
      qed
    qed
  qed (use old in simp)
qed

lemma own_inv_reachable:
  "system_reachable hist sys \<Longrightarrow> history hist \<Longrightarrow> stays_assigned hist \<Longrightarrow> own_inv hist sys"
proof (induction rule: system_reachable.induct)
  case init
  then show ?case
    using group_start_ok(3) by (auto simp: own_inv_def arrived_def system_init_def head_def)
next
  case (step sys sys')
  note inv = group_inv_reachable[OF step.hyps(1) step.prems(1)]
  from step.hyps(2) show ?case
  proof (cases rule: system_step.cases)
    case (execute g c kv' reply)
    with own_inv_execute[OF step.prems inv step.IH[OF step.prems]] show ?thesis by (simp flip: execute_step_def)
  qed (use step.IH[OF step.prems] own_inv_same in \<open>auto\<close>)
qed

lemma owner_change: "n < m \<Longrightarrow> owner hist s n = a \<Longrightarrow> owner hist s m \<noteq> a \<Longrightarrow> \<exists>i. n \<le> i \<and> i < m \<and> owner hist s i = a \<and> owner hist s (Suc i) \<noteq> a"
proof (induction m)
  case (Suc m)
  then show ?case by (metis less_Suc_eq less_or_eq_imp_le le_refl)
qed simp

lemma exclusive:
  assumes h: "history hist" "stays_assigned hist" and r: "system_reachable hist sys" and s: "s \<in> shard_ids"
    and a: "canServe s (head sys a) = Inr True" "a \<noteq> 0" and b: "canServe s (head sys b) = Inr True" "b \<noteq> 0"
    and le: "num (head sys a) \<le> num (head sys b)"
  shows "a = b"
proof (rule ccontr)
  assume ne: "a \<noteq> b"
  note inv = group_inv_reachable[OF r h(1)]
  have own: "owner hist s (num (head sys f)) = f \<and> arrived sys f (num (head sys f)) s"
    if "canServe s (head sys f) = Inr True" for f
  proof -
    have ok: "state_ok hist f (head sys f)" by (rule group_invD(5)[OF inv])
    then have "skv_wf (head sys f)" by (simp add: state_ok_def)
    from canServe_wf[OF this s] that ok show ?thesis by (auto simp: owner_def state_ok_def arrived_def)
  qed
  let ?n = "num (head sys a)" and ?m = "num (head sys b)"
  have "?n \<noteq> ?m" using own[OF a(1)] own[OF b(1)] ne by auto
  with le have "?n < ?m" by simp
  from owner_change[OF this, of hist s a] own[OF a(1)] own[OF b(1)] ne obtain i where
    i: "?n \<le> i" "i < ?m" "owner hist s i = a" "owner hist s (Suc i) \<noteq> a" by auto
  have "i < num (head sys (owner hist s i))"
    using own_invD[OF own_inv_reachable[OF r h] s, of ?m i] own[OF b(1)] b(2) i a(2) by simp
  with i show False by simp
qed

subsection \<open>What an entry does to one shard\<close>

definition shard_of :: "'a ShardCore_scheme \<Rightarrow> int \<Rightarrow> Shard" where
  "shard_of kv s = the (map_of (svStateMachine kv) s)"

lemma shard_of_wf: "skv_wf kv \<Longrightarrow> s \<in> shard_ids \<Longrightarrow> map_of (svStateMachine kv) s = Some (shard_of kv s)"
  using shardAt_wf[of kv s] by (auto simp: shard_of_def)

lemma status_shard_of: "skv_wf kv \<Longrightarrow> s \<in> shard_ids \<Longrightarrow> status kv s = Some (shStatus (shard_of kv s))"
  by (simp add: status_def shard_of_wf)

lemma shard_of_setShard: "shard_of (setShard s sh kv) t = (if t = s then sh else shard_of kv t)"
  by (simp add: shard_of_def)

definition put_all :: "(string, string) gomap \<Rightarrow> Shard \<Rightarrow> Shard" where
  "put_all d sh = fold (\<lambda>(k, v). shard_Put k v) d sh"

definition shard_step :: "SCommand \<Rightarrow> 'a ShardCore_scheme \<Rightarrow> int \<Rightarrow> Shard \<Rightarrow> bool" where
  "shard_step c kv s sh' \<longleftrightarrow> sh' = shard_of kv s \<or>
     (case c of
        Operation op \<Rightarrow> canServe s kv = Inr True \<and> shStatus sh' = shStatus (shard_of kv s) \<and>
          (\<exists>k v. shKV sh' = mput k v (shKV (shard_of kv s)))
      | Configuration cf \<Rightarrow> cfNum cf = cfNum (svCurrentConfig kv) + 1 \<and> shKV sh' = shKV (shard_of kv s)
      | InsertShards r \<Rightarrow> shrConfigNum r = cfNum (svCurrentConfig kv) \<and> shStatus (shard_of kv s) = Pulling \<and>
          (\<exists>d. (s, d) \<in> set (shrShards r) \<and> sh' = (put_all d (shard_of kv s))\<lparr>shStatus := GCing\<rparr>)
      | DeleteShards a \<Rightarrow> shaConfigNum a = cfNum (svCurrentConfig kv) \<and> s \<in> set (shaShardIDs a) \<and>
          (shStatus (shard_of kv s) = GCing \<and> sh' = (shard_of kv s)\<lparr>shStatus := Serving\<rparr> \<or>
           shStatus (shard_of kv s) = BePulling \<and> sh' = NewShard)
      | EmptyShards \<Rightarrow> False)"

lemma insertLoop_shard:
  "insertLoop d kv = Inr kv' \<Longrightarrow> skv_wf kv \<Longrightarrow> s \<in> shard_ids \<Longrightarrow> shard_of kv' s = shard_of kv s \<or>
     shStatus (shard_of kv s) = Pulling \<and> (\<exists>sd. (s, sd) \<in> set d \<and> shard_of kv' s = (put_all sd (shard_of kv s))\<lparr>shStatus := GCing\<rparr>)"
proof (induction d arbitrary: kv)
  case (Cons p d)
  obtain t sd where p: "p = (t, sd)" by force
  from Cons.prems(1) obtain sh where sh: "shardAt t kv = Inr sh" by (auto simp: p split: sum.splits)
  then have so: "shard_of kv t = sh" by (simp add: shard_of_def shardAt_Inr)
  show ?case
  proof (cases "shStatus sh = Pulling")
    case True
    let ?sh = "(put_all sd sh)\<lparr>shStatus := GCing\<rparr>"
    have l: "insertLoop d (setShard t ?sh kv) = Inr kv'" using Cons.prems(1) sh True by (simp add: p put_all_def)
    have wf: "skv_wf (setShard t ?sh kv)" by (rule setShard_wf[OF Cons.prems(2) shardAt_id[OF Cons.prems(2) sh]])
    from Cons.IH[OF l wf Cons.prems(3)] True so show ?thesis
      by (cases "s = t") (auto simp: shard_of_setShard p)
  next
    case False
    with Cons.prems(1) sh show ?thesis by (simp add: p)
  qed
qed simp

lemma deleteLoop_shard:
  "deleteLoop ids kv = Inr kv' \<Longrightarrow> skv_wf kv \<Longrightarrow> s \<in> shard_ids \<Longrightarrow> shard_of kv' s = shard_of kv s \<or> s \<in> set ids \<and>
     (shStatus (shard_of kv s) = GCing \<and> shard_of kv' s = (shard_of kv s)\<lparr>shStatus := Serving\<rparr> \<or>
      shStatus (shard_of kv s) = BePulling \<and> shard_of kv' s = NewShard)"
proof (induction ids arbitrary: kv)
  case (Cons t ids)
  from Cons.prems(1) obtain sh where sh: "shardAt t kv = Inr sh" by (auto split: sum.splits)
  then have so: "shard_of kv t = sh" by (simp add: shard_of_def shardAt_Inr)
  show ?case
  proof (cases "shStatus sh = GCing \<or> shStatus sh = BePulling")
    case True
    let ?sh = "if shStatus sh = GCing then sh\<lparr>shStatus := Serving\<rparr> else NewShard"
    have l: "deleteLoop ids (setShard t ?sh kv) = Inr kv'" using Cons.prems(1) sh True by (auto split: if_splits)
    have wf: "skv_wf (setShard t ?sh kv)" by (rule setShard_wf[OF Cons.prems(2) shardAt_id[OF Cons.prems(2) sh]])
    from Cons.IH[OF l wf Cons.prems(3)] True so show ?thesis
      by (cases "s = t") (auto simp: shard_of_setShard NewShard_def split: if_splits)
  next
    case False
    with Cons.prems(1) sh show ?thesis by simp
  qed
qed simp

lemma updateShardStatus_KV:
  "updateShardStatus ids c kv = Inr kv' \<Longrightarrow> shKV (shard_of kv' s) = shKV (shard_of kv s)"
proof (induction ids c kv rule: updateShardStatus.induct)
  case (2 t ids c kv)
  from "2.prems" obtain cur nxt where g: "go_nth (cfShards (svCurrentConfig kv)) t = Inr cur" "go_nth (cfShards c) t = Inr nxt"
    by (auto split: sum.splits)
  define new where "new = (if cur \<noteq> svGid kv \<and> nxt = svGid kv \<and> cur \<noteq> 0 then Some Pulling
      else if cur = svGid kv \<and> nxt \<noteq> svGid kv \<and> nxt \<noteq> 0 then Some BePulling else None)"
  show ?case
  proof (cases new)
    case None
    with "2.prems" g have "updateShardStatus ids c kv = Inr kv'" by (simp add: Let_def flip: new_def)
    with "2.IH"(1)[OF g new_def None] show ?thesis by simp
  next
    case (Some st)
    with "2.prems" g obtain sh where sh: "shardAt t kv = Inr sh"
      "updateShardStatus ids c (setShard t (sh\<lparr>shStatus := st\<rparr>) kv) = Inr kv'"
      by (auto simp: Let_def simp flip: new_def split: sum.splits)
    with "2.IH"(2)[OF g new_def Some sh] show ?thesis
      by (auto simp: shard_of_setShard shard_of_def shardAt_Inr)
  qed
qed simp

lemma applyLog_shard:
  assumes "skv_applyLog op t kv = Inr (kv', r)"
  shows "shard_of kv' s = shard_of kv s \<or> s = t \<and> shStatus (shard_of kv' s) = shStatus (shard_of kv s) \<and>
    (\<exists>k v. shKV (shard_of kv' s) = mput k v (shKV (shard_of kv s)))"
proof -
  from assms obtain sh where sh: "shardAt t kv = Inr sh" by (auto simp: skv_applyLog_def split: sum.splits)
  then have "shard_of kv t = sh" by (simp add: shard_of_def shardAt_Inr)
  moreover from assms sh have "kv' = kv \<or> (\<exists>k v. kv' = setShard t (sh\<lparr>shKV := mput k v (shKV sh)\<rparr>) kv)"
    by (cases "saOp op") (auto simp: skv_applyLog_def shard_Put_def shard_Append_def split: prod.splits)
  ultimately show ?thesis by (cases "s = t") (auto simp: shard_of_setShard, blast)
qed

lemma shard_of_update [simp]: "shard_of (kv\<lparr>svLastOperations := ops\<rparr>) s = shard_of kv s"
  "shard_of (kv\<lparr>svLastConfig := c1, svCurrentConfig := c2\<rparr>) s = shard_of kv s"
  by (simp_all add: shard_of_def)

lemma skv_apply_shard:
  assumes app: "skv_apply c kv = Inr (kv', r)" and wf: "skv_wf kv" and s: "s \<in> shard_ids"
  shows "shard_step c kv s (shard_of kv' s)"
proof (cases c)
  case (Operation op)
  from wf show ?thesis
  proof (cases rule: applyOperation_cases[where op = op])
    case (update kv1)
    then have "shard_of kv' s = shard_of kv1 s" using app Operation by (auto simp: skv_apply_def)
    with applyLog_shard[OF update(4), of s] update(1) Operation show ?thesis by (auto simp: shard_step_def)
  qed (use app Operation in \<open>auto simp: skv_apply_def shard_step_def\<close>)
next
  case (Configuration cf)
  with app updateShardStatus_KV[of "map int [0..<NShards]" cf kv] show ?thesis
    by (auto simp: skv_apply_def applyConfiguration_def shard_step_def split: sum.splits if_splits)
next
  case (InsertShards i)
  show ?thesis
  proof (cases "shrConfigNum i = cfNum (svCurrentConfig kv)")
    case True
    from app InsertShards True obtain kv1 where k: "insertLoop (shrShards i) kv = Inr kv1"
      "kv' = kv1\<lparr>svLastOperations := mergeOperations (shrLastOperations i) (svLastOperations kv1)\<rparr>"
      by (auto simp: skv_apply_def applyInsertShards_def split: sum.splits)
    with insertLoop_shard[OF k(1) wf s] InsertShards True show ?thesis by (simp add: shard_step_def)
  next
    case False
    with app InsertShards show ?thesis by (auto simp: skv_apply_def applyInsertShards_def shard_step_def)
  qed
next
  case (DeleteShards a)
  show ?thesis
  proof (cases "shaConfigNum a = cfNum (svCurrentConfig kv)")
    case True
    with app DeleteShards have "deleteLoop (shaShardIDs a) kv = Inr kv'"
      by (auto simp: skv_apply_def applyDeleteShards_def split: sum.splits)
    from deleteLoop_shard[OF this wf s] True DeleteShards show ?thesis by (simp add: shard_step_def)
  next
    case False
    with app DeleteShards show ?thesis by (auto simp: skv_apply_def applyDeleteShards_def shard_step_def)
  qed
qed (use app in \<open>auto simp: skv_apply_def shard_step_def\<close>)

lemma wf_map_rev: "wf_map m \<Longrightarrow> map_of (rev m) = map_of m"
  using wf_map_eq_set[of "rev m" m] by (simp add: wf_map_def rev_map[symmetric])

lemma put_all_KV:
  "shKV sh = [] \<Longrightarrow> wf_map d \<Longrightarrow> map_of (shKV (put_all d sh)) = map_of d \<and> wf_map (shKV (put_all d sh))"
proof -
  have "map_of (shKV (put_all d sh)) = map_of (shKV sh) ++ map_of (rev d) \<and> (wf_map (shKV sh) \<longrightarrow> wf_map (shKV (put_all d sh)))" for sh
    by (induction d arbitrary: sh) (auto simp: put_all_def shard_Put_def map_add_def fun_eq_iff split: option.splits)
  moreover assume "wf_map d"
  then have "map_of (rev d) = map_of d" by (rule wf_map_rev)
  moreover assume "shKV sh = []"
  ultimately show ?thesis by simp
qed

lemma deepCopy_shard: "wf_map (shKV sh) \<Longrightarrow> map_of (shard_deepCopy sh) = map_of (shKV sh) \<and> wf_map (shard_deepCopy sh)"
proof -
  have "map_of (fold (\<lambda>(k, v). mput k v) m acc) = map_of acc ++ map_of (rev m) \<and>
      (wf_map acc \<longrightarrow> wf_map (fold (\<lambda>(k, v). mput k v) m acc))" for m and acc :: "(string, string) gomap"
    by (induction m arbitrary: acc) (auto simp: map_add_def fun_eq_iff split: option.splits)
  moreover assume "wf_map (shKV sh)"
  then have "map_of (rev (shKV sh)) = map_of (shKV sh)" by (rule wf_map_rev)
  ultimately show ?thesis by (simp add: shard_deepCopy_def)
qed

subsection \<open>Contents and requests move with a shard\<close>

definition shard_ok :: "(nat \<Rightarrow> Config) \<Rightarrow> int \<Rightarrow> nat \<Rightarrow> int \<Rightarrow> Shard \<Rightarrow> bool" where
  "shard_ok hist g n s sh \<longleftrightarrow> wf_map (shKV sh) \<and>
     (shStatus sh \<in> {Pulling, GCing} \<longrightarrow> owner hist s n = g \<and> 0 < n \<and> owner hist s (n - 1) \<noteq> g \<and> owner hist s (n - 1) \<noteq> 0) \<and>
     (shStatus sh = BePulling \<longrightarrow> owner hist s n \<noteq> g \<and> 0 < n \<and> owner hist s (n - 1) = g) \<and>
     (shStatus sh = Pulling \<or> shStatus sh = Serving \<and> owner hist s n \<noteq> g \<longrightarrow> shKV sh = [])"

definition data_ok :: "(nat \<Rightarrow> Config) \<Rightarrow> int \<Rightarrow> ShardCore \<Rightarrow> bool" where
  "data_ok hist g kv \<longleftrightarrow> (\<forall>s \<in> shard_ids. shard_ok hist g (num kv) s (shard_of kv s))"

definition knows :: "'a ShardCore_scheme \<Rightarrow> int \<Rightarrow> int \<Rightarrow> bool" where
  "knows kv k m \<longleftrightarrow> skv_isDuplicate k m (svLastOperations kv)"

definition knows_le :: "ShardCore \<Rightarrow> ShardCore \<Rightarrow> bool" where
  "knows_le x y \<longleftrightarrow> (\<forall>k m. knows x k m \<longrightarrow> knows y k m)"

text \<open>Within a configuration a shard that is being pulled does not change; requests are never forgotten.\<close>

definition group_data :: "(nat \<Rightarrow> Config) \<Rightarrow> shard_system \<Rightarrow> int \<Rightarrow> bool" where
  "group_data hist sys g \<longleftrightarrow>
     (\<forall>kv \<in> set (states sys g). data_ok hist g kv \<and> knows_le kv (head sys g) \<and>
        (num kv = num (head sys g) \<longrightarrow> (\<forall>s \<in> shard_ids. shStatus (shard_of (head sys g) s) = BePulling \<longrightarrow>
           shard_of kv s = shard_of (head sys g) s))) \<and>
     (\<forall>x \<in> set (states sys g). \<forall>y \<in> set (states sys g). num x < num y \<longrightarrow> knows_le x y)"

definition cmd_data :: "(nat \<Rightarrow> Config) \<Rightarrow> shard_system \<Rightarrow> int \<Rightarrow> SCommand \<Rightarrow> bool" where
  "cmd_data hist sys g c =
     (case c of
        InsertShards r \<Rightarrow> wf_map (shrShards r) \<and> (\<exists>a. \<exists>kva \<in> set (states sys a). shrConfigNum r \<le> cfNum (svCurrentConfig kva) \<and>
          shrLastOperations r = copyOperations (svLastOperations kva) \<and>
          (\<forall>s \<in> set (mkeys (shrShards r)). owner hist s (nat (shrConfigNum r) - 1) = a \<and>
             map_of (shrShards r) s = Some (shard_deepCopy (shard_of kva s))))
      | DeleteShards args \<Rightarrow> (\<forall>s \<in> set (shaShardIDs args). \<exists>kv \<in> set (states sys (owner hist s (nat (shaConfigNum args)))).
          cfNum (svCurrentConfig kv) = shaConfigNum args \<and> status kv s = Some GCing)
      | _ \<Rightarrow> True)"

text \<open>A group lets go of a shard only after the next owner has inserted it.\<close>

definition released :: "(nat \<Rightarrow> Config) \<Rightarrow> shard_system \<Rightarrow> bool" where
  "released hist sys \<longleftrightarrow> (\<forall>s \<in> shard_ids. \<forall>n.
     owner hist s n \<noteq> 0 \<longrightarrow> owner hist s (Suc n) \<noteq> 0 \<longrightarrow> owner hist s n \<noteq> owner hist s (Suc n) \<longrightarrow>
     (let h = head sys (owner hist s n) in Suc n < num h \<or> Suc n = num h \<and> status h s \<noteq> Some BePulling) \<longrightarrow>
     (\<exists>kv \<in> set (states sys (owner hist s (Suc n))). num kv = Suc n \<and> status kv s = Some GCing))"

lemma put_all_wf: "wf_map (shKV sh) \<Longrightarrow> wf_map (shKV (put_all d sh))"
  unfolding put_all_def by (induction d arbitrary: sh) (auto simp: shard_Put_def)

lemma execute_shard:
  assumes h: "history hist" "stays_assigned hist" and inv: "group_inv hist sys" and sub: "(g, c) \<in> submitted sys"
    and app: "skv_apply c (head sys g) = Inr (kv', r)" and d: "data_ok hist g (head sys g)"
  shows "data_ok hist g kv'"
  unfolding data_ok_def
proof
  fix s assume s: "s \<in> shard_ids"
  let ?h = "head sys g"
  note ex = execute_state[OF h(1) inv sub app]
  have okh: "state_ok hist g ?h" by (rule group_invD(5)[OF inv])
  then have wf: "skv_wf ?h" by (simp add: state_ok_def)
  have wf': "skv_wf kv'" "state_ok hist g kv'" using ex by (auto simp: state_ok_def)
  from skv_apply_shard[OF app wf s] have st: "shard_step c ?h s (shard_of kv' s)" .
  have sh: "shard_ok hist g (num ?h) s (shard_of ?h s)" using d s by (simp add: data_ok_def)
  show "shard_ok hist g (num kv') s (shard_of kv' s)"
  proof (cases "num kv' = num ?h")
    case True
    show ?thesis
    proof (cases "shard_of kv' s = shard_of ?h s")
      case False
      show ?thesis
      proof (cases c)
        case (Operation op)
        with st False obtain k v where o: "canServe s ?h = Inr True" "shStatus (shard_of kv' s) = shStatus (shard_of ?h s)"
          "shKV (shard_of kv' s) = mput k v (shKV (shard_of ?h s))" by (auto simp: shard_step_def)
        from o(1) canServe_wf[OF wf s] okh have own: "owner hist s (num ?h) = g" "shStatus (shard_of ?h s) \<in> {Serving, GCing}"
          by (auto simp: owner_def state_ok_def status_shard_of[OF wf s])
        with sh o True show ?thesis by (auto simp: shard_ok_def)
      next
        case (Configuration cf)
        with st False have "cfNum cf = cfNum (svCurrentConfig ?h) + 1" by (simp add: shard_step_def)
        with skv_apply_effect[OF app wf] Configuration have "cfNum (svCurrentConfig kv') = cfNum (svCurrentConfig ?h) + 1"
          by (simp add: skv_effect_def)
        with True state_ok_num[OF okh] state_ok_num[OF wf'(2)] show ?thesis by simp
      next
        case (InsertShards ir)
        with st False obtain sd where "shStatus (shard_of ?h s) = Pulling"
          "shard_of kv' s = (put_all sd (shard_of ?h s))\<lparr>shStatus := GCing\<rparr>" by (auto simp: shard_step_def)
        with sh True put_all_wf show ?thesis by (auto simp: shard_ok_def)
      next
        case (DeleteShards args)
        with st False sh True show ?thesis by (auto simp: shard_step_def shard_ok_def NewShard_def)
      next
        case EmptyShards
        with st False show ?thesis by (simp add: shard_step_def)
      qed
    qed (use sh True in simp)
  next
    case False
    with ex have n: "num kv' = Suc (num ?h)" "all_serving ?h" "c = Configuration (hist (num kv'))" by auto
    have kv: "shKV (shard_of kv' s) = shKV (shard_of ?h s)" using st n(3) by (auto simp: shard_step_def)
    have sv: "shStatus (shard_of ?h s) = Serving" using n(2) s status_shard_of[OF wf s] by (simp add: all_serving_def)
    have "status kv' s = next_status g (owner hist s (num ?h)) (owner hist s (num kv')) (status ?h s)"
      using skv_apply_effect[OF app wf] n s okh state_ok_num[OF okh] h(1)
      by (simp add: skv_effect_def owner_def state_ok_def history_def)
    then have ns: "Some (shStatus (shard_of kv' s)) = next_status g (owner hist s (num ?h)) (owner hist s (Suc (num ?h))) (Some Serving)"
      using status_shard_of[OF wf s] status_shard_of[OF wf'(1) s] sv n(1) by simp
    have "owner hist s (num ?h) \<noteq> 0 \<Longrightarrow> owner hist s (Suc (num ?h)) \<noteq> 0" using h(2) s by (simp add: stays_assigned_def)
    with ns kv sv sh n(1) show ?thesis by (auto simp: shard_ok_def next_status_def split: if_splits)
  qed
qed

lemma knows_le_refl: "knows_le x x"
  by (simp add: knows_le_def)

lemma knows_le_trans: "knows_le x y \<Longrightarrow> knows_le y z \<Longrightarrow> knows_le x z"
  by (simp add: knows_le_def)

lemma effect_config:
  "skv_effect c kv kv' \<Longrightarrow> c = Configuration cf \<Longrightarrow> cfNum cf = cfNum (svCurrentConfig kv) + 1 \<Longrightarrow>
   cfNum (svCurrentConfig kv') = cfNum (svCurrentConfig kv) + 1"
  by (simp add: skv_effect_def)

lemma frozen_step:
  assumes "shard_step c kv s sh'" "shStatus sh' = BePulling" "skv_wf kv" "s \<in> shard_ids"
    "\<And>cf. c = Configuration cf \<Longrightarrow> cfNum cf \<noteq> cfNum (svCurrentConfig kv) + 1"
  shows "sh' = shard_of kv s"
proof (rule ccontr)
  assume ne: "sh' \<noteq> shard_of kv s"
  show False
  proof (cases c)
    case (Operation op)
    with assms ne have "canServe s kv = Inr True" "shStatus (shard_of kv s) = BePulling" by (auto simp: shard_step_def)
    with canServe_wf[OF assms(3,4)] show False by (simp add: status_shard_of[OF assms(3,4)])
  qed (use assms ne in \<open>auto simp: shard_step_def NewShard_def\<close>)
qed

lemma group_data_execute:
  assumes h: "history hist" "stays_assigned hist" and inv: "group_inv hist sys" and sub: "(g, c) \<in> submitted sys"
    and app: "skv_apply c (head sys g) = Inr (kv', r)" and dat: "\<And>f. group_data hist sys f"
  shows "group_data hist (execute_step g c kv' sys) f"
proof (cases "f = g")
  case True
  let ?h = "head sys g" and ?sys = "execute_step g c kv' sys"
  note ex = execute_state[OF h(1) inv sub app]
  have okh: "state_ok hist g ?h" by (rule group_invD(5)[OF inv])
  then have wf: "skv_wf ?h" by (simp add: state_ok_def)
  note D = dat[of g, unfolded group_data_def]
  have hin: "?h \<in> set (states sys g)" by (rule group_invD(6)[OF inv])
  have d': "data_ok hist g kv'" using execute_shard[OF h inv sub app] D hin by blast
  have le': "knows_le ?h kv'" using skv_apply_operations[OF app wf] by (simp add: knows_le_def knows_def)
  have n: "num kv \<le> num ?h" if "kv \<in> set (states sys g)" for kv
    using group_invD(4)[OF inv that] by (simp add: later_def)
  have n': "num ?h \<le> num kv'" using ex by auto
  have frozen: "shard_of kv s = shard_of kv' s"
    if kv: "kv \<in> set (states sys g)" "num kv = num kv'" and s: "s \<in> shard_ids" "shStatus (shard_of kv' s) = BePulling" for kv s
  proof -
    have eq: "num kv' = num ?h" using n[OF kv(1)] kv(2) n' by simp
    have "cfNum (svCurrentConfig kv') = cfNum (svCurrentConfig ?h)"
      using eq state_ok_num[OF okh] ex state_ok_num[of hist g kv'] by simp
    then have nc: "cfNum cf \<noteq> cfNum (svCurrentConfig ?h) + 1" if "c = Configuration cf" for cf
      using effect_config[OF conjunct2[OF skv_apply_effect[OF app wf]] that] by auto
    have "shard_of kv' s = shard_of ?h s"
      by (rule frozen_step[OF skv_apply_shard[OF app wf s(1)] s(2) wf s(1) nc])
    with D kv eq s show ?thesis by simp
  qed
  have "data_ok hist g kv \<and> knows_le kv kv' \<and>
      (num kv = num kv' \<longrightarrow> (\<forall>s \<in> shard_ids. shStatus (shard_of kv' s) = BePulling \<longrightarrow> shard_of kv s = shard_of kv' s))"
    if "kv \<in> insert kv' (set (states sys g))" for kv
    using that d' D le' frozen knows_le_refl knows_le_trans[of kv ?h kv'] by blast
  moreover have "knows_le x y"
    if "x \<in> insert kv' (set (states sys g))" "y \<in> insert kv' (set (states sys g))" "num x < num y" for x y
  proof -
    have "x \<noteq> kv'"
    proof
      assume "x = kv'"
      with that(2,3) n' n[of y] show False by auto
    qed
    with that(1) have x: "x \<in> set (states sys g)" by simp
    show ?thesis
    proof (cases "y = kv'")
      case True
      with D x le' knows_le_trans[of x ?h kv'] show ?thesis by blast
    next
      case False
      with that(2) have "y \<in> set (states sys g)" by simp
      with D x that(3) show ?thesis by blast
    qed
  qed
  ultimately show ?thesis
    unfolding True group_data_def execute_sel fun_upd_same list.set by blast
next
  case False
  have "states (execute_step g c kv' sys) f = states sys f" "head (execute_step g c kv' sys) f = head sys f"
    using False by simp_all
  with dat[of f] show ?thesis unfolding group_data_def by presburger
qed

lemma cmd_data_mono:
  assumes "cmd_data hist sys g c" "\<And>a. set (states sys a) \<subseteq> set (states sys' a)"
  shows "cmd_data hist sys' g c"
proof (cases c)
  case (InsertShards r)
  with assms(1) obtain a kva where "wf_map (shrShards r)" "kva \<in> set (states sys a)" "shrConfigNum r \<le> cfNum (svCurrentConfig kva)"
    "shrLastOperations r = copyOperations (svLastOperations kva)"
    "\<forall>s \<in> set (mkeys (shrShards r)). owner hist s (nat (shrConfigNum r) - 1) = a \<and>
       map_of (shrShards r) s = Some (shard_deepCopy (shard_of kva s))"
    by (auto simp: cmd_data_def)
  with assms(2)[of a] InsertShards show ?thesis unfolding cmd_data_def by auto
next
  case (DeleteShards args)
  with assms show ?thesis unfolding cmd_data_def by fastforce
qed (simp_all add: cmd_data_def)

lemma pull_data:
  assumes h: "history hist" and inv: "group_inv hist sys" and kv: "kv \<in> set (states sys g)" "getShardIDsByStatus Pulling kv = Inr tasks"
    "(a, ids) \<in> set tasks" and kva: "kva \<in> set (states sys a)"
    "pullShards \<lparr>shaConfigNum = cfNum (svCurrentConfig kv), shaShardIDs = ids\<rparr> kva = Inr r" "shrErr r = SOK"
  shows "cmd_data hist sys g (InsertShards r)"
proof -
  note p = pullShards_spec[OF kva(2,3)]
  have ok: "state_ok hist g kv" "state_ok hist a kva" using group_invD(3)[OF inv] kv(1) kva(1) by auto
  then have wf: "skv_wf kv" "skv_wf kva" by (auto simp: state_ok_def)
  note sp = getShardIDsByStatus_spec[OF kv(2,3) wf(1)]
  have "owner hist s (nat (shrConfigNum r) - 1) = a \<and> map_of (shrShards r) s = Some (shard_deepCopy (shard_of kva s))"
    if "s \<in> set (mkeys (shrShards r))" for s
  proof -
    have s: "s \<in> set ids" using that p(6) by simp
    with sp have o: "s \<in> shard_ids" "cfShards (svLastConfig kv) ! nat s = a" by auto
    have "map_of (shrShards r) s = map_option shard_deepCopy (map_of (svStateMachine kva) s)"
      using copyShards_spec[OF p(3)] s by simp
    with shard_of_wf[OF wf(2) o(1)] o(2) p(2) ok(1) show ?thesis by (simp add: owner_def state_ok_def num_def)
  qed
  then show ?thesis using kva(1) p(1,2,4,5) unfolding cmd_data_def by auto
qed

lemma gc_data:
  assumes inv: "group_inv hist sys" and dat: "group_data hist sys g"
    and kv: "kv \<in> set (states sys g)" "getShardIDsByStatus GCing kv = Inr tasks" "(a, ids) \<in> set tasks"
  shows "cmd_data hist sys f (DeleteShards \<lparr>shaConfigNum = cfNum (svCurrentConfig kv), shaShardIDs = ids\<rparr>)"
proof -
  have ok: "state_ok hist g kv" using group_invD(3)[OF inv] kv(1) by auto
  then have wf: "skv_wf kv" by (simp add: state_ok_def)
  have "owner hist s (num kv) = g \<and> status kv s = Some GCing" if "s \<in> set ids" for s
  proof -
    from getShardIDsByStatus_spec[OF kv(2,3) wf] that have s: "s \<in> shard_ids" "status kv s = Some GCing" by auto
    then have "shStatus (shard_of kv s) = GCing" using status_shard_of[OF wf s(1)] by simp
    moreover have "shard_ok hist g (num kv) s (shard_of kv s)" using dat kv(1) s(1) by (simp add: group_data_def data_ok_def)
    ultimately show ?thesis using s(2) by (simp add: shard_ok_def)
  qed
  then show ?thesis using kv(1) unfolding cmd_data_def by (auto simp: num_def)
qed

lemma released_execute:
  assumes h: "history hist" "stays_assigned hist" and inv: "group_inv hist sys" and sub: "(g, c) \<in> submitted sys"
    and app: "skv_apply c (head sys g) = Inr (kv', r)" and rel: "released hist sys" and cmd: "cmd_data hist sys g c"
  shows "released hist (execute_step g c kv' sys)"
  unfolding released_def Let_def
proof (intro ballI allI impI)
  let ?sys = "execute_step g c kv' sys" and ?h = "head sys g"
  fix s n
  let ?a = "owner hist s n" and ?b = "owner hist s (Suc n)"
  assume s: "s \<in> shard_ids" and o: "?a \<noteq> 0" "?b \<noteq> 0" "?a \<noteq> ?b"
    and pre: "Suc n < num (head ?sys ?a) \<or> Suc n = num (head ?sys ?a) \<and> status (head ?sys ?a) s \<noteq> Some BePulling"
  note ex = execute_state[OF h(1) inv sub app]
  have okh: "state_ok hist g ?h" by (rule group_invD(5)[OF inv])
  then have wf: "skv_wf ?h" by (simp add: state_ok_def)
  have wf': "skv_wf kv'" "state_ok hist g kv'" using ex by (auto simp: state_ok_def)
  have old: "\<exists>kv \<in> set (states sys ?b). num kv = Suc n \<and> status kv s = Some GCing"
    if "Suc n < num (head sys ?a) \<or> Suc n = num (head sys ?a) \<and> status (head sys ?a) s \<noteq> Some BePulling"
    using rel s o that unfolding released_def Let_def by blast
  show "\<exists>kv \<in> set (states ?sys ?b). num kv = Suc n \<and> status kv s = Some GCing"
  proof (cases "?a = g")
    case False
    with pre old show ?thesis by auto
  next
    case a: True
    show ?thesis
    proof (cases "num kv' = num ?h")
      case False
      with ex have nn: "num kv' = Suc (num ?h)" "all_serving ?h" "c = Configuration (hist (num kv'))" by auto
      show ?thesis
      proof (cases "Suc n = num kv'")
        case True
        have "status kv' s = next_status g (owner hist s (num ?h)) (owner hist s (num kv')) (status ?h s)"
          using skv_apply_effect[OF app wf] nn s okh state_ok_num[OF okh] h(1)
          by (simp add: skv_effect_def owner_def state_ok_def history_def)
        with True nn(1) a o have "status kv' s = Some BePulling" by (auto simp: next_status_def)
        with pre True a show ?thesis by simp
      next
        case False
        with pre nn(1) a have "Suc n \<le> num ?h" by auto
        moreover have "status ?h s = Some Serving" using nn(2) s by (simp add: all_serving_def)
        ultimately show ?thesis using old a by (auto simp: le_less)
      qed
    next
      case same: True
      show ?thesis
      proof (cases "Suc n = num ?h \<and> status ?h s = Some BePulling")
        case False
        with pre same a old show ?thesis by auto
      next
        case True
        with pre same a have ch: "status kv' s \<noteq> Some BePulling" by auto
        have bp: "shStatus (shard_of ?h s) = BePulling" using True status_shard_of[OF wf s] by simp
        have "shard_of kv' s \<noteq> shard_of ?h s" using ch bp status_shard_of[OF wf'(1) s] by auto
        moreover have "\<not> (\<exists>cf. c = Configuration cf \<and> cfNum cf = cfNum (svCurrentConfig ?h) + 1)"
          using skv_apply_effect[OF app wf] same state_ok_num[OF okh] state_ok_num[OF wf'(2)] by (auto simp: skv_effect_def)
        moreover have "canServe s ?h \<noteq> Inr True" using canServe_wf[OF wf s] True by simp
        ultimately obtain args where "c = DeleteShards args" "shaConfigNum args = cfNum (svCurrentConfig ?h)" "s \<in> set (shaShardIDs args)"
          using skv_apply_shard[OF app wf s] bp by (cases c) (auto simp: shard_step_def)
        with cmd obtain kv where "kv \<in> set (states sys (owner hist s (num ?h)))" "num kv = num ?h" "status kv s = Some GCing"
          by (fastforce simp: cmd_data_def num_def)
        with True show ?thesis by auto
      qed
    qed
  qed
qed

definition data_inv :: "(nat \<Rightarrow> Config) \<Rightarrow> shard_system \<Rightarrow> bool" where
  "data_inv hist sys \<longleftrightarrow> (\<forall>g. group_data hist sys g) \<and> (\<forall>(g, c) \<in> submitted sys. cmd_data hist sys g c) \<and> released hist sys"

lemma data_invD:
  assumes "data_inv hist sys"
  shows "group_data hist sys g" "(g, c) \<in> submitted sys \<Longrightarrow> cmd_data hist sys g c" "released hist sys"
  using assms by (auto simp: data_inv_def)

lemma data_inv_submit:
  assumes "data_inv hist sys" "cmd_data hist sys g c"
  shows "data_inv hist (submit g c sys)"
proof -
  have "cmd_data hist (submit g c sys) f d" if "(f, d) \<in> insert (g, c) (submitted sys)" for f d
  proof (rule cmd_data_mono)
    show "cmd_data hist sys f d" using that assms(2) data_invD(2)[OF assms(1)] by blast
  qed simp
  moreover have "group_data hist (submit g c sys) f" for f
    using data_invD(1)[OF assms(1), of f] unfolding group_data_def submit_sel .
  moreover have "released hist (submit g c sys)"
    using data_invD(3)[OF assms(1)] unfolding released_def submit_sel .
  ultimately show ?thesis unfolding data_inv_def submit_sel by blast
qed

lemma data_inv_init: "history hist \<Longrightarrow> data_inv hist system_init"
proof -
  assume h: "history hist"
  have o: "owner hist s 0 = 0" if "s \<in> shard_ids" for s
    using h that by (auto simp: owner_def history_def DefaultConfig_def shard_ids_def)
  have sh: "shard_of (group_start g) s = NewShard" if "s \<in> shard_ids" for g s
    using that by (simp add: shard_of_def group_start_state)
  have "data_ok hist g (group_start g)" for g
    using h by (auto simp: data_ok_def shard_ok_def sh group_start_ok(3) NewShard_def)
  then have "group_data hist system_init g" for g
    by (simp add: group_data_def system_init_def head_def knows_le_refl)
  moreover have "released hist system_init"
    using group_start_ok(3)[OF h] by (simp add: released_def system_init_def head_def Let_def)
  ultimately show ?thesis by (simp add: data_inv_def system_init_def)
qed

lemma data_inv_step:
  assumes h: "history hist" "stays_assigned hist" and inv: "group_inv hist sys" and dat: "data_inv hist sys"
    and st: "system_step hist sys sys'"
  shows "data_inv hist sys'"
  using st
proof (cases rule: system_step.cases)
  case (configure kv g c)
  have "state_ok hist g kv" using group_invD(3)[OF inv configure(2)] .
  then have "skv_wf kv" by (simp add: state_ok_def)
  with configurationAction_spec[OF configure(3)] obtain cf where "c = Configuration cf" by blast
  with configure(1) data_inv_submit[OF dat, of g c] show ?thesis by (simp add: cmd_data_def)
next
  case (pull kv g tasks a ids kva r)
  with data_inv_submit[OF dat] pull_data[OF h(1) inv] show ?thesis by blast
next
  case (gc_remote kv g tasks a ids kva)
  with data_inv_submit[OF dat] gc_data[OF inv data_invD(1)[OF dat]] show ?thesis by blast
next
  case (gc_local kv g tasks a ids args)
  with data_inv_submit[OF dat] gc_data[OF inv data_invD(1)[OF dat]] show ?thesis by blast
next
  case (execute g c kv' reply)
  let ?sys = "execute_step g c kv' sys"
  have sys': "sys' = ?sys" using execute(1) by (simp add: execute_step_def)
  have "group_data hist ?sys f" for f
    by (rule group_data_execute[OF h inv execute(2,3) data_invD(1)[OF dat]])
  moreover have "cmd_data hist ?sys f d" if "(f, d) \<in> submitted ?sys" for f d
  proof (rule cmd_data_mono)
    show "cmd_data hist sys f d" using that data_invD(2)[OF dat] by simp
  qed auto
  moreover have "released hist ?sys"
    by (rule released_execute[OF h inv execute(2,3) data_invD(3)[OF dat] data_invD(2)[OF dat execute(2)]])
  ultimately show ?thesis unfolding sys' data_inv_def by blast
qed (use data_inv_submit[OF dat] in \<open>auto simp: cmd_data_def\<close>)

lemma data_inv_reachable:
  "system_reachable hist sys \<Longrightarrow> history hist \<Longrightarrow> stays_assigned hist \<Longrightarrow> data_inv hist sys"
  by (induction rule: system_reachable.induct) (auto intro: data_inv_init data_inv_step group_inv_reachable)

lemma copyOperations_knows:
  "wf_map ops \<Longrightarrow> skv_isDuplicate k m ops \<Longrightarrow> \<exists>ctx. (k, ctx) \<in> set (copyOperations ops) \<and> m \<le> soMaxAppliedCommandId ctx"
proof -
  have "map_of (fold (\<lambda>(k, v). mput k v) m acc) = map_of acc ++ map_of (rev m)" for m and acc :: slast_ops
    by (induction m arbitrary: acc) (auto simp: map_add_def fun_eq_iff split: option.splits)
  then have "wf_map ops \<Longrightarrow> map_of (copyOperations ops) = map_of ops" by (simp add: copyOperations_def wf_map_rev)
  then show "wf_map ops \<Longrightarrow> skv_isDuplicate k m ops \<Longrightarrow> ?thesis"
    by (auto simp: skv_isDuplicate_def split: option.splits intro!: exI[of _ "the (map_of ops k)"] map_of_SomeD)
qed

lemma isDuplicate_le: "skv_isDuplicate k m ops \<Longrightarrow> n \<le> m \<Longrightarrow> skv_isDuplicate k n ops"
  by (auto simp: skv_isDuplicate_def split: option.splits)

text \<open>A shard that is still being pulled is unchanged at the group that had it.\<close>

lemma pulling_source:
  assumes inv: "group_inv hist sys" and dat: "data_inv hist sys" and sa: "stays_assigned hist" and s: "s \<in> shard_ids"
    and g: "status (head sys g) s = Some Pulling" and kva: "kva \<in> set (states sys (owner hist s (num (head sys g) - 1)))"
    "num (head sys g) \<le> num kva"
  defines "a \<equiv> owner hist s (num (head sys g) - 1)"
  shows "num kva = num (head sys g)" "shard_of kva s = shard_of (head sys a) s" "status (head sys a) s = Some BePulling" "a \<noteq> g"
proof -
  let ?n = "num (head sys g)"
  have okg: "skv_wf (head sys g)" using group_invD(5)[OF inv, of g] by (simp add: state_ok_def)
  have "shard_ok hist g ?n s (shard_of (head sys g) s)"
    using data_invD(1)[OF dat, of g] group_invD(6)[OF inv, of g] s by (auto simp: group_data_def data_ok_def)
  moreover have "shStatus (shard_of (head sys g) s) = Pulling" using g status_shard_of[OF okg s] by simp
  ultimately have o: "owner hist s ?n = g" "0 < ?n" "a \<noteq> g" "a \<noteq> 0" by (auto simp: shard_ok_def a_def)
  show "a \<noteq> g" by (rule o(3))
  have no: "\<not> (\<exists>kv \<in> set (states sys g). num kv = ?n \<and> status kv s = Some GCing)"
  proof
    assume "\<exists>kv \<in> set (states sys g). num kv = ?n \<and> status kv s = Some GCing"
    then obtain kv where "kv \<in> set (states sys g)" "num kv = ?n" "status kv s = Some GCing" by blast
    with group_invD(4)[OF inv, of kv g] g show False by (auto simp: later_def)
  qed
  have g0: "g \<noteq> 0" using sa s o by (metis Suc_pred' a_def stays_assigned_def)
  have rel: "\<not> (?n < num (head sys a) \<or> ?n = num (head sys a) \<and> status (head sys a) s \<noteq> Some BePulling)"
  proof
    assume "?n < num (head sys a) \<or> ?n = num (head sys a) \<and> status (head sys a) s \<noteq> Some BePulling"
    moreover have "owner hist s (Suc (?n - 1)) = g" "Suc (?n - 1) = ?n" using o(1,2) by simp_all
    ultimately have "\<exists>kv \<in> set (states sys g). num kv = ?n \<and> status kv s = Some GCing"
      using data_invD(3)[OF dat, unfolded released_def Let_def, rule_format, OF s, of "?n - 1"] o(3,4) g0
      by (simp add: a_def)
    with no show False by blast
  qed
  have ina: "kva \<in> set (states sys a)" using kva(1) by (simp add: a_def)
  have "num kva \<le> num (head sys a)" using group_invD(4)[OF inv ina] by (simp add: later_def)
  with rel kva(2) show n: "num kva = ?n" and bp: "status (head sys a) s = Some BePulling" by auto
  have wfa: "skv_wf (head sys a)" using group_invD(5)[OF inv, of a] by (simp add: state_ok_def)
  from bp have "shStatus (shard_of (head sys a) s) = BePulling" using status_shard_of[OF wfa s] by simp
  moreover have "num kva = num (head sys a)" using rel n \<open>num kva \<le> _\<close> by auto
  ultimately show "shard_of kva s = shard_of (head sys a) s"
    using data_invD(1)[OF dat, of a] ina s unfolding group_data_def by blast
qed

lemma insert_cmd:
  assumes app: "skv_apply (InsertShards r) kv = Inr (kv', reply)" and wf: "skv_wf kv" and s: "s \<in> shard_ids"
    and st: "status kv s = Some Pulling" "status kv' s = Some GCing"
  shows "shrConfigNum r = cfNum (svCurrentConfig kv) \<and> s \<in> set (mkeys (shrShards r)) \<and> svCurrentConfig kv' = svCurrentConfig kv \<and>
    svGid kv' = svGid kv \<and>
    (\<exists>d. (s, d) \<in> set (shrShards r) \<and> shard_of kv' s = (put_all d (shard_of kv s))\<lparr>shStatus := GCing\<rparr>)"
proof -
  have wf': "skv_wf kv'" and e: "skv_effect (InsertShards r) kv kv'" using skv_apply_effect[OF app wf] by auto
  from e have same: "svCurrentConfig kv' = svCurrentConfig kv" "svGid kv' = svGid kv" by (auto simp: skv_effect_def)
  have "shard_of kv' s \<noteq> shard_of kv s"
    using st status_shard_of[OF wf s] status_shard_of[OF wf' s] by auto
  with skv_apply_shard[OF app wf s] obtain d where "shrConfigNum r = cfNum (svCurrentConfig kv)"
    "(s, d) \<in> set (shrShards r)" "shard_of kv' s = (put_all d (shard_of kv s))\<lparr>shStatus := GCing\<rparr>"
    by (auto simp: shard_step_def)
  with same show ?thesis by force
qed

lemma migration:
  assumes h: "history hist" "stays_assigned hist" and reach: "system_reachable hist sys"
    and sub: "(g, InsertShards r) \<in> submitted sys" and app: "skv_apply (InsertShards r) (head sys g) = Inr (kv', reply)"
    and s: "s \<in> shard_ids" and st: "status (head sys g) s = Some Pulling" "status kv' s = Some GCing"
  defines "a \<equiv> owner hist s (num (head sys g) - 1)"
  shows "map_of (shKV (shard_of kv' s)) = map_of (shKV (shard_of (head sys a) s))"
    "canServe s (head sys a) = Inr False" "canServe s kv' = Inr True"
    "x \<in> set (states sys a) \<Longrightarrow> num x < num (head sys g) \<Longrightarrow> knows_le x kv'"
proof -
  let ?h = "head sys g" and ?n = "num (head sys g)"
  note inv = group_inv_reachable[OF reach h(1)] and dat = data_inv_reachable[OF reach h]
  have okg: "state_ok hist g ?h" and oka: "state_ok hist a (head sys a)" by (rule group_invD(5)[OF inv])+
  then have wf: "skv_wf ?h" "skv_wf (head sys a)" by (auto simp: state_ok_def)
  have wf': "skv_wf kv'" using skv_apply_effect[OF app wf(1)] by simp
  from insert_cmd[OF app wf(1) s st] obtain d where i: "shrConfigNum r = cfNum (svCurrentConfig ?h)" "s \<in> set (mkeys (shrShards r))"
    "svCurrentConfig kv' = svCurrentConfig ?h" "svGid kv' = svGid ?h" "(s, d) \<in> set (shrShards r)"
    "shard_of kv' s = (put_all d (shard_of ?h s))\<lparr>shStatus := GCing\<rparr>" by blast
  have rn: "nat (shrConfigNum r) = ?n" by (simp add: i(1) num_def)
  from data_invD(2)[OF dat sub] obtain a' kva where c: "wf_map (shrShards r)" "kva \<in> set (states sys a')"
    "shrConfigNum r \<le> cfNum (svCurrentConfig kva)" "shrLastOperations r = copyOperations (svLastOperations kva)"
    "owner hist s (nat (shrConfigNum r) - 1) = a'" "map_of (shrShards r) s = Some (shard_deepCopy (shard_of kva s))"
    using i(2) by (auto simp: cmd_data_def)
  have a': "a' = a" using c(5) by (simp add: a_def rn)
  have kva: "kva \<in> set (states sys a)" using c(2) a' by simp
  have le: "?n \<le> num kva" using c(3) i(1) by (simp add: num_def nat_mono)
  note src = pulling_source[OF inv dat h(2) s st(1) kva[unfolded a_def] le, folded a_def]
  have okk: "skv_wf kva" using group_invD(3)[OF inv kva] by (simp add: state_ok_def)
  have sok: "shard_ok hist a (num kva) s (shard_of kva s)"
    using data_invD(1)[OF dat, of a] kva s by (simp add: group_data_def data_ok_def)
  have "shard_ok hist g ?n s (shard_of ?h s)"
    using data_invD(1)[OF dat, of g] group_invD(6)[OF inv, of g] s by (auto simp: group_data_def data_ok_def)
  moreover have "shStatus (shard_of ?h s) = Pulling" using st(1) status_shard_of[OF wf(1) s] by simp
  ultimately have g: "shKV (shard_of ?h s) = []" "owner hist s ?n = g" by (auto simp: shard_ok_def)
  have d: "d = shard_deepCopy (shard_of kva s)" using i(5) c(1,6) by (simp add: wf_map_def)
  with sok deepCopy_shard[of "shard_of kva s"] have dm: "map_of d = map_of (shKV (shard_of kva s))" "wf_map d"
    by (auto simp: shard_ok_def)
  show "map_of (shKV (shard_of kv' s)) = map_of (shKV (shard_of (head sys a) s))"
    using put_all_KV[OF g(1) dm(2)] i(6) dm(1) src(2) by simp
  show "canServe s (head sys a) = Inr False" using canServe_wf[OF wf(2) s] src(3) by simp
  show "canServe s kv' = Inr True"
    using canServe_wf[OF wf' s] st(2) i(3,4) okg g(2) by (simp add: owner_def state_ok_def)
  show "knows_le x kv'" if x: "x \<in> set (states sys a)" "num x < ?n"
    unfolding knows_le_def knows_def
  proof (intro allI impI)
    fix k m assume "skv_isDuplicate k m (svLastOperations x)"
    moreover have "knows_le x kva"
      using data_invD(1)[OF dat, of a] x kva src(1) unfolding group_data_def by auto
    ultimately have "skv_isDuplicate k m (svLastOperations kva)" by (simp add: knows_le_def knows_def)
    moreover have "wf_map (svLastOperations kva)" using okk by (simp add: skv_wf_def)
    ultimately obtain ctx where "(k, ctx) \<in> set (shrLastOperations r)" "m \<le> soMaxAppliedCommandId ctx"
      using copyOperations_knows[of "svLastOperations kva" k m] c(4) by auto
    moreover from app i(1) have "\<exists>old. svLastOperations kv' = mergeOperations (shrLastOperations r) old"
      by (auto simp: skv_apply_def applyInsertShards_def split: sum.splits)
    ultimately show "skv_isDuplicate k m (svLastOperations kv')"
      using mergeOperations_covers isDuplicate_le by metis
  qed
qed

end
