(* ===== verification/ShardProperties.thy ===== *)
theory ShardProperties
  imports ShardGroups
begin

text \<open>
  What the sharded service guarantees: applying entries never panics, requests take effect at most once, at most one
  group serves a shard, and a shard arrives at its new group complete. The runs at the end of each
  part are concrete executions of two groups.
\<close>

subsection \<open>Two groups\<close>

text \<open>The first configuration gives every shard to group 1, all later ones to group 2.\<close>

definition two_groups :: "nat \<Rightarrow> Config" where
  "two_groups n = (if n = 0 then DefaultConfig
     else \<lparr>cfNum = int n, cfShards = replicate NShards (if n = 1 then 1 else 2), cfGroups = [(1, [''x'']), (2, [''y''])]\<rparr>)"

lemma two_groups_history: "history two_groups" "stays_assigned two_groups"
  by (auto simp: history_def two_groups_def DefaultConfig_def stays_assigned_def owner_def shard_ids_def)

definition applied :: "SCommand \<Rightarrow> ShardCore \<Rightarrow> ShardCore" where
  "applied c kv = (case skv_apply c kv of Inl e \<Rightarrow> kv | Inr (kv', r) \<Rightarrow> kv')"

definition put_a :: SCommandArgs where
  "put_a = \<lparr>saKey = ''a'', saValue = ''v'', saOp = SPut, saClientId = 9, saCommandId = 0\<rparr>"

definition g1a :: ShardCore where "g1a = applied (Configuration (two_groups 1)) (group_start 1)"
definition g1b :: ShardCore where "g1b = applied (Operation put_a) g1a"
definition g1c :: ShardCore where "g1c = applied (Configuration (two_groups 2)) g1b"
definition g2a :: ShardCore where "g2a = applied (Configuration (two_groups 1)) (group_start 2)"
definition g2b :: ShardCore where "g2b = applied (Configuration (two_groups 2)) g2a"

definition pulled :: ShardOperationReply where
  "pulled = (case pullShards \<lparr>shaConfigNum = 2, shaShardIDs = map int [0..<10]\<rparr> g1c of Inr r \<Rightarrow> r | Inl _ \<Rightarrow> zero_shreply)"

definition g2c :: ShardCore where "g2c = applied (InsertShards pulled) g2b"

definition run1 :: shard_system where
  "run1 = execute_step 1 (Configuration (two_groups 1)) g1a (submit 1 (Configuration (two_groups 1)) system_init)"

definition run2 :: shard_system where
  "run2 = execute_step 1 (Configuration (two_groups 2)) g1c (submit 1 (Configuration (two_groups 2))
     (execute_step 1 (Operation put_a) g1b (submit 1 (Operation put_a) run1)))"

definition run3 :: shard_system where
  "run3 = execute_step 2 (Configuration (two_groups 2)) g2b (submit 2 (Configuration (two_groups 2))
     (execute_step 2 (Configuration (two_groups 1)) g2a (submit 2 (Configuration (two_groups 1)) run2)))"

definition run4 :: shard_system where
  "run4 = submit 2 (InsertShards pulled) run3"

lemma applied_ok: "\<not> isl (skv_apply c kv) \<Longrightarrow> \<exists>r. skv_apply c kv = Inr (applied c kv, r)"
  by (cases "skv_apply c kv") (auto simp: applied_def split: prod.splits)

lemma run_applies:
  "\<exists>r. skv_apply (Configuration (two_groups 1)) (group_start 1) = Inr (g1a, r)"
  "\<exists>r. skv_apply (Operation put_a) g1a = Inr (g1b, r)"
  "\<exists>r. skv_apply (Configuration (two_groups 2)) g1b = Inr (g1c, r)"
  "\<exists>r. skv_apply (Configuration (two_groups 1)) (group_start 2) = Inr (g2a, r)"
  "\<exists>r. skv_apply (Configuration (two_groups 2)) g2a = Inr (g2b, r)"
  "\<exists>r. skv_apply (InsertShards pulled) g2b = Inr (g2c, r)"
  unfolding g1a_def[of] g1b_def[of] g1c_def[of] g2a_def[of] g2b_def[of] g2c_def[of]
  by (rule applied_ok, code_simp)+

lemma run_configs:
  "configurationAction (\<lambda>n. two_groups (nat n)) (group_start 1) = Some (Configuration (two_groups 1))"
  "configurationAction (\<lambda>n. two_groups (nat n)) g1b = Some (Configuration (two_groups 2))"
  "configurationAction (\<lambda>n. two_groups (nat n)) (group_start 2) = Some (Configuration (two_groups 1))"
  "configurationAction (\<lambda>n. two_groups (nat n)) g2a = Some (Configuration (two_groups 2))"
  by code_simp+

lemma run_pull:
  "getShardIDsByStatus Pulling g2b = Inr [(1, map int [0..<10])]" "cfNum (svCurrentConfig g2b) = 2"
  "pullShards \<lparr>shaConfigNum = 2, shaShardIDs = map int [0..<10]\<rparr> g1c = Inr pulled" "shrErr pulled = SOK"
  by code_simp+

lemma reach_submit:
  "system_reachable hist sys \<Longrightarrow> system_step hist sys (submit g c sys) \<Longrightarrow> system_reachable hist (submit g c sys)"
  by (rule system_reachable.step)

lemma reach_execute:
  assumes "system_reachable hist sys" "(g, c) \<in> submitted sys" "head sys g = kv" "\<exists>r. skv_apply c kv = Inr (kv', r)"
  shows "system_reachable hist (execute_step g c kv' sys)"
  using assms system_step.execute[of g c sys kv'] by (auto intro: system_reachable.step simp: execute_step_def)

lemma reach_configure:
  assumes "system_reachable hist sys" "configurationAction (\<lambda>n. hist (nat n)) kv = Some c" "kv \<in> set (states sys g)"
  shows "system_reachable hist (submit g c sys)"
  using assms system_step.configure[of kv sys g hist c] by (auto intro: system_reachable.step)

lemma init_states [simp]: "states system_init g = [group_start g]" "head system_init g = group_start g" "submitted system_init = {}"
  by (simp_all add: system_init_def head_def)

lemma run1_reachable: "system_reachable two_groups run1"
proof -
  have "system_reachable two_groups (submit 1 (Configuration (two_groups 1)) system_init)"
    by (rule reach_configure[OF system_reachable.init run_configs(1)]) simp
  then show ?thesis unfolding run1_def by (rule reach_execute[OF _ _ _ run_applies(1)]) simp_all
qed

lemma run1_sel: "states run1 1 = [g1a, group_start 1]" "states run1 2 = [group_start 2]" "head run1 1 = g1a" "head run1 2 = group_start 2"
  by (simp_all add: run1_def)

lemma run2_reachable: "system_reachable two_groups run2"
proof -
  have "system_reachable two_groups (execute_step 1 (Operation put_a) g1b (submit 1 (Operation put_a) run1))"
    by (rule reach_execute[OF system_reachable.step[OF run1_reachable system_step.client] _ _ run_applies(2)])
      (simp_all add: run1_sel)
  then have "system_reachable two_groups (submit 1 (Configuration (two_groups 2))
      (execute_step 1 (Operation put_a) g1b (submit 1 (Operation put_a) run1)))"
    by (rule reach_configure[OF _ run_configs(2)]) simp
  then show ?thesis unfolding run2_def by (rule reach_execute[OF _ _ _ run_applies(3)]) simp_all
qed

lemma run2_sel: "states run2 1 = [g1c, g1b, g1a, group_start 1]" "states run2 2 = [group_start 2]" "head run2 2 = group_start 2"
  "head run2 1 = g1c"
  by (simp_all add: run2_def run1_sel)

lemma run3_reachable: "system_reachable two_groups run3"
proof -
  have "system_reachable two_groups (submit 2 (Configuration (two_groups 1)) run2)"
    by (rule reach_configure[OF run2_reachable run_configs(3)]) (simp add: run2_sel)
  then have "system_reachable two_groups (execute_step 2 (Configuration (two_groups 1)) g2a (submit 2 (Configuration (two_groups 1)) run2))"
    by (rule reach_execute[OF _ _ _ run_applies(4)]) (simp_all add: run2_sel)
  then have "system_reachable two_groups (submit 2 (Configuration (two_groups 2))
      (execute_step 2 (Configuration (two_groups 1)) g2a (submit 2 (Configuration (two_groups 1)) run2)))"
    by (rule reach_configure[OF _ run_configs(4)]) simp
  then show ?thesis unfolding run3_def by (rule reach_execute[OF _ _ _ run_applies(5)]) simp_all
qed

lemma run3_sel: "states run3 1 = [g1c, g1b, g1a, group_start 1]" "states run3 2 = [g2b, g2a, group_start 2]"
  "head run3 1 = g1c" "head run3 2 = g2b"
  by (simp_all add: run3_def run2_sel)

lemma run4_reachable: "system_reachable two_groups run4"
proof -
  have "system_step two_groups run3 (submit 2 (InsertShards pulled) run3)"
  proof (rule system_step.pull[OF _ run_pull(1) _ _ _ run_pull(4)])
    show "g2b \<in> set (states run3 2)" "g1c \<in> set (states run3 1)" by (simp_all add: run3_sel)
    show "(1, map int [0..<10]) \<in> set [(1, map int [0..<10])]" by (simp only: list.set) blast
    show "pullShards \<lparr>shaConfigNum = cfNum (svCurrentConfig g2b), shaShardIDs = map int [0..<10]\<rparr> g1c = Inr pulled"
      unfolding run_pull(2) by (rule run_pull(3))
  qed
  with run3_reachable show ?thesis unfolding run4_def by (rule system_reachable.step)
qed

lemma run4_sel: "head run4 1 = g1c" "head run4 2 = g2b" "(2, InsertShards pulled) \<in> submitted run4"
  "states run4 1 = [g1c, g1b, g1a, group_start 1]"
  by (simp_all add: run4_def run3_sel)

subsection \<open>Entries\<close>

text \<open>C25: Applying an entry never panics and keeps the server well formed: all shards are present and both configurations have
  an owner for each, whatever operation, configuration, insertion or deletion the log holds, as long as it only
  names existing shards.\<close>

theorem skv_apply_safe:
  assumes "skv_wf kv" "command_ok c"
  shows "\<exists>kv' r. skv_apply c kv = Inr (kv', r) \<and> skv_wf kv' \<and> svGid kv' = svGid kv"
proof -
  from skv_apply_total[OF assms] obtain kv' r where a: "skv_apply c kv = Inr (kv', r)" by blast
  with skv_apply_effect[OF a assms(1)] show ?thesis by (auto simp: skv_effect_def)
qed

theorem skv_apply_safe_witness:
  "\<exists>kv' r. skv_apply (DeleteShards \<lparr>shaConfigNum = 0, shaShardIDs = [3, 9]\<rparr>) (group_start 1) = Inr (kv', r) \<and> skv_wf kv' \<and> svGid kv' = 1"
proof -
  have "skv_wf (group_start 1)" using group_start_ok(1)[OF two_groups_history(1), of 1] by (simp add: state_ok_def)
  from skv_apply_safe[OF this, of "DeleteShards \<lparr>shaConfigNum = 0, shaShardIDs = [3, 9]\<rparr>"] show ?thesis
    by (simp add: command_ok_def shard_ids_def NShards_def group_start_state)
qed

text \<open>C26: A request takes effect at most once in a group, across configuration changes, insertions and deletions: once it
  has been executed, any log gives the same state with and without further copies of it.\<close>

theorem skv_at_most_once:
  assumes "skv_wf kv" "canServe (key2shard (saKey op)) kv = Inr True" "saOp op \<noteq> SGet"
    and "\<not> skv_isDuplicate (saClientId op) (saCommandId op) (svLastOperations kv)"
  shows "run_ops sk_exec (Operation op # filter (\<lambda>c. c \<noteq> Operation op) cmds) (Inr kv) = run_ops sk_exec (Operation op # cmds) (Inr kv)"
  by (rule sk.once) (use assms in \<open>simp_all add: sk_ok_def sk_next_def sk_due_def\<close>)

theorem skv_at_most_once_witness:
  "run_ops sk_exec [Operation put_a, Configuration (two_groups 2)] (Inr g1a) =
   run_ops sk_exec [Operation put_a, Configuration (two_groups 2), Operation put_a] (Inr g1a)"
proof -
  have "skv_wf g1a" using group_invD(5)[OF group_inv_reachable[OF run1_reachable two_groups_history(1)], of 1]
    by (simp add: run1_sel state_ok_def)
  moreover have "canServe (key2shard (saKey put_a)) g1a = Inr True" by code_simp
  moreover have "saOp put_a \<noteq> SGet" "\<not> skv_isDuplicate (saClientId put_a) (saCommandId put_a) (svLastOperations g1a)" by code_simp+
  ultimately have "run_ops sk_exec (Operation put_a # filter (\<lambda>c. c \<noteq> Operation put_a) [Configuration (two_groups 2), Operation put_a]) (Inr g1a) =
      run_ops sk_exec (Operation put_a # [Configuration (two_groups 2), Operation put_a]) (Inr g1a)"
    by (rule skv_at_most_once)
  then show ?thesis by simp
qed

subsection \<open>Groups\<close>

text \<open>C3: At most one group serves a shard. As long as the controller never leaves a shard that has been assigned without a
  group (\<open>stays_assigned\<close>, see \<open>careful_history\<close>), no two groups accept operations on the same shard at the same time, wherever they are in the history of
  configurations and however their logs, pulls and collections interleave.\<close>

theorem shard_exclusive:
  assumes "history hist" "stays_assigned hist" "system_reachable hist sys" "0 \<le> s" "s < int NShards"
    and "canServe s (head sys a) = Inr True" "a \<noteq> 0" "canServe s (head sys b) = Inr True" "b \<noteq> 0"
  shows "a = b"
proof -
  have s: "s \<in> shard_ids" using assms(4,5) by (simp add: shard_ids_def)
  show ?thesis
  proof (cases "num (head sys a) \<le> num (head sys b)")
    case True
    from exclusive[OF assms(1-3) s assms(6-9) this] show ?thesis .
  next
    case False
    then have "num (head sys b) \<le> num (head sys a)" by simp
    from exclusive[OF assms(1-3) s assms(8,9,6,7) this] show ?thesis ..
  qed
qed

theorem shard_exclusive_witness:
  "canServe 7 (head run1 1) = Inr True \<and> canServe 7 (head run1 2) \<noteq> Inr True"
proof -
  have s: "canServe 7 (head run1 1) = Inr True" unfolding run1_sel by code_simp
  have "canServe 7 (head run1 2) \<noteq> Inr True"
  proof
    assume "canServe 7 (head run1 2) = Inr True"
    from shard_exclusive[OF two_groups_history run1_reachable _ _ s _ this] show False by (simp add: NShards_def)
  qed
  with s show ?thesis ..
qed

text \<open>C4: A shard arrives complete. As long as the controller never leaves a shard that has been assigned without a group (\<open>stays_assigned\<close>;
  \<open>careful_history\<close> shows this of a controller whose groups never all leave and that moves shards only to groups that joined): when a group makes a pulled shard its own, the shard holds exactly what the group that had it
  holds, that group has stopped serving it, and every request that group executed before the change of
  configuration is known to the new one, so that a retry is not executed again.\<close>

theorem migration_complete:
  assumes "history hist" "stays_assigned hist" "system_reachable hist sys"
    and "(g, InsertShards r) \<in> submitted sys" "skv_apply (InsertShards r) (head sys g) = Inr (kv', reply)"
    and "0 \<le> s" "s < int NShards" "status (head sys g) s = Some Pulling" "status kv' s = Some GCing"
  defines "a \<equiv> owner hist s (num (head sys g) - 1)"
  shows "map_of (shKV (shard_of kv' s)) = map_of (shKV (shard_of (head sys a) s)) \<and>
    canServe s (head sys a) = Inr False \<and> canServe s kv' = Inr True \<and>
    (\<forall>x \<in> set (states sys a). num x < num (head sys g) \<longrightarrow> knows_le x kv')"
proof -
  have s: "s \<in> shard_ids" using assms(6,7) by (simp add: shard_ids_def)
  note m = migration[OF assms(1-5) s assms(8,9), folded a_def]
  from m(4) have "\<forall>x \<in> set (states sys a). num x < num (head sys g) \<longrightarrow> knows_le x kv'" by blast
  with m(1-3) show ?thesis by blast
qed

theorem migration_complete_witness:
  "map_of (shKV (shard_of g2c 7)) = map_of (shKV (shard_of g1c 7)) \<and> canServe 7 g1c = Inr False \<and> knows_le g1b g2c"
proof -
  from run_applies(6) obtain reply where i: "skv_apply (InsertShards pulled) (head run4 2) = Inr (g2c, reply)"
    unfolding run4_sel by blast
  have st: "status (head run4 2) 7 = Some Pulling" "status g2c 7 = Some GCing" unfolding run4_sel by code_simp+
  have o: "owner two_groups 7 (num (head run4 2) - 1) = 1" unfolding run4_sel by code_simp
  have n: "num g1b < num (head run4 2)" unfolding run4_sel by code_simp
  from migration_complete[OF two_groups_history run4_reachable run4_sel(3) i _ _ st, unfolded o] n show ?thesis
    by (simp add: NShards_def run4_sel)
qed

text \<open>The same groups when the controller removes all groups in between.\<close>

definition via_zero :: "nat \<Rightarrow> Config" where
  "via_zero n = (if n = 0 then DefaultConfig
     else \<lparr>cfNum = int n, cfShards = replicate NShards (if n = 1 then 1 else if n = 2 then 0 else 2),
           cfGroups = (if n = 1 then [(1, [''x''])] else if n = 2 then [] else [(2, [''y''])])\<rparr>)"

definition z1 :: ShardCore where "z1 = applied (Configuration (via_zero 1)) (group_start 1)"
definition y1 :: ShardCore where "y1 = applied (Configuration (via_zero 1)) (group_start 2)"
definition y2 :: ShardCore where "y2 = applied (Configuration (via_zero 2)) y1"
definition y3 :: ShardCore where "y3 = applied (Configuration (via_zero 3)) y2"

lemma zero_applies:
  "\<exists>r. skv_apply (Configuration (via_zero 1)) (group_start 1) = Inr (z1, r)"
  "\<exists>r. skv_apply (Configuration (via_zero 1)) (group_start 2) = Inr (y1, r)"
  "\<exists>r. skv_apply (Configuration (via_zero 2)) y1 = Inr (y2, r)"
  "\<exists>r. skv_apply (Configuration (via_zero 3)) y2 = Inr (y3, r)"
  unfolding z1_def[of] y1_def[of] y2_def[of] y3_def[of] by (rule applied_ok, code_simp)+

lemma zero_configs:
  "configurationAction (\<lambda>n. via_zero (nat n)) (group_start 1) = Some (Configuration (via_zero 1))"
  "configurationAction (\<lambda>n. via_zero (nat n)) (group_start 2) = Some (Configuration (via_zero 1))"
  "configurationAction (\<lambda>n. via_zero (nat n)) y1 = Some (Configuration (via_zero 2))"
  "configurationAction (\<lambda>n. via_zero (nat n)) y2 = Some (Configuration (via_zero 3))"
  by code_simp+

lemma zero_run:
  assumes "system_reachable via_zero sys" "head sys g = kv" "states sys g \<noteq> []"
    and "configurationAction (\<lambda>n. via_zero (nat n)) kv = Some c" "\<exists>r. skv_apply c kv = Inr (kv', r)"
  shows "system_reachable via_zero (execute_step g c kv' (submit g c sys))"
proof (rule reach_execute[OF _ _ _ assms(5)])
  have "kv \<in> set (states sys g)" using assms(2,3) by (auto simp: head_def)
  then show "system_reachable via_zero (submit g c sys)" by (rule reach_configure[OF assms(1,4)])
qed (use assms(2) in simp_all)

text \<open>C27: Without that assumption two groups can serve a shard at once. When the controller takes all groups away and then brings
  in another, the new group does not pull its shards from anyone and starts serving them empty, while the old
  group, which has not yet seen the change, still serves them.\<close>

theorem shard_through_zero:
  "\<exists>hist sys. history hist \<and> system_reachable hist sys \<and> canServe 7 (head sys 1) = Inr True \<and> canServe 7 (head sys 2) = Inr True"
proof -
  let ?s = "\<lambda>g n kv sys. execute_step g (Configuration (via_zero n)) kv (submit g (Configuration (via_zero n)) sys)"
  have h: "history via_zero" by (auto simp: history_def via_zero_def DefaultConfig_def)
  have r1: "system_reachable via_zero (?s 1 1 z1 system_init)"
    by (rule zero_run[OF system_reachable.init _ _ zero_configs(1) zero_applies(1)]) simp_all
  have r2: "system_reachable via_zero (?s 2 1 y1 (?s 1 1 z1 system_init))"
    by (rule zero_run[OF r1 _ _ zero_configs(2) zero_applies(2)]) simp_all
  have r3: "system_reachable via_zero (?s 2 2 y2 (?s 2 1 y1 (?s 1 1 z1 system_init)))"
    by (rule zero_run[OF r2 _ _ zero_configs(3) zero_applies(3)]) simp_all
  have r4: "system_reachable via_zero (?s 2 3 y3 (?s 2 2 y2 (?s 2 1 y1 (?s 1 1 z1 system_init))))"
    by (rule zero_run[OF r3 _ _ zero_configs(4) zero_applies(4)]) simp_all
  have "canServe 7 z1 = Inr True" "canServe 7 y3 = Inr True" by code_simp+
  with h r4 show ?thesis
    by (intro exI[of _ via_zero] exI[of _ "?s 2 3 y3 (?s 2 2 y2 (?s 2 1 y1 (?s 1 1 z1 system_init)))"]) simp
qed

subsection \<open>Restart\<close>

text \<open>C28: Snapshot round trip. A server started from a persister that holds a snapshot taken at the position of the last
  executed entry has the configurations, shards and requests of the server that took it, and its peer resumes after
  that position.\<close>

theorem skv_snapshot_restart:
  assumes "raft_wf (svRf kv)" "lastIncludedIndex (svRf kv) < index" "index \<le> commitIndex (svRf kv)"
  shows "\<exists>kv'. takeSnapshot index kv = Inr kv' \<and>
    (let new = skv_StartServer n i (persister (svRf kv')) mx (svGid kv) rnd now in
     ShardCore.truncate new = ShardCore.truncate kv \<and> lastApplied (svRf new) = index)"
proof -
  from Snapshot_taken[OF assms, of "encodeShards kv"] obtain rf' where
    s: "Snapshot index (encodeShards kv) (svRf kv) = Inr rf'" "persisted rf'" "snapShot rf' = encodeShards kv"
      "lastIncludedIndex rf' = index"
    by (auto simp: persisted_def persist_def Save_def encodeState_def)
  have p: "snapshot (persister rf') = encodeShards kv" "raftstate (persister rf') = encodeState rf'"
    using s by (auto simp: persisted_def)
  have la: "lastApplied (Make n i (persister rf') rnd now) = index"
    using s(4) p by (auto simp: Make_def ReadRaftState_def ReadSnapshot_def Let_def)
  have r: "restoreSnapshot (encodeShards kv) k = k\<lparr>svLastConfig := svLastConfig kv, svCurrentConfig := svCurrentConfig kv,
      svStateMachine := svStateMachine kv, svLastOperations := svLastOperations kv\<rparr>" for k :: ShardKV
    by (simp add: restoreSnapshot_def encodeShards_def decodeState_def)
  show ?thesis
    using s(1) la by (simp add: takeSnapshot_def skv_StartServer_def ReadSnapshot_def p r ShardCore.truncate_def Let_def)
qed

definition demo_skv :: ShardKV where
  "demo_skv = (skv_StartServer 3 0 MakePersister (-1) 1 0 0)\<lparr>svLastOperations := [(9, \<lparr>soMaxAppliedCommandId = 4, soLastReply = zero_sreply\<rparr>)],
     svRf := (Make 3 0 MakePersister 0 0)\<lparr>log := [\<lparr>eTerm = -1, eCommand = None\<rparr>, \<lparr>eTerm = 2, eCommand = Some EmptyShards\<rparr>],
       commitIndex := 1, lastApplied := 1\<rparr>\<rparr>"

theorem skv_snapshot_restart_witness:
  "\<exists>kv'. takeSnapshot 1 demo_skv = Inr kv' \<and>
     svLastOperations (skv_StartServer 3 0 (persister (svRf kv')) (-1) (svGid demo_skv) 0 0) =
       [(9, \<lparr>soMaxAppliedCommandId = 4, soLastReply = zero_sreply\<rparr>)]"
proof -
  have f: "raft_wf (svRf demo_skv)" "lastIncludedIndex (svRf demo_skv) < 1" "1 \<le> commitIndex (svRf demo_skv)"
    by (simp_all add: demo_skv_def raft_wf_def Make_def MakePersister_def ReadRaftState_def ReadSnapshot_def readPersist_def
        readSnapshot_def Let_def)
  have o: "svLastOperations demo_skv = [(9, \<lparr>soMaxAppliedCommandId = 4, soLastReply = zero_sreply\<rparr>)]" by (simp add: demo_skv_def)
  from skv_snapshot_restart[OF f, of 3 0 "-1" 0 0] obtain kv' where "takeSnapshot 1 demo_skv = Inr kv'"
    "ShardCore.truncate (skv_StartServer 3 0 (persister (svRf kv')) (-1) (svGid demo_skv) 0 0) = ShardCore.truncate demo_skv"
    by (auto simp: Let_def)
  with o show ?thesis by (auto simp: ShardCore.truncate_def)
qed

end
