(* ===== verification/Bitset.thy ===== *)
theory Bitset
  imports Prelude "HOL-Library.Word"
begin

text \<open>
  \<open>porcupine/bitset.go\<close>: a set of positions kept in 64-bit chunks. Positions are Go's \<open>uint\<close>
  and chunks \<open>uint64\<close>, both \<open>64 word\<close>; an index outside the slice panics. \<open>bs_members\<close> is the
  set a bitset stands for, and every operation is shown to compute on it.
\<close>

unbundle bit_operations_syntax

type_synonym bitset = "64 word list"

definition newBitset :: "64 word \<Rightarrow> bitset" where
  "newBitset bits =
     (let extra = (if bits mod 64 \<noteq> 0 then 1 else 0);
          chunks = bits div 64 + extra
      in replicate (unat chunks) 0)"

definition bs_clone :: "bitset \<Rightarrow> bitset" where
  "bs_clone b = take (length b) b"

definition bitsetIndex :: "64 word \<Rightarrow> 64 word \<times> 64 word" where
  "bitsetIndex pos = (pos div 64, pos mod 64)"

definition bs_set :: "64 word \<Rightarrow> bitset \<Rightarrow> bitset res" where
  "bs_set pos b =
     (case bitsetIndex pos of (major, minor) \<Rightarrow>
      case go_nth b (uint major) of Inl e \<Rightarrow> Inl e
      | Inr v \<Rightarrow> go_set b (uint major) (v OR push_bit (unat minor) 1))"

definition bs_clear :: "64 word \<Rightarrow> bitset \<Rightarrow> bitset res" where
  "bs_clear pos b =
     (case bitsetIndex pos of (major, minor) \<Rightarrow>
      case go_nth b (uint major) of Inl e \<Rightarrow> Inl e
      | Inr v \<Rightarrow> go_set b (uint major) (v AND NOT (push_bit (unat minor) 1)))"

definition bs_get :: "64 word \<Rightarrow> bitset \<Rightarrow> bool res" where
  "bs_get pos b =
     (case bitsetIndex pos of (major, minor) \<Rightarrow>
      case go_nth b (uint major) of Inl e \<Rightarrow> Inl e
      | Inr v \<Rightarrow> Inr (v AND push_bit (unat minor) 1 \<noteq> 0))"

text \<open>\<open>bits.OnesCount64\<close> of the standard library.\<close>

definition OnesCount64 :: "64 word \<Rightarrow> nat" where
  "OnesCount64 v = length (filter (bit v) [0..<64])"

definition bs_popcnt :: "bitset \<Rightarrow> 64 word" where
  "bs_popcnt b = word_of_nat (fold (\<lambda>v total. total + OnesCount64 v) b 0)"

definition bs_hash :: "bitset \<Rightarrow> 64 word" where
  "bs_hash b = fold (\<lambda>v hash. hash XOR v) b (bs_popcnt b)"

definition bs_equals :: "bitset \<Rightarrow> bitset \<Rightarrow> bool" where
  "bs_equals b b2 \<longleftrightarrow> length b = length b2 \<and> (\<forall>i \<in> set [0..<length b]. b ! i = b2 ! i)"

subsection \<open>The set a bitset stands for\<close>

definition bs_members :: "bitset \<Rightarrow> nat set" where
  "bs_members b = {i. i div 64 < length b \<and> bit (b ! (i div 64)) (i mod 64)}"

lemma bs_members_bound: "i \<in> bs_members b \<Longrightarrow> i < 64 * length b"
  by (auto simp: bs_members_def)

lemma finite_bs_members [simp]: "finite (bs_members b)"
  using bs_members_bound by (auto intro: finite_subset[of _ "{..<64 * length b}"])

lemma bs_clone_id [simp]: "bs_clone b = b"
  by (simp add: bs_clone_def)

lemma bs_equals_iff [simp]: "bs_equals b b2 \<longleftrightarrow> b = b2"
proof
  assume "bs_equals b b2"
  then show "b = b2" unfolding bs_equals_def by (intro nth_equalityI) simp_all
qed (simp add: bs_equals_def)

lemma unat_index [simp]:
  "unat (pos div 64 :: 64 word) = unat pos div 64" "unat (pos mod 64 :: 64 word) = unat pos mod 64"
  by (simp_all add: unat_div_distrib unat_mod_distrib)

lemma uint_index [simp]: "uint (pos div 64 :: 64 word) = int (unat pos div 64)"
  by (metis uint_nat unat_index(1))

lemma newBitset_members [simp]: "bs_members (newBitset n) = {}"
  by (auto simp: bs_members_def newBitset_def Let_def)

lemma round_up: "m div 64 + (if m mod 64 \<noteq> 0 then 1 else 0) = (m + 63) div (64 :: nat)"
proof -
  define q r where "q = m div 64" and "r = m mod 64"
  have m: "m = q * 64 + r" "r < 64" by (simp_all add: q_def r_def)
  have "(m + 63) div 64 = q + (if r \<noteq> 0 then 1 else 0)"
    by (rule div_nat_eqI) (use m in \<open>auto split: if_splits\<close>)
  then show ?thesis by (simp add: q_def r_def)
qed

lemma unat_chunks: "unat (n div 64 + (if n mod 64 \<noteq> 0 then 1 else 0) :: 64 word) = (unat n + 63) div 64"
proof -
  have "unat n < 2 ^ 64" using unsigned_less[of n, where ?'a = nat] by simp
  then have "unat n div 64 + 1 < 2 ^ 64" by simp
  moreover have "n mod 64 = 0 \<longleftrightarrow> unat n mod 64 = 0"
    by (metis unat_eq_0 unat_index(2))
  ultimately have "unat (n div 64 + (if n mod 64 \<noteq> 0 then 1 else 0) :: 64 word)
      = unat n div 64 + (if unat n mod 64 \<noteq> 0 then 1 else 0)"
    by (simp add: unat_word_ariths(1))
  also have "\<dots> = (unat n + 63) div 64"
    by (rule round_up)
  finally show ?thesis .
qed

lemma newBitset_length: "length (newBitset n) = (unat n + 63) div 64"
  by (simp add: newBitset_def Let_def unat_chunks)

lemma newBitset_room: "i < unat n \<Longrightarrow> i div 64 < length (newBitset n)"
  using div_le_mono[of "i + 64" "unat n + 63" 64] by (simp add: newBitset_length)

lemma bs_get_members:
  "bs_get pos b = (if unat pos div 64 < length b then Inr (unat pos \<in> bs_members b) else Inl IndexOutOfRange)"
  by (simp add: bs_get_def bitsetIndex_def go_nth_def bs_members_def bit_iff_and_push_bit_not_eq_0)

lemma bs_set_Inr:
  "bs_set pos b = (if unat pos div 64 < length b
     then Inr (b[unat pos div 64 := set_bit (unat pos mod 64) (b ! (unat pos div 64))])
     else Inl IndexOutOfRange)"
  by (simp add: bs_set_def bitsetIndex_def go_nth_def go_set_def set_bit_eq_or)

lemma bs_clear_Inr:
  "bs_clear pos b = (if unat pos div 64 < length b
     then Inr (b[unat pos div 64 := unset_bit (unat pos mod 64) (b ! (unat pos div 64))])
     else Inl IndexOutOfRange)"
  by (simp add: bs_clear_def bitsetIndex_def go_nth_def go_set_def unset_bit_eq_and_not)

lemma bs_set_members:
  assumes "unat pos div 64 < length b"
  shows "\<exists>b'. bs_set pos b = Inr b' \<and> length b' = length b \<and> bs_members b' = insert (unat pos) (bs_members b)"
proof -
  let ?m = "unat pos div 64"
  let ?b' = "b[?m := set_bit (unat pos mod 64) (b ! ?m)]"
  have "i \<in> bs_members ?b' \<longleftrightarrow> i = unat pos \<or> i \<in> bs_members b" for i
  proof (cases "i div 64 = ?m")
    case True
    then have "i = unat pos \<longleftrightarrow> i mod 64 = unat pos mod 64"
      by (metis div_mod_decomp)
    with True assms show ?thesis by (auto simp: bs_members_def bit_simps)
  next
    case False
    then show ?thesis by (auto simp: bs_members_def)
  qed
  with assms show ?thesis by (auto simp: bs_set_Inr)
qed

lemma bs_clear_members:
  assumes "unat pos div 64 < length b"
  shows "\<exists>b'. bs_clear pos b = Inr b' \<and> length b' = length b \<and> bs_members b' = bs_members b - {unat pos}"
proof -
  let ?m = "unat pos div 64"
  let ?b' = "b[?m := unset_bit (unat pos mod 64) (b ! ?m)]"
  have "i \<in> bs_members ?b' \<longleftrightarrow> i \<noteq> unat pos \<and> i \<in> bs_members b" for i
  proof (cases "i div 64 = ?m")
    case True
    then have "i = unat pos \<longleftrightarrow> i mod 64 = unat pos mod 64"
      by (metis div_mod_decomp)
    with True assms show ?thesis by (auto simp: bs_members_def bit_simps)
  next
    case False
    then show ?thesis by (auto simp: bs_members_def)
  qed
  with assms show ?thesis by (auto simp: bs_clear_Inr)
qed

lemma bs_members_inject:
  assumes "length b = length b2"
  shows "bs_members b = bs_members b2 \<longleftrightarrow> b = b2"
proof
  assume eq: "bs_members b = bs_members b2"
  show "b = b2"
  proof (rule nth_equalityI)
    fix k assume k: "k < length b"
    show "b ! k = b2 ! k"
    proof (rule bit_word_eqI)
      fix n assume "n < LENGTH(64)"
      then have d: "(64 * k + n) div 64 = k" "(64 * k + n) mod 64 = n" by simp_all
      have "64 * k + n \<in> bs_members b \<longleftrightarrow> 64 * k + n \<in> bs_members b2" using eq by simp
      then show "bit (b ! k) n \<longleftrightarrow> bit (b2 ! k) n" using k assms d by (simp add: bs_members_def)
    qed
  qed (rule assms)
qed simp

text \<open>Clearing a position undoes setting it.\<close>

lemma bs_clear_set:
  assumes "bs_set pos b = Inr b'" "unat pos \<notin> bs_members b"
  shows "bs_clear pos b' = Inr b"
proof -
  have room: "unat pos div 64 < length b" using assms(1) by (auto simp: bs_set_Inr split: if_splits)
  with assms(1) have b': "length b' = length b" "bs_members b' = insert (unat pos) (bs_members b)"
    using bs_set_members[OF room] by auto
  then obtain b2 where "bs_clear pos b' = Inr b2" "length b2 = length b'"
      "bs_members b2 = bs_members b' - {unat pos}"
    using bs_clear_members[of pos b'] room by auto
  with b' assms(2) bs_members_inject[of b2 b] show ?thesis by simp
qed

lemma bs_members_Cons: "bs_members (v # b) = {n. n < 64 \<and> bit v n} \<union> (\<lambda>i. i + 64) ` bs_members b"
proof (intro set_eqI iffI)
  fix i assume i: "i \<in> bs_members (v # b)"
  show "i \<in> {n. n < 64 \<and> bit v n} \<union> (\<lambda>i. i + 64) ` bs_members b"
  proof (cases "i < 64")
    case True
    with i show ?thesis by (simp add: bs_members_def)
  next
    case False
    then have e: "i = (i - 64) + 64" "i div 64 = Suc ((i - 64) div 64)" "i mod 64 = (i - 64) mod 64"
      by (simp_all add: le_div_geq le_mod_geq)
    with i have "i - 64 \<in> bs_members b" by (simp add: bs_members_def)
    with e(1) show ?thesis by blast
  qed
qed (auto simp: bs_members_def div_add_self2)

lemma card_bs_members: "card (bs_members b) = sum_list (map OnesCount64 b)"
proof (induction b)
  case Nil
  then show ?case by (simp add: bs_members_def)
next
  case (Cons v b)
  have "card (bs_members (v # b)) = card {n. n < 64 \<and> bit v n} + card ((\<lambda>i. i + 64) ` bs_members b)"
    unfolding bs_members_Cons by (rule card_Un_disjoint) auto
  moreover have "card {n. n < 64 \<and> bit v n} = OnesCount64 v"
    by (simp add: OnesCount64_def distinct_length_filter Int_def conj_commute)
  moreover have "card ((\<lambda>i. i + 64) ` bs_members b) = card (bs_members b)"
    by (rule card_image) (simp add: inj_on_def)
  ultimately show ?case using Cons.IH by simp
qed

lemma fold_count: "fold (\<lambda>v total. total + OnesCount64 v) b t = t + sum_list (map OnesCount64 b)"
  by (induction b arbitrary: t) simp_all

lemma bs_popcnt_card: "bs_popcnt b = word_of_nat (card (bs_members b))"
  by (simp add: bs_popcnt_def fold_count card_bs_members)

subsection \<open>Runs of operations\<close>

datatype bs_op = BSet "64 word" | BClear "64 word"

primrec bs_pos :: "bs_op \<Rightarrow> 64 word" where
  "bs_pos (BSet p) = p"
| "bs_pos (BClear p) = p"

primrec bs_exec :: "bs_op \<Rightarrow> bitset \<Rightarrow> bitset res" where
  "bs_exec (BSet p) b = bs_set p b"
| "bs_exec (BClear p) b = bs_clear p b"

primrec bs_spec :: "bs_op \<Rightarrow> nat set \<Rightarrow> nat set" where
  "bs_spec (BSet p) S = insert (unat p) S"
| "bs_spec (BClear p) S = S - {unat p}"

fun bs_run :: "bs_op list \<Rightarrow> bitset \<Rightarrow> bitset res" where
  "bs_run [] b = Inr b"
| "bs_run (o1 # os) b = (case bs_exec o1 b of Inl e \<Rightarrow> Inl e | Inr b' \<Rightarrow> bs_run os b')"

lemma bs_exec_members:
  assumes "unat (bs_pos o1) div 64 < length b"
  shows "\<exists>b'. bs_exec o1 b = Inr b' \<and> length b' = length b \<and> bs_members b' = bs_spec o1 (bs_members b)"
  using assms by (cases o1) (simp_all add: bs_set_members bs_clear_members)

lemma bs_run_members:
  assumes "\<And>o1. o1 \<in> set os \<Longrightarrow> unat (bs_pos o1) div 64 < length b"
  shows "\<exists>b'. bs_run os b = Inr b' \<and> length b' = length b \<and> bs_members b' = fold bs_spec os (bs_members b)"
  using assms
proof (induction os arbitrary: b)
  case (Cons o1 os)
  obtain b1 where b1: "bs_exec o1 b = Inr b1" "length b1 = length b" "bs_members b1 = bs_spec o1 (bs_members b)"
    using bs_exec_members[of o1 b] Cons.prems by auto
  with Cons.IH[of b1] Cons.prems show ?case by simp
qed simp

lemma fold_bs_spec_bound:
  "(\<And>o1. o1 \<in> set os \<Longrightarrow> unat (bs_pos o1) < n) \<Longrightarrow> S \<subseteq> {..<n} \<Longrightarrow> fold bs_spec os S \<subseteq> {..<n}"
proof (induction os arbitrary: S)
  case (Cons o1 os)
  have "bs_spec o1 S \<subseteq> {..<n}" using Cons.prems by (cases o1) force+
  with Cons.IH[of "bs_spec o1 S"] Cons.prems(1) show ?case by simp
qed simp

text \<open>
  C31: A bitset made for \<open>n\<close> positions has just enough 64-bit chunks. Setting and clearing
  positions below \<open>n\<close> in any order never panics and never changes the number of chunks. A
  position reads back as a finite set would have it, also for positions in the last chunk beyond
  \<open>n\<close>; a position beyond the last chunk panics. \<open>popcnt\<close> is the number of members, without
  overflow, and at most \<open>n\<close>.
\<close>

theorem bitset_run:
  assumes "\<And>o1. o1 \<in> set os \<Longrightarrow> unat (bs_pos o1) < unat n"
  shows "\<exists>b. bs_run os (newBitset n) = Inr b \<and> length b = (unat n + 63) div 64 \<and>
    (\<forall>pos. bs_get pos b =
       (if unat pos div 64 < (unat n + 63) div 64 then Inr (unat pos \<in> fold bs_spec os {}) else Inl IndexOutOfRange)) \<and>
    unat (bs_popcnt b) = card (fold bs_spec os {}) \<and> unat (bs_popcnt b) \<le> unat n"
proof -
  obtain b where b: "bs_run os (newBitset n) = Inr b" "length b = length (newBitset n)"
      "bs_members b = fold bs_spec os {}"
    using bs_run_members[of os "newBitset n"] assms newBitset_room by auto
  have "fold bs_spec os {} \<subseteq> {..<unat n}" using fold_bs_spec_bound[of os "unat n" "{}"] assms by simp
  then have "card (fold bs_spec os {}) \<le> unat n" using card_mono[of "{..<unat n}"] by simp
  moreover from this have "unat (bs_popcnt b) = card (fold bs_spec os {})"
    using unsigned_less[of n, where ?'a = nat] by (simp add: bs_popcnt_card b(3) unat_of_nat)
  ultimately show ?thesis using b by (simp add: bs_get_members newBitset_length)
qed

theorem bitset_run_witness:
  "\<exists>b. bs_run [BSet 3, BSet 69, BClear 3] (newBitset 70) = Inr b \<and> bs_get 69 b = Inr True \<and>
     bs_get 3 b = Inr False \<and> bs_get 128 b = Inl IndexOutOfRange \<and> unat (bs_popcnt b) = 1"
proof -
  have h: "unat (bs_pos o1) < unat (70 :: 64 word)" if "o1 \<in> set [BSet 3, BSet 69, BClear 3]" for o1
    using that by auto
  obtain b where "bs_run [BSet 3, BSet 69, BClear 3] (newBitset 70) = Inr b"
    and "\<And>pos. bs_get pos b = (if unat pos div 64 < (unat (70 :: 64 word) + 63) div 64
        then Inr (unat pos \<in> fold bs_spec [BSet 3, BSet 69, BClear 3] {}) else Inl IndexOutOfRange)"
    and "unat (bs_popcnt b) = card (fold bs_spec [BSet 3, BSet 69, BClear 3] {})"
    using bitset_run[of "[BSet 3, BSet 69, BClear 3]" 70, OF h] by blast
  then show ?thesis by (intro exI[of _ b]) (simp del: bs_run.simps)
qed

end
