(* ===== verification/Porcupine.thy ===== *)
theory Porcupine
  imports Bitset
begin

text \<open>
  \<open>porcupine/model.go\<close>, \<open>porcupine/checker.go\<close> and \<open>porcupine/porcupine.go\<close>: the
  linearizability checker. A value of type \<open>interface{}\<close> is of the type parameter \<open>'v\<close>, a state
  of \<open>'s\<close>; a nil function of a \<open>Model\<close> is \<open>None\<close>, and a type assertion inside \<open>Partition\<close> or
  \<open>Step\<close> can panic. The doubly linked list of nodes is kept in a store, a list of nodes whose
  indices are the addresses, so that \<open>lift\<close> and \<open>unlift\<close> are the pointer updates of the code.
  The loop of \<open>checkSingle\<close> is a \<open>partial_function\<close>: \<open>None\<close> means that it runs for ever.
  The two functions of a \<open>Model\<close> that describe operations and states are for the visualisation
  only and are left out, with the defaults \<open>fillDefault\<close> would give them.
\<close>

subsection \<open>Models and histories (\<open>model.go\<close>)\<close>

record 'v Operation =
  opClientId :: int
  opInput :: 'v
  opCall :: int
  opOutput :: 'v
  opReturn :: int

datatype EventKind = CallEvent | ReturnEvent

record 'v Event =
  evClientId :: int
  evKind :: EventKind
  evValue :: 'v
  evId :: int

record ('s, 'v) Model =
  mPartition :: "('v Operation list \<Rightarrow> 'v Operation list list res) option"
  mPartitionEvent :: "('v Event list \<Rightarrow> 'v Event list list res) option"
  mInit :: 's
  mStep :: "'s \<Rightarrow> 'v \<Rightarrow> 'v \<Rightarrow> (bool \<times> 's) res"
  mEqual :: "('s \<Rightarrow> 's \<Rightarrow> bool) option"

definition NoPartition :: "'v Operation list \<Rightarrow> 'v Operation list list res" where
  "NoPartition history = Inr [history]"

definition NoPartitionEvent :: "'v Event list \<Rightarrow> 'v Event list list res" where
  "NoPartitionEvent history = Inr [history]"

definition ShallowEqual :: "'s \<Rightarrow> 's \<Rightarrow> bool" where
  "ShallowEqual state1 state2 \<longleftrightarrow> state1 = state2"

datatype CheckResult = Unknown | Ok | Illegal

subsection \<open>Entries (\<open>checker.go\<close>)\<close>

datatype entryKind = callEntry | returnEntry

record 'v entry =
  enKind :: entryKind
  enValue :: 'v
  enId :: int
  enTime :: int
  enClientId :: int

definition byTime_Less :: "'v entry \<Rightarrow> 'v entry \<Rightarrow> bool" where
  "byTime_Less a b =
     (if enTime a \<noteq> enTime b then enTime a < enTime b
      else enKind a = callEntry \<and> enKind b = returnEntry)"

fun entriesFrom :: "int \<Rightarrow> 'v Operation list \<Rightarrow> 'v entry list" where
  "entriesFrom n [] = []"
| "entriesFrom n (elem # rest) =
     \<lparr>enKind = callEntry, enValue = opInput elem, enId = n, enTime = opCall elem, enClientId = opClientId elem\<rparr> #
     \<lparr>enKind = returnEntry, enValue = opOutput elem, enId = n, enTime = opReturn elem, enClientId = opClientId elem\<rparr> #
     entriesFrom (n + 1) rest"

text \<open>
  \<open>sort.Sort\<close> is not stable: what it returns on equal entries is open, so it is the argument
  \<open>srt\<close> of \<open>makeEntries\<close>; \<open>sorts_by\<close> is what the library promises of it.
\<close>

definition makeEntries :: "('v entry list \<Rightarrow> 'v entry list) \<Rightarrow> 'v Operation list \<Rightarrow> 'v entry list" where
  "makeEntries srt history = srt (entriesFrom 0 history)"

fun renumberLoop :: "(int, int) gomap \<Rightarrow> int \<Rightarrow> 'v Event list \<Rightarrow> 'v Event list" where
  "renumberLoop m n [] = []"
| "renumberLoop m n (v # vs) =
     (case map_of m (evId v) of
        Some r \<Rightarrow> v\<lparr>evId := r\<rparr> # renumberLoop m n vs
      | None \<Rightarrow> v\<lparr>evId := n\<rparr> # renumberLoop (mput (evId v) n m) (n + 1) vs)"

definition renumber :: "'v Event list \<Rightarrow> 'v Event list" where
  "renumber events = renumberLoop [] 0 events"

definition convertEntries :: "'v Event list \<Rightarrow> 'v entry list" where
  "convertEntries events =
     map (\<lambda>(i, elem). \<lparr>enKind = (if evKind elem = ReturnEvent then returnEntry else callEntry),
                       enValue = evValue elem, enId = evId elem, enTime = int i, enClientId = evClientId elem\<rparr>)
       (zip [0..<length events] events)"

subsection \<open>The linked list\<close>

text \<open>A pointer is an address or nil; the value of the head node is nil.\<close>

record 'v node =
  ndValue :: "'v option"
  ndMatch :: "nat option"
  ndId :: int
  ndNext :: "nat option"
  ndPrev :: "nat option"

type_synonym 'v store = "'v node list"

definition setNext :: "nat \<Rightarrow> nat option \<Rightarrow> 'v store \<Rightarrow> 'v store" where
  "setNext a p h = h[a := (h ! a)\<lparr>ndNext := p\<rparr>]"

definition setPrev :: "nat \<Rightarrow> nat option \<Rightarrow> 'v store \<Rightarrow> 'v store" where
  "setPrev a p h = h[a := (h ! a)\<lparr>ndPrev := p\<rparr>]"

definition insertBefore :: "nat \<Rightarrow> nat option \<Rightarrow> 'v store \<Rightarrow> 'v store" where
  "insertBefore n mark h =
     (case mark of None \<Rightarrow> h
      | Some k \<Rightarrow>
          let beforeMark = ndPrev (h ! k); h1 = setNext n (Some k) (setPrev k (Some n) h) in
          (case beforeMark of None \<Rightarrow> h1
           | Some b \<Rightarrow> setNext b (Some n) (setPrev n (Some b) h1)))"

partial_function (option) node_length :: "'v store \<Rightarrow> nat option \<Rightarrow> nat \<Rightarrow> nat option" where
  "node_length h n l = (case n of None \<Rightarrow> Some l | Some a \<Rightarrow> node_length h (ndNext (h ! a)) (l + 1))"

text \<open>The loop of \<open>makeLinkedEntries\<close> runs from the last entry to the first.\<close>

fun linkLoop :: "'v entry list \<Rightarrow> 'v store \<Rightarrow> nat option \<Rightarrow> (int, nat) gomap \<Rightarrow> 'v store \<times> nat option" where
  "linkLoop [] h root match = (h, root)"
| "linkLoop (elem # rest) h root match =
     (let a = length h in
      if enKind elem = returnEntry then
        linkLoop rest (insertBefore a root (h @ [\<lparr>ndValue = Some (enValue elem), ndMatch = None, ndId = enId elem,
                                                 ndNext = None, ndPrev = None\<rparr>]))
          (Some a) (mput (enId elem) a match)
      else
        linkLoop rest (insertBefore a root (h @ [\<lparr>ndValue = Some (enValue elem), ndMatch = map_of match (enId elem),
                                                 ndId = enId elem, ndNext = None, ndPrev = None\<rparr>]))
          (Some a) match)"

definition makeLinkedEntries :: "'v entry list \<Rightarrow> 'v store \<times> nat option" where
  "makeLinkedEntries entries = linkLoop (rev entries) [] None []"

definition lift :: "nat \<Rightarrow> 'v store \<Rightarrow> 'v store res" where
  "lift e h =
     (case ndPrev (h ! e) of None \<Rightarrow> Inl NilDereference | Some p \<Rightarrow>
      let h1 = setNext p (ndNext (h ! e)) h in
      case ndNext (h1 ! e) of None \<Rightarrow> Inl NilDereference | Some q \<Rightarrow>
      let h2 = setPrev q (ndPrev (h1 ! e)) h1 in
      case ndMatch (h2 ! e) of None \<Rightarrow> Inl NilDereference | Some m \<Rightarrow>
      case ndPrev (h2 ! m) of None \<Rightarrow> Inl NilDereference | Some mp \<Rightarrow>
      let h3 = setNext mp (ndNext (h2 ! m)) h2 in
      case ndNext (h3 ! m) of None \<Rightarrow> Inr h3
      | Some mq \<Rightarrow> Inr (setPrev mq (ndPrev (h3 ! m)) h3))"

definition unlift :: "nat \<Rightarrow> 'v store \<Rightarrow> 'v store res" where
  "unlift e h =
     (case ndMatch (h ! e) of None \<Rightarrow> Inl NilDereference | Some m \<Rightarrow>
      case ndPrev (h ! m) of None \<Rightarrow> Inl NilDereference | Some mp \<Rightarrow>
      let h1 = setNext mp (Some m) h;
          h2 = (case ndNext (h1 ! m) of None \<Rightarrow> h1 | Some mq \<Rightarrow> setPrev mq (Some m) h1) in
      case ndPrev (h2 ! e) of None \<Rightarrow> Inl NilDereference | Some p \<Rightarrow>
      let h3 = setNext p (Some e) h2 in
      case ndNext (h3 ! e) of None \<Rightarrow> Inl NilDereference | Some q \<Rightarrow> Inr (setPrev q (Some e) h3))"

subsection \<open>The cache of visited configurations\<close>

record 's cacheEntry =
  ceLinearized :: bitset
  ceState :: 's

type_synonym 's cache = "(64 word, 's cacheEntry list) gomap"

fun cacheScan :: "('s, 'v) Model \<Rightarrow> 's cacheEntry list \<Rightarrow> 's cacheEntry \<Rightarrow> bool res" where
  "cacheScan m [] entry = Inr False"
| "cacheScan m (elem # rest) entry =
     (if bs_equals (ceLinearized entry) (ceLinearized elem) then
        (case mEqual m of None \<Rightarrow> Inl NilDereference
         | Some eq \<Rightarrow> if eq (ceState entry) (ceState elem) then Inr True else cacheScan m rest entry)
      else cacheScan m rest entry)"

definition cacheContains :: "('s, 'v) Model \<Rightarrow> 's cache \<Rightarrow> 's cacheEntry \<Rightarrow> bool res" where
  "cacheContains m cache entry = cacheScan m (mget [] cache (bs_hash (ceLinearized entry))) entry"

subsection \<open>\<open>checkSingle\<close>\<close>

record 's callsEntry =
  csEntry :: nat
  csState :: 's

text \<open>
  The variables of \<open>checkSingle\<close>. The elements of \<open>longest\<close> are pointers to slices that are
  never written again; they are indices into \<open>seSeqs\<close>.
\<close>

record ('s, 'v) search =
  seStore :: "'v store"
  seEntry :: "nat option"
  seState :: 's
  seLinearized :: bitset
  seCache :: "'s cache"
  seCalls :: "'s callsEntry list"
  seLongest :: "nat option list"
  seSeqs :: "int list list"

text \<open>The loop over \<open>calls\<close> that updates \<open>longest\<close>: \<open>seq\<close> is created at the first use.\<close>

fun longestLoop :: "int list \<Rightarrow> int list \<Rightarrow> nat option \<Rightarrow> nat option list \<Rightarrow> int list list \<Rightarrow>
    (nat option list \<times> int list list) res" where
  "longestLoop ids [] seq longest seqs = Inr (longest, seqs)"
| "longestLoop ids (v # vs) seq longest seqs =
     (case go_nth longest v of Inl e \<Rightarrow> Inl e
      | Inr l \<Rightarrow>
          if (case l of None \<Rightarrow> True | Some p \<Rightarrow> length ids > length (seqs ! p)) then
            (case seq of
               None \<Rightarrow> longestLoop ids vs (Some (length seqs)) (longest[nat v := Some (length seqs)]) (seqs @ [ids])
             | Some p \<Rightarrow> longestLoop ids vs seq (longest[nat v := Some p]) seqs)
          else longestLoop ids vs seq longest seqs)"

datatype 'a outcome = Continue 'a | Return bool 'a

definition callIds :: "('s, 'v) search \<Rightarrow> int list" where
  "callIds se = map (\<lambda>v. ndId (seStore se ! csEntry v)) (seCalls se)"

definition nextEntry :: "nat \<Rightarrow> ('s, 'v) search \<Rightarrow> ('s, 'v) search" where
  "nextEntry a se = se\<lparr>seEntry := ndNext (seStore se ! a)\<rparr>"

text \<open>The branch of a call entry: try to linearize it next.\<close>

definition tryCall :: "('s, 'v) Model \<Rightarrow> nat \<Rightarrow> nat \<Rightarrow> nat \<Rightarrow> ('s, 'v) search \<Rightarrow> ('s, 'v) search res" where
  "tryCall m headEntry a matching se =
     (case (ndValue (seStore se ! a), ndValue (seStore se ! matching)) of
        (Some v, Some w) \<Rightarrow>
          (case mStep m (seState se) v w of Inl e \<Rightarrow> Inl e
           | Inr (ok, newState) \<Rightarrow>
               if ok then
                 (case bs_set (word_of_int (ndId (seStore se ! a))) (bs_clone (seLinearized se)) of Inl e \<Rightarrow> Inl e
                  | Inr newLinearized \<Rightarrow>
                      let newCacheEntry = \<lparr>ceLinearized = newLinearized, ceState = newState\<rparr> in
                      (case cacheContains m (seCache se) newCacheEntry of Inl e \<Rightarrow> Inl e
                       | Inr True \<Rightarrow> Inr (nextEntry a se)
                       | Inr False \<Rightarrow>
                           let hash = bs_hash newLinearized in
                           (case bs_set (word_of_int (ndId (seStore se ! a))) (seLinearized se) of Inl e \<Rightarrow> Inl e
                            | Inr linearized \<Rightarrow>
                           (case lift a (seStore se) of Inl e \<Rightarrow> Inl e
                            | Inr h \<Rightarrow>
                                Inr (se\<lparr>seCache := mput hash (mget [] (seCache se) hash @ [newCacheEntry]) (seCache se),
                                        seCalls := seCalls se @ [\<lparr>csEntry = a, csState = seState se\<rparr>],
                                        seState := newState, seLinearized := linearized,
                                        seStore := h, seEntry := ndNext (h ! headEntry)\<rparr>)))))
               else Inr (nextEntry a se))
      | _ \<Rightarrow> Inl TypeAssertion)"

text \<open>The branch of a return entry: undo the last call.\<close>

definition undoCall :: "bool \<Rightarrow> ('s, 'v) search \<Rightarrow> ('s, 'v) search res" where
  "undoCall computePartial se =
     (case (if computePartial
            then longestLoop (callIds se) (callIds se) None (seLongest se) (seSeqs se)
            else Inr (seLongest se, seSeqs se)) of Inl e \<Rightarrow> Inl e
      | Inr (longest, seqs) \<Rightarrow>
          let callsTop = last (seCalls se); a = csEntry callsTop in
          (case bs_clear (word_of_int (ndId (seStore se ! a))) (seLinearized se) of Inl e \<Rightarrow> Inl e
           | Inr linearized \<Rightarrow>
          (case unlift a (seStore se) of Inl e \<Rightarrow> Inl e
           | Inr h \<Rightarrow>
               Inr (se\<lparr>seLongest := longest, seSeqs := seqs, seState := csState callsTop,
                       seLinearized := linearized, seCalls := butlast (seCalls se),
                       seStore := h, seEntry := ndNext (h ! a)\<rparr>))))"

definition searchStep :: "('s, 'v) Model \<Rightarrow> bool \<Rightarrow> nat \<Rightarrow> ('s, 'v) search \<Rightarrow> ('s, 'v) search outcome res" where
  "searchStep m computePartial headEntry se =
     (case seEntry se of None \<Rightarrow> Inl NilDereference
      | Some a \<Rightarrow>
          (case ndMatch (seStore se ! a) of
             Some matching \<Rightarrow>
               (case tryCall m headEntry a matching se of Inl e \<Rightarrow> Inl e | Inr se' \<Rightarrow> Inr (Continue se'))
           | None \<Rightarrow>
               if seCalls se = [] then Inr (Return False se)
               else (case undoCall computePartial se of Inl e \<Rightarrow> Inl e | Inr se' \<Rightarrow> Inr (Continue se'))))"

text \<open>\<open>kill k\<close> is whether the load of the kill flag in round \<open>k\<close> finds it set.\<close>

partial_function (option) searchLoop ::
  "('s, 'v) Model \<Rightarrow> bool \<Rightarrow> nat \<Rightarrow> (nat \<Rightarrow> bool) \<Rightarrow> nat \<Rightarrow> ('s, 'v) search \<Rightarrow> (bool \<times> ('s, 'v) search) res option" where
  "searchLoop m computePartial headEntry kill k se =
     (if ndNext (seStore se ! headEntry) = None then Some (Inr (True, se))
      else if kill k then Some (Inr (False, se))
      else (case searchStep m computePartial headEntry se of
              Inl e \<Rightarrow> Some (Inl e)
            | Inr (Return b se') \<Rightarrow> Some (Inr (b, se'))
            | Inr (Continue se') \<Rightarrow> searchLoop m computePartial headEntry kill (k + 1) se'))"

definition searchInit :: "('s, 'v) Model \<Rightarrow> 'v store \<Rightarrow> nat option \<Rightarrow> nat \<Rightarrow> ('s, 'v) search" where
  "searchInit m h entry n =
     \<lparr>seStore = insertBefore (length h) entry
        (h @ [\<lparr>ndValue = None, ndMatch = None, ndId = -1, ndNext = None, ndPrev = None\<rparr>]),
      seEntry = entry, seState = mInit m, seLinearized = newBitset (word_of_nat n), seCache = [], seCalls = [],
      seLongest = replicate n None, seSeqs = []\<rparr>"

definition checkSingle ::
  "('s, 'v) Model \<Rightarrow> 'v entry list \<Rightarrow> bool \<Rightarrow> (nat \<Rightarrow> bool) \<Rightarrow> (bool \<times> nat option list \<times> int list list) res option" where
  "checkSingle m history computePartial kill =
     (case makeLinkedEntries history of (h, entry) \<Rightarrow>
      case node_length h entry 0 of None \<Rightarrow> None
      | Some len \<Rightarrow>
          let n = len div 2 in
          (case searchLoop m computePartial (length h) kill 0 (searchInit m h entry n) of
             None \<Rightarrow> None
           | Some (Inl e) \<Rightarrow> Some (Inl e)
           | Some (Inr (False, se)) \<Rightarrow> Some (Inr (False, seLongest se, seSeqs se))
           | Some (Inr (True, se)) \<Rightarrow>
               Some (Inr (True, replicate n (Some (length (seSeqs se))), seSeqs se @ [callIds se]))))"

subsection \<open>Partitions in parallel\<close>

definition fillDefault :: "('s, 'v) Model \<Rightarrow> ('s, 'v) Model" where
  "fillDefault model =
     (let m1 = (if mPartition model = None then model\<lparr>mPartition := Some NoPartition\<rparr> else model);
          m2 = (if mPartitionEvent m1 = None then m1\<lparr>mPartitionEvent := Some NoPartitionEvent\<rparr> else m1)
      in if mEqual m2 = None then m2\<lparr>mEqual := Some ShallowEqual\<rparr> else m2)"

record 'v linearizationInfo =
  liHistory :: "'v entry list list"
  liPartial :: "int list list list"

text \<open>
  What the \<open>select\<close> of \<open>checkParallel\<close> receives, in order: the result of a partition, or the
  timer, which exists only for a positive timeout. The kill flag is stored only when the loop is
  left, so the results the loop looks at are those of searches that did not see it; \<open>None\<close> means
  that the loop waits for ever.
\<close>

datatype par_event = Finished nat | TimerFired

type_synonym single_result = "(bool \<times> nat option list \<times> int list list) res option"

fun parLoop :: "single_result list \<Rightarrow> bool \<Rightarrow> int \<Rightarrow> par_event list \<Rightarrow> bool \<Rightarrow> nat \<Rightarrow> (bool \<times> bool) res option" where
  "parLoop runs computeInfo timeout [] ok count = None"
| "parLoop runs computeInfo timeout (Finished i # evs) ok count =
     (case runs ! i of None \<Rightarrow> None
      | Some (Inl e) \<Rightarrow> Some (Inl e)
      | Some (Inr (result, _)) \<Rightarrow>
          let ok' = (ok \<and> result) in
          if \<not> ok' \<and> \<not> computeInfo then Some (Inr (ok', False))
          else if count + 1 \<ge> length runs then Some (Inr (ok', False))
          else parLoop runs computeInfo timeout evs ok' (count + 1))"
| "parLoop runs computeInfo timeout (TimerFired # evs) ok count =
     (if timeout > 0 then Some (Inr (ok, True)) else parLoop runs computeInfo timeout evs ok count)"

text \<open>The set of distinct pointers in \<open>longest\<close>; the order in which a map is ranged over is open.\<close>

definition uniquePartials :: "nat option list \<times> int list list \<Rightarrow> int list list" where
  "uniquePartials ls = (case ls of (longest, seqs) \<Rightarrow>
     map (\<lambda>p. seqs ! p) (remdups (map the (filter (\<lambda>v. v \<noteq> None) longest))))"

text \<open>\<open>kills i\<close> is what the goroutine of partition \<open>i\<close> sees of the kill flag.\<close>

fun collectInfo :: "('s, 'v) Model \<Rightarrow> (nat \<Rightarrow> nat \<Rightarrow> bool) \<Rightarrow> nat \<Rightarrow> 'v entry list list \<Rightarrow> int list list list res option" where
  "collectInfo model kills i [] = Some (Inr [])"
| "collectInfo model kills i (h # hs) =
     (case checkSingle model h True (kills i) of None \<Rightarrow> None
      | Some (Inl e) \<Rightarrow> Some (Inl e)
      | Some (Inr (_, ls)) \<Rightarrow>
          (case collectInfo model kills (i + 1) hs of
             Some (Inr ps) \<Rightarrow> Some (Inr (uniquePartials ls # ps))
           | r \<Rightarrow> r))"

definition checkParallel ::
  "('s, 'v) Model \<Rightarrow> 'v entry list list \<Rightarrow> bool \<Rightarrow> int \<Rightarrow> (nat \<Rightarrow> nat \<Rightarrow> bool) \<Rightarrow> par_event list \<Rightarrow>
     (CheckResult \<times> 'v linearizationInfo) res option" where
  "checkParallel model history computeInfo timeout kills evs =
     (case parLoop (map (\<lambda>h. checkSingle model h computeInfo (\<lambda>_. False)) history) computeInfo timeout evs True 0 of
        None \<Rightarrow> None
      | Some (Inl e) \<Rightarrow> Some (Inl e)
      | Some (Inr (ok, timedOut)) \<Rightarrow>
          let result = (if \<not> ok then Illegal else if timedOut then Unknown else Ok) in
          if computeInfo then
            (case collectInfo model kills 0 history of None \<Rightarrow> None
             | Some (Inl e) \<Rightarrow> Some (Inl e)
             | Some (Inr ps) \<Rightarrow> Some (Inr (result, \<lparr>liHistory = history, liPartial = ps\<rparr>)))
          else Some (Inr (result, \<lparr>liHistory = [], liPartial = []\<rparr>)))"

definition checkEvents ::
  "('s, 'v) Model \<Rightarrow> 'v Event list \<Rightarrow> bool \<Rightarrow> int \<Rightarrow> (nat \<Rightarrow> nat \<Rightarrow> bool) \<Rightarrow> par_event list \<Rightarrow>
     (CheckResult \<times> 'v linearizationInfo) res option" where
  "checkEvents model0 history verbose timeout kills evs =
     (let model = fillDefault model0 in
      case mPartitionEvent model of None \<Rightarrow> Some (Inl NilDereference)
      | Some f \<Rightarrow>
          (case f history of Inl e \<Rightarrow> Some (Inl e)
           | Inr partitions \<Rightarrow>
               checkParallel model (map (\<lambda>sub. convertEntries (renumber sub)) partitions) verbose timeout kills evs))"

definition checkOperations ::
  "('v entry list \<Rightarrow> 'v entry list) \<Rightarrow> ('s, 'v) Model \<Rightarrow> 'v Operation list \<Rightarrow> bool \<Rightarrow> int \<Rightarrow>
     (nat \<Rightarrow> nat \<Rightarrow> bool) \<Rightarrow> par_event list \<Rightarrow> (CheckResult \<times> 'v linearizationInfo) res option" where
  "checkOperations srt model0 history verbose timeout kills evs =
     (let model = fillDefault model0 in
      case mPartition model of None \<Rightarrow> Some (Inl NilDereference)
      | Some f \<Rightarrow>
          (case f history of Inl e \<Rightarrow> Some (Inl e)
           | Inr partitions \<Rightarrow>
               checkParallel model (map (makeEntries srt) partitions) verbose timeout kills evs))"

subsection \<open>The interface (\<open>porcupine.go\<close>)\<close>

abbreviation resultOf :: "(CheckResult \<times> 'v linearizationInfo) res option \<Rightarrow> CheckResult res option" where
  "resultOf r \<equiv> map_option (map_sum (\<lambda>e. e) fst) r"

definition CheckOperations ::
  "('v entry list \<Rightarrow> 'v entry list) \<Rightarrow> ('s, 'v) Model \<Rightarrow> 'v Operation list \<Rightarrow> par_event list \<Rightarrow> bool res option" where
  "CheckOperations srt model history evs =
     map_option (map_sum (\<lambda>e. e) (\<lambda>r. r = Ok))
       (resultOf (checkOperations srt model history False 0 (\<lambda>_ _. False) evs))"

definition CheckOperationsTimeout ::
  "('v entry list \<Rightarrow> 'v entry list) \<Rightarrow> ('s, 'v) Model \<Rightarrow> 'v Operation list \<Rightarrow> int \<Rightarrow> par_event list \<Rightarrow>
     CheckResult res option" where
  "CheckOperationsTimeout srt model history timeout evs =
     resultOf (checkOperations srt model history False timeout (\<lambda>_ _. False) evs)"

definition CheckOperationsVerbose ::
  "('v entry list \<Rightarrow> 'v entry list) \<Rightarrow> ('s, 'v) Model \<Rightarrow> 'v Operation list \<Rightarrow> int \<Rightarrow> (nat \<Rightarrow> nat \<Rightarrow> bool) \<Rightarrow>
     par_event list \<Rightarrow> (CheckResult \<times> 'v linearizationInfo) res option" where
  "CheckOperationsVerbose srt model history timeout kills evs =
     checkOperations srt model history True timeout kills evs"

definition CheckEvents :: "('s, 'v) Model \<Rightarrow> 'v Event list \<Rightarrow> par_event list \<Rightarrow> bool res option" where
  "CheckEvents model history evs =
     map_option (map_sum (\<lambda>e. e) (\<lambda>r. r = Ok)) (resultOf (checkEvents model history False 0 (\<lambda>_ _. False) evs))"

definition CheckEventsTimeout :: "('s, 'v) Model \<Rightarrow> 'v Event list \<Rightarrow> int \<Rightarrow> par_event list \<Rightarrow> CheckResult res option" where
  "CheckEventsTimeout model history timeout evs =
     resultOf (checkEvents model history False timeout (\<lambda>_ _. False) evs)"

definition CheckEventsVerbose ::
  "('s, 'v) Model \<Rightarrow> 'v Event list \<Rightarrow> int \<Rightarrow> (nat \<Rightarrow> nat \<Rightarrow> bool) \<Rightarrow> par_event list \<Rightarrow>
     (CheckResult \<times> 'v linearizationInfo) res option" where
  "CheckEventsVerbose model history timeout kills evs = checkEvents model history True timeout kills evs"

end
