(* ===== verification/Linearizability.thy ===== *)
theory Linearizability
  imports Porcupine
begin

text \<open>
  The search of \<open>checkSingle\<close> is correct and ends: it returns \<open>true\<close> just for the histories
  that can be linearized. The theory first shows that \<open>lift\<close> takes a call and its return out of
  the linked list and that \<open>unlift\<close> restores the very store there was, then relates the loop to
  a graph of configurations, and at last that graph to linearizations in real-time order.
\<close>

subsection \<open>The linked list in the store\<close>

named_theorems store_simps

lemma setNext_fields [store_simps]:
  "length (setNext a v h) = length h"
  "ndNext (setNext a v h ! x) = (if x = a \<and> a < length h then v else ndNext (h ! x))"
  "ndPrev (setNext a v h ! x) = ndPrev (h ! x)"
  "ndMatch (setNext a v h ! x) = ndMatch (h ! x)"
  "ndId (setNext a v h ! x) = ndId (h ! x)"
  "ndValue (setNext a v h ! x) = ndValue (h ! x)"
  by (cases "a < length h", auto simp: setNext_def nth_list_update list_update_beyond not_less)+

lemma setPrev_fields [store_simps]:
  "length (setPrev a v h) = length h"
  "ndPrev (setPrev a v h ! x) = (if x = a \<and> a < length h then v else ndPrev (h ! x))"
  "ndNext (setPrev a v h ! x) = ndNext (h ! x)"
  "ndMatch (setPrev a v h ! x) = ndMatch (h ! x)"
  "ndId (setPrev a v h ! x) = ndId (h ! x)"
  "ndValue (setPrev a v h ! x) = ndValue (h ! x)"
  by (cases "a < length h", auto simp: setPrev_def nth_list_update list_update_beyond not_less)+

text \<open>Two stores agree on everything but the links.\<close>

definition same_nodes :: "'v store \<Rightarrow> 'v store \<Rightarrow> bool" where
  "same_nodes h h' \<longleftrightarrow> length h' = length h \<and>
     (\<forall>x. ndValue (h' ! x) = ndValue (h ! x) \<and> ndMatch (h' ! x) = ndMatch (h ! x) \<and> ndId (h' ! x) = ndId (h ! x))"

lemma same_nodes_refl [simp]: "same_nodes h h"
  by (simp add: same_nodes_def)

lemma same_nodes_trans: "same_nodes h h1 \<Longrightarrow> same_nodes h1 h2 \<Longrightarrow> same_nodes h h2"
  by (simp add: same_nodes_def)

lemma store_eqI:
  assumes "same_nodes h h'" "\<And>x. x < length h \<Longrightarrow> ndNext (h' ! x) = ndNext (h ! x)"
    "\<And>x. x < length h \<Longrightarrow> ndPrev (h' ! x) = ndPrev (h ! x)"
  shows "h' = h"
  using assms by (intro nth_equalityI) (auto simp: same_nodes_def intro: node.equality)

definition linked :: "'v store \<Rightarrow> nat \<Rightarrow> nat \<Rightarrow> bool" where
  "linked h x y \<longleftrightarrow> ndNext (h ! x) = Some y \<and> ndPrev (h ! y) = Some x"

definition dlist :: "'v store \<Rightarrow> nat list \<Rightarrow> bool" where
  "dlist h ys \<longleftrightarrow> distinct ys \<and> set ys \<subseteq> {..<length h} \<and> successively (linked h) ys \<and>
     (ys \<noteq> [] \<longrightarrow> ndNext (h ! last ys) = None)"

lemma dlist_next: "dlist h (xs @ x # ys) \<Longrightarrow> ndNext (h ! x) = (case ys of [] \<Rightarrow> None | y # _ \<Rightarrow> Some y)"
  by (auto simp: dlist_def successively_append_iff linked_def split: list.splits)

lemma successively_links:
  assumes "successively (linked h) ys" "\<And>x. x \<in> set (butlast ys) \<Longrightarrow> ndNext (h' ! x) = ndNext (h ! x)"
    "\<And>x. x \<in> set (tl ys) \<Longrightarrow> ndPrev (h' ! x) = ndPrev (h ! x)"
  shows "successively (linked h') ys"
  using assms
proof (induction ys)
  case (Cons y ys)
  show ?case
  proof (cases ys)
    case (Cons z zs)
    with Cons.prems Cons.IH show ?thesis by (auto simp: linked_def)
  qed simp
qed simp

text \<open>\<open>lift\<close> takes two nodes out of the list, one after the other; \<open>unlift\<close> puts them back.\<close>

definition unlink :: "nat \<Rightarrow> nat \<Rightarrow> 'v store \<Rightarrow> 'v store" where
  "unlink p x h = (case ndNext (h ! x) of None \<Rightarrow> setNext p None h | Some q \<Rightarrow> setPrev q (Some p) (setNext p (Some q) h))"

definition relink :: "nat \<Rightarrow> nat \<Rightarrow> 'v store \<Rightarrow> 'v store" where
  "relink p x h = (case ndNext (h ! x) of None \<Rightarrow> setNext p (Some x) h | Some q \<Rightarrow> setPrev q (Some x) (setNext p (Some x) h))"

lemma unlink_same [simp]: "same_nodes h (unlink p x h)"
  by (auto simp: same_nodes_def unlink_def store_simps split: option.splits)

lemma dlist_mem: "dlist h ys \<Longrightarrow> x \<in> set ys \<Longrightarrow> x < length h"
  by (auto simp: dlist_def)

lemma unlink_dlist:
  assumes dl: "dlist h (P @ p # x # Q)"
  shows "dlist (unlink p x h) (P @ p # Q)" "relink p x (unlink p x h) = h"
    "ndPrev (unlink p x h ! x) = Some p" "ndNext (unlink p x h ! x) = ndNext (h ! x)" "ndPrev (h ! x) = Some p"
proof -
  have px: "p < length h" "ndNext (h ! p) = Some x" "ndPrev (h ! x) = Some p" "p \<noteq> x"
    using dl by (auto simp: dlist_def successively_append_iff linked_def)
  then show "ndPrev (h ! x) = Some p" by simp
  have nxt: "ndNext (h ! x) = (case Q of [] \<Rightarrow> None | q # _ \<Rightarrow> Some q)"
    using dlist_next[of h "P @ [p]" x Q] dl by simp
  have ql: "q < length h" "ndPrev (h ! q) = Some x" "q \<noteq> p" "q \<noteq> x" "q \<notin> set P" "q \<notin> set Q'" if "Q = q # Q'" for q Q'
    using dl that by (auto simp: dlist_def successively_append_iff linked_def)
  have n: "ndNext (unlink p x h ! y) = (if y = p then ndNext (h ! x) else ndNext (h ! y))" for y
    using px by (auto simp: unlink_def store_simps split: option.splits)
  have v: "ndPrev (unlink p x h ! y) = (if Q \<noteq> [] \<and> y = hd Q then Some p else ndPrev (h ! y))" for y
    using nxt ql by (cases Q) (auto simp: unlink_def store_simps)
  show "ndPrev (unlink p x h ! x) = Some p" "ndNext (unlink p x h ! x) = ndNext (h ! x)"
    using px ql by (simp_all add: n v)
  have d: "distinct (P @ p # x # Q)" and suc: "successively (linked h) (P @ [p])" "successively (linked h) Q"
    and en: "ndNext (h ! last (x # Q)) = None"
    using dl by (cases Q; auto simp: dlist_def successively_append_iff)+
  have "successively (linked (unlink p x h)) (P @ [p])"
    by (rule successively_links[OF suc(1)]) (use d in \<open>cases Q; cases P; auto simp: n v\<close>)+
  moreover have "successively (linked (unlink p x h)) Q"
  proof (rule successively_links[OF suc(2)])
    show "ndNext (unlink p x h ! y) = ndNext (h ! y)" if "y \<in> set (butlast Q)" for y
      using in_set_butlastD[OF that] d by (auto simp: n)
    show "ndPrev (unlink p x h ! y) = ndPrev (h ! y)" if "y \<in> set (tl Q)" for y
      using that d by (cases Q) (auto simp: v)
  qed
  moreover have "Q \<noteq> [] \<Longrightarrow> linked (unlink p x h) p (hd Q)"
    using nxt by (cases Q) (auto simp: linked_def n v)
  moreover have "ndNext (unlink p x h ! last (p # Q)) = None"
    using nxt en d by (cases Q) (auto simp: n)
  ultimately show "dlist (unlink p x h) (P @ p # Q)"
    using dl by (cases Q) (auto simp: dlist_def successively_append_iff unlink_same[unfolded same_nodes_def])
  show "relink p x (unlink p x h) = h"
  proof (rule store_eqI)
    show "same_nodes h (relink p x (unlink p x h))"
      by (auto simp: same_nodes_def unlink_def relink_def store_simps split: option.splits)
  qed (use nxt px ql in \<open>cases Q; auto simp: relink_def store_simps n v unlink_same[unfolded same_nodes_def]\<close>)+
qed

lemma lift_unlink:
  assumes "ndPrev (h ! e) = Some p" "ndNext (h ! e) = Some q" "p \<noteq> e" "ndMatch (h ! e) = Some r"
    "ndPrev (unlink p e h ! r) = Some k" "k \<noteq> r"
  shows "lift e h = Inr (unlink k r (unlink p e h))"
  using assms by (auto simp: lift_def unlink_def Let_def store_simps split: option.splits)

lemma unlift_relink:
  assumes "ndMatch (h ! e) = Some r" "ndPrev (h ! r) = Some k" "k \<noteq> r" "ndPrev (relink k r h ! e) = Some p"
    "ndNext (relink k r h ! e) = Some q" "p \<noteq> e"
  shows "unlift e h = Inr (relink p e (relink k r h))"
  using assms by (auto simp: unlift_def relink_def Let_def store_simps split: option.splits)

lemma lift_dlist:
  assumes dl: "dlist h (P @ e # B @ r # C)" and ne: "P \<noteq> []" and mt: "ndMatch (h ! e) = Some r"
  shows "\<exists>h'. lift e h = Inr h' \<and> same_nodes h h' \<and> dlist h' (P @ B @ C) \<and> unlift e h' = Inr h"
proof -
  obtain P' p where P: "P = P' @ [p]" using ne by (cases P rule: rev_cases) auto
  define h2 where "h2 = unlink p e h"
  have dl1: "dlist h (P' @ p # e # (B @ r # C))" using dl by (simp add: P)
  note u1 = unlink_dlist[OF dl1, folded h2_def]
  obtain P'' k where k: "P' @ p # B = P'' @ [k]" by (cases "P' @ p # B" rule: rev_cases) auto
  then have PB: "P' @ p # B @ xs = P'' @ k # xs" for xs by (metis append.assoc append_Cons append_Nil)
  define h4 where "h4 = unlink k r h2"
  have dl2: "dlist h2 (P'' @ k # r # C)" using u1(1) by (simp add: PB)
  note u2 = unlink_dlist[OF dl2, folded h4_def]
  have ne: "p \<noteq> e" "k \<noteq> r" using dl1 dl2 by (auto simp: dlist_def)
  have nx: "ndNext (h ! e) = Some (hd (B @ [r]))" using dlist_next[OF dl] by (cases B) simp_all
  have s2: "same_nodes h h2" and s4: "same_nodes h2 h4" by (simp_all add: h2_def h4_def)
  have "lift e h = Inr h4"
    unfolding h4_def h2_def by (rule lift_unlink) (use u1(5) u2(5) nx ne mt in \<open>simp_all add: h2_def\<close>)
  moreover have "dlist h4 (P @ B @ C)" using u2(1) by (simp add: P PB)
  moreover have "unlift e h4 = Inr (relink p e (relink k r h4))"
    by (rule unlift_relink) (use mt s2 s4 u1 u2 ne nx in \<open>simp_all add: same_nodes_def\<close>)
  ultimately show ?thesis using u1(2) u2(2) same_nodes_trans[OF s2 s4] by auto
qed

subsection \<open>The graph of configurations\<close>

text \<open>
  A configuration is the set of the operations that are linearized, as the code keeps it, and the
  state of the model. \<open>stepOf\<close> is the step of the operation whose call is at address \<open>a\<close>;
  \<open>remaining\<close> are the nodes still in the list.
\<close>

type_synonym 's config = "bitset \<times> 's"

definition isCall :: "'v store \<Rightarrow> nat \<Rightarrow> bool" where
  "isCall h a \<longleftrightarrow> ndMatch (h ! a) \<noteq> None"

definition nodeId :: "'v store \<Rightarrow> nat \<Rightarrow> nat" where
  "nodeId h a = nat (ndId (h ! a))"

definition remaining :: "'v store \<Rightarrow> nat list \<Rightarrow> bitset \<Rightarrow> nat list" where
  "remaining h H b = filter (\<lambda>a. nodeId h a \<notin> bs_members b) H"

definition front :: "'v store \<Rightarrow> nat list \<Rightarrow> bitset \<Rightarrow> nat list" where
  "front h H b = takeWhile (isCall h) (remaining h H b)"

definition stepOf :: "'v store \<Rightarrow> ('s, 'v) Model \<Rightarrow> 's \<Rightarrow> nat \<Rightarrow> (bool \<times> 's) res" where
  "stepOf h m s a =
     (case ndMatch (h ! a) of None \<Rightarrow> Inl NilDereference
      | Some r \<Rightarrow> (case (ndValue (h ! a), ndValue (h ! r)) of (Some v, Some w) \<Rightarrow> mStep m s v w | _ \<Rightarrow> Inl TypeAssertion))"

definition moves :: "'v store \<Rightarrow> ('s, 'v) Model \<Rightarrow> nat \<Rightarrow> 's config \<Rightarrow> 's config \<Rightarrow> bool" where
  "moves h m a c c' \<longleftrightarrow> stepOf h m (snd c) a = Inr (True, snd c') \<and>
     bs_set (word_of_int (ndId (h ! a))) (fst c) = Inr (fst c')"

text \<open>What the history must satisfy: every call is followed by its return, and ids are small and distinct.\<close>

definition wf_nodes :: "'v store \<Rightarrow> nat list \<Rightarrow> nat \<Rightarrow> bool" where
  "wf_nodes h H n \<longleftrightarrow> distinct H \<and> n < 2 ^ 64 \<and>
     (\<forall>a \<in> set H. 0 \<le> ndId (h ! a) \<and> ndId (h ! a) < int n) \<and>
     (\<forall>a \<in> set H. \<forall>r. ndMatch (h ! a) = Some r \<longrightarrow>
        (\<exists>X Y Z. H = X @ a # Y @ r # Z) \<and> ndMatch (h ! r) = None \<and> ndId (h ! r) = ndId (h ! a)) \<and>
     (\<forall>r \<in> set H. ndMatch (h ! r) = None \<longrightarrow> (\<exists>a \<in> set H. ndMatch (h ! a) = Some r)) \<and>
     (\<forall>a \<in> set H. \<forall>c \<in> set H. isCall h a \<longrightarrow> isCall h c \<longrightarrow> nodeId h a = nodeId h c \<longrightarrow> a = c)"

definition steps_total :: "'v store \<Rightarrow> nat list \<Rightarrow> ('s, 'v) Model \<Rightarrow> bool" where
  "steps_total h H m \<longleftrightarrow> (\<forall>a \<in> set H. isCall h a \<longrightarrow> (\<forall>s. \<exists>x. stepOf h m s a = Inr x))"

lemma wf_id: "wf_nodes h H n \<Longrightarrow> a \<in> set H \<Longrightarrow> unat (word_of_int (ndId (h ! a)) :: 64 word) = nodeId h a \<and> nodeId h a < n"
proof -
  assume "wf_nodes h H n" "a \<in> set H"
  then have b: "0 \<le> ndId (h ! a)" "ndId (h ! a) < int n" "n < 2 ^ 64" by (auto simp: wf_nodes_def)
  from b(3) have "int n < 18446744073709551616" by simp
  with b(2) have "ndId (h ! a) < 18446744073709551616" by linarith
  with b(1) have "take_bit 64 (ndId (h ! a)) = ndId (h ! a)" by (simp add: take_bit_int_eq_self)
  with b show ?thesis by (simp add: nodeId_def unat_eq_nat_uint uint_word_of_int_eq nat_less_iff)
qed

lemma word_of_int_id: "wf_nodes h H n \<Longrightarrow> a \<in> set H \<Longrightarrow> unat (word_of_int (ndId (h ! a)) :: 64 word) = nodeId h a"
  and nodeId_less: "wf_nodes h H n \<Longrightarrow> a \<in> set H \<Longrightarrow> nodeId h a < n"
  by (simp_all add: wf_id)

lemma wf_match:
  "wf_nodes h H n \<Longrightarrow> a \<in> set H \<Longrightarrow> ndMatch (h ! a) = Some r \<Longrightarrow>
     r \<in> set H \<and> r \<noteq> a \<and> ndMatch (h ! r) = None \<and> nodeId h r = nodeId h a"
proof -
  assume a: "wf_nodes h H n" "a \<in> set H" "ndMatch (h ! a) = Some r"
  then have m: "ndMatch (h ! r) = None" "ndId (h ! r) = ndId (h ! a)" "distinct H"
    and "\<exists>X Y Z. H = X @ a # Y @ r # Z" unfolding wf_nodes_def by blast+
  with a(3) show ?thesis by (auto simp: nodeId_def)
qed

lemma wf_inj: "wf_nodes h H n \<Longrightarrow> a \<in> set H \<Longrightarrow> c \<in> set H \<Longrightarrow> isCall h a \<Longrightarrow> isCall h c \<Longrightarrow> nodeId h a = nodeId h c \<Longrightarrow> a = c"
  unfolding wf_nodes_def by blast

lemma wf_return: "wf_nodes h H n \<Longrightarrow> r \<in> set H \<Longrightarrow> \<not> isCall h r \<Longrightarrow> \<exists>a \<in> set H. ndMatch (h ! a) = Some r"
  unfolding wf_nodes_def isCall_def by blast

text \<open>The nodes with the id of a call are the call and its return.\<close>

lemma same_id:
  assumes "wf_nodes h H n" "a \<in> set H" "ndMatch (h ! a) = Some r" "x \<in> set H"
  shows "nodeId h x = nodeId h a \<longleftrightarrow> x = a \<or> x = r"
proof
  assume eq: "nodeId h x = nodeId h a"
  show "x = a \<or> x = r"
  proof (cases "isCall h x")
    case True
    then show ?thesis using wf_inj[OF assms(1) assms(4) assms(2)] assms(3) eq by (simp add: isCall_def)
  next
    case False
    then obtain c where c: "c \<in> set H" "ndMatch (h ! c) = Some x"
      using wf_return[OF assms(1,4)] by auto
    then have "c = a"
      using wf_inj[OF assms(1) c(1) assms(2)] wf_match[OF assms(1) c] eq assms(3) by (simp add: isCall_def)
    with c assms(3) show ?thesis by simp
  qed
qed (use wf_match[OF assms(1-3)] in auto)

lemma remaining_set: "bs_members b' = insert (nodeId h a) (bs_members b) \<Longrightarrow>
    remaining h H b' = filter (\<lambda>x. nodeId h x \<noteq> nodeId h a) (remaining h H b)"
  by (auto simp: remaining_def filter_filter conj_commute intro: filter_cong)

text \<open>A call that remains is followed by its return; linearizing it removes just these two.\<close>

lemma remaining_split:
  assumes wf: "wf_nodes h H n" and a: "a \<in> set (remaining h H b)" and r: "ndMatch (h ! a) = Some r"
  shows "\<exists>X Y Z. remaining h H b = X @ a # Y @ r # Z \<and>
    (\<forall>b'. bs_members b' = insert (nodeId h a) (bs_members b) \<longrightarrow> remaining h H b' = X @ Y @ Z)"
proof -
  have aH: "a \<in> set H" and ab: "nodeId h a \<notin> bs_members b" using a by (auto simp: remaining_def)
  obtain X Y Z where H: "H = X @ a # Y @ r # Z" using wf aH r unfolding wf_nodes_def by blast
  have d: "distinct H" using wf by (simp add: wf_nodes_def)
  let ?f = "filter (\<lambda>x. nodeId h x \<notin> bs_members b)"
  have rb: "remaining h H b = ?f X @ a # ?f Y @ r # ?f Z"
    using ab wf_match[OF wf aH r] by (simp add: remaining_def H)
  have "remaining h H b' = ?f X @ ?f Y @ ?f Z"
    if "bs_members b' = insert (nodeId h a) (bs_members b)" for b'
  proof -
    have "nodeId h x \<noteq> nodeId h a" if "x \<in> set X \<union> set Y \<union> set Z" for x
      using same_id[OF wf aH r, of x] that d by (auto simp: H)
    then have "filter (\<lambda>x. nodeId h x \<noteq> nodeId h a) (?f X) = ?f X"
      "filter (\<lambda>x. nodeId h x \<noteq> nodeId h a) (?f Y) = ?f Y" "filter (\<lambda>x. nodeId h x \<noteq> nodeId h a) (?f Z) = ?f Z"
      by (auto simp: filter_filter intro!: filter_cong)
    then show ?thesis
      using remaining_set[OF that, of H] wf_match[OF wf aH r] unfolding rb by simp
  qed
  with rb show ?thesis by blast
qed

subsection \<open>The stack of calls\<close>

text \<open>
  \<open>finished V X c\<close>: every move of configuration \<open>c\<close> by a call of \<open>X\<close> leads into \<open>V\<close>. A
  \<open>trail\<close> is the stack of the search: the configuration it stands for, the store, and the
  configurations passed on the way, each of them finished up to the call that was taken.
\<close>

definition finished :: "'v store \<Rightarrow> ('s, 'v) Model \<Rightarrow> 's config set \<Rightarrow> nat list \<Rightarrow> 's config \<Rightarrow> bool" where
  "finished h m V X c \<longleftrightarrow> (\<forall>a \<in> set X. \<forall>c'. moves h m a c c' \<longrightarrow> c' \<in> V)"

inductive trail :: "'v store \<Rightarrow> ('s, 'v) Model \<Rightarrow> nat list \<Rightarrow> nat \<Rightarrow> 's config set \<Rightarrow> 's callsEntry list \<Rightarrow>
    's config \<Rightarrow> 'v store \<Rightarrow> 's config set \<Rightarrow> bool"
  for h0 m H n V where
  start: "trail h0 m H n V [] (newBitset (word_of_nat n), mInit m) h0 {}"
| push: "trail h0 m H n V cs c h K \<Longrightarrow> remaining h0 H (fst c) = X @ a # Y \<Longrightarrow>
    (\<And>x. x \<in> set X \<Longrightarrow> isCall h0 x) \<Longrightarrow> isCall h0 a \<Longrightarrow> finished h0 m V (X @ [a]) c \<Longrightarrow>
    moves h0 m a c c' \<Longrightarrow> lift a h = Inr h' \<Longrightarrow>
    trail h0 m H n V (cs @ [\<lparr>csEntry = a, csState = snd c\<rparr>]) c' h' (insert c K)"

inductive_cases trail_NilE: "trail h0 m H n V [] c h K"
inductive_cases trail_snocE: "trail h0 m H n V (cs @ [e]) c h K"

lemma finished_mono: "finished h m V X c \<Longrightarrow> V \<subseteq> V' \<Longrightarrow> finished h m V' X c"
  by (auto simp: finished_def)

lemma trail_mono: "trail h0 m H n V cs c h K \<Longrightarrow> V \<subseteq> V' \<Longrightarrow> trail h0 m H n V' cs c h K"
proof (induction rule: trail.induct)
  case start
  show ?case by (rule trail.start)
next
  case (push cs c h K X a Y c' h')
  from trail.push[OF push.IH[OF push.prems] push.hyps(2-4) finished_mono[OF push.hyps(5) push.prems] push.hyps(6-7)]
  show ?case .
qed

lemma moves_members:
  assumes wf: "wf_nodes h0 H n" and a: "a \<in> set H" and mv: "moves h0 m a c c'"
  shows "length (fst c') = length (fst c) \<and> bs_members (fst c') = insert (nodeId h0 a) (bs_members (fst c))"
proof -
  have set: "bs_set (word_of_int (ndId (h0 ! a))) (fst c) = Inr (fst c')" using mv by (simp add: moves_def)
  then have "unat (word_of_int (ndId (h0 ! a)) :: 64 word) div 64 < length (fst c)"
    by (auto simp: bs_set_Inr split: if_splits)
  from bs_set_members[OF this] set wf_id[OF wf a] show ?thesis by auto
qed

definition on_list :: "'v store \<Rightarrow> nat list \<Rightarrow> nat \<Rightarrow> nat \<Rightarrow> bitset \<Rightarrow> 'v store \<Rightarrow> bool" where
  "on_list h0 H n hd0 b h \<longleftrightarrow> same_nodes h0 h \<and> dlist h (hd0 # remaining h0 H b) \<and> length b = length (newBitset (word_of_nat n))"

lemma lift_on_list:
  assumes wf: "wf_nodes h0 H n" and ol: "on_list h0 H n hd0 (fst c) h"
    and a: "a \<in> set (remaining h0 H (fst c))" "isCall h0 a" and mv: "moves h0 m a c c'"
  shows "\<exists>h'. lift a h = Inr h' \<and> on_list h0 H n hd0 (fst c') h' \<and> unlift a h' = Inr h"
proof -
  have aH: "a \<in> set H" using a by (auto simp: remaining_def)
  obtain r where r: "ndMatch (h0 ! a) = Some r" using a(2) by (auto simp: isCall_def)
  note mm = moves_members[OF wf aH mv]
  obtain X Y Z where s: "remaining h0 H (fst c) = X @ a # Y @ r # Z" "remaining h0 H (fst c') = X @ Y @ Z"
    using remaining_split[OF wf a(1) r] mm by blast
  have "dlist h ((hd0 # X) @ a # Y @ r # Z)" "ndMatch (h ! a) = Some r"
    using ol r by (simp_all add: on_list_def s same_nodes_def)
  from lift_dlist[OF this(1) _ this(2)] obtain h' where h': "lift a h = Inr h'" "same_nodes h h'"
      "dlist h' ((hd0 # X) @ Y @ Z)" "unlift a h' = Inr h" by auto
  with ol mm show ?thesis by (auto simp: on_list_def s(2) intro: same_nodes_trans)
qed

lemma trail_on_list:
  assumes wf: "wf_nodes h0 H n" and dl: "dlist h0 (hd0 # H)"
  shows "trail h0 m H n V cs c h K \<Longrightarrow> on_list h0 H n hd0 (fst c) h \<and>
     bs_members (fst c) = nodeId h0 ` csEntry ` set cs \<and> length cs = card (bs_members (fst c)) \<and>
     csEntry ` set cs \<subseteq> set H"
proof (induction rule: trail.induct)
  case start
  show ?case using dl by (simp add: on_list_def remaining_def)
next
  case (push cs c h K X a Y c' h')
  have a: "a \<in> set (remaining h0 H (fst c))" using push.hyps(2) by simp
  then have aH: "a \<in> set H" "nodeId h0 a \<notin> bs_members (fst c)" by (auto simp: remaining_def)
  have "on_list h0 H n hd0 (fst c') h'"
    using lift_on_list[OF wf conjunct1[OF push.IH] a push.hyps(4,6)] push.hyps(7) by auto
  with moves_members[OF wf aH(1) push.hyps(6)] push.IH aH show ?case by auto
qed

lemma trail_bound:
  assumes "wf_nodes h0 H n" "dlist h0 (hd0 # H)" "trail h0 m H n V cs c h K"
  shows "length cs \<le> n"
proof -
  have "bs_members (fst c) \<subseteq> {..<n}"
    using trail_on_list[OF assms] nodeId_less[OF assms(1)] by auto
  with trail_on_list[OF assms] card_mono[of "{..<n}" "bs_members (fst c)"] show ?thesis by simp
qed

subsection \<open>The cache\<close>

definition cacheSet :: "'s cache \<Rightarrow> 's config set" where
  "cacheSet c = {(ceLinearized e, ceState e) | e k. e \<in> set (mget [] c k)}"

definition cache_wf :: "'s cache \<Rightarrow> bool" where
  "cache_wf c \<longleftrightarrow> (\<forall>k. \<forall>e \<in> set (mget [] c k). bs_hash (ceLinearized e) = k)"

lemma cacheSet_iff: "x \<in> cacheSet c \<longleftrightarrow> (\<exists>e k. e \<in> set (mget [] c k) \<and> ceLinearized e = fst x \<and> ceState e = snd x)"
  unfolding cacheSet_def by (cases x) (auto; metis)

lemma cache_empty [simp]: "cacheSet [] = {}" "cache_wf []"
  by (simp_all add: cacheSet_def cache_wf_def)

lemma cacheScan_iff:
  "mEqual m = Some (=) \<Longrightarrow> cacheScan m es e = Inr (\<exists>x \<in> set es. ceLinearized x = ceLinearized e \<and> ceState x = ceState e)"
  by (induction es) auto

lemma cacheContains_iff:
  assumes "mEqual m = Some (=)" "cache_wf c"
  shows "cacheContains m c e = Inr ((ceLinearized e, ceState e) \<in> cacheSet c)"
proof -
  have "(\<exists>x \<in> set (mget [] c (bs_hash (ceLinearized e))). ceLinearized x = ceLinearized e \<and> ceState x = ceState e)
      \<longleftrightarrow> (ceLinearized e, ceState e) \<in> cacheSet c"
    (is "?L \<longleftrightarrow> ?R")
  proof
    assume ?L
    then show ?R by (auto simp: cacheSet_iff)
  next
    assume ?R
    then obtain x k where x: "x \<in> set (mget [] c k)" "ceLinearized x = ceLinearized e" "ceState x = ceState e"
      by (auto simp: cacheSet_iff)
    moreover from x(1) have "k = bs_hash (ceLinearized x)" using assms(2) by (simp add: cache_wf_def)
    ultimately show ?L by auto
  qed
  then show ?thesis by (simp only: cacheContains_def cacheScan_iff[OF assms(1)])
qed

lemma cache_add:
  fixes e :: "'s cacheEntry"
  assumes "cache_wf c"
  defines "c' \<equiv> mput (bs_hash (ceLinearized e)) (mget [] c (bs_hash (ceLinearized e)) @ [e]) c"
  shows "cacheSet c' = insert (ceLinearized e, ceState e) (cacheSet c)" "cache_wf c'"
proof -
  have get: "x \<in> set (mget [] c' k) \<longleftrightarrow> x \<in> set (mget [] c k) \<or> x = e \<and> k = bs_hash (ceLinearized e)" for x k
    by (auto simp: c'_def)
  show "cacheSet c' = insert (ceLinearized e, ceState e) (cacheSet c)"
    by (rule set_eqI) (auto simp: cacheSet_iff get prod_eq_iff)
  show "cache_wf c'" using assms(1) by (auto simp: cache_wf_def get)
qed

lemma longestLoop_ok:
  assumes "\<And>v. v \<in> set vs \<Longrightarrow> 0 \<le> v \<and> v < int (length longest)"
  shows "\<exists>l' s'. longestLoop ids vs seq longest seqs = Inr (l', s') \<and> length l' = length longest"
  using assms
proof (induction vs arbitrary: seq longest seqs)
  case (Cons v vs)
  have "go_nth longest v = Inr (longest ! nat v)" using Cons.prems[of v] by (simp add: go_nth_in)
  moreover have "\<exists>l' s'. longestLoop ids vs sq l sqs = Inr (l', s') \<and> length l' = length l"
    if "length l = length longest" for sq l sqs
    using Cons.IH[of l] Cons.prems that by auto
  ultimately show ?case by (auto split: option.splits)
qed simp

subsection \<open>Reachable configurations\<close>

fun level :: "'v store \<Rightarrow> ('s, 'v) Model \<Rightarrow> nat list \<Rightarrow> nat \<Rightarrow> nat \<Rightarrow> 's config set" where
  "level h m H n 0 = {(newBitset (word_of_nat n), mInit m)}"
| "level h m H n (Suc k) = (\<Union>c \<in> level h m H n k. \<Union>a \<in> set H. {c'. moves h m a c c'})"

definition reachable_configs :: "'v store \<Rightarrow> ('s, 'v) Model \<Rightarrow> nat list \<Rightarrow> nat \<Rightarrow> 's config set" where
  "reachable_configs h m H n = (\<Union>k \<in> {..n}. level h m H n k)"

lemma moves_unique: "moves h m a c c1 \<Longrightarrow> moves h m a c c2 \<Longrightarrow> c1 = c2"
  by (auto simp: moves_def prod_eq_iff)

lemma finite_level: "finite (level h m H n k)"
proof (induction k)
  case (Suc k)
  have "finite {c'. moves h m a c c'}" for a c
    by (rule finite_subset[of _ "{THE c'. moves h m a c c'}"]) (auto intro: the_equality[symmetric] moves_unique)
  with Suc show ?case by simp
qed simp

lemma finite_reachable: "finite (reachable_configs h m H n)"
  by (simp add: reachable_configs_def finite_level)

lemma trail_level: "trail h0 m H n V cs c h K \<Longrightarrow> c \<in> level h0 m H n (length cs)"
proof (induction rule: trail.induct)
  case (push cs c h K X a Y c' h')
  have "a \<in> set (remaining h0 H (fst c))" using push.hyps(2) by simp
  then have "a \<in> set H" by (simp add: remaining_def)
  with push show ?case by auto
qed simp

subsection \<open>The invariant of the search\<close>

text \<open>
  The nodes in the list are \<open>X @ Y\<close>; the search stands at the first node of \<open>Y\<close>, and the calls
  of \<open>X\<close> have been tried. Every cached configuration that is not on the stack is finished.
\<close>

definition search_inv :: "'v store \<Rightarrow> ('s, 'v) Model \<Rightarrow> nat list \<Rightarrow> nat \<Rightarrow> nat list \<Rightarrow> nat list \<Rightarrow> 's config set \<Rightarrow>
    ('s, 'v) search \<Rightarrow> bool" where
  "search_inv h0 m H n X Y K se \<longleftrightarrow>
     (let V = cacheSet (seCache se); c = (seLinearized se, seState se) in
      cache_wf (seCache se) \<and> trail h0 m H n V (seCalls se) c (seStore se) K \<and>
      remaining h0 H (seLinearized se) = X @ Y \<and> (\<forall>x \<in> set X. isCall h0 x) \<and> finished h0 m V X c \<and>
      seEntry se = (case Y of [] \<Rightarrow> None | a # _ \<Rightarrow> Some a) \<and>
      (\<forall>d \<in> V. d \<in> K \<or> d = c \<or> finished h0 m V (front h0 H (fst d)) d) \<and>
      (\<forall>d \<in> V. d = c \<or> remaining h0 H (fst d) \<noteq> []) \<and>
      V \<subseteq> reachable_configs h0 m H n \<and> length (seLongest se) = n)"

definition search_rank :: "'v store \<Rightarrow> ('s, 'v) Model \<Rightarrow> nat list \<Rightarrow> nat \<Rightarrow> nat list \<Rightarrow> ('s, 'v) search \<Rightarrow> nat \<times> nat \<times> nat" where
  "search_rank h0 m H n Y se =
     (card (reachable_configs h0 m H n - cacheSet (seCache se)), length (seCalls se), length Y)"

definition rank_less :: "((nat \<times> nat \<times> nat) \<times> (nat \<times> nat \<times> nat)) set" where
  "rank_less = less_than <*lex*> less_than <*lex*> less_than"

lemma wf_rank_less [simp]: "wf rank_less"
  unfolding rank_less_def by (intro wf_lex_prod wf_less_than)

text \<open>What the search assumes of the history and of the model.\<close>

definition search_setup :: "'v store \<Rightarrow> ('s, 'v) Model \<Rightarrow> nat list \<Rightarrow> nat \<Rightarrow> nat \<Rightarrow> bool" where
  "search_setup h0 m H n hd0 \<longleftrightarrow> wf_nodes h0 H n \<and> dlist h0 (hd0 # H) \<and> steps_total h0 H m \<and> mEqual m = Some (=)"

lemma setup_on_list:
  assumes "search_setup h0 m H n hd0" "trail h0 m H n V cs c h K"
  shows "on_list h0 H n hd0 (fst c) h"
  using trail_on_list[OF _ _ assms(2), of hd0] assms(1) by (simp add: search_setup_def)

lemma on_list_next:
  assumes "on_list h0 H n hd0 b h" "remaining h0 H b = X @ a # Y"
  shows "ndNext (h ! a) = (case Y of [] \<Rightarrow> None | y # _ \<Rightarrow> Some y)"
  using assms dlist_next[of h "hd0 # X" a Y] by (simp add: on_list_def)

lemma on_list_head:
  assumes "on_list h0 H n hd0 b h"
  shows "ndNext (h ! hd0) = (case remaining h0 H b of [] \<Rightarrow> None | y # _ \<Rightarrow> Some y)"
  using assms dlist_next[of h "[]" hd0 "remaining h0 H b"] by (simp add: on_list_def)

lemma inv_skip:
  assumes su: "search_setup h0 m H n hd0" and inv: "search_inv h0 m H n X (a # Y) K se"
    and a: "isCall h0 a"
    and seen: "\<And>c'. moves h0 m a (seLinearized se, seState se) c' \<Longrightarrow> c' \<in> cacheSet (seCache se)"
  shows "search_inv h0 m H n (X @ [a]) Y K (nextEntry a se) \<and>
    (search_rank h0 m H n Y (nextEntry a se), search_rank h0 m H n (a # Y) se) \<in> rank_less"
proof -
  have t: "trail h0 m H n (cacheSet (seCache se)) (seCalls se) (seLinearized se, seState se) (seStore se) K"
    and r: "remaining h0 H (seLinearized se) = X @ a # Y"
    using inv by (auto simp: search_inv_def Let_def)
  have "seEntry (nextEntry a se) = (case Y of [] \<Rightarrow> None | a # _ \<Rightarrow> Some a)"
    using on_list_next[OF _ r] setup_on_list[OF su t] by (simp add: nextEntry_def)
  moreover have "finished h0 m (cacheSet (seCache se)) (X @ [a]) (seLinearized se, seState se)"
    using inv seen by (auto simp: search_inv_def Let_def finished_def)
  ultimately show ?thesis
    using inv a by (auto simp: search_inv_def Let_def nextEntry_def search_rank_def rank_less_def)
qed

lemma inv_push:
  assumes su: "search_setup h0 m H n hd0" and inv: "search_inv h0 m H n X (a # Y) K se"
    and a: "isCall h0 a" and mv: "moves h0 m a (seLinearized se, seState se) c'"
    and new: "c' \<notin> cacheSet (seCache se)"
    and h': "lift a (seStore se) = Inr h'"
    and cache: "cache_wf cache'" "cacheSet cache' = insert c' (cacheSet (seCache se))"
  defines "se' \<equiv> se\<lparr>seCache := cache', seCalls := seCalls se @ [\<lparr>csEntry = a, csState = seState se\<rparr>],
      seState := snd c', seLinearized := fst c', seStore := h', seEntry := ndNext (h' ! hd0)\<rparr>"
  shows "search_inv h0 m H n [] (remaining h0 H (fst c')) (insert (seLinearized se, seState se) K) se' \<and>
    (search_rank h0 m H n (remaining h0 H (fst c')) se', search_rank h0 m H n (a # Y) se) \<in> rank_less"
proof -
  let ?V = "cacheSet (seCache se)" and ?V' = "cacheSet cache'" and ?c = "(seLinearized se, seState se)"
  have t: "trail h0 m H n ?V (seCalls se) ?c (seStore se) K"
    and r: "remaining h0 H (seLinearized se) = X @ a # Y" and X: "\<And>x. x \<in> set X \<Longrightarrow> isCall h0 x"
    and f: "finished h0 m ?V X ?c" and K: "\<And>d. d \<in> ?V \<Longrightarrow> d \<in> K \<or> d = ?c \<or> finished h0 m ?V (front h0 H (fst d)) d"
    and ne: "\<And>d. d \<in> ?V \<Longrightarrow> d = ?c \<or> remaining h0 H (fst d) \<noteq> []"
    and R: "?V \<subseteq> reachable_configs h0 m H n" and len: "length (seLongest se) = n"
    using inv by (auto simp: search_inv_def Let_def)
  have sub: "?V \<subseteq> ?V'" using cache(2) by auto
  have "finished h0 m ?V' (X @ [a]) ?c"
    using finished_mono[OF f sub] moves_unique[OF mv] cache(2) by (auto simp: finished_def)
  from trail.push[OF trail_mono[OF t sub] _ X a this mv h'] r
  have t': "trail h0 m H n ?V' (seCalls se @ [\<lparr>csEntry = a, csState = seState se\<rparr>]) c' h' (insert ?c K)" by simp
  have wf: "wf_nodes h0 H n" "dlist h0 (hd0 # H)" using su by (simp_all add: search_setup_def)
  have "c' \<in> level h0 m H n (Suc (length (seCalls se)))" "Suc (length (seCalls se)) \<le> n"
    using trail_level[OF t'] trail_bound[OF wf t'] by simp_all
  then have cR: "c' \<in> reachable_configs h0 m H n" unfolding reachable_configs_def by blast
  then have "reachable_configs h0 m H n - ?V' \<subset> reachable_configs h0 m H n - ?V" using new cache(2) by auto
  then have dec: "card (reachable_configs h0 m H n - ?V') < card (reachable_configs h0 m H n - ?V)"
    by (intro psubset_card_mono) (simp_all add: finite_reachable)
  have K': "\<forall>d \<in> ?V'. d \<in> insert ?c K \<or> d = c' \<or> finished h0 m ?V' (front h0 H (fst d)) d"
    using K finished_mono[OF _ sub] unfolding cache(2) by blast
  have ne': "\<forall>d \<in> ?V'. d = c' \<or> remaining h0 H (fst d) \<noteq> []"
  proof
    fix d assume "d \<in> ?V'"
    with ne[of d] r show "d = c' \<or> remaining h0 H (fst d) \<noteq> []" unfolding cache(2) by fastforce
  qed
  have R': "?V' \<subseteq> reachable_configs h0 m H n" using R cR unfolding cache(2) by blast
  have "search_inv h0 m H n [] (remaining h0 H (fst c')) (insert ?c K) se'"
    using t' cache(1) R' len K' ne' on_list_head[OF setup_on_list[OF su t']]
    by (simp add: search_inv_def Let_def se'_def finished_def[of _ _ _ "[]"])
  then show ?thesis using dec by (simp add: search_rank_def rank_less_def se'_def)
qed

lemma inv_undo:
  assumes su: "search_setup h0 m H n hd0" and inv: "search_inv h0 m H n X (a # Y) K se"
    and a: "\<not> isCall h0 a" and ne: "seCalls se \<noteq> []"
  shows "\<exists>X' Y' K' se'. undoCall cp se = Inr se' \<and> search_inv h0 m H n X' Y' K' se' \<and>
    (search_rank h0 m H n Y' se', search_rank h0 m H n (a # Y) se) \<in> rank_less"
proof -
  let ?V = "cacheSet (seCache se)" and ?c = "(seLinearized se, seState se)"
  have t: "trail h0 m H n ?V (seCalls se) ?c (seStore se) K"
    and r: "remaining h0 H (seLinearized se) = X @ a # Y" and X: "\<And>x. x \<in> set X \<Longrightarrow> isCall h0 x"
    and f: "finished h0 m ?V X ?c" and KV: "\<And>d. d \<in> ?V \<Longrightarrow> d \<in> K \<or> d = ?c \<or> finished h0 m ?V (front h0 H (fst d)) d"
    and rem: "\<And>d. d \<in> ?V \<Longrightarrow> d = ?c \<or> remaining h0 H (fst d) \<noteq> []"
    and R: "?V \<subseteq> reachable_configs h0 m H n" and len: "length (seLongest se) = n" and cw: "cache_wf (seCache se)"
    using inv by (auto simp: search_inv_def Let_def)
  obtain cs e where cs: "seCalls se = cs @ [e]" using ne by (cases "seCalls se" rule: rev_cases) auto
  let ?a0 = "csEntry e"
  obtain c0 h K0 X0 Y0 where t0: "trail h0 m H n ?V cs c0 h K0" and K: "K = insert c0 K0"
    and r0: "remaining h0 H (fst c0) = X0 @ ?a0 # Y0" and X0: "\<And>x. x \<in> set X0 \<Longrightarrow> isCall h0 x" "isCall h0 ?a0"
    and f0: "finished h0 m ?V (X0 @ [?a0]) c0" and mv: "moves h0 m ?a0 c0 ?c"
    and li: "lift ?a0 h = Inr (seStore se)" and st: "csState e = snd c0"
    using t unfolding cs by (auto elim!: trail_snocE)
  have wf: "wf_nodes h0 H n" "dlist h0 (hd0 # H)" using su by (simp_all add: search_setup_def)
  have a0: "?a0 \<in> set (remaining h0 H (fst c0))" using r0 by simp
  then have a0H: "?a0 \<in> set H" and a0n: "nodeId h0 ?a0 \<notin> bs_members (fst c0)" by (auto simp: remaining_def)
  note ol = setup_on_list[OF su t] setup_on_list[OF su t0]
  have ids: "ndId (seStore se ! x) = ndId (h0 ! x)" for x using ol(1) by (simp add: on_list_def same_nodes_def)
  have un: "unlift ?a0 (seStore se) = Inr h" using lift_on_list[OF wf(1) ol(2) a0 X0(2) mv] li by auto
  have cl: "bs_clear (word_of_int (ndId (h0 ! ?a0))) (seLinearized se) = Inr (fst c0)"
    by (rule bs_clear_set) (use mv wf_id[OF wf(1) a0H] a0n in \<open>simp_all add: moves_def\<close>)
  have "0 \<le> v \<and> v < int (length (seLongest se))" if "v \<in> set (callIds se)" for v
    using that trail_on_list[OF wf t] wf(1) len by (auto simp: callIds_def ids wf_nodes_def)
  then obtain l s where ls: "(if cp then longestLoop (callIds se) (callIds se) None (seLongest se) (seSeqs se)
      else Inr (seLongest se, seSeqs se)) = Inr (l, s)" "length l = n"
    using longestLoop_ok[of "callIds se" "seLongest se" "callIds se" None "seSeqs se"] len by (cases cp) auto
  define se' where "se' = se\<lparr>seLongest := l, seSeqs := s, seState := snd c0, seLinearized := fst c0,
      seCalls := cs, seStore := h, seEntry := ndNext (h ! ?a0)\<rparr>"
  have u: "undoCall cp se = Inr se'"
    by (simp add: undoCall_def ls Let_def cs ids cl un se'_def st)
  have fr: "front h0 H (seLinearized se) = X" using r X a by (simp add: front_def takeWhile_append2)
  have "\<forall>d \<in> ?V. d \<in> K0 \<or> d = c0 \<or> finished h0 m ?V (front h0 H (fst d)) d"
    using KV f fr unfolding K by fastforce
  moreover have "\<forall>d \<in> ?V. d = c0 \<or> remaining h0 H (fst d) \<noteq> []" using rem r by fastforce
  ultimately have "search_inv h0 m H n (X0 @ [?a0]) Y0 K0 se'"
    using t0 r0 X0 f0 R ls(2) cw on_list_next[OF ol(2) r0]
    by (auto simp: search_inv_def Let_def se'_def)
  then show ?thesis using u by (intro exI conjI) (auto simp: search_rank_def rank_less_def se'_def cs)
qed

lemma inv_try:
  assumes su: "search_setup h0 m H n hd0" and inv: "search_inv h0 m H n X (a # Y) K se"
    and a: "ndMatch (seStore se ! a) = Some r"
  shows "\<exists>X' Y' K' se'. tryCall m hd0 a r se = Inr se' \<and> search_inv h0 m H n X' Y' K' se' \<and>
    (search_rank h0 m H n Y' se', search_rank h0 m H n (a # Y) se) \<in> rank_less"
proof -
  let ?V = "cacheSet (seCache se)" and ?c = "(seLinearized se, seState se)"
  have t: "trail h0 m H n ?V (seCalls se) ?c (seStore se) K"
    and rm: "remaining h0 H (seLinearized se) = X @ a # Y" and cw: "cache_wf (seCache se)"
    using inv by (auto simp: search_inv_def Let_def)
  note ol = setup_on_list[OF su t]
  have nodes: "ndId (seStore se ! x) = ndId (h0 ! x)" "ndValue (seStore se ! x) = ndValue (h0 ! x)"
      "ndMatch (seStore se ! x) = ndMatch (h0 ! x)" for x using ol by (simp_all add: on_list_def same_nodes_def)
  have wf: "wf_nodes h0 H n" using su by (simp add: search_setup_def)
  have ar: "a \<in> set (remaining h0 H (fst ?c))" using rm by simp
  then have aH: "a \<in> set H" by (simp add: remaining_def)
  have call: "isCall h0 a" using a by (simp add: isCall_def nodes)
  obtain ok s' where so: "stepOf h0 m (seState se) a = Inr (ok, s')"
    using su aH call by (fastforce simp: search_setup_def steps_total_def)
  then obtain v w where vw: "ndValue (h0 ! a) = Some v" "ndValue (h0 ! r) = Some w" "mStep m (seState se) v w = Inr (ok, s')"
    using a by (auto simp: stepOf_def nodes split: option.splits)
  show ?thesis
  proof (cases ok)
    case False
    have "tryCall m hd0 a r se = Inr (nextEntry a se)" using vw False by (simp add: tryCall_def nodes)
    moreover have "c' \<in> ?V" if "moves h0 m a ?c c'" for c' using that so False by (simp add: moves_def)
    ultimately show ?thesis using inv_skip[OF su inv call] by blast
  next
    case True
    have "unat (word_of_int (ndId (h0 ! a)) :: 64 word) div 64 < length (seLinearized se)"
      using wf_id[OF wf aH] newBitset_room[of "nodeId h0 a" "word_of_nat n"] ol wf
      by (simp add: on_list_def unat_of_nat wf_nodes_def)
    then obtain b' where b': "bs_set (word_of_int (ndId (h0 ! a))) (seLinearized se) = Inr b'"
      using bs_set_members by blast
    have mv: "moves h0 m a ?c (b', s')" using so True b' by (simp add: moves_def)
    note cc = cacheContains_iff[of m "seCache se" "\<lparr>ceLinearized = b', ceState = s'\<rparr>"]
    have me: "mEqual m = Some (=)" using su by (simp add: search_setup_def)
    show ?thesis
    proof (cases "(b', s') \<in> ?V")
      case True
      have "tryCall m hd0 a r se = Inr (nextEntry a se)" using vw \<open>ok\<close> b' True cc[OF me cw] by (simp add: tryCall_def nodes)
      moreover have "c' \<in> ?V" if "moves h0 m a ?c c'" for c' using moves_unique[OF mv that] True by simp
      ultimately show ?thesis using inv_skip[OF su inv call] by blast
    next
      case False
      obtain h' where h': "lift a (seStore se) = Inr h'" using lift_on_list[OF wf ol ar call mv] by blast
      let ?e = "\<lparr>ceLinearized = b', ceState = s'\<rparr>"
      let ?cache = "mput (bs_hash b') (mget [] (seCache se) (bs_hash b') @ [?e]) (seCache se)"
      have cache: "cache_wf ?cache" "cacheSet ?cache = insert (b', s') ?V" using cache_add[OF cw, of ?e] by simp_all
      note push = inv_push[OF su inv call mv False h' cache]
      have "tryCall m hd0 a r se = Inr (se\<lparr>seCache := ?cache, seCalls := seCalls se @ [\<lparr>csEntry = a, csState = seState se\<rparr>],
          seState := s', seLinearized := b', seStore := h', seEntry := ndNext (h' ! hd0)\<rparr>)"
        using vw \<open>ok\<close> b' False cc[OF me cw] h' by (simp add: tryCall_def nodes Let_def)
      with push show ?thesis unfolding fst_conv snd_conv by blast
    qed
  qed
qed

subsection \<open>The loop\<close>

definition move :: "'v store \<Rightarrow> ('s, 'v) Model \<Rightarrow> nat list \<Rightarrow> 's config \<Rightarrow> 's config \<Rightarrow> bool" where
  "move h m H c c' \<longleftrightarrow> (\<exists>a \<in> set (front h H (fst c)). moves h m a c c')"

definition solvable :: "'v store \<Rightarrow> ('s, 'v) Model \<Rightarrow> nat list \<Rightarrow> nat \<Rightarrow> bool" where
  "solvable h m H n \<longleftrightarrow>
     (\<exists>c. (move h m H)\<^sup>*\<^sup>* (newBitset (word_of_nat n), mInit m) c \<and> remaining h H (fst c) = [])"

lemma trail_path: "trail h0 m H n V cs c h K \<Longrightarrow> (move h0 m H)\<^sup>*\<^sup>* (newBitset (word_of_nat n), mInit m) c"
proof (induction rule: trail.induct)
  case (push cs c h K X a Y c' h')
  have "a \<in> set (front h0 H (fst c))" using push.hyps(2-4) by (simp add: front_def takeWhile_append2)
  with push.hyps(6) have "move h0 m H c c'" by (auto simp: move_def)
  with push.IH show ?case by simp
qed simp

lemma no_return_left:
  assumes "wf_nodes h0 H n" "remaining h0 H b = X" "\<And>x. x \<in> set X \<Longrightarrow> isCall h0 x"
  shows "X = []"
proof (cases X)
  case (Cons a Y)
  then have a: "a \<in> set (remaining h0 H b)" using assms(2) by simp
  then have aH: "a \<in> set H" by (simp add: remaining_def)
  then obtain r where r: "ndMatch (h0 ! a) = Some r" using assms(3)[of a] Cons by (auto simp: isCall_def)
  then have "r \<in> set X" using remaining_split[OF assms(1) a r] assms(2) by auto
  with assms(3)[of r] wf_match[OF assms(1) aH r] show ?thesis by (auto simp: isCall_def)
qed

lemma closed_path:
  assumes "(move h m H)\<^sup>*\<^sup>* c0 c" "\<And>d. d = c0 \<or> d \<in> V \<Longrightarrow> finished h m V (front h H (fst d)) d"
  shows "c = c0 \<or> c \<in> V"
  using assms(1)
proof (induction rule: rtranclp_induct)
  case (step c c')
  then obtain a where "a \<in> set (front h H (fst c))" "moves h m a c c'" by (auto simp: move_def)
  with assms(2)[OF step.IH] show ?case unfolding finished_def by blast
qed simp

lemma search_fails:
  assumes su: "search_setup h0 m H n hd0" and inv: "search_inv h0 m H n X (a # Y) K se"
    and a: "\<not> isCall h0 a" and empty: "seCalls se = []"
  shows "\<not> solvable h0 m H n"
proof
  let ?V = "cacheSet (seCache se)" and ?c0 = "(newBitset (word_of_nat n), mInit m)"
  have t: "trail h0 m H n ?V [] (seLinearized se, seState se) (seStore se) K"
    and r: "remaining h0 H (seLinearized se) = X @ a # Y" and X: "\<And>x. x \<in> set X \<Longrightarrow> isCall h0 x"
    and f: "finished h0 m ?V X (seLinearized se, seState se)"
    and KV: "\<And>d. d \<in> ?V \<Longrightarrow> d \<in> K \<or> d = (seLinearized se, seState se) \<or> finished h0 m ?V (front h0 H (fst d)) d"
    and rem: "\<And>d. d \<in> ?V \<Longrightarrow> d = (seLinearized se, seState se) \<or> remaining h0 H (fst d) \<noteq> []"
    using inv empty by (auto simp: search_inv_def Let_def)
  have c0: "seLinearized se = newBitset (word_of_nat n)" "seState se = mInit m" "K = {}"
    using t by (auto elim: trail_NilE)
  have fr: "front h0 H (fst ?c0) = X" using r X a by (simp add: front_def takeWhile_append2 c0)
  assume "solvable h0 m H n"
  then obtain c where c: "(move h0 m H)\<^sup>*\<^sup>* ?c0 c" "remaining h0 H (fst c) = []" by (auto simp: solvable_def)
  have "finished h0 m ?V (front h0 H (fst d)) d" if "d = ?c0 \<or> d \<in> ?V" for d
    using that KV[of d] f fr c0 by auto
  from closed_path[OF c(1) this] have "c = ?c0 \<or> c \<in> ?V" .
  then show False using rem[of c] r c(2) c0 by auto
qed

lemma searchLoop_correct:
  assumes su: "search_setup h0 m H n hd0" and inv: "search_inv h0 m H n X Y K se"
  shows "\<exists>b se'. searchLoop m cp hd0 (\<lambda>_. False) k se = Some (Inr (b, se')) \<and> (b \<longleftrightarrow> solvable h0 m H n)"
  using inv
proof (induction "search_rank h0 m H n Y se" arbitrary: X Y K se k rule: wf_induct_rule[OF wf_rank_less])
  case 1
  have t: "trail h0 m H n (cacheSet (seCache se)) (seCalls se) (seLinearized se, seState se) (seStore se) K"
    and r: "remaining h0 H (seLinearized se) = X @ Y" and X: "\<And>x. x \<in> set X \<Longrightarrow> isCall h0 x"
    and en: "seEntry se = (case Y of [] \<Rightarrow> None | a # _ \<Rightarrow> Some a)"
    using "1.prems" by (auto simp: search_inv_def Let_def)
  note ol = setup_on_list[OF su t]
  have wf: "wf_nodes h0 H n" using su by (simp add: search_setup_def)
  have hd: "ndNext (seStore se ! hd0) = None \<longleftrightarrow> X @ Y = []"
    using on_list_head[OF ol] r by (auto split: list.splits)
  show ?case
  proof (cases Y)
    case Nil
    then have "X = []" using no_return_left[OF wf r] X by simp
    with Nil hd r have "ndNext (seStore se ! hd0) = None" "solvable h0 m H n"
      using trail_path[OF t] by (auto simp: solvable_def)
    then show ?thesis by (intro exI[of _ True] exI[of _ se]) (subst searchLoop.simps, simp)
  next
    case (Cons a Y')
    have match: "ndMatch (seStore se ! a) = ndMatch (h0 ! a)" using ol by (simp add: on_list_def same_nodes_def)
    have go: "searchLoop m cp hd0 (\<lambda>_. False) k se = (case searchStep m cp hd0 se of
        Inl e \<Rightarrow> Some (Inl e) | Inr (Return b se') \<Rightarrow> Some (Inr (b, se'))
      | Inr (Continue se') \<Rightarrow> searchLoop m cp hd0 (\<lambda>_. False) (k + 1) se')"
      using hd Cons by (subst searchLoop.simps) auto
    have step: ?thesis if "searchStep m cp hd0 se = Inr (Continue se')" "search_inv h0 m H n X1 Y1 K1 se'"
        "(search_rank h0 m H n Y1 se', search_rank h0 m H n Y se) \<in> rank_less" for se' X1 Y1 K1
      using "1.hyps"[OF that(3,2)] go that(1) by simp
    show ?thesis
    proof (cases "ndMatch (h0 ! a)")
      case (Some r)
      from inv_try[OF su "1.prems"[unfolded Cons], of r] match Some obtain X1 Y1 K1 se' where
        "tryCall m hd0 a r se = Inr se'" "search_inv h0 m H n X1 Y1 K1 se'"
        "(search_rank h0 m H n Y1 se', search_rank h0 m H n (a # Y') se) \<in> rank_less" by auto
      then show ?thesis using step[of se' X1 Y1 K1] en Cons match Some by (simp add: searchStep_def)
    next
      case None
      then have na: "\<not> isCall h0 a" by (simp add: isCall_def)
      show ?thesis
      proof (cases "seCalls se = []")
        case True
        then show ?thesis using go search_fails[OF su "1.prems"[unfolded Cons] na] en Cons match None
          by (intro exI[of _ False] exI[of _ se]) (simp add: searchStep_def)
      next
        case False
        from inv_undo[OF su "1.prems"[unfolded Cons] na False, of cp] obtain X1 Y1 K1 se' where
          "undoCall cp se = Inr se'" "search_inv h0 m H n X1 Y1 K1 se'"
          "(search_rank h0 m H n Y1 se', search_rank h0 m H n (a # Y') se) \<in> rank_less" by auto
        then show ?thesis using step[of se' X1 Y1 K1] en Cons match None False by (simp add: searchStep_def)
      qed
    qed
  qed
qed

end
