(* ===== verification/History.thy ===== *)
theory History
  imports Linearizability
begin

text \<open>
  From the linked list back to histories: the list that \<open>makeLinkedEntries\<close> builds holds the
  entries in order, a path through the configurations of the search is a linearization of the
  history, and so \<open>checkSingle\<close> decides linearizability.
\<close>

subsection \<open>Paths are linearizations\<close>

text \<open>
  The nodes of a history of \<open>L\<close> entries have the addresses below \<open>L\<close>, the first entry the
  highest; a node comes earlier in the history just if its address is greater.
\<close>

abbreviation descending :: "nat \<Rightarrow> nat list" where
  "descending L \<equiv> rev [0..<L]"

lemma descending_sorted: "sorted_wrt (>) (descending L)"
  by (simp add: sorted_wrt_rev)

lemma takeWhile_descending:
  "sorted_wrt (>) xs \<Longrightarrow> a \<in> set (takeWhile P xs) \<longleftrightarrow> a \<in> set xs \<and> (\<forall>x \<in> set xs. a \<le> (x :: nat) \<longrightarrow> P x)"
  by (induction xs) fastforce+

lemma front_iff:
  "a \<in> set (front h (descending L) b) \<longleftrightarrow>
     a \<in> set (remaining h (descending L) b) \<and> (\<forall>x \<in> set (remaining h (descending L) b). a \<le> x \<longrightarrow> isCall h x)"
  unfolding front_def
  by (rule takeWhile_descending) (simp add: remaining_def sorted_wrt_filter descending_sorted)

text \<open>\<open>retOf\<close> is the return of a call.\<close>

definition retOf :: "'v store \<Rightarrow> nat \<Rightarrow> nat" where
  "retOf h a = (case ndMatch (h ! a) of None \<Rightarrow> a | Some r \<Rightarrow> r)"

fun legalNodes :: "'v store \<Rightarrow> ('s, 'v) Model \<Rightarrow> 's \<Rightarrow> nat list \<Rightarrow> bool" where
  "legalNodes h m s [] = True"
| "legalNodes h m s (a # as) = (case stepOf h m s a of Inr (True, s') \<Rightarrow> legalNodes h m s' as | _ \<Rightarrow> False)"

definition callsIn :: "'v store \<Rightarrow> nat list \<Rightarrow> nat set" where
  "callsIn h xs = {a \<in> set xs. isCall h a}"

definition ordered :: "'v store \<Rightarrow> nat list \<Rightarrow> bool" where
  "ordered h as = sorted_wrt (\<lambda>a c. \<not> a < retOf h c) as"

lemma front_ordered:
  assumes wf: "wf_nodes h (descending L) n"
  shows "a \<in> set (front h (descending L) b) \<longleftrightarrow>
    a \<in> callsIn h (remaining h (descending L) b) \<and> (\<forall>c \<in> callsIn h (remaining h (descending L) b). \<not> a < retOf h c)"
    (is "?L \<longleftrightarrow> ?R")
proof
  assume l: ?L
  then have a: "a \<in> set (remaining h (descending L) b)" "isCall h a" and all: "\<And>x. x \<in> set (remaining h (descending L) b) \<Longrightarrow> a \<le> x \<Longrightarrow> isCall h x"
    unfolding front_iff by auto
  have "\<not> a < retOf h c" if c: "c \<in> callsIn h (remaining h (descending L) b)" for c
  proof -
    obtain r where r: "ndMatch (h ! c) = Some r" using c by (auto simp: callsIn_def isCall_def)
    have cr: "c \<in> set (remaining h (descending L) b)" "c \<in> set (descending L)" using c by (auto simp: callsIn_def remaining_def)
    have "r \<in> set (remaining h (descending L) b)" using remaining_split[OF wf cr(1) r] by auto
    moreover have "\<not> isCall h r" using wf_match[OF wf cr(2) r] by (simp add: isCall_def)
    ultimately show ?thesis using all[of r] r by (auto simp: retOf_def)
  qed
  with a show ?R by (auto simp: callsIn_def)
next
  assume r: ?R
  have "isCall h x" if x: "x \<in> set (remaining h (descending L) b)" "a \<le> x" for x
  proof (rule ccontr)
    assume nx: "\<not> isCall h x"
    have xH: "x \<in> set (descending L)" using x by (simp add: remaining_def)
    obtain c where c: "c \<in> set (descending L)" "ndMatch (h ! c) = Some x" using wf_return[OF wf xH nx] by blast
    then have "nodeId h c = nodeId h x" using wf_match[OF wf c] by simp
    then have "c \<in> callsIn h (remaining h (descending L) b)" using x c by (auto simp: callsIn_def remaining_def isCall_def)
    with r c(2) have "\<not> a < x" by (auto simp: retOf_def)
    with x(2) nx r show False by (auto simp: callsIn_def)
  qed
  with r show ?L unfolding front_iff by (auto simp: callsIn_def)
qed

lemma callsIn_move:
  assumes wf: "wf_nodes h H n" and a: "a \<in> callsIn h (remaining h H (fst c))" and mv: "moves h m a c c'"
  shows "callsIn h (remaining h H (fst c)) = insert a (callsIn h (remaining h H (fst c')))"
    "a \<notin> callsIn h (remaining h H (fst c'))"
proof -
  have aH: "a \<in> set H" "isCall h a" using a by (auto simp: callsIn_def remaining_def)
  have rm: "remaining h H (fst c') = filter (\<lambda>x. nodeId h x \<noteq> nodeId h a) (remaining h H (fst c))"
    using remaining_set moves_members[OF wf aH(1) mv] by blast
  have "nodeId h x \<noteq> nodeId h a \<longleftrightarrow> x \<noteq> a" if "x \<in> set H" "isCall h x" for x
    using wf_inj[OF wf that(1) aH(1) that(2) aH(2)] by blast
  then show "callsIn h (remaining h H (fst c)) = insert a (callsIn h (remaining h H (fst c')))"
    using a unfolding callsIn_def rm by (auto simp: remaining_def)
  show "a \<notin> callsIn h (remaining h H (fst c'))" unfolding callsIn_def rm by simp
qed

lemma path_order:
  assumes wf: "wf_nodes h (descending L) n"
  shows "(move h m (descending L))\<^sup>*\<^sup>* c c' \<Longrightarrow> remaining h (descending L) (fst c') = [] \<Longrightarrow>
    \<exists>as. distinct as \<and> set as = callsIn h (remaining h (descending L) (fst c)) \<and> ordered h as \<and> legalNodes h m (snd c) as"
proof (induction rule: converse_rtranclp_induct)
  case base
  then show ?case by (intro exI[of _ "[]"]) (simp add: callsIn_def ordered_def)
next
  case (step c c1)
  then obtain as where as: "distinct as" "set as = callsIn h (remaining h (descending L) (fst c1))" "ordered h as" "legalNodes h m (snd c1) as"
    by blast
  obtain a where a: "a \<in> set (front h (descending L) (fst c))" "moves h m a c c1" using step.hyps(1) by (auto simp: move_def)
  note fo = a(1)[unfolded front_ordered[OF wf]]
  note cm = callsIn_move[OF wf conjunct1[OF fo] a(2)]
  have "legalNodes h m (snd c) (a # as)" using as(4) a(2) by (simp add: moves_def)
  moreover have "ordered h (a # as)" using as fo cm by (auto simp: ordered_def)
  ultimately show ?case using as cm by (intro exI[of _ "a # as"]) simp
qed

lemma order_path:
  assumes wf: "wf_nodes h (descending L) n"
  shows "distinct as \<Longrightarrow> set as = callsIn h (remaining h (descending L) (fst c)) \<Longrightarrow> ordered h as \<Longrightarrow>
    legalNodes h m (snd c) as \<Longrightarrow> length (fst c) = length (newBitset (word_of_nat n)) \<Longrightarrow>
    \<exists>c'. (move h m (descending L))\<^sup>*\<^sup>* c c' \<and> remaining h (descending L) (fst c') = []"
proof (induction as arbitrary: c)
  case Nil
  have "remaining h (descending L) (fst c) = []"
  proof (rule ccontr)
    assume "remaining h (descending L) (fst c) \<noteq> []"
    then obtain x where x: "x \<in> set (remaining h (descending L) (fst c))" using hd_in_set by blast
    then have "\<not> isCall h x" using Nil.prems(2) by (auto simp: callsIn_def)
    then obtain a where a: "a \<in> set (descending L)" "ndMatch (h ! a) = Some x"
      using wf_return[OF wf, of x] x by (auto simp: remaining_def)
    then have "a \<in> callsIn h (remaining h (descending L) (fst c))"
      using wf_match[OF wf a] x by (auto simp: callsIn_def remaining_def isCall_def)
    with Nil.prems(2) show False by simp
  qed
  then show ?case by blast
next
  case (Cons a as)
  have a: "a \<in> callsIn h (remaining h (descending L) (fst c))" using Cons.prems(2) by auto
  then have aH: "a \<in> set (descending L)" "isCall h a" by (auto simp: callsIn_def remaining_def)
  obtain s' where s': "stepOf h m (snd c) a = Inr (True, s')" "legalNodes h m s' as"
    using Cons.prems(4) by (auto split: sum.splits prod.splits bool.splits)
  have "unat (word_of_int (ndId (h ! a)) :: 64 word) div 64 < length (fst c)"
    using wf_id[OF wf aH(1)] newBitset_room[of "nodeId h a" "word_of_nat n"] Cons.prems(5) wf
    by (simp add: unat_of_nat wf_nodes_def)
  then obtain b' where b': "bs_set (word_of_int (ndId (h ! a))) (fst c) = Inr b'" using bs_set_members by blast
  have mv: "moves h m a c (b', s')" using s' b' by (simp add: moves_def)
  note cm = callsIn_move[OF wf a mv]
  have "set as = callsIn h (remaining h (descending L) (fst (b', s')))" using cm Cons.prems(1,2) by auto
  moreover have "length b' = length (newBitset (word_of_nat n))" using moves_members[OF wf aH(1) mv] Cons.prems(5) by simp
  ultimately obtain c' where c': "(move h m (descending L))\<^sup>*\<^sup>* (b', s') c'" "remaining h (descending L) (fst c') = []"
    using Cons.IH[of "(b', s')"] Cons.prems(1,3) s' by (auto simp: ordered_def)
  have "\<not> a < retOf h x" if "x \<in> callsIn h (remaining h (descending L) (fst c))" for x
  proof (cases "x = a")
    case True
    obtain r where r: "ndMatch (h ! a) = Some r" using aH by (auto simp: isCall_def)
    obtain X Y Z where "descending L = X @ a # Y @ r # Z" using wf aH(1) r unfolding wf_nodes_def by blast
    then have "r < a" using descending_sorted[of L] by (simp add: sorted_wrt_append)
    with True r show ?thesis by (simp add: retOf_def)
  next
    case False
    with that Cons.prems(2,3) have "x \<in> set as" by auto
    with Cons.prems(3) show ?thesis by (simp add: ordered_def)
  qed
  with a have "a \<in> set (front h (descending L) (fst c))" unfolding front_ordered[OF wf] by blast
  with mv have "move h m (descending L) c (b', s')" by (auto simp: move_def)
  with c' show ?case by (meson converse_rtranclp_into_rtranclp)
qed

lemma solvable_iff:
  assumes wf: "wf_nodes h (descending L) n"
  shows "solvable h m (descending L) n \<longleftrightarrow>
    (\<exists>as. distinct as \<and> set as = {a. a < L \<and> isCall h a} \<and> ordered h as \<and> legalNodes h m (mInit m) as)"
proof -
  have "callsIn h (remaining h (descending L) (newBitset (word_of_nat n))) = {a. a < L \<and> isCall h a}"
    by (auto simp: callsIn_def remaining_def)
  then show ?thesis
    using path_order[OF wf, of m "(newBitset (word_of_nat n), mInit m)"]
      order_path[OF wf, of _ "(newBitset (word_of_nat n), mInit m)" m]
    unfolding solvable_def by auto
qed

subsection \<open>Building the list\<close>

lemma insertBefore_same: "same_nodes h (insertBefore n mark h)"
  by (auto simp: insertBefore_def same_nodes_def Let_def store_simps split: option.splits)

lemma insertBefore_dlist:
  assumes dl: "dlist h ys" and root: "root = (case ys of [] \<Rightarrow> None | y # _ \<Rightarrow> Some y)"
    and pv: "ys \<noteq> [] \<Longrightarrow> ndPrev (h ! hd ys) = None" and nd: "ndNext nd = None" "ndPrev nd = None"
  shows "dlist (insertBefore (length h) root (h @ [nd])) (length h # ys) \<and>
    ndPrev (insertBefore (length h) root (h @ [nd]) ! length h) = None"
proof (cases ys)
  case Nil
  then show ?thesis using nd root by (simp add: dlist_def insertBefore_def)
next
  case (Cons y ys')
  let ?h = "setNext (length h) (Some y) (setPrev y (Some (length h)) (h @ [nd]))"
  have y: "y < length h" and sub: "\<And>x. x \<in> set ys \<Longrightarrow> x < length h" using dl Cons by (auto simp: dlist_def)
  have ib: "insertBefore (length h) root (h @ [nd]) = ?h"
    using root pv Cons y by (simp add: insertBefore_def Let_def nth_append)
  have old: "ndNext (?h ! x) = ndNext (h ! x)" "ndPrev (?h ! x) = (if x = y then Some (length h) else ndPrev (h ! x))"
    if "x < length h" for x
    using that y by (simp_all add: store_simps nth_append)
  have "successively (linked ?h) ys"
  proof (rule successively_links[of h])
    show "successively (linked h) ys" using dl by (simp add: dlist_def)
    show "ndNext (?h ! x) = ndNext (h ! x)" if "x \<in> set (butlast ys)" for x
      using old(1)[OF sub] in_set_butlastD[OF that] by blast
    show "ndPrev (?h ! x) = ndPrev (h ! x)" if "x \<in> set (tl ys)" for x
      using old(2)[of x] sub[of x] that dl Cons by (auto simp: dlist_def)
  qed
  moreover have "ndNext (?h ! last ys) = None" using old(1)[of "last ys"] sub[of "last ys"] dl Cons by (auto simp: dlist_def)
  moreover have "linked ?h (length h) y" using y by (simp add: linked_def store_simps)
  moreover have "ndPrev (?h ! length h) = None" using y nd by (simp add: store_simps nth_append)
  ultimately show ?thesis
    using sub dl Cons y unfolding ib by (auto simp: dlist_def store_simps less_Suc_eq)
qed

definition lastRet :: "'v entry list \<Rightarrow> int \<Rightarrow> nat option" where
  "lastRet ps i = (let xs = filter (\<lambda>j. enKind (ps ! j) = returnEntry \<and> enId (ps ! j) = i) [0..<length ps] in
     if xs = [] then None else Some (last xs))"

lemma lastRet_snoc:
  "lastRet (ps @ [e]) i = (if enKind e = returnEntry \<and> enId e = i then Some (length ps) else lastRet ps i)"
proof -
  have "filter (\<lambda>j. enKind ((ps @ [e]) ! j) = returnEntry \<and> enId ((ps @ [e]) ! j) = i) [0..<length ps] =
      filter (\<lambda>j. enKind (ps ! j) = returnEntry \<and> enId (ps ! j) = i) [0..<length ps]"
    by (intro filter_cong) (auto simp: nth_append)
  then show ?thesis by (simp add: lastRet_def Let_def)
qed

lemma lastRet_unique:
  assumes "j < length ps" "enKind (ps ! j) = returnEntry" "enId (ps ! j) = i"
    "\<And>k. k < length ps \<Longrightarrow> enKind (ps ! k) = returnEntry \<Longrightarrow> enId (ps ! k) = i \<Longrightarrow> k = j"
  shows "lastRet ps i = Some j"
proof -
  let ?xs = "filter (\<lambda>j. enKind (ps ! j) = returnEntry \<and> enId (ps ! j) = i) [0..<length ps]"
  have "j \<in> set ?xs" using assms(1-3) by simp
  then have ne: "?xs \<noteq> []" by (metis list.distinct(1) list.set_cases)
  then have "last ?xs \<in> set ?xs" by (rule last_in_set)
  then have "last ?xs = j" by (intro assms(4)) simp_all
  with ne show ?thesis by (simp only: lastRet_def Let_def if_False)
qed

definition link_inv :: "'v entry list \<Rightarrow> 'v store \<Rightarrow> nat option \<Rightarrow> (int, nat) gomap \<Rightarrow> bool" where
  "link_inv ps h root match \<longleftrightarrow> length h = length ps \<and> dlist h (descending (length ps)) \<and>
     root = (if ps = [] then None else Some (length ps - 1)) \<and> (ps \<noteq> [] \<longrightarrow> ndPrev (h ! (length ps - 1)) = None) \<and>
     (\<forall>a < length ps. ndValue (h ! a) = Some (enValue (ps ! a)) \<and> ndId (h ! a) = enId (ps ! a) \<and>
        ndMatch (h ! a) = (if enKind (ps ! a) = returnEntry then None else lastRet (take a ps) (enId (ps ! a)))) \<and>
     (\<forall>i. map_of match i = lastRet ps i)"

lemma link_step:
  assumes inv: "link_inv ps h root match"
  shows "link_inv (ps @ [e])
     (insertBefore (length h) root (h @ [\<lparr>ndValue = Some (enValue e),
        ndMatch = (if enKind e = returnEntry then None else map_of match (enId e)), ndId = enId e, ndNext = None, ndPrev = None\<rparr>]))
     (Some (length h)) (if enKind e = returnEntry then mput (enId e) (length h) match else match)"
    (is "link_inv _ ?h' _ _")
proof -
  have len: "length h = length ps" and dl: "dlist h (descending (length ps))" using inv by (auto simp: link_inv_def)
  have hd: "hd (descending (length ps)) = length ps - 1" if "ps \<noteq> []" using that by (cases ps) simp_all
  have root: "root = (case descending (length ps) of [] \<Rightarrow> None | y # _ \<Rightarrow> Some y)"
    using inv by (cases "length ps") (auto simp: link_inv_def)
  have ib: "dlist ?h' (length h # descending (length ps)) \<and> ndPrev (?h' ! length h) = None"
    by (rule insertBefore_dlist[OF dl root]) (use inv hd in \<open>auto simp: link_inv_def\<close>)
  have same: "same_nodes (h @ [\<lparr>ndValue = Some (enValue e),
        ndMatch = (if enKind e = returnEntry then None else map_of match (enId e)), ndId = enId e, ndNext = None, ndPrev = None\<rparr>]) ?h'"
    by (rule insertBefore_same)
  have "ndValue (?h' ! a) = Some (enValue ((ps @ [e]) ! a)) \<and> ndId (?h' ! a) = enId ((ps @ [e]) ! a) \<and>
      ndMatch (?h' ! a) = (if enKind ((ps @ [e]) ! a) = returnEntry then None
        else lastRet (take a (ps @ [e])) (enId ((ps @ [e]) ! a)))" if "a < Suc (length ps)" for a
    using that same inv len by (cases "a = length ps") (auto simp: link_inv_def same_nodes_def nth_append less_Suc_eq)
  then show ?thesis using ib same inv len
    by (auto simp: link_inv_def same_nodes_def lastRet_snoc)
qed

lemma linkLoop_inv:
  "link_inv ps h root match \<Longrightarrow> linkLoop es h root match = (h', root') \<Longrightarrow> \<exists>match'. link_inv (ps @ es) h' root' match'"
proof (induction es arbitrary: ps h root match)
  case Nil
  then show ?case by auto
next
  case (Cons e es)
  from Cons.IH[OF link_step[OF Cons.prems(1)]] Cons.prems(2) show ?case
    by (cases "enKind e = returnEntry") (auto simp: Let_def)
qed

lemma makeLinkedEntries_inv:
  assumes "makeLinkedEntries entries = (h, root)"
  shows "\<exists>match. link_inv (rev entries) h root match"
proof -
  have "link_inv [] [] None []" by (simp add: link_inv_def dlist_def lastRet_def)
  from linkLoop_inv[OF this] assms show ?thesis by (simp add: makeLinkedEntries_def)
qed

lemma node_length_dlist:
  "dlist h (xs @ ys) \<Longrightarrow> node_length h (case ys of [] \<Rightarrow> None | y # _ \<Rightarrow> Some y) l = Some (l + length ys)"
proof (induction ys arbitrary: xs l)
  case Nil
  show ?case by (subst node_length.simps) simp
next
  case (Cons y ys)
  have "ndNext (h ! y) = (case ys of [] \<Rightarrow> None | z # _ \<Rightarrow> Some z)" using dlist_next[OF Cons.prems] .
  with Cons.IH[of "xs @ [y]" "l + 1"] Cons.prems show ?case by (subst node_length.simps) simp
qed

subsection \<open>Linearizable histories\<close>

text \<open>
  A history of entries for \<open>n\<close> operations has one call and one later return for each id below
  \<open>n\<close>. It is linearizable if the operations can be put in an order that the model accepts and in
  which no operation comes before one that had returned when it was called.
\<close>

definition wf_history :: "'v entry list \<Rightarrow> nat \<Rightarrow> bool" where
  "wf_history es n \<longleftrightarrow> distinct (map (\<lambda>e. (enKind e, enId e)) es) \<and>
     (\<forall>e \<in> set es. 0 \<le> enId e \<and> enId e < int n) \<and>
     (\<forall>i < n. \<exists>j k. j < k \<and> k < length es \<and> enKind (es ! j) = callEntry \<and> enId (es ! j) = int i \<and>
        enKind (es ! k) = returnEntry \<and> enId (es ! k) = int i)"

definition posOf :: "entryKind \<Rightarrow> nat \<Rightarrow> 'v entry list \<Rightarrow> nat" where
  "posOf k i es = length (takeWhile (\<lambda>e. \<not> (enKind e = k \<and> enId e = int i)) es)"

definition valOf :: "entryKind \<Rightarrow> nat \<Rightarrow> 'v entry list \<Rightarrow> 'v" where
  "valOf k i es = enValue (es ! posOf k i es)"

fun legal :: "('s, 'v) Model \<Rightarrow> 's \<Rightarrow> ('v \<times> 'v) list \<Rightarrow> bool" where
  "legal m s [] = True"
| "legal m s ((inp, out) # rest) = (case mStep m s inp out of Inr (True, s') \<Rightarrow> legal m s' rest | _ \<Rightarrow> False)"

definition linearizable_entries :: "('s, 'v) Model \<Rightarrow> 'v entry list \<Rightarrow> nat \<Rightarrow> bool" where
  "linearizable_entries m es n \<longleftrightarrow> (\<exists>ord. distinct ord \<and> set ord = {..<n} \<and>
     sorted_wrt (\<lambda>x y. \<not> posOf returnEntry y es < posOf callEntry x es) ord \<and>
     legal m (mInit m) (map (\<lambda>i. (valOf callEntry i es, valOf returnEntry i es)) ord))"

definition steps_defined :: "('s, 'v) Model \<Rightarrow> 'v entry list \<Rightarrow> bool" where
  "steps_defined m es \<longleftrightarrow> (\<forall>c \<in> set es. \<forall>r \<in> set es. enKind c = callEntry \<longrightarrow> enKind r = returnEntry \<longrightarrow> enId c = enId r \<longrightarrow>
     (\<forall>s. \<exists>x. mStep m s (enValue c) (enValue r) = Inr x))"

lemma posOf_eq:
  assumes wf: "wf_history es n" and p: "p < length es" "enKind (es ! p) = k" "enId (es ! p) = int i"
  shows "posOf k i es = p"
proof -
  have d: "distinct (map (\<lambda>e. (enKind e, enId e)) es)" using wf by (simp add: wf_history_def)
  have "\<not> (enKind (es ! q) = k \<and> enId (es ! q) = int i)" if "q < p" for q
  proof
    assume "enKind (es ! q) = k \<and> enId (es ! q) = int i"
    then have "map (\<lambda>e. (enKind e, enId e)) es ! q = map (\<lambda>e. (enKind e, enId e)) es ! p" using that p by simp
    with d p(1) that show False by (simp add: nth_eq_iff_index_eq del: nth_map)
  qed
  then have "takeWhile (\<lambda>e. \<not> (enKind e = k \<and> enId e = int i)) es = take p es"
    using p by (intro takeWhile_eq_take_P_nth) simp_all
  with p(1) show ?thesis by (simp add: posOf_def)
qed

lemma posOf_pos:
  assumes wf: "wf_history es n" and i: "i < n"
  shows "posOf callEntry i es < posOf returnEntry i es" "posOf returnEntry i es < length es"
    "enKind (es ! posOf k i es) = k" "enId (es ! posOf k i es) = int i"
proof -
  obtain p q where pq: "p < q" "q < length es" "enKind (es ! p) = callEntry" "enId (es ! p) = int i"
      "enKind (es ! q) = returnEntry" "enId (es ! q) = int i"
    using wf i unfolding wf_history_def by blast
  have e: "posOf callEntry i es = p" "posOf returnEntry i es = q" using posOf_eq[OF wf] pq by auto
  show "posOf callEntry i es < posOf returnEntry i es" "posOf returnEntry i es < length es" using e pq by simp_all
  show "enKind (es ! posOf k i es) = k" "enId (es ! posOf k i es) = int i" using e pq by (cases k; simp)+
qed

lemma wf_history_length:
  assumes wf: "wf_history es n"
  shows "length es = 2 * n"
proof -
  let ?key = "\<lambda>e :: 'a entry. (enKind e, enId e)"
  have "set (map ?key es) = {callEntry, returnEntry} \<times> int ` {..<n}"
  proof (intro subset_antisym subsetI)
    fix x assume "x \<in> set (map ?key es)"
    then obtain e where "e \<in> set es" "x = ?key e" by auto
    moreover have "enId e \<in> int ` {..<n}" if "e \<in> set es" for e
      using wf that by (auto simp: wf_history_def image_iff intro!: bexI[of _ "nat (enId e)"])
    ultimately show "x \<in> {callEntry, returnEntry} \<times> int ` {..<n}" by (cases "enKind e") auto
  next
    fix x assume "x \<in> {callEntry, returnEntry} \<times> int ` {..<n}"
    then obtain k i where x: "x = (k, int i)" "i < n" by auto
    have "posOf k i es < length es" using posOf_pos(1,2)[OF wf x(2)] by (cases k) auto
    then show "x \<in> set (map ?key es)" using posOf_pos(3,4)[OF wf x(2), of k] x(1)
      by (auto simp: image_iff intro!: bexI[of _ "es ! posOf k i es"])
  qed
  then have "card (set (map ?key es)) = 2 * n" by (simp add: card_cartesian_product card_image)
  moreover have "card (set (map ?key es)) = length es"
    using wf distinct_card[of "map ?key es"] by (simp add: wf_history_def)
  ultimately show ?thesis by simp
qed

text \<open>\<open>nodes_of es h\<close>: the store holds the entries \<open>es\<close>, the entry at position \<open>p\<close> at address \<open>length es - 1 - p\<close>.\<close>

definition addrOf :: "'v entry list \<Rightarrow> nat \<Rightarrow> nat" where
  "addrOf es p = length es - 1 - p"

definition nodes_of :: "'v entry list \<Rightarrow> 'v store \<Rightarrow> bool" where
  "nodes_of es h \<longleftrightarrow> (\<forall>p < length es.
     ndValue (h ! addrOf es p) = Some (enValue (es ! p)) \<and> ndId (h ! addrOf es p) = enId (es ! p) \<and>
     ndMatch (h ! addrOf es p) = (if enKind (es ! p) = returnEntry then None
        else Some (addrOf es (posOf returnEntry (nat (enId (es ! p))) es))))"

lemma link_nodes:
  assumes wf: "wf_history es n" and li: "link_inv (rev es) h root match"
  shows "nodes_of es h"
  unfolding nodes_of_def
proof (intro allI impI)
  fix p assume p: "p < length es"
  let ?a = "addrOf es p" and ?i = "nat (enId (es ! p))"
  have a: "?a < length es" "rev es ! ?a = es ! p" using p by (simp_all add: addrOf_def rev_nth)
  have node: "ndValue (h ! ?a) = Some (enValue (es ! p)) \<and> ndId (h ! ?a) = enId (es ! p) \<and>
      ndMatch (h ! ?a) = (if enKind (es ! p) = returnEntry then None else lastRet (take ?a (rev es)) (enId (es ! p)))"
    using li a unfolding link_inv_def by simp
  have idr: "int ?i = enId (es ! p)" "?i < n" using wf p unfolding wf_history_def by (auto simp: nat_less_iff)
  have "lastRet (take ?a (rev es)) (enId (es ! p)) = Some (addrOf es (posOf returnEntry ?i es))" if k: "enKind (es ! p) \<noteq> returnEntry"
  proof (rule lastRet_unique)
    let ?q = "posOf returnEntry ?i es"
    have "posOf callEntry ?i es = p" using posOf_eq[OF wf p, of callEntry] k idr(1) by (cases "enKind (es ! p)") auto
    then have q: "p < ?q" "?q < length es" using posOf_pos(1,2)[OF wf idr(2)] by auto
    then have j: "addrOf es ?q < ?a" "rev es ! addrOf es ?q = es ! ?q" by (auto simp: addrOf_def rev_nth)
    show "addrOf es ?q < length (take ?a (rev es))" using j(1) a(1) by simp
    show "enKind (take ?a (rev es) ! addrOf es ?q) = returnEntry" "enId (take ?a (rev es) ! addrOf es ?q) = enId (es ! p)"
      using j posOf_pos(3,4)[OF wf idr(2), of returnEntry] idr(1) by simp_all
    fix x assume x: "x < length (take ?a (rev es))" "enKind (take ?a (rev es) ! x) = returnEntry" "enId (take ?a (rev es) ! x) = enId (es ! p)"
    then have "x < length es" "rev es ! x = es ! (length es - 1 - x)" by (auto simp: rev_nth)
    with x have "posOf returnEntry ?i es = length es - 1 - x"
      using posOf_eq[OF wf, of "length es - 1 - x" returnEntry ?i] idr(1) by simp
    with \<open>x < length es\<close> show "x = addrOf es ?q" by (simp add: addrOf_def)
  qed
  with node show "ndValue (h ! ?a) = Some (enValue (es ! p)) \<and> ndId (h ! ?a) = enId (es ! p) \<and>
      ndMatch (h ! ?a) = (if enKind (es ! p) = returnEntry then None else Some (addrOf es (posOf returnEntry ?i es)))"
    by simp
qed

lemma addrOf_inverse: "a < length es \<Longrightarrow> a = addrOf es (length es - 1 - a)"
  by (simp add: addrOf_def)

text \<open>The address of the call or the return of an operation.\<close>

definition nodeOf :: "entryKind \<Rightarrow> 'v entry list \<Rightarrow> nat \<Rightarrow> nat" where
  "nodeOf k es i = addrOf es (posOf k i es)"

lemma nodeOf_fields:
  assumes wf: "wf_history es n" and no: "nodes_of es h" and i: "i < n"
  shows "nodeOf k es i < length es" "ndId (h ! nodeOf k es i) = int i" "ndValue (h ! nodeOf k es i) = Some (valOf k i es)"
    "ndMatch (h ! nodeOf callEntry es i) = Some (nodeOf returnEntry es i)" "ndMatch (h ! nodeOf returnEntry es i) = None"
    "nodeOf returnEntry es i < nodeOf callEntry es i"
proof -
  have p: "posOf k i es < length es" for k using posOf_pos(1,2)[OF wf i] by (cases k) auto
  have f: "ndValue (h ! addrOf es (posOf k i es)) = Some (enValue (es ! posOf k i es))"
     "ndId (h ! addrOf es (posOf k i es)) = int i"
     "ndMatch (h ! addrOf es (posOf k i es)) = (if k = returnEntry then None else Some (addrOf es (posOf returnEntry i es)))" for k
    using no p[of k] posOf_pos(3,4)[OF wf i, of k] unfolding nodes_of_def by auto
  show "ndId (h ! nodeOf k es i) = int i" "ndValue (h ! nodeOf k es i) = Some (valOf k i es)"
    "ndMatch (h ! nodeOf callEntry es i) = Some (nodeOf returnEntry es i)" "ndMatch (h ! nodeOf returnEntry es i) = None"
    using f by (simp_all add: nodeOf_def valOf_def)
  show "nodeOf k es i < length es" using p[of k] by (simp add: nodeOf_def addrOf_def)
  show "nodeOf returnEntry es i < nodeOf callEntry es i" using p[of returnEntry] posOf_pos(1)[OF wf i] by (simp add: nodeOf_def addrOf_def)
qed

lemma nodeOf_cover:
  assumes wf: "wf_history es n" and no: "nodes_of es h" and a: "a < length es"
  shows "\<exists>i < n. \<exists>k. a = nodeOf k es i"
proof -
  let ?p = "length es - 1 - a"
  have p: "?p < length es" using a by simp
  have "0 \<le> enId (es ! ?p)" "enId (es ! ?p) < int n" using wf nth_mem[OF p] by (auto simp: wf_history_def)
  then have i: "nat (enId (es ! ?p)) < n" "enId (es ! ?p) = int (nat (enId (es ! ?p)))" by auto
  have "posOf (enKind (es ! ?p)) (nat (enId (es ! ?p))) es = ?p" using posOf_eq[OF wf p refl i(2)] .
  then have "a = nodeOf (enKind (es ! ?p)) es (nat (enId (es ! ?p)))" using a by (simp add: nodeOf_def addrOf_def)
  with i(1) show ?thesis by blast
qed

lemma descending_split: "r < a \<Longrightarrow> a < L \<Longrightarrow> \<exists>X Y Z. descending L = X @ a # Y @ r # Z"
proof -
  assume ra: "r < a" "a < L"
  then have "[0..<L] = [0..<r] @ [r..<a] @ [a..<L]"
    using upt_add_eq_append[of 0 r "L - r"] upt_add_eq_append[of r a "L - a"] by simp
  with ra have "[0..<L] = [0..<r] @ r # [Suc r..<a] @ a # [Suc a..<L]" by (simp add: upt_conv_Cons)
  then show ?thesis by (intro exI[of _ "rev [Suc a..<L]"] exI[of _ "rev [Suc r..<a]"] exI[of _ "rev [0..<r]"]) simp
qed

lemma nodes_wf:
  assumes wf: "wf_history es n" and no: "nodes_of es h" and n: "n < 2 ^ 64"
  shows "wf_nodes h (descending (length es)) n"
proof -
  note nf = nodeOf_fields[OF wf no]
  have cov: "\<exists>i < n. a = nodeOf callEntry es i \<or> a = nodeOf returnEntry es i" if "a < length es" for a
    using nodeOf_cover[OF wf no that] entryKind.exhaust by metis
  have call: "isCall h a \<longleftrightarrow> a = nodeOf callEntry es (nodeId h a)" if "a < length es" for a
    using cov[OF that] nf(2,4,5) by (auto simp: isCall_def nodeId_def)
  show ?thesis
    unfolding wf_nodes_def
  proof (intro conjI ballI allI impI)
    fix a assume "a \<in> set (descending (length es))"
    then have "a < length es" by simp
    from cov[OF this] obtain i where i: "i < n" "a = nodeOf callEntry es i \<or> a = nodeOf returnEntry es i" by blast
    show "0 \<le> ndId (h ! a)" "ndId (h ! a) < int n" using i nf(2)[OF i(1)] by auto
    {
      fix r assume r: "ndMatch (h ! a) = Some r"
      with i nf(4,5)[OF i(1)] have ar: "a = nodeOf callEntry es i" "r = nodeOf returnEntry es i" by auto
      show "\<exists>X Y Z. descending (length es) = X @ a # Y @ r # Z"
        using descending_split nf(1,6)[OF i(1)] ar by blast
      show "ndMatch (h ! r) = None" "ndId (h ! r) = ndId (h ! a)" using ar nf(2,5)[OF i(1)] by auto
    }
    {
      assume "ndMatch (h ! a) = None"
      with i nf(4)[OF i(1)] have "a = nodeOf returnEntry es i" by auto
      with nf(1,4)[OF i(1)] show "\<exists>c \<in> set (descending (length es)). ndMatch (h ! c) = Some a"
        by (intro bexI[of _ "nodeOf callEntry es i"]) simp_all
    }
    fix c assume "c \<in> set (descending (length es))" "isCall h a" "isCall h c" "nodeId h a = nodeId h c"
    with call[of a] call[of c] \<open>a < length es\<close> show "a = c" by simp
  qed (use n in simp_all)
qed

lemma legal_nodes:
  assumes wf: "wf_history es n" and no: "nodes_of es h"
  shows "set ord \<subseteq> {..<n} \<Longrightarrow>
    legalNodes h m s (map (nodeOf callEntry es) ord) = legal m s (map (\<lambda>i. (valOf callEntry i es, valOf returnEntry i es)) ord)"
proof (induction ord arbitrary: s)
  case (Cons i ord)
  then have i: "i < n" by simp
  have "stepOf h m s (nodeOf callEntry es i) = mStep m s (valOf callEntry i es) (valOf returnEntry i es)"
    using nodeOf_fields[OF wf no i] by (simp add: stepOf_def)
  with Cons show ?case by (auto split: sum.splits prod.splits bool.splits)
qed simp

lemma ordered_nodes:
  assumes wf: "wf_history es n" and no: "nodes_of es h" and sub: "set ord \<subseteq> {..<n}"
  shows "ordered h (map (nodeOf callEntry es) ord) \<longleftrightarrow>
    sorted_wrt (\<lambda>x y. \<not> posOf returnEntry y es < posOf callEntry x es) ord"
proof -
  have "nodeOf callEntry es x < retOf h (nodeOf callEntry es y) \<longleftrightarrow> posOf returnEntry y es < posOf callEntry x es"
    if "x \<in> set ord" "y \<in> set ord" for x y
  proof -
    have xy: "x < n" "y < n" using sub that by auto
    have "posOf callEntry x es < length es" "posOf returnEntry y es < length es"
      using posOf_pos(1,2)[OF wf xy(1)] posOf_pos(2)[OF wf xy(2)] by auto
    then show ?thesis using nodeOf_fields(4)[OF wf no xy(2)] by (auto simp: retOf_def nodeOf_def addrOf_def)
  qed
  then show ?thesis by (auto simp: ordered_def sorted_wrt_map intro: sorted_wrt_mono_rel[rotated])
qed

lemma solvable_linearizable:
  assumes wf: "wf_history es n" and no: "nodes_of es h" and n: "n < 2 ^ 64"
  shows "solvable h m (descending (length es)) n \<longleftrightarrow> linearizable_entries m es n"
proof -
  note nf = nodeOf_fields[OF wf no]
  have calls: "{a. a < length es \<and> isCall h a} = nodeOf callEntry es ` {..<n}"
  proof (intro subset_antisym subsetI)
    fix a assume "a \<in> {a. a < length es \<and> isCall h a}"
    then have a: "a < length es" "isCall h a" by auto
    obtain i k where "i < n" "a = nodeOf k es i" using nodeOf_cover[OF wf no a(1)] by blast
    with a(2) nf(5) show "a \<in> nodeOf callEntry es ` {..<n}" by (cases k) (auto simp: isCall_def)
  qed (use nf(1,4) in \<open>auto simp: isCall_def\<close>)
  have inj: "inj_on (nodeOf callEntry es) {..<n}"
    by (rule inj_onI) (metis nf(2) lessThan_iff of_nat_eq_iff)
  have "(\<exists>as. distinct as \<and> set as = nodeOf callEntry es ` {..<n} \<and> ordered h as \<and> legalNodes h m (mInit m) as) \<longleftrightarrow>
      linearizable_entries m es n" (is "?L \<longleftrightarrow> ?R")
  proof
    assume ?L
    then obtain as where as: "distinct as" "set as = nodeOf callEntry es ` {..<n}" "ordered h as" "legalNodes h m (mInit m) as" by blast
    define ord where "ord = map (nodeId h) as"
    have bk: "nodeId h (nodeOf callEntry es i) = i" if "i < n" for i using nf(2)[OF that] by (simp add: nodeId_def)
    have as_eq: "as = map (nodeOf callEntry es) ord"
      unfolding ord_def map_map by (rule map_idI[symmetric]) (use as(2) bk in auto)
    have set: "set ord = {..<n}" unfolding ord_def using as(2) bk by (force simp: image_iff)
    have "distinct ord" using as(1) unfolding as_eq by (simp add: distinct_map)
    then show ?R
      unfolding linearizable_entries_def
      using set as(3,4) legal_nodes[OF wf no, of ord m "mInit m"] ordered_nodes[OF wf no, of ord] unfolding as_eq by auto
  next
    assume ?R
    then obtain ord where od: "distinct ord" "set ord = {..<n}"
        "sorted_wrt (\<lambda>x y. \<not> posOf returnEntry y es < posOf callEntry x es) ord"
        "legal m (mInit m) (map (\<lambda>i. (valOf callEntry i es, valOf returnEntry i es)) ord)"
      unfolding linearizable_entries_def by blast
    then show ?L
      using inj legal_nodes[OF wf no, of ord m "mInit m"] ordered_nodes[OF wf no, of ord]
      by (intro exI[of _ "map (nodeOf callEntry es) ord"]) (simp add: distinct_map)
  qed
  then show ?thesis by (simp only: solvable_iff[OF nodes_wf[OF wf no n]] calls)
qed

subsection \<open>\<open>checkSingle\<close> decides linearizability\<close>

lemma checkSingle_decides:
  assumes wf: "wf_history es n" and n: "n < 2 ^ 64" and st: "steps_defined m es" and eq: "mEqual m = Some (=)"
  shows "\<exists>b l. checkSingle m es cp (\<lambda>_. False) = Some (Inr (b, l)) \<and> (b \<longleftrightarrow> linearizable_entries m es n)"
proof -
  obtain h root where mk: "makeLinkedEntries es = (h, root)" by (cases "makeLinkedEntries es")
  then obtain match where li: "link_inv (rev es) h root match" using makeLinkedEntries_inv by blast
  let ?L = "length es" and ?H = "descending (length es)"
  let ?nd = "\<lparr>ndValue = None, ndMatch = None, ndId = -1, ndNext = None, ndPrev = None\<rparr>"
  define h0 where "h0 = insertBefore (length h) root (h @ [?nd])"
  have len: "length h = ?L" and dl: "dlist h ?H" using li by (simp_all add: link_inv_def)
  have root: "root = (case ?H of [] \<Rightarrow> None | y # _ \<Rightarrow> Some y)"
    using li by (cases ?L) (auto simp: link_inv_def)
  have nl: "node_length h root 0 = Some ?L" using node_length_dlist[of h "[]" ?H 0] dl unfolding root by simp
  have n2: "?L div 2 = n" using wf_history_length[OF wf] by simp
  have "dlist h0 (length h # ?H)"
    unfolding h0_def using insertBefore_dlist[OF dl root, of ?nd] li by (cases ?L) (auto simp: link_inv_def)
  then have dl0: "dlist h0 (?L # ?H)" by (simp add: len)
  have same: "same_nodes (h @ [?nd]) h0" unfolding h0_def by (rule insertBefore_same)
  have "addrOf es p < length h" if "p < length es" for p using that len by (simp add: addrOf_def)
  then have no: "nodes_of es h0"
    using link_nodes[OF wf li] same unfolding nodes_of_def same_nodes_def by (simp add: nth_append)
  note wfn = nodes_wf[OF wf no n]
  have "steps_total h0 ?H m"
    unfolding steps_total_def
  proof (intro ballI impI allI)
    fix a s assume "a \<in> set ?H" "isCall h0 a"
    then have a: "a < ?L" "isCall h0 a" by simp_all
    obtain i k where i: "i < n" "a = nodeOf k es i" using nodeOf_cover[OF wf no a(1)] by blast
    then have k: "k = callEntry" using a(2) nodeOf_fields(5)[OF wf no i(1)] by (cases k) (auto simp: isCall_def)
    have "es ! posOf k i es \<in> set es" for k using posOf_pos(1,2)[OF wf i(1)] by (cases k) auto
    then have "\<exists>x. mStep m s (valOf callEntry i es) (valOf returnEntry i es) = Inr x"
      using st posOf_pos(3,4)[OF wf i(1)] unfolding steps_defined_def valOf_def by simp
    then show "\<exists>x. stepOf h0 m s a = Inr x" using nodeOf_fields[OF wf no i(1)] i(2) k by (simp add: stepOf_def)
  qed
  then have su: "search_setup h0 m ?H n ?L" using wfn dl0 eq by (simp add: search_setup_def)
  have "remaining h0 ?H (newBitset (word_of_nat n)) = ?H" by (simp add: remaining_def)
  then have "search_inv h0 m ?H n [] ?H {} (searchInit m h root n)"
    using trail.start[of h0 m ?H n "{}"] by (simp add: search_inv_def searchInit_def h0_def root finished_def)
  from searchLoop_correct[OF su this, of cp 0] obtain b se where
    "searchLoop m cp ?L (\<lambda>_. False) 0 (searchInit m h root n) = Some (Inr (b, se))" "b \<longleftrightarrow> solvable h0 m ?H n" by blast
  then show ?thesis
    using solvable_linearizable[OF wf no n, of m] by (cases b) (auto simp: checkSingle_def mk nl n2 len Let_def)
qed

end
