(* ===== verification/SortSpec.thy ===== *)
theory SortSpec
  imports Prelude "HOL-Library.Multiset"
begin

text \<open>
  What the sorting functions of Go's standard library promise. They are not stable, so the
  definitions that sort take the function as an argument, and the theorems hold for every
  function with this property.
\<close>

definition sorts_by :: "('a \<Rightarrow> 'a \<Rightarrow> bool) \<Rightarrow> ('a list \<Rightarrow> 'a list) \<Rightarrow> bool" where
  "sorts_by lt srt \<longleftrightarrow> (\<forall>xs. mset (srt xs) = mset xs \<and> sorted_wrt (\<lambda>a b. \<not> lt b a) (srt xs))"

lemma sorts_by_set: "sorts_by lt srt \<Longrightarrow> set (srt xs) = set xs"
  by (metis mset_eq_setD sorts_by_def)

end
