(* ===== verification/Operations.thy ===== *)
theory Operations
  imports History SortSpec
begin

text \<open>
  Histories of operations with call and return times: \<open>makeEntries\<close> orders the entries so that
  one operation's return stands before another's call just if it returned strictly before the
  call. \<open>CheckOperations\<close>, for a model and its partition function, then answers whether every
  partition is linearizable.
\<close>

subsection \<open>Histories of operations\<close>

definition linearizable :: "('s, 'v) Model \<Rightarrow> 'v Operation list \<Rightarrow> bool" where
  "linearizable m hist \<longleftrightarrow> (\<exists>ord. distinct ord \<and> set ord = {..<length hist} \<and>
     sorted_wrt (\<lambda>x y. \<not> opReturn (hist ! y) < opCall (hist ! x)) ord \<and>
     legal m (mInit m) (map (\<lambda>i. (opInput (hist ! i), opOutput (hist ! i))) ord))"

definition callOf :: "int \<Rightarrow> 'v Operation \<Rightarrow> 'v entry" where
  "callOf i op = \<lparr>enKind = callEntry, enValue = opInput op, enId = i, enTime = opCall op, enClientId = opClientId op\<rparr>"

definition returnOf :: "int \<Rightarrow> 'v Operation \<Rightarrow> 'v entry" where
  "returnOf i op = \<lparr>enKind = returnEntry, enValue = opOutput op, enId = i, enTime = opReturn op, enClientId = opClientId op\<rparr>"

lemma callOf_fields [simp]: "enKind (callOf i op) = callEntry" "enId (callOf i op) = i" "enTime (callOf i op) = opCall op"
    "enValue (callOf i op) = opInput op"
  and returnOf_fields [simp]: "enKind (returnOf i op) = returnEntry" "enId (returnOf i op) = i" "enTime (returnOf i op) = opReturn op"
    "enValue (returnOf i op) = opOutput op"
  by (simp_all add: callOf_def returnOf_def)

lemma entriesFrom_mem:
  "e \<in> set (entriesFrom n hist) \<longleftrightarrow>
     (\<exists>i < length hist. e = callOf (n + int i) (hist ! i) \<or> e = returnOf (n + int i) (hist ! i))"
proof (induction hist arbitrary: n)
  case (Cons op hist)
  show ?case
    by (simp add: Cons.IH Ex_less_Suc2 callOf_def[symmetric] returnOf_def[symmetric] add.assoc flip: of_nat_Suc disj_assoc)
qed simp

lemma entriesFrom_distinct: "distinct (map (\<lambda>e. (enKind e, enId e)) (entriesFrom n hist))"
proof (induction hist arbitrary: n)
  case (Cons op hist)
  have "enId e \<noteq> n" if "e \<in> set (entriesFrom (n + 1) hist)" for e
  proof -
    obtain i where "e = callOf (n + 1 + int i) (hist ! i) \<or> e = returnOf (n + 1 + int i) (hist ! i)"
      using \<open>e \<in> set (entriesFrom (n + 1) hist)\<close> unfolding entriesFrom_mem by blast
    then have "enId e = n + 1 + int i" by auto
    then show ?thesis by simp
  qed
  then have "(k, n) \<notin> (\<lambda>e. (enKind e, enId e)) ` set (entriesFrom (n + 1) hist)" for k by auto
  with Cons show ?case by simp
qed simp

lemma makeEntries_history:
  assumes srt: "sorts_by byTime_Less srt" and ok: "\<And>op. op \<in> set hist \<Longrightarrow> opCall op \<le> opReturn op"
  shows "wf_history (makeEntries srt hist) (length hist)"
proof -
  let ?es = "makeEntries srt hist"
  have ms: "mset ?es = mset (entriesFrom 0 hist)" and so: "sorted_wrt (\<lambda>a b. \<not> byTime_Less b a) ?es"
    using srt by (simp_all add: sorts_by_def makeEntries_def)
  have mem: "set ?es = set (entriesFrom 0 hist)" using mset_eq_setD[OF ms] .
  have "mset (map (\<lambda>e. (enKind e, enId e)) ?es) = mset (map (\<lambda>e. (enKind e, enId e)) (entriesFrom 0 hist))" using ms by simp
  then have d: "distinct (map (\<lambda>e. (enKind e, enId e)) ?es)" using mset_eq_imp_distinct_iff entriesFrom_distinct by blast
  have "\<exists>j k. j < k \<and> k < length ?es \<and> enKind (?es ! j) = callEntry \<and> enId (?es ! j) = int i \<and>
      enKind (?es ! k) = returnEntry \<and> enId (?es ! k) = int i" if i: "i < length hist" for i
  proof -
    have "callOf (int i) (hist ! i) \<in> set ?es" "returnOf (int i) (hist ! i) \<in> set ?es" using i by (auto simp: mem entriesFrom_mem)
    then obtain j k where jk: "j < length ?es" "?es ! j = callOf (int i) (hist ! i)" "k < length ?es" "?es ! k = returnOf (int i) (hist ! i)"
      by (metis in_set_conv_nth)
    have "\<not> k < j"
    proof
      assume "k < j"
      then have "\<not> byTime_Less (?es ! j) (?es ! k)" using so jk(1) by (simp add: sorted_wrt_iff_nth_less)
      then show False using jk ok[of "hist ! i"] i by (auto simp: byTime_Less_def split: if_splits)
    qed
    moreover have "j \<noteq> k" using jk by (metis callOf_fields(1) returnOf_fields(1) entryKind.distinct(1))
    ultimately show ?thesis using jk by (intro exI[of _ j] exI[of _ k]) simp
  qed
  with d show ?thesis by (auto simp: wf_history_def mem entriesFrom_mem)
qed

lemma makeEntries_ops:
  assumes srt: "sorts_by byTime_Less srt" and ok: "\<And>op. op \<in> set hist \<Longrightarrow> opCall op \<le> opReturn op" and i: "i < length hist"
  shows "makeEntries srt hist ! posOf callEntry i (makeEntries srt hist) = callOf (int i) (hist ! i)"
    "makeEntries srt hist ! posOf returnEntry i (makeEntries srt hist) = returnOf (int i) (hist ! i)"
proof -
  note wf = makeEntries_history[OF srt ok]
  have mem: "set (makeEntries srt hist) = set (entriesFrom 0 hist)"
    using sorts_by_set[OF srt] by (simp add: makeEntries_def)
  have "callOf (int i) (hist ! i) \<in> set (makeEntries srt hist)" "returnOf (int i) (hist ! i) \<in> set (makeEntries srt hist)"
    using i by (auto simp: mem entriesFrom_mem)
  then obtain j k where "j < length (makeEntries srt hist)" "makeEntries srt hist ! j = callOf (int i) (hist ! i)"
      "k < length (makeEntries srt hist)" "makeEntries srt hist ! k = returnOf (int i) (hist ! i)"
    by (metis in_set_conv_nth)
  then show "makeEntries srt hist ! posOf callEntry i (makeEntries srt hist) = callOf (int i) (hist ! i)"
    "makeEntries srt hist ! posOf returnEntry i (makeEntries srt hist) = returnOf (int i) (hist ! i)"
    using posOf_eq[OF wf] by simp_all
qed

lemma makeEntries_order:
  assumes srt: "sorts_by byTime_Less srt" and ok: "\<And>op. op \<in> set hist \<Longrightarrow> opCall op \<le> opReturn op"
    and xy: "x < length hist" "y < length hist"
  shows "posOf returnEntry y (makeEntries srt hist) < posOf callEntry x (makeEntries srt hist) \<longleftrightarrow>
    opReturn (hist ! y) < opCall (hist ! x)"
proof -
  let ?es = "makeEntries srt hist"
  let ?r = "posOf returnEntry y ?es" and ?c = "posOf callEntry x ?es"
  note wf = makeEntries_history[OF srt ok]
  have so: "sorted_wrt (\<lambda>a b. \<not> byTime_Less b a) ?es" using srt by (simp add: sorts_by_def makeEntries_def)
  have lt: "?r < length ?es" "?c < length ?es" using posOf_pos(1,2)[OF wf xy(1)] posOf_pos(2)[OF wf xy(2)] by auto
  note e = makeEntries_ops[OF srt ok xy(1)] makeEntries_ops[OF srt ok xy(2)]
  have ne: "?r \<noteq> ?c" using e by (metis callOf_fields(1) returnOf_fields(1) entryKind.distinct(1))
  have rc: "\<not> byTime_Less (callOf (int x) (hist ! x)) (returnOf (int y) (hist ! y))" if "?r < ?c"
    using so that lt e by (metis sorted_wrt_nth_less)
  have cr: "\<not> byTime_Less (returnOf (int y) (hist ! y)) (callOf (int x) (hist ! x))" if "?c < ?r"
    using so that lt e by (metis sorted_wrt_nth_less)
  from ne consider "?r < ?c" | "?c < ?r" by linarith
  then show ?thesis
  proof cases
    case 1
    with rc show ?thesis by (auto simp: byTime_Less_def split: if_splits)
  next
    case 2
    with cr show ?thesis by (auto simp: byTime_Less_def split: if_splits)
  qed
qed

lemma linearizable_operations:
  assumes srt: "sorts_by byTime_Less srt" and ok: "\<And>op. op \<in> set hist \<Longrightarrow> opCall op \<le> opReturn op"
  shows "linearizable_entries m (makeEntries srt hist) (length hist) \<longleftrightarrow> linearizable m hist"
proof -
  let ?es = "makeEntries srt hist"
  have v: "map (\<lambda>i. (valOf callEntry i ?es, valOf returnEntry i ?es)) ord = map (\<lambda>i. (opInput (hist ! i), opOutput (hist ! i))) ord"
    if "set ord = {..<length hist}" for ord
    using that makeEntries_ops[OF srt ok] by (auto simp: valOf_def)
  have s: "sorted_wrt (\<lambda>x y. \<not> posOf returnEntry y ?es < posOf callEntry x ?es) ord \<longleftrightarrow>
      sorted_wrt (\<lambda>x y. \<not> opReturn (hist ! y) < opCall (hist ! x)) ord" if "set ord = {..<length hist}" for ord
    using that makeEntries_order[OF srt ok] by (auto intro: sorted_wrt_mono_rel[rotated])
  show ?thesis unfolding linearizable_entries_def linearizable_def
  proof (intro ex_cong1 conj_cong refl)
    fix ord :: "nat list"
    assume "set ord = {..<length hist}"
    note ss = s[OF this] v[OF this]
    show "sorted_wrt (\<lambda>x y. \<not> posOf returnEntry y ?es < posOf callEntry x ?es) ord \<longleftrightarrow>
        sorted_wrt (\<lambda>x y. \<not> opReturn (hist ! y) < opCall (hist ! x)) ord"
      and "legal m (mInit m) (map (\<lambda>i. (valOf callEntry i ?es, valOf returnEntry i ?es)) ord) \<longleftrightarrow>
        legal m (mInit m) (map (\<lambda>i. (opInput (hist ! i), opOutput (hist ! i))) ord)"
      by (simp only: ss)+
  qed
qed

subsection \<open>Partitions checked in parallel\<close>

lemma parLoop_all:
  assumes "\<And>i. i \<in> set ord \<Longrightarrow> i < length runs \<and> (\<exists>l. runs ! i = Some (Inr (good i, l)))"
    "distinct ord" "length ord + cnt = length runs" "ord \<noteq> []"
  shows "parLoop runs False t (map Finished ord @ rest) ok cnt = Some (Inr (ok \<and> (\<forall>i \<in> set ord. good i), False)) \<or>
    parLoop runs False t (map Finished ord @ rest) ok cnt = Some (Inr (False, False)) \<and> \<not> (ok \<and> (\<forall>i \<in> set ord. good i))"
  using assms
proof (induction ord arbitrary: ok cnt)
  case (Cons i ord)
  obtain l where l: "runs ! i = Some (Inr (good i, l))" using Cons.prems(1)[of i] by auto
  show ?case
  proof (cases ord)
    case Nil
    with l Cons.prems(3) show ?thesis by (auto simp: Let_def)
  next
    case (Cons j ord')
    have "parLoop runs False t (map Finished ord @ rest) (ok \<and> good i) (Suc cnt) = Some (Inr ((ok \<and> good i) \<and> (\<forall>i \<in> set ord. good i), False)) \<or>
      parLoop runs False t (map Finished ord @ rest) (ok \<and> good i) (Suc cnt) = Some (Inr (False, False)) \<and> \<not> ((ok \<and> good i) \<and> (\<forall>i \<in> set ord. good i))"
      by (rule Cons.IH) (use Cons.prems Cons in auto)
    moreover have "\<not> length runs \<le> cnt + 1" using Cons.prems(3) Cons by simp
    ultimately show ?thesis using l by (auto simp: Let_def)
  qed
qed simp

lemma parLoop_results:
  assumes "\<And>i. i < length runs \<Longrightarrow> \<exists>l. runs ! i = Some (Inr (good i, l))"
    "distinct ord" "set ord = {..<length runs}" "runs \<noteq> []"
  shows "parLoop runs False t (map Finished ord @ rest) True 0 = Some (Inr (\<forall>i < length runs. good i, False))"
proof -
  have "length ord = length runs" using distinct_card[OF assms(2)] assms(3) by simp
  then have "ord \<noteq> []" using assms(4) by auto
  with parLoop_all[of ord runs good 0 t rest True] assms \<open>length ord = length runs\<close> show ?thesis by auto
qed

lemma legal_cong: "mStep m = mStep m' \<Longrightarrow> legal m s ops = legal m' s ops"
proof (induction ops arbitrary: s)
  case (Cons op ops)
  then show ?case by (cases op) (auto split: sum.splits prod.splits bool.splits)
qed simp

lemma linearizable_cong: "mStep m = mStep m' \<Longrightarrow> mInit m = mInit m' \<Longrightarrow> linearizable m h = linearizable m' h"
  by (simp add: linearizable_def legal_cong[of m m'])

lemma fillDefault_fields:
  "mStep (fillDefault m) = mStep m" "mInit (fillDefault m) = mInit m"
  "mPartition (fillDefault m) = Some (case mPartition m of None \<Rightarrow> NoPartition | Some f \<Rightarrow> f)"
  "mEqual (fillDefault m) = Some (case mEqual m of None \<Rightarrow> (=) | Some eq \<Rightarrow> eq)"
  by (auto simp: fillDefault_def Let_def ShallowEqual_def fun_eq_iff split: option.splits)

text \<open>What a model must satisfy on a history for the checker to answer.\<close>

definition checkable :: "('s, 'v) Model \<Rightarrow> 'v Operation list \<Rightarrow> bool" where
  "checkable m hist \<longleftrightarrow> length hist < 2 ^ 64 \<and>
     (\<forall>op \<in> set hist. opCall op \<le> opReturn op \<and> (\<forall>s. \<exists>x. mStep m s (opInput op) (opOutput op) = Inr x))"

lemma makeEntries_steps:
  assumes srt: "sorts_by byTime_Less srt" and ck: "checkable m hist"
  shows "steps_defined m (makeEntries srt hist)"
  unfolding steps_defined_def
proof (intro ballI impI allI)
  fix c r s
  assume "c \<in> set (makeEntries srt hist)" "r \<in> set (makeEntries srt hist)"
    and k: "enKind c = callEntry" "enKind r = returnEntry" "enId c = enId r"
  moreover have "set (makeEntries srt hist) = set (entriesFrom 0 hist)"
    using sorts_by_set[OF srt] by (simp add: makeEntries_def)
  ultimately obtain i j where "i < length hist" "c = callOf (int i) (hist ! i)" "j < length hist" "r = returnOf (int j) (hist ! j)"
    by (auto simp: entriesFrom_mem)
  with k(3) ck show "\<exists>x. mStep m s (enValue c) (enValue r) = Inr x" by (simp add: checkable_def)
qed

lemma CheckOperations_partitions:
  assumes srt: "sorts_by byTime_Less srt"
    and part: "(case mPartition m of None \<Rightarrow> NoPartition | Some f \<Rightarrow> f) hist = Inr parts" and ne: "parts \<noteq> []"
    and eq: "mEqual m = None \<or> mEqual m = Some (=)"
    and ck: "\<And>p. p \<in> set parts \<Longrightarrow> checkable m p"
    and ord: "distinct ord" "set ord = {..<length parts}"
  shows "CheckOperations srt m hist (map Finished ord @ rest) = Some (Inr (\<forall>p \<in> set parts. linearizable m p))"
proof -
  let ?m = "fillDefault m"
  let ?runs = "map (\<lambda>h. checkSingle ?m h False (\<lambda>_. False)) (map (makeEntries srt) parts)"
  have me: "mEqual ?m = Some (=)" using eq by (auto simp: fillDefault_fields)
  have run: "\<exists>l. ?runs ! i = Some (Inr (linearizable m (parts ! i), l))" if i: "i < length ?runs" for i
  proof -
    have p: "parts ! i \<in> set parts" using i by simp
    have ckp: "checkable m (parts ! i)" using ck[OF p] .
    then have ck': "checkable ?m (parts ! i)" by (simp add: checkable_def fillDefault_fields)
    have ok: "opCall op \<le> opReturn op" if "op \<in> set (parts ! i)" for op using ckp that by (simp add: checkable_def)
    have "\<exists>b l. checkSingle ?m (makeEntries srt (parts ! i)) False (\<lambda>_. False) = Some (Inr (b, l)) \<and>
        (b \<longleftrightarrow> linearizable_entries ?m (makeEntries srt (parts ! i)) (length (parts ! i)))"
      using checkSingle_decides[OF makeEntries_history[OF srt ok] _ makeEntries_steps[OF srt ck'] me] ckp
      by (simp add: checkable_def)
    then show ?thesis
      using i linearizable_operations[OF srt ok, where m = ?m] linearizable_cong[of ?m m "parts ! i"]
      by (auto simp: fillDefault_fields)
  qed
  have "parLoop ?runs False 0 (map Finished ord @ rest) True 0 = Some (Inr (\<forall>i < length ?runs. linearizable m (parts ! i), False))"
    by (rule parLoop_results) (use run ord ne in simp_all)
  moreover have "(\<forall>i < length ?runs. linearizable m (parts ! i)) \<longleftrightarrow> (\<forall>p \<in> set parts. linearizable m p)"
    by (simp add: all_set_conv_all_nth)
  ultimately show ?thesis
    using part by (auto simp: CheckOperations_def checkOperations_def checkParallel_def fillDefault_fields Let_def comp_def)
qed

end
