(* ===== verification/ModelsKv.thy ===== *)
theory ModelsKv
  imports Operations "HOL-Library.Char_ord" "HOL-Library.List_Lexorder"
begin

text \<open>
  \<open>models/kv.go\<close>: the model of a key/value store that the tests hand to the linearizability
  checker, and the result that the checker run with it decides linearizability of the whole store.
  An \<open>interface{}\<close> value is a \<open>KvInput\<close> or a \<open>KvOutput\<close>; a type assertion on the other panics.
  Operation codes are \<open>uint8\<close>, and keys are ordered bytewise, as \<open>sort.Strings\<close> does.
\<close>

record KvInput =
  kiOp :: "8 word"
  kiKey :: string
  kiValue :: string

record KvOutput =
  koValue :: string

datatype KvValue = KvIn KvInput | KvOut KvOutput

fun groupByKey :: "(string, KvValue Operation list) gomap \<Rightarrow> KvValue Operation list \<Rightarrow>
    (string, KvValue Operation list) gomap res" where
  "groupByKey m [] = Inr m"
| "groupByKey m (v # vs) =
     (case opInput v of
        KvIn inp \<Rightarrow> groupByKey (mput (kiKey inp) (mget [] m (kiKey inp) @ [v]) m) vs
      | KvOut _ \<Rightarrow> Inl TypeAssertion)"

definition kv_Partition :: "KvValue Operation list \<Rightarrow> KvValue Operation list list res" where
  "kv_Partition history =
     (case groupByKey [] history of Inl e \<Rightarrow> Inl e
      | Inr m \<Rightarrow> Inr (map (mget [] m) (sort (mkeys m))))"

definition kv_Init :: string where
  "kv_Init = ''''"

definition kv_Step :: "string \<Rightarrow> KvValue \<Rightarrow> KvValue \<Rightarrow> (bool \<times> string) res" where
  "kv_Step st input output =
     (case (input, output) of
        (KvIn inp, KvOut out) \<Rightarrow>
          if kiOp inp = 0 then Inr (koValue out = st, st)
          else if kiOp inp = 1 then Inr (True, kiValue inp)
          else if kiOp inp = 2 then Inr (True, st @ kiValue inp)
          else Inr (koValue out = st, st @ kiValue inp)
      | _ \<Rightarrow> Inl TypeAssertion)"

definition quoted :: "string \<Rightarrow> string" where
  "quoted s = [CHR 0x27] @ s @ [CHR 0x27]"

definition kv_DescribeOperation :: "KvValue \<Rightarrow> KvValue \<Rightarrow> string res" where
  "kv_DescribeOperation input output =
     (case (input, output) of
        (KvIn inp, KvOut out) \<Rightarrow>
          if kiOp inp = 0 then Inr (''get('' @ quoted (kiKey inp) @ '') -> '' @ quoted (koValue out))
          else if kiOp inp = 1 then Inr (''put('' @ quoted (kiKey inp) @ '', '' @ quoted (kiValue inp) @ '')'')
          else if kiOp inp = 2 then Inr (''append('' @ quoted (kiKey inp) @ '', '' @ quoted (kiValue inp) @ '')'')
          else Inr ''<invalid>''
      | _ \<Rightarrow> Inl TypeAssertion)"

definition KvModel :: "(string, KvValue) Model" where
  "KvModel = \<lparr>mPartition = Some kv_Partition, mPartitionEvent = None, mInit = kv_Init, mStep = kv_Step, mEqual = None\<rparr>"

subsection \<open>Partitioning\<close>

text \<open>An operation as the clients record it: the input is a \<open>KvInput\<close>, the output a \<open>KvOutput\<close>.\<close>

definition kv_typed :: "KvValue Operation \<Rightarrow> bool" where
  "kv_typed op \<longleftrightarrow> (\<exists>inp out. opInput op = KvIn inp \<and> opOutput op = KvOut out)"

definition keyOf :: "KvValue Operation \<Rightarrow> string" where
  "keyOf op = (case opInput op of KvIn inp \<Rightarrow> kiKey inp | KvOut _ \<Rightarrow> '''')"

lemma groupByKey_ok:
  assumes "\<And>op. op \<in> set hist \<Longrightarrow> kv_typed op" "wf_map m"
  shows "\<exists>m'. groupByKey m hist = Inr m' \<and> wf_map m' \<and> set (mkeys m') = set (mkeys m) \<union> keyOf ` set hist \<and>
    (\<forall>k. mget [] m' k = mget [] m k @ filter (\<lambda>op. keyOf op = k) hist)"
  using assms
proof (induction hist arbitrary: m)
  case (Cons op hist)
  obtain inp where inp: "opInput op = KvIn inp" using Cons.prems(1)[of op] by (auto simp: kv_typed_def)
  let ?m = "mput (kiKey inp) (mget [] m (kiKey inp) @ [op]) m"
  have "wf_map ?m" using Cons.prems(2) by simp
  from Cons.IH[OF _ this] Cons.prems(1) obtain m' where m': "groupByKey ?m hist = Inr m'" "wf_map m'"
      "set (mkeys m') = set (mkeys ?m) \<union> keyOf ` set hist" "\<forall>k. mget [] m' k = mget [] ?m k @ filter (\<lambda>op. keyOf op = k) hist"
    by auto
  have ks: "set (mkeys ?m) = insert (kiKey inp) (set (mkeys m))"
    using dom_map_of_conv_image_fst[of ?m] dom_map_of_conv_image_fst[of m] by simp
  have key: "keyOf op = kiKey inp" by (simp add: keyOf_def inp)
  show ?case using m' inp ks key by (intro exI[of _ m']) auto
qed simp

lemma kv_Partition_parts:
  assumes "\<And>op. op \<in> set hist \<Longrightarrow> kv_typed op"
  shows "\<exists>ks. kv_Partition hist = Inr (map (\<lambda>k. filter (\<lambda>op. keyOf op = k) hist) ks) \<and> distinct ks \<and> set ks = keyOf ` set hist"
proof -
  obtain m where m: "groupByKey [] hist = Inr m" "wf_map m" "set (mkeys m) = keyOf ` set hist"
      "\<And>k. mget [] m k = filter (\<lambda>op. keyOf op = k) hist"
    using groupByKey_ok[of hist "[]"] assms by auto
  then show ?thesis
    by (intro exI[of _ "sort (mkeys m)"]) (simp add: kv_Partition_def wf_map_def)
qed

subsection \<open>Key by key\<close>

text \<open>The order of two operations is admissible unless the second had returned before the first was called.\<close>

definition admits :: "'v Operation list \<Rightarrow> nat \<Rightarrow> nat \<Rightarrow> bool" where
  "admits hist x y \<longleftrightarrow> \<not> opReturn (hist ! y) < opCall (hist ! x)"

definition opPair :: "'v Operation list \<Rightarrow> nat \<Rightarrow> 'v \<times> 'v" where
  "opPair hist i = (opInput (hist ! i), opOutput (hist ! i))"

lemma linearizable_reindex:
  assumes d: "distinct idx"
  shows "linearizable m (map ((!) hist) idx) \<longleftrightarrow>
    (\<exists>od. distinct od \<and> set od = set idx \<and> sorted_wrt (admits hist) od \<and> legal m (mInit m) (map (opPair hist) od))"
    (is "?L \<longleftrightarrow> ?R")
proof -
  have im: "(!) idx ` {..<length idx} = set idx" by (auto simp: in_set_conv_nth)
  show ?thesis
  proof
    assume ?L
    then obtain ord where o: "distinct ord" "set ord = {..<length idx}"
        "sorted_wrt (\<lambda>x y. \<not> opReturn (map ((!) hist) idx ! y) < opCall (map ((!) hist) idx ! x)) ord"
        "legal m (mInit m) (map (\<lambda>i. (opInput (map ((!) hist) idx ! i), opOutput (map ((!) hist) idx ! i))) ord)"
      by (auto simp: linearizable_def)
    have "distinct (map ((!) idx) ord)" using o(1,2) d by (auto simp: distinct_map inj_on_def nth_eq_iff_index_eq)
    moreover have "set (map ((!) idx) ord) = set idx" by (simp add: o(2) im)
    moreover have "sorted_wrt (admits hist) (map ((!) idx) ord)"
      unfolding sorted_wrt_map by (rule sorted_wrt_mono_rel[OF _ o(3)]) (use o(2) in \<open>auto simp: admits_def\<close>)
    moreover have "map (opPair hist) (map ((!) idx) ord) =
        map (\<lambda>i. (opInput (map ((!) hist) idx ! i), opOutput (map ((!) hist) idx ! i))) ord"
      using o(2) by (auto simp: opPair_def)
    ultimately show ?R using o(4) by metis
  next
    assume ?R
    then obtain od where o: "distinct od" "set od = set idx" "sorted_wrt (admits hist) od" "legal m (mInit m) (map (opPair hist) od)" by blast
    define f where "f = the_inv_into {..<length idx} ((!) idx)"
    have inj: "inj_on ((!) idx) {..<length idx}" using d by (auto simp: inj_on_def nth_eq_iff_index_eq)
    have f: "idx ! f x = x" "f x < length idx" if "x \<in> set idx" for x
      using f_the_inv_into_f[OF inj, of x] the_inv_into_into[OF inj, of x "{..<length idx}"] that by (auto simp: f_def im)
    have "distinct (map f od)"
      unfolding distinct_map using o(1,2) f(1) by (auto intro!: inj_onI) metis
    moreover have "set (map f od) = {..<length idx}"
    proof -
      have "f (idx ! i) = i" if "i < length idx" for i using the_inv_into_f_f[OF inj, of i] that by (simp add: f_def)
      then have "{..<length idx} \<subseteq> f ` set idx" by (force simp: set_conv_nth image_iff)
      with f(2) o(2) show ?thesis by auto
    qed
    moreover have "sorted_wrt (\<lambda>x y. \<not> opReturn (map ((!) hist) idx ! y) < opCall (map ((!) hist) idx ! x)) (map f od)"
      unfolding sorted_wrt_map by (rule sorted_wrt_mono_rel[OF _ o(3)]) (use o(2) f in \<open>auto simp: admits_def\<close>)
    moreover have "map (\<lambda>i. (opInput (map ((!) hist) idx ! i), opOutput (map ((!) hist) idx ! i))) (map f od) = map (opPair hist) od"
      using o(2) f by (auto simp: opPair_def)
    ultimately show ?L unfolding linearizable_def length_map using o(4) by (intro exI[of _ "map f od"]) (simp only: simp_thms)
  qed
qed

lemma filter_indices: "filter P hist = map ((!) hist) (filter (\<lambda>i. P (hist ! i)) [0..<length hist])"
  by (metis (no_types, lifting) filter_cong filter_map map_nth o_apply)

text \<open>The store as a whole: every key has a value, empty at first.\<close>

definition store_accepts :: "(string \<Rightarrow> string) \<Rightarrow> KvInput \<Rightarrow> KvOutput \<Rightarrow> bool" where
  "store_accepts \<sigma> inp out \<longleftrightarrow> kiOp inp = 1 \<or> kiOp inp = 2 \<or> koValue out = \<sigma> (kiKey inp)"

definition store_next :: "(string \<Rightarrow> string) \<Rightarrow> KvInput \<Rightarrow> string \<Rightarrow> string" where
  "store_next \<sigma> inp =
     (if kiOp inp = 0 then \<sigma> else if kiOp inp = 1 then \<sigma>(kiKey inp := kiValue inp)
      else \<sigma>(kiKey inp := \<sigma> (kiKey inp) @ kiValue inp))"

fun store_legal :: "(string \<Rightarrow> string) \<Rightarrow> (KvValue \<times> KvValue) list \<Rightarrow> bool" where
  "store_legal \<sigma> [] = True"
| "store_legal \<sigma> ((KvIn inp, KvOut out) # rest) = (store_accepts \<sigma> inp out \<and> store_legal (store_next \<sigma> inp) rest)"
| "store_legal \<sigma> _ = False"

definition kv_linearizable :: "KvValue Operation list \<Rightarrow> bool" where
  "kv_linearizable hist \<longleftrightarrow> (\<exists>ord. distinct ord \<and> set ord = {..<length hist} \<and> sorted_wrt (admits hist) ord \<and>
     store_legal (\<lambda>_. '''') (map (opPair hist) ord))"

fun pairKey :: "KvValue \<times> KvValue \<Rightarrow> string" where
  "pairKey (KvIn inp, _) = kiKey inp"
| "pairKey (KvOut _, _) = ''''"

lemma all_at: "(\<forall>k. P k) \<longleftrightarrow> P a \<and> (\<forall>k. k \<noteq> a \<longrightarrow> P k)"
  by metis

lemma store_legal_keys:
  assumes "\<And>p. p \<in> set ops \<Longrightarrow> \<exists>inp out. p = (KvIn inp, KvOut out)"
  shows "store_legal \<sigma> ops \<longleftrightarrow> (\<forall>k. legal KvModel (\<sigma> k) (filter (\<lambda>p. pairKey p = k) ops))"
  using assms
proof (induction ops arbitrary: \<sigma>)
  case (Cons p ops)
  obtain inp out where p: "p = (KvIn inp, KvOut out)" using Cons.prems[of p] by auto
  let ?k = "kiKey inp"
  have step: "mStep KvModel (\<sigma> ?k) (KvIn inp) (KvOut out) = Inr (store_accepts \<sigma> inp out, store_next \<sigma> inp ?k)"
    by (auto simp: KvModel_def kv_Step_def store_accepts_def store_next_def)
  have other: "store_next \<sigma> inp k = \<sigma> k" if "k \<noteq> ?k" for k using that by (simp add: store_next_def)
  have "store_legal \<sigma> (p # ops) \<longleftrightarrow> store_accepts \<sigma> inp out \<and> (\<forall>k. legal KvModel (store_next \<sigma> inp k) (filter (\<lambda>p. pairKey p = k) ops))"
    using Cons.IH[of "store_next \<sigma> inp"] Cons.prems by (simp add: p)
  also have "\<dots> \<longleftrightarrow> (\<forall>k. legal KvModel (\<sigma> k) (filter (\<lambda>p. pairKey p = k) (p # ops)))" (is "_ \<longleftrightarrow> (\<forall>k. ?P k)")
  proof -
    have "?P ?k \<longleftrightarrow> store_accepts \<sigma> inp out \<and> legal KvModel (store_next \<sigma> inp ?k) (filter (\<lambda>p. pairKey p = ?k) ops)"
      by (simp add: p step split: bool.splits)
    moreover have "?P k \<longleftrightarrow> legal KvModel (store_next \<sigma> inp k) (filter (\<lambda>p. pairKey p = k) ops)" if "k \<noteq> ?k" for k
      using that by (auto simp: p other)
    ultimately show ?thesis
      by (subst (1 2) all_at[of _ ?k]) (simp only: conj_assoc simp_thms cong: imp_cong)
  qed
  finally show ?case .
qed simp

text \<open>
  Linearizations of the single keys combine: an operation takes effect at the latest call among
  those up to it in the order of its key, a time between its own call and its return.
\<close>

definition effectAt :: "'v Operation list \<Rightarrow> nat list \<Rightarrow> nat \<Rightarrow> int" where
  "effectAt hist od i = Max ((\<lambda>j. opCall (hist ! j)) ` insert i (set (takeWhile (\<lambda>x. x \<noteq> i) od)))"

lemma takeWhile_before: "i \<notin> set xs \<Longrightarrow> takeWhile (\<lambda>x. x \<noteq> i) (xs @ i # ys) = xs"
  by (induction xs) auto

lemma effectAt_between:
  assumes "sorted_wrt (admits hist) od" "i \<in> set od" "opCall (hist ! i) \<le> opReturn (hist ! i)"
  shows "opCall (hist ! i) \<le> effectAt hist od i" "effectAt hist od i \<le> opReturn (hist ! i)"
proof -
  show "opCall (hist ! i) \<le> effectAt hist od i" unfolding effectAt_def by (rule Max_ge) simp_all
  obtain xs ys where od: "od = xs @ i # ys" "i \<notin> set xs" using split_list_first[OF assms(2)] by blast
  then have "takeWhile (\<lambda>x. x \<noteq> i) od = xs" by (simp add: takeWhile_before)
  moreover have "\<not> opReturn (hist ! i) < opCall (hist ! x)" if "x \<in> set xs" for x
    using assms(1) that by (auto simp: od(1) sorted_wrt_append admits_def)
  ultimately show "effectAt hist od i \<le> opReturn (hist ! i)"
    unfolding effectAt_def using assms(3) by (intro Max.boundedI) force+
qed

lemma effectAt_sorted:
  assumes "distinct od"
  shows "sorted (map (effectAt hist od) od)"
proof -
  have tw: "insert (od ! k) (set (takeWhile (\<lambda>x. x \<noteq> od ! k) od)) = set (take (Suc k) od)" if "k < length od" for k
  proof -
    have "od = take k od @ od ! k # drop (Suc k) od" using id_take_nth_drop[OF that] .
    moreover have "od ! k \<notin> set (take k od)" using assms that by (auto simp: in_set_conv_nth nth_eq_iff_index_eq)
    ultimately have "takeWhile (\<lambda>x. x \<noteq> od ! k) od = take k od" by (metis takeWhile_before)
    then show ?thesis by (simp add: take_Suc_conv_app_nth[OF that])
  qed
  show ?thesis
    unfolding sorted_iff_nth_mono_less
  proof (intro allI impI)
    fix i j assume ij: "i < j" "j < length (map (effectAt hist od) od)"
    have "set (take (Suc i) od) \<subseteq> set (take (Suc j) od)" using ij(1) by (intro set_take_subset_set_take) simp
    then have "Max ((\<lambda>j. opCall (hist ! j)) ` set (take (Suc i) od)) \<le> Max ((\<lambda>j. opCall (hist ! j)) ` set (take (Suc j) od))"
      using ij by (intro Max_mono image_mono) auto
    then show "map (effectAt hist od) od ! i \<le> map (effectAt hist od) od ! j"
      using ij tw[of i] tw[of j] by (simp only: effectAt_def nth_map length_map)
  qed
qed

lemma filter_concat_key:
  assumes "\<And>k i. k \<in> set ks \<Longrightarrow> i \<in> set (f k) \<Longrightarrow> key i = k" "distinct ks" "k \<in> set ks"
  shows "filter (\<lambda>i. key i = k) (concat (map f ks)) = f k"
  using assms
proof (induction ks)
  case (Cons k' ks)
  have own: "filter (\<lambda>i. key i = k'') (f k'') = f k''" if "k'' \<in> set (k' # ks)" for k'' using Cons.prems(1) that by (intro filter_True) auto
  have none: "filter (\<lambda>i. key i = k) (f k'') = []" if "k'' \<in> set (k' # ks)" "k'' \<noteq> k" for k''
    using Cons.prems(1) that by (auto simp: filter_empty_conv)
  show ?case
  proof (cases "k = k'")
    case True
    then have "filter (\<lambda>i. key i = k) (concat (map f ks)) = []"
      using Cons.prems(1,2) by (auto simp: filter_empty_conv)
    with True own[of k'] show ?thesis by simp
  next
    case False
    with Cons none[of k'] show ?thesis by simp
  qed
qed simp

lemma concat_distinct_keys:
  assumes "\<And>k i. k \<in> set ks \<Longrightarrow> i \<in> set (f k) \<Longrightarrow> key i = k" "distinct ks" "\<And>k. k \<in> set ks \<Longrightarrow> distinct (f k)"
  shows "distinct (concat (map f ks))"
  using assms
proof (induction ks)
  case (Cons k ks)
  have "i \<notin> set (f k')" if "i \<in> set (f k)" "k' \<in> set ks" for i k'
    using Cons.prems(1)[of k i] Cons.prems(1)[of k' i] Cons.prems(2) that by auto
  then have "set (f k) \<inter> set (concat (map f ks)) = {}" by auto
  with Cons show ?case by simp
qed simp

lemma combine_keys:
  fixes f :: "string \<Rightarrow> nat list"
  assumes ok: "\<And>i. i < length hist \<Longrightarrow> opCall (hist ! i) \<le> opReturn (hist ! i)"
    and ks: "distinct ks" and key: "\<And>i. i < length hist \<Longrightarrow> key i \<in> set ks"
    and f: "\<And>k. k \<in> set ks \<Longrightarrow> distinct (f k)" "\<And>k. k \<in> set ks \<Longrightarrow> set (f k) = {i. i < length hist \<and> key i = k}"
      "\<And>k. k \<in> set ks \<Longrightarrow> sorted_wrt (admits hist) (f k)"
  shows "\<exists>ord. distinct ord \<and> set ord = {..<length hist} \<and> sorted_wrt (admits hist) ord \<and>
    (\<forall>k \<in> set ks. filter (\<lambda>i. key i = k) ord = f k)"
proof -
  define T where "T = (\<lambda>i. effectAt hist (f (key i)) i)"
  define xs where "xs = concat (map f ks)"
  define ord where "ord = sort_key T xs"
  have fk: "key i = k" if "k \<in> set ks" "i \<in> set (f k)" for k i using f(2)[OF that(1)] that(2) by simp
  have bt: "opCall (hist ! i) \<le> T i \<and> T i \<le> opReturn (hist ! i)" if "i < length hist" for i
    using effectAt_between[OF f(3)[OF key[OF that]], of i] f(2)[OF key[OF that]] ok[OF that] that by (simp add: T_def)
  have set: "set ord = {..<length hist}" unfolding ord_def xs_def using f(2) key by auto
  have d: "distinct ord" unfolding ord_def xs_def using concat_distinct_keys[of ks f key] fk ks f(1) by simp
  have "sorted (map T ord)" unfolding ord_def by simp
  then have "sorted_wrt (\<lambda>x y. T x \<le> T y) ord" by (simp add: sorted_wrt_map)
  moreover have "admits hist x y" if "x \<in> set ord" "y \<in> set ord" "T x \<le> T y" for x y
  proof -
    have "opCall (hist ! x) \<le> T x" "T y \<le> opReturn (hist ! y)" using bt[of x] bt[of y] that set by auto
    with that(3) show ?thesis by (simp add: admits_def)
  qed
  ultimately have "sorted_wrt (admits hist) ord" by (rule sorted_wrt_mono_rel[rotated])
  moreover have "filter (\<lambda>i. key i = k) ord = f k" if k: "k \<in> set ks" for k
  proof -
    have "filter (\<lambda>i. key i = k) ord = sort_key T (f k)"
      unfolding ord_def xs_def by (simp add: filter_sort filter_concat_key[of ks f key, OF fk ks k])
    moreover have "map T (f k) = map (effectAt hist (f k)) (f k)" using fk[OF k] by (auto simp: T_def)
    then have "sorted (map T (f k))" by (simp only: effectAt_sorted[OF f(1)[OF k]])
    ultimately show ?thesis by (simp add: sort_key_id_if_sorted)
  qed
  ultimately show ?thesis using set d by blast
qed

lemma pairKey_opPair: "pairKey (opPair hist i) = keyOf (hist ! i)"
  by (auto simp: opPair_def keyOf_def split: KvValue.splits)

lemma kv_locality:
  assumes ty: "\<And>op. op \<in> set hist \<Longrightarrow> kv_typed op" and ok: "\<And>op. op \<in> set hist \<Longrightarrow> opCall op \<le> opReturn op"
  shows "(\<forall>k \<in> keyOf ` set hist. linearizable KvModel (filter (\<lambda>op. keyOf op = k) hist)) \<longleftrightarrow> kv_linearizable hist"
proof -
  let ?key = "\<lambda>i. keyOf (hist ! i)" and ?n = "length hist"
  let ?lin = "\<lambda>k od. distinct od \<and> set od = {i. i < ?n \<and> ?key i = k} \<and> sorted_wrt (admits hist) od \<and>
      legal KvModel '''' (map (opPair hist) od)"
  have sub: "linearizable KvModel (filter (\<lambda>op. keyOf op = k) hist) \<longleftrightarrow> (\<exists>od. ?lin k od)" for k
  proof -
    have "set (filter (\<lambda>i. ?key i = k) [0..<?n]) = {i. i < ?n \<and> ?key i = k}" by auto
    then show ?thesis
      unfolding filter_indices[of _ hist]
      by (subst linearizable_reindex) (simp_all add: KvModel_def kv_Init_def)
  qed
  have pairs: "\<exists>inp out. p = (KvIn inp, KvOut out)" if "set ord = {..<?n}" "p \<in> set (map (opPair hist) ord)" for p ord
    using that ty[OF nth_mem] by (fastforce simp: opPair_def kv_typed_def)
  have leg: "store_legal (\<lambda>_. '''') (map (opPair hist) ord) \<longleftrightarrow>
      (\<forall>k. legal KvModel '''' (map (opPair hist) (filter (\<lambda>i. ?key i = k) ord)))" if "set ord = {..<?n}" for ord
    using store_legal_keys[of "map (opPair hist) ord" "\<lambda>_. ''''", OF pairs[OF that]]
    by (simp add: filter_map o_def pairKey_opPair)
  obtain ks where ks: "distinct ks" "set ks = keyOf ` set hist" using finite_distinct_list[of "keyOf ` set hist"] by auto
  have kin: "?key i \<in> set ks" if "i < ?n" for i using ks(2) that by simp
  show ?thesis
  proof
    assume "\<forall>k \<in> keyOf ` set hist. linearizable KvModel (filter (\<lambda>op. keyOf op = k) hist)"
    then have "\<forall>k \<in> set ks. \<exists>od. ?lin k od" by (simp only: sub ks(2))
    from bchoice[OF this] obtain f where f: "\<And>k. k \<in> set ks \<Longrightarrow> ?lin k (f k)" by blast
    have "\<exists>ord. distinct ord \<and> set ord = {..<?n} \<and> sorted_wrt (admits hist) ord \<and>
        (\<forall>k \<in> set ks. filter (\<lambda>i. ?key i = k) ord = f k)"
      by (rule combine_keys) (use f ks kin ok in auto)
    then obtain ord where o: "distinct ord" "set ord = {..<?n}" "sorted_wrt (admits hist) ord"
        "\<And>k. k \<in> set ks \<Longrightarrow> filter (\<lambda>i. ?key i = k) ord = f k" by blast
    have "legal KvModel '''' (map (opPair hist) (filter (\<lambda>i. ?key i = k) ord))" for k
    proof (cases "k \<in> set ks")
      case True
      then show ?thesis using o(4) f by simp
    next
      case False
      then have "filter (\<lambda>i. ?key i = k) ord = []" using kin o(2) by (auto simp: filter_empty_conv)
      then show ?thesis by simp
    qed
    then show "kv_linearizable hist" unfolding kv_linearizable_def using o(1-3) leg[OF o(2)] by blast
  next
    assume "kv_linearizable hist"
    then obtain ord where o: "distinct ord" "set ord = {..<?n}" "sorted_wrt (admits hist) ord"
        "store_legal (\<lambda>_. '''') (map (opPair hist) ord)" unfolding kv_linearizable_def by blast
    have "?lin k (filter (\<lambda>i. ?key i = k) ord)" for k
      using o leg[OF o(2)] by (auto simp: sorted_wrt_filter)
    then show "\<forall>k \<in> keyOf ` set hist. linearizable KvModel (filter (\<lambda>op. keyOf op = k) hist)" using sub by blast
  qed
qed

text \<open>An order of the finished partitions: each of them once.\<close>

lemma kv_checkable:
  assumes "\<And>op. op \<in> set hist \<Longrightarrow> kv_typed op \<and> opCall op \<le> opReturn op" "length hist < 2 ^ 64"
  shows "checkable KvModel (filter P hist)"
proof -
  have "length (filter P hist) < 2 ^ 64" using assms(2) length_filter_le[of P hist] by (rule le_less_trans[rotated])
  moreover have "\<exists>x. mStep KvModel s (opInput op) (opOutput op) = Inr x" if "op \<in> set hist" for s op
    using assms(1)[OF that] by (auto simp: kv_typed_def KvModel_def kv_Step_def)
  ultimately show ?thesis using assms(1) by (simp add: checkable_def)
qed

text \<open>
  C29: \<open>CheckOperations\<close> with \<open>KvModel\<close>, on a non-empty history in which every operation
  returns no earlier than it is called, ends and answers exactly whether the history is
  linearizable with respect to the key/value store as a whole, whatever order \<open>sort.Sort\<close> gives
  to equal entries and in whatever order the partitions finish. This includes what the comment on
  \<open>Partition\<close> asks for: the history is linearizable if and only if each key's part is.
\<close>

theorem CheckOperations_kv:
  assumes srt: "sorts_by byTime_Less srt"
    and hist: "\<And>op. op \<in> set hist \<Longrightarrow> kv_typed op \<and> opCall op \<le> opReturn op" "hist \<noteq> []" "length hist < 2 ^ 64"
    and ord: "distinct ord" "set ord = {..<card (keyOf ` set hist)}"
  shows "CheckOperations srt KvModel hist (map Finished ord @ rest) = Some (Inr (kv_linearizable hist))"
proof -
  obtain ks where ks: "kv_Partition hist = Inr (map (\<lambda>k. filter (\<lambda>op. keyOf op = k) hist) ks)" "distinct ks" "set ks = keyOf ` set hist"
    using kv_Partition_parts[of hist] hist(1) by blast
  have len: "length ks = card (keyOf ` set hist)" using distinct_card[OF ks(2)] ks(3) by simp
  have "CheckOperations srt KvModel hist (map Finished ord @ rest) =
      Some (Inr (\<forall>p \<in> set (map (\<lambda>k. filter (\<lambda>op. keyOf op = k) hist) ks). linearizable KvModel p))"
  proof (rule CheckOperations_partitions[OF srt])
    show "(case mPartition KvModel of None \<Rightarrow> NoPartition | Some f \<Rightarrow> f) hist = Inr (map (\<lambda>k. filter (\<lambda>op. keyOf op = k) hist) ks)"
      by (simp add: KvModel_def ks(1))
    show "map (\<lambda>k. filter (\<lambda>op. keyOf op = k) hist) ks \<noteq> []" using ks(3) hist(2) by auto
    show "mEqual KvModel = None \<or> mEqual KvModel = Some (=)" by (simp add: KvModel_def)
    show "checkable KvModel p" if "p \<in> set (map (\<lambda>k. filter (\<lambda>op. keyOf op = k) hist) ks)" for p
      using that kv_checkable[OF hist(1,3)] by auto
  qed (use ord len in simp_all)
  also have "(\<forall>p \<in> set (map (\<lambda>k. filter (\<lambda>op. keyOf op = k) hist) ks). linearizable KvModel p) \<longleftrightarrow> kv_linearizable hist"
    using kv_locality[of hist] hist(1) ks(3) by simp
  finally show ?thesis .
qed

subsection \<open>A small history\<close>

definition byTime_sort :: "'v entry list \<Rightarrow> 'v entry list" where
  "byTime_sort = sort_key (\<lambda>e. 2 * enTime e + (if enKind e = returnEntry then 1 else 0))"

lemma byTime_sort_sorts: "sorts_by byTime_Less byTime_sort"
  unfolding sorts_by_def
proof (intro allI conjI)
  fix xs :: "'a entry list"
  let ?f = "\<lambda>e :: 'a entry. 2 * enTime e + (if enKind e = returnEntry then 1 else 0)"
  show "mset (byTime_sort xs) = mset xs" by (simp add: byTime_sort_def)
  have "sorted_wrt (\<lambda>a b. ?f a \<le> ?f b) (byTime_sort xs)"
    using sorted_sort_key[of ?f xs] by (simp add: byTime_sort_def sorted_wrt_map)
  then show "sorted_wrt (\<lambda>a b. \<not> byTime_Less b a) (byTime_sort xs)"
  proof (rule sorted_wrt_mono_rel[rotated])
    fix a b :: "'a entry"
    assume "?f a \<le> ?f b"
    then show "\<not> byTime_Less b a" by (auto simp: byTime_Less_def split: if_splits)
  qed
qed

definition kv_op :: "int \<Rightarrow> 8 word \<Rightarrow> string \<Rightarrow> string \<Rightarrow> string \<Rightarrow> int \<Rightarrow> int \<Rightarrow> KvValue Operation" where
  "kv_op client op key value out call ret =
     \<lparr>opClientId = client, opInput = KvIn \<lparr>kiOp = op, kiKey = key, kiValue = value\<rparr>, opCall = call,
      opOutput = KvOut \<lparr>koValue = out\<rparr>, opReturn = ret\<rparr>"

definition demo_kv_history :: "KvValue Operation list" where
  "demo_kv_history = [kv_op 0 1 ''x'' ''a'' '''' 0 10, kv_op 1 0 ''x'' '''' ''a'' 5 12, kv_op 2 2 ''y'' ''b'' '''' 1 2]"

lemma demo_kv_ok: "op \<in> set demo_kv_history \<Longrightarrow> kv_typed op \<and> opCall op \<le> opReturn op"
  by (auto simp: demo_kv_history_def kv_op_def kv_typed_def)

lemma demo_kv_linearizable: "kv_linearizable demo_kv_history"
  unfolding kv_linearizable_def
  by (intro exI[of _ "[0, 2, 1]"])
    (auto simp: demo_kv_history_def kv_op_def admits_def opPair_def store_accepts_def store_next_def numeral_2_eq_2)

theorem CheckOperations_kv_witness:
  "CheckOperations byTime_sort KvModel demo_kv_history [Finished 1, Finished 0] = Some (Inr True)"
proof -
  have "card (keyOf ` set demo_kv_history) = 2" by (simp add: demo_kv_history_def kv_op_def keyOf_def)
  then have ord: "set [1, 0] = {..<card (keyOf ` set demo_kv_history)}" by auto
  have "length demo_kv_history < 2 ^ 64" "demo_kv_history \<noteq> []" by (simp_all add: demo_kv_history_def)
  with CheckOperations_kv[OF byTime_sort_sorts demo_kv_ok _ _ _ ord, of "[]"] demo_kv_linearizable show ?thesis by simp
qed

text \<open>
  C30: The search of \<open>checkSingle\<close>, with the linked list it takes calls out of and puts them back
  into and its cache of visited configurations, ends on every well-formed history, without a panic,
  and returns \<open>true\<close> exactly if the operations can be ordered so that the model accepts them and
  no operation comes before one that had returned when it was called.
\<close>

theorem checkSingle_linearizable:
  assumes "wf_history es n" "n < 2 ^ 64" "steps_defined m es" "mEqual m = Some (=)"
  shows "\<exists>b l. checkSingle m es computePartial (\<lambda>_. False) = Some (Inr (b, l)) \<and> (b \<longleftrightarrow> linearizable_entries m es n)"
  by (rule checkSingle_decides[OF assms])

theorem checkSingle_linearizable_witness:
  "\<exists>l. checkSingle (fillDefault KvModel) (makeEntries byTime_sort [kv_op 0 1 ''x'' ''a'' '''' 0 10, kv_op 1 0 ''x'' '''' ''a'' 5 12])
      True (\<lambda>_. False) = Some (Inr (True, l))"
proof -
  let ?h = "[kv_op 0 1 ''x'' ''a'' '''' 0 10, kv_op 1 0 ''x'' '''' ''a'' 5 12]"
  have ok: "opCall op \<le> opReturn op" if "op \<in> set ?h" for op using that by (auto simp: kv_op_def)
  have ck: "checkable (fillDefault KvModel) ?h"
    by (auto simp: checkable_def kv_op_def fillDefault_fields KvModel_def kv_Step_def)
  have "linearizable (fillDefault KvModel) ?h"
    unfolding linearizable_def
    by (intro exI[of _ "[0, 1]"]) (auto simp: kv_op_def fillDefault_fields KvModel_def kv_Step_def kv_Init_def)
  then have "linearizable_entries (fillDefault KvModel) (makeEntries byTime_sort ?h) (length ?h)"
    using linearizable_operations[OF byTime_sort_sorts ok] by blast
  moreover have "mEqual (fillDefault KvModel) = Some (=)" by (simp add: fillDefault_fields KvModel_def)
  ultimately show ?thesis
    using checkSingle_linearizable[OF makeEntries_history[OF byTime_sort_sorts ok] _ makeEntries_steps[OF byTime_sort_sorts ck], of True]
    by auto
qed

text \<open>With no operation at all there is no partition, no result is ever sent, and the checker waits for ever.\<close>

lemma CheckOperations_empty: "CheckOperations srt KvModel [] (replicate k TimerFired) = None"
proof -
  have "parLoop [] False 0 (replicate k TimerFired) ok 0 = None" for ok by (induction k) simp_all
  then show ?thesis
    by (simp add: CheckOperations_def checkOperations_def checkParallel_def fillDefault_def KvModel_def kv_Partition_def)
qed

end
