(* ===== verification/Coordinator.thy ===== *)
theory Coordinator
  imports Prelude
begin

text \<open>
  \<open>mr/coordinator.go\<close>, \<open>mr/task.go\<close> and \<open>mr/rpc.go\<close>: the MapReduce coordinator. Buffered channels
  are lists (or counters, when their values carry nothing) with a capacity. A pointer to a task is
  its index in \<open>c.tasks\<close>, the slice every such pointer points into. The goroutine
  \<open>mapTaskBegin\<close> / \<open>reduceTaskBegin\<close> that feeds \<open>tasksCh\<close> is the field \<open>coFeeder\<close>: the index of
  the task it sends next. \<open>coRunning\<close> holds until the loop of \<open>run\<close> returns; after that nobody receives what
  \<open>AskTask\<close> and \<open>FinishTask\<close> send, and these calls block. Times are nanoseconds.

  A handler of the main loop runs with the mutex held and is one step. Its result is \<open>None\<close> if it
  blocks for ever on a full channel. A sweep of \<open>catchTimeout\<close> holds the mutex too and is one step; the feeding goroutine
  may send between two of its sends, which only changes the order of the queue. A sweep that blocks keeps the mutex for
  ever and has no next state, so the states below are those before such a sweep.
\<close>

subsection \<open>Tasks and messages\<close>

abbreviation WAIT :: int where "WAIT \<equiv> 0"
abbreviation MAP :: int where "MAP \<equiv> 1"
abbreviation SHUFFLE :: int where "SHUFFLE \<equiv> 2"
abbreviation REDUCE :: int where "REDUCE \<equiv> 3"
abbreviation DONE :: int where "DONE \<equiv> 4"

abbreviation Idle :: int where "Idle \<equiv> 0"
abbreviation Inprogress :: int where "Inprogress \<equiv> 1"
abbreviation Completed :: int where "Completed \<equiv> 2"

record TaskMeta =
  tmTaskId :: int
  tmFilename :: string
  tmState :: int
  tmStartWorkTime :: int

record Task =
  tkStatus :: int
  tkMetadata :: TaskMeta

record AskTaskReply =
  arTask :: Task
  arWorkerId :: int
  arNReduce :: int
  arMMap :: int
  arTaskBeginTime :: int

record FinishTaskArgs =
  faWorkerId :: int
  faTaskId :: int
  faTaskBeginTime :: int

definition zero_meta :: TaskMeta where
  "zero_meta = \<lparr>tmTaskId = 0, tmFilename = '''', tmState = 0, tmStartWorkTime = 0\<rparr>"

definition zero_ask :: AskTaskReply where
  "zero_ask = \<lparr>arTask = \<lparr>tkStatus = 0, tkMetadata = zero_meta\<rparr>, arWorkerId = 0, arNReduce = 0, arMMap = 0, arTaskBeginTime = 0\<rparr>"

record Coordinator =
  coInputFiles :: "string list"
  coState :: int
  coMMap :: int
  coNReduce :: int
  coTasks :: "Task list"
  coTasksCh :: "nat list"
  coTasksCap :: nat
  coSendClosed :: nat
  coWorkerTask :: "(int, nat) gomap"
  coWorkerIdCh :: "int list"
  coWorkerIdCap :: nat
  coMap2ReduceCh :: nat
  coDoneCh :: nat
  coFeeder :: "nat option"
  coRunning :: bool

definition mr_abs :: "int \<Rightarrow> int" where
  "mr_abs x = (if x < 0 then (- x) - 1 else x)"

definition mr_max :: "int \<Rightarrow> int \<Rightarrow> int" where
  "mr_max a b = (if a > b then a else b)"

definition mr_Done :: "Coordinator \<Rightarrow> bool" where
  "mr_Done c \<longleftrightarrow> coState c = DONE"

subsection \<open>Start-up and the feeding goroutine\<close>

definition createMapTask :: "Coordinator \<Rightarrow> Coordinator" where
  "createMapTask c =
     c\<lparr>coTasks := coTasks c @ map (\<lambda>(i, filename). \<lparr>tkStatus = Idle,
          tkMetadata = zero_meta\<lparr>tmTaskId := int i, tmFilename := filename, tmState := MAP\<rparr>\<rparr>)
          (zip [0..<length (coInputFiles c)] (coInputFiles c)),
       coFeeder := Some 0\<rparr>"

definition createReduceTask :: "Coordinator \<Rightarrow> Coordinator" where
  "createReduceTask c =
     c\<lparr>coTasks := map (\<lambda>i. \<lparr>tkStatus = Idle,
          tkMetadata = zero_meta\<lparr>tmTaskId := (- int i) - 1, tmFilename := '''', tmState := REDUCE\<rparr>\<rparr>) [0..<nat (coNReduce c)],
       coFeeder := Some 0\<rparr>"

text \<open>One step of \<open>mapTaskBegin\<close> or \<open>reduceTaskBegin\<close>; \<open>None\<close> while its channel is full.\<close>

definition taskBegin :: "Coordinator \<Rightarrow> Coordinator option" where
  "taskBegin c =
     (case coFeeder c of None \<Rightarrow> None
      | Some i \<Rightarrow>
          if i < length (coTasks c) then
            (if length (coTasksCh c) < coTasksCap c
             then Some (c\<lparr>coTasksCh := coTasksCh c @ [i], coFeeder := Some (i + 1)\<rparr>) else None)
          else
            (if coSendClosed c < 1 then Some (c\<lparr>coSendClosed := coSendClosed c + 1, coFeeder := None\<rparr>) else None))"

text \<open>\<open>MakeCoordinator\<close> up to the loop of \<open>run\<close>.\<close>

definition MakeCoordinator :: "string list \<Rightarrow> int \<Rightarrow> Coordinator" where
  "MakeCoordinator files nReduce =
     (let mMap = length files;
          c = \<lparr>coInputFiles = files, coState = WAIT, coMMap = int mMap, coNReduce = nReduce, coTasks = [],
               coTasksCh = [], coTasksCap = nat (mr_max (go_quot (int mMap) 4) 2), coSendClosed = 0,
               coWorkerTask = [], coWorkerIdCh = map int [0..<mMap], coWorkerIdCap = mMap,
               coMap2ReduceCh = 0, coDoneCh = 0, coFeeder = None, coRunning = True\<rparr>
      in (createMapTask c)\<lparr>coState := MAP\<rparr>)"

subsection \<open>Handlers\<close>

definition assignTask :: "int \<Rightarrow> nat \<Rightarrow> Coordinator \<Rightarrow> Coordinator" where
  "assignTask now t c =
     c\<lparr>coTasks := (coTasks c)[t := (coTasks c ! t)\<lparr>tkStatus := Inprogress,
          tkMetadata := (tkMetadata (coTasks c ! t))\<lparr>tmStartWorkTime := now, tmState := coState c\<rparr>\<rparr>]\<rparr>"

definition doAskTask :: "int \<Rightarrow> AskTaskReply \<Rightarrow> Coordinator \<Rightarrow> Coordinator \<times> AskTaskReply" where
  "doAskTask now reply c =
     (if \<not> (coState c = MAP \<or> coState c = REDUCE) \<or> coTasksCh c = [] then (c, reply)
      else
        let t = hd (coTasksCh c);
            c1 = assignTask now t (c\<lparr>coTasksCh := tl (coTasksCh c)\<rparr>) in
        if coWorkerIdCh c1 = [] then (c1, reply)
        else
          let w = hd (coWorkerIdCh c1); task = coTasks c1 ! t in
          (c1\<lparr>coWorkerIdCh := tl (coWorkerIdCh c1), coWorkerTask := mput w t (coWorkerTask c1)\<rparr>,
           reply\<lparr>arWorkerId := w, arNReduce := coNReduce c1, arMMap := coMMap c1,
                 arTaskBeginTime := tmStartWorkTime (tkMetadata task), arTask := task\<rparr>))"

definition AskTask :: "int \<Rightarrow> Coordinator \<Rightarrow> Coordinator \<times> AskTaskReply" where
  "AskTask now c = doAskTask now zero_ask c"

definition second :: int where
  "second = 1000000000"

definition truncateSecond :: "int \<Rightarrow> int" where
  "truncateSecond t = t - t mod second"

text \<open>The switch to the next phase at the end of \<open>doFinishTask\<close>.\<close>

definition nextPhase :: "Coordinator \<Rightarrow> Coordinator res option" where
  "nextPhase c =
     (let c1 = c\<lparr>coSendClosed := coSendClosed c - 1, coState := coState c + 1\<rparr> in
      if coState c1 = SHUFFLE then
        (if coMap2ReduceCh c1 < 1 then Some (Inr (c1\<lparr>coMap2ReduceCh := coMap2ReduceCh c1 + 1\<rparr>)) else None)
      else if coState c1 = DONE then
        (if coDoneCh c1 < 1 then Some (Inr (c1\<lparr>coDoneCh := coDoneCh c1 + 1\<rparr>)) else None)
      else Some (Inl (Explicit ''doFinishTask():unexcepted state'')))"

definition doFinishTask :: "FinishTaskArgs \<Rightarrow> Coordinator \<Rightarrow> Coordinator res option" where
  "doFinishTask args c =
     (case map_of (coWorkerTask c) (faWorkerId args) of None \<Rightarrow> Some (Inr c)
      | Some t \<Rightarrow>
          let task = coTasks c ! t in
          if tkStatus task = Completed then Some (Inr c)
          else if truncateSecond (faTaskBeginTime args) \<noteq> truncateSecond (tmStartWorkTime (tkMetadata task)) then Some (Inr c)
          else
            let c1 = c\<lparr>coWorkerTask := mdel (faWorkerId args) (coWorkerTask c),
                       coTasks := (coTasks c)[t := task\<lparr>tkStatus := Completed\<rparr>]\<rparr> in
            if length (coWorkerIdCh c1) \<ge> coWorkerIdCap c1 then None
            else
              let c2 = c1\<lparr>coWorkerIdCh := coWorkerIdCh c1 @ [faWorkerId args]\<rparr> in
              if coSendClosed c2 \<noteq> 0 \<and> coTasksCh c2 = [] then
                (if coWorkerTask c2 = [] then nextPhase c2 else Some (Inr c2))
              else Some (Inr c2))"

definition FinishTask :: "FinishTaskArgs \<Rightarrow> Coordinator \<Rightarrow> Coordinator res option" where
  "FinishTask args c = (if coRunning c then doFinishTask args c else None)"

text \<open>One sweep of \<open>catchTimeout\<close>: the loop visits the entries the map had at its start.\<close>

fun timeoutLoop :: "int \<Rightarrow> (int, nat) gomap \<Rightarrow> Coordinator \<Rightarrow> Coordinator res option" where
  "timeoutLoop now [] c = Some (Inr c)"
| "timeoutLoop now ((w, t) # rest) c =
     (if tkStatus (coTasks c ! t) \<noteq> Inprogress then timeoutLoop now rest c
      else
        let i = mr_abs (tmTaskId (tkMetadata (coTasks c ! t))) in
        (case go_nth (coTasks c) i of Inl e \<Rightarrow> Some (Inl e)
         | Inr task \<Rightarrow>
             if now - tmStartWorkTime (tkMetadata task) > 10 * second then
               (if length (coWorkerIdCh c) \<ge> coWorkerIdCap c then None
                else if length (coTasksCh c) \<ge> coTasksCap c then None
                else timeoutLoop now rest
                  (c\<lparr>coWorkerIdCh := coWorkerIdCh c @ [w], coWorkerTask := mdel w (coWorkerTask c),
                     coTasksCh := coTasksCh c @ [nat i]\<rparr>))
             else timeoutLoop now rest c))"

definition catchTimeout :: "int \<Rightarrow> Coordinator \<Rightarrow> Coordinator res option" where
  "catchTimeout now c = timeoutLoop now (coWorkerTask c) c"

definition map2Reduce :: "Coordinator \<Rightarrow> Coordinator res" where
  "map2Reduce c =
     (if coState c \<noteq> SHUFFLE then Inl (Explicit ''map2Reduce(): state is not INTERMIDIATE'')
      else if coNReduce c < 0 then Inl MakeSliceOutOfRange
      else Inr ((createReduceTask (c\<lparr>coWorkerTask := [], coWorkerIdCh := map int [0..<nat (coNReduce c)],
            coWorkerIdCap := nat (coNReduce c), coTasksCh := [],
            coTasksCap := nat (mr_max (go_quot (coNReduce c) 2) 2)\<rparr>))\<lparr>coState := REDUCE\<rparr>))"

text \<open>The cases of the \<open>select\<close> in \<open>run\<close>, the sweep and the feeding goroutine as events.\<close>

datatype mr_event = EvAsk int | EvFinish FinishTaskArgs | EvMap2Reduce | EvDone | EvSweep int | EvFeed

fun mr_step :: "mr_event \<Rightarrow> Coordinator \<Rightarrow> Coordinator res option" where
  "mr_step (EvAsk now) c = (if coRunning c then Some (Inr (fst (AskTask now c))) else None)"
| "mr_step (EvFinish args) c = FinishTask args c"
| "mr_step EvMap2Reduce c =
     (if coRunning c \<and> coMap2ReduceCh c > 0 then Some (map2Reduce (c\<lparr>coMap2ReduceCh := coMap2ReduceCh c - 1\<rparr>)) else None)"
| "mr_step EvDone c =
     (if coRunning c \<and> coDoneCh c > 0 then Some (Inr (c\<lparr>coDoneCh := coDoneCh c - 1, coRunning := False\<rparr>)) else None)"
| "mr_step (EvSweep now) c = catchTimeout now c"
| "mr_step EvFeed c = map_option Inr (taskBegin c)"

inductive mr_reachable :: "string list \<Rightarrow> int \<Rightarrow> Coordinator \<Rightarrow> bool" for files nReduce where
  start: "mr_reachable files nReduce (MakeCoordinator files nReduce)"
| step: "mr_reachable files nReduce c \<Longrightarrow> mr_step ev c = Some (Inr c') \<Longrightarrow> mr_reachable files nReduce c'"

subsection \<open>The invariant\<close>

text \<open>
  \<open>sentTasks\<close> is the number of tasks the feeding goroutine has sent. Every task that was sent and is
  neither queued nor assigned is completed; every worker id is either free or in use, so that
  giving one back never finds its channel full.
\<close>

definition sentTasks :: "Coordinator \<Rightarrow> nat" where
  "sentTasks c = (case coFeeder c of None \<Rightarrow> length (coTasks c) | Some i \<Rightarrow> i)"

abbreviation assigned :: "Coordinator \<Rightarrow> nat list" where
  "assigned c \<equiv> map snd (coWorkerTask c)"

abbreviation statusAt :: "Coordinator \<Rightarrow> nat \<Rightarrow> int" where
  "statusAt c t \<equiv> tkStatus (coTasks c ! t)"

definition tasks_inv :: "Coordinator \<Rightarrow> bool" where
  "tasks_inv c \<longleftrightarrow> sentTasks c \<le> length (coTasks c) \<and>
     distinct (coTasksCh c @ assigned c) \<and> (\<forall>t \<in> set (coTasksCh c @ assigned c). t < sentTasks c) \<and>
     (\<forall>t < length (coTasks c). statusAt c t = Completed \<longleftrightarrow> t < sentTasks c \<and> t \<notin> set (coTasksCh c @ assigned c)) \<and>
     (\<forall>t \<in> set (assigned c). statusAt c t = Inprogress) \<and>
     (\<forall>t < length (coTasks c). mr_abs (tmTaskId (tkMetadata (coTasks c ! t))) = int t)"

definition ids_inv :: "Coordinator \<Rightarrow> bool" where
  "ids_inv c \<longleftrightarrow> distinct (coWorkerIdCh c @ mkeys (coWorkerTask c)) \<and>
     length (coWorkerIdCh c) + length (coWorkerTask c) = length (coTasks c) \<and> coWorkerIdCap c = length (coTasks c)"

definition phase_inv :: "Coordinator \<Rightarrow> bool" where
  "phase_inv c \<longleftrightarrow> coState c \<in> {MAP, SHUFFLE, REDUCE, DONE} \<and> 0 \<le> coNReduce c \<and>
     coMap2ReduceCh c = (if coState c = SHUFFLE then 1 else 0) \<and> coDoneCh c = (if coState c = DONE \<and> coRunning c then 1 else 0) \<and>
     (\<not> coRunning c \<longrightarrow> coState c = DONE) \<and>
     (if coState c = MAP \<or> coState c = REDUCE then coSendClosed c = (if coFeeder c = None then 1 else 0)
      else coFeeder c = None \<and> coTasksCh c = [] \<and> coWorkerTask c = [] \<and> coSendClosed c = 0)"

definition mr_inv :: "Coordinator \<Rightarrow> bool" where
  "mr_inv c \<longleftrightarrow> tasks_inv c \<and> ids_inv c \<and> phase_inv c"

lemma mput_new: "k \<notin> set (mkeys m) \<Longrightarrow> mput k v m = m @ [(k, v)]"
  by (induction m) auto

lemma mdel_entry:
  assumes "distinct (mkeys m)" "(w, t) \<in> set m"
  shows "\<exists>m1 m2. m = m1 @ (w, t) # m2 \<and> mdel w m = m1 @ m2"
proof -
  obtain m1 m2 where m: "m = m1 @ (w, t) # m2" using split_list[OF assms(2)] by blast
  have "mdel w m1 = m1" "mdel w m2 = m2"
    using assms(1) m by (auto simp: AList.delete_eq image_iff intro!: filter_True)
  then show ?thesis using m by (auto simp: AList.delete_eq)
qed

lemma mr_inv_start:
  assumes "0 \<le> nReduce"
  shows "mr_inv (MakeCoordinator files nReduce)"
proof -
  have "mr_abs (int t) = int t" for t by (simp add: mr_abs_def)
  then show ?thesis using assms
    by (auto simp: mr_inv_def tasks_inv_def ids_inv_def phase_inv_def MakeCoordinator_def createMapTask_def Let_def
        sentTasks_def zero_meta_def distinct_map inj_on_def)
qed

lemma taskBegin_inv:
  assumes "mr_inv c" "taskBegin c = Some c'"
  shows "mr_inv c'"
proof -
  obtain i where i: "coFeeder c = Some i" using assms(2) by (auto simp: taskBegin_def split: option.splits)
  have st: "coState c = MAP \<or> coState c = REDUCE" using assms(1) i by (auto simp: mr_inv_def phase_inv_def split: if_splits)
  show ?thesis
  proof (cases "i < length (coTasks c)")
    case True
    then have c': "c' = c\<lparr>coTasksCh := coTasksCh c @ [i], coFeeder := Some (i + 1)\<rparr>"
      using assms(2) i by (auto simp: taskBegin_def split: if_splits)
    have ni: "i \<notin> set (coTasksCh c @ assigned c)" using assms(1) i by (auto simp: mr_inv_def tasks_inv_def sentTasks_def)
    have "tasks_inv c'"
      using assms(1) i True ni by (auto simp: mr_inv_def tasks_inv_def sentTasks_def c' less_Suc_eq)
    with assms(1) i st show ?thesis by (auto simp: mr_inv_def ids_inv_def phase_inv_def c')
  next
    case False
    then have c': "c' = c\<lparr>coSendClosed := coSendClosed c + 1, coFeeder := None\<rparr>"
      using assms(2) i by (auto simp: taskBegin_def split: if_splits)
    have "i = length (coTasks c)" using assms(1) i False by (simp add: mr_inv_def tasks_inv_def sentTasks_def)
    with assms(1) i st show ?thesis
      by (auto simp: mr_inv_def tasks_inv_def ids_inv_def phase_inv_def sentTasks_def c')
  qed
qed

lemma map2Reduce_inv:
  assumes "mr_inv c" "0 < coMap2ReduceCh c"
  shows "\<exists>c'. map2Reduce (c\<lparr>coMap2ReduceCh := coMap2ReduceCh c - 1\<rparr>) = Inr c' \<and> mr_inv c' \<and> coState c' = REDUCE"
proof -
  have st: "coState c = SHUFFLE" "coMap2ReduceCh c = 1" "0 \<le> coNReduce c" "coDoneCh c = 0" "coSendClosed c = 0" "coRunning c"
    using assms by (auto simp: mr_inv_def phase_inv_def split: if_splits)
  have "mr_abs (- int t - 1) = int t" for t by (simp add: mr_abs_def)
  then show ?thesis using st
    by (auto simp: map2Reduce_def createReduceTask_def mr_inv_def tasks_inv_def ids_inv_def phase_inv_def
        sentTasks_def zero_meta_def distinct_map inj_on_def)
qed

lemma free_worker:
  assumes "mr_inv c" "coTasksCh c \<noteq> []"
  shows "coWorkerIdCh c \<noteq> []"
proof
  assume "coWorkerIdCh c = []"
  with assms(1) have l: "length (assigned c) = length (coTasks c)" by (simp add: mr_inv_def ids_inv_def)
  have d1: "distinct (coTasksCh c @ assigned c)" and b: "\<forall>t \<in> set (coTasksCh c @ assigned c). t < sentTasks c"
    and s: "sentTasks c \<le> length (coTasks c)"
    using assms(1) unfolding mr_inv_def tasks_inv_def by blast+
  have "set (coTasksCh c @ assigned c) \<subseteq> {..<length (coTasks c)}" using b s by (meson lessThan_iff less_le_trans subsetI)
  note d = d1 this
  have "length (coTasksCh c @ assigned c) \<le> length (coTasks c)"
    using distinct_card[OF d(1)] card_mono[OF _ d(2)] by simp
  with l assms(2) show False by simp
qed

lemma AskTask_assigns:
  assumes inv: "mr_inv c" and st: "coState c = MAP \<or> coState c = REDUCE" and q: "coTasksCh c = t # q"
  shows "\<exists>w ids task. coWorkerIdCh c = w # ids \<and> w \<notin> set (mkeys (coWorkerTask c)) \<and>
    task = (coTasks c ! t)\<lparr>tkStatus := Inprogress,
        tkMetadata := (tkMetadata (coTasks c ! t))\<lparr>tmStartWorkTime := now, tmState := coState c\<rparr>\<rparr> \<and>
    AskTask now c = (c\<lparr>coTasksCh := q, coTasks := (coTasks c)[t := task], coWorkerIdCh := ids,
        coWorkerTask := coWorkerTask c @ [(w, t)]\<rparr>,
      \<lparr>arTask = task, arWorkerId = w, arNReduce = coNReduce c, arMMap = coMMap c, arTaskBeginTime = now\<rparr>)"
proof -
  obtain w ids where w: "coWorkerIdCh c = w # ids" using free_worker[OF inv] q by (cases "coWorkerIdCh c") auto
  have nw: "w \<notin> set (mkeys (coWorkerTask c))" using inv w by (auto simp: mr_inv_def ids_inv_def)
  have t: "t < length (coTasks c)" using inv q by (auto simp: mr_inv_def tasks_inv_def)
  show ?thesis
    using st q w t nw mput_new[OF nw, of t]
    by (simp add: AskTask_def doAskTask_def assignTask_def zero_ask_def Let_def)
qed

lemma AskTask_inv:
  assumes inv: "mr_inv c"
  shows "mr_inv (fst (AskTask now c))"
proof (cases "(coState c = MAP \<or> coState c = REDUCE) \<and> coTasksCh c \<noteq> []")
  case True
  then obtain t q where q: "coTasksCh c = t # q" by (cases "coTasksCh c") auto
  obtain w ids task where a: "coWorkerIdCh c = w # ids" "w \<notin> set (mkeys (coWorkerTask c))"
      "task = (coTasks c ! t)\<lparr>tkStatus := Inprogress,
        tkMetadata := (tkMetadata (coTasks c ! t))\<lparr>tmStartWorkTime := now, tmState := coState c\<rparr>\<rparr>"
      "fst (AskTask now c) = c\<lparr>coTasksCh := q, coTasks := (coTasks c)[t := task], coWorkerIdCh := ids,
        coWorkerTask := coWorkerTask c @ [(w, t)]\<rparr>"
    using AskTask_assigns[OF inv _ q, of now] True by auto
  let ?c = "c\<lparr>coTasksCh := q, coTasks := (coTasks c)[t := task], coWorkerIdCh := ids, coWorkerTask := coWorkerTask c @ [(w, t)]\<rparr>"
  have t: "t < length (coTasks c)" "t \<notin> set (assigned c)" using inv q by (auto simp: mr_inv_def tasks_inv_def)
  have sent: "sentTasks ?c = sentTasks c" by (simp add: sentTasks_def split: option.splits)
  have ti: "tasks_inv c" and ii: "ids_inv c" and pi: "phase_inv c" using inv by (auto simp: mr_inv_def)
  have "tasks_inv ?c"
    using ti t q a(3) unfolding tasks_inv_def sent by (auto simp: nth_list_update)
  moreover have "ids_inv ?c" using ii a(1) by (auto simp: ids_inv_def)
  moreover have "phase_inv ?c" using pi True by (auto simp: phase_inv_def)
  ultimately show ?thesis by (simp add: a(4) mr_inv_def)
next
  case False
  then have "fst (AskTask now c) = c" by (auto simp: AskTask_def doAskTask_def)
  with inv show ?thesis by simp
qed

text \<open>The end of a task: it leaves the assigned tasks, and its worker's id becomes free.\<close>

lemma complete_inv:
  assumes inv: "mr_inv c" and m: "map_of (coWorkerTask c) w = Some t"
  defines "c2 \<equiv> c\<lparr>coWorkerTask := mdel w (coWorkerTask c), coTasks := (coTasks c)[t := (coTasks c ! t)\<lparr>tkStatus := Completed\<rparr>],
      coWorkerIdCh := coWorkerIdCh c @ [w]\<rparr>"
  shows "mr_inv c2 \<and> length (coWorkerIdCh c) < coWorkerIdCap c \<and> (coState c = MAP \<or> coState c = REDUCE)"
proof -
  have ti: "tasks_inv c" and ii: "ids_inv c" and pi: "phase_inv c" using inv by (auto simp: mr_inv_def)
  have wt: "(w, t) \<in> set (coWorkerTask c)" using m by (rule map_of_SomeD)
  obtain m1 m2 where mm: "coWorkerTask c = m1 @ (w, t) # m2" "mdel w (coWorkerTask c) = m1 @ m2"
    using mdel_entry[OF _ wt] ii by (auto simp: ids_inv_def)
  have st: "coState c = MAP \<or> coState c = REDUCE" using pi wt by (auto simp: phase_inv_def split: if_splits)
  have "t \<in> set (coTasksCh c @ assigned c)" using mm by simp
  then have t: "t < sentTasks c" "t < length (coTasks c)" using ti unfolding tasks_inv_def by (meson less_le_trans)+
  have sent: "sentTasks c2 = sentTasks c" by (simp add: sentTasks_def c2_def split: option.splits)
  have "tasks_inv c2"
    using ti t mm unfolding tasks_inv_def sent by (auto simp: c2_def nth_list_update)
  moreover have "ids_inv c2" "length (coWorkerIdCh c) < coWorkerIdCap c"
    using ii mm by (auto simp: ids_inv_def c2_def)
  moreover have "phase_inv c2" using pi st by (auto simp: phase_inv_def c2_def)
  ultimately show ?thesis using st by (simp add: mr_inv_def)
qed

lemma nextPhase_inv:
  assumes inv: "mr_inv c" and st: "coState c = MAP \<or> coState c = REDUCE" and idle: "coSendClosed c \<noteq> 0" "coTasksCh c = []" "coWorkerTask c = []"
  shows "\<exists>c'. nextPhase c = Some (Inr c') \<and> mr_inv c' \<and> coState c' = coState c + 1 \<and> coTasks c' = coTasks c \<and>
    (\<forall>t < length (coTasks c). statusAt c t = Completed)"
proof -
  have f: "coFeeder c = None" "coSendClosed c = 1" "coMap2ReduceCh c = 0" "coDoneCh c = 0" "coRunning c"
    using inv st idle by (auto simp: mr_inv_def phase_inv_def split: if_splits)
  then have "\<forall>t < length (coTasks c). statusAt c t = Completed"
    using inv idle by (auto simp: mr_inv_def tasks_inv_def sentTasks_def)
  then show ?thesis
    using inv st idle f by (auto simp: nextPhase_def Let_def mr_inv_def tasks_inv_def ids_inv_def phase_inv_def sentTasks_def)
qed

lemma doFinishTask_inv:
  assumes inv: "mr_inv c"
  shows "\<exists>c'. doFinishTask args c = Some (Inr c') \<and> mr_inv c' \<and>
    (coState c' = coState c \<or>
     coState c' = coState c + 1 \<and> (coState c = MAP \<or> coState c = REDUCE) \<and> length (coTasks c') = length (coTasks c) \<and>
     (\<forall>t < length (coTasks c'). statusAt c' t = Completed))"
proof (cases "map_of (coWorkerTask c) (faWorkerId args)")
  case None
  with inv show ?thesis by (auto simp: doFinishTask_def)
next
  case (Some t)
  let ?w = "faWorkerId args"
  let ?c2 = "c\<lparr>coWorkerTask := mdel ?w (coWorkerTask c), coTasks := (coTasks c)[t := (coTasks c ! t)\<lparr>tkStatus := Completed\<rparr>],
      coWorkerIdCh := coWorkerIdCh c @ [?w]\<rparr>"
  note ci = complete_inv[OF inv Some]
  show ?thesis
  proof (cases "statusAt c t = Completed \<or> truncateSecond (faTaskBeginTime args) \<noteq> truncateSecond (tmStartWorkTime (tkMetadata (coTasks c ! t)))")
    case True
    with inv Some show ?thesis by (auto simp: doFinishTask_def Let_def)
  next
    case False
    have d: "doFinishTask args c = (if coSendClosed ?c2 \<noteq> 0 \<and> coTasksCh ?c2 = [] then
        (if coWorkerTask ?c2 = [] then nextPhase ?c2 else Some (Inr ?c2)) else Some (Inr ?c2))"
      using False Some ci by (simp add: doFinishTask_def Let_def)
    show ?thesis
    proof (cases "coSendClosed ?c2 \<noteq> 0 \<and> coTasksCh ?c2 = [] \<and> coWorkerTask ?c2 = []")
      case True
      then obtain c' where "nextPhase ?c2 = Some (Inr c')" "mr_inv c'" "coState c' = coState ?c2 + 1" "coTasks c' = coTasks ?c2"
          "\<forall>t < length (coTasks ?c2). statusAt ?c2 t = Completed"
        using nextPhase_inv[of ?c2] ci by auto
      with d True ci show ?thesis by (intro exI[of _ c']) simp
    next
      case False
      then have "doFinishTask args c = Some (Inr ?c2)" using d by auto
      with ci show ?thesis by auto
    qed
  qed
qed

lemma ids_inv_distinct: "ids_inv c \<Longrightarrow> distinct (coWorkerTask c)"
proof -
  assume "ids_inv c"
  then have "distinct (mkeys (coWorkerTask c))" unfolding ids_inv_def by simp
  then show ?thesis unfolding distinct_map by blast
qed

lemma requeue_inv:
  assumes inv: "mr_inv c" and wt: "(w, t) \<in> set (coWorkerTask c)"
  defines "c' \<equiv> c\<lparr>coWorkerIdCh := coWorkerIdCh c @ [w], coWorkerTask := mdel w (coWorkerTask c), coTasksCh := coTasksCh c @ [t]\<rparr>"
  shows "mr_inv c' \<and> length (coWorkerIdCh c) < coWorkerIdCap c \<and> set (coWorkerTask c') = set (coWorkerTask c) - {(w, t)}"
proof -
  have ti: "tasks_inv c" and ii: "ids_inv c" and pi: "phase_inv c" using inv by (auto simp: mr_inv_def)
  obtain m1 m2 where mm: "coWorkerTask c = m1 @ (w, t) # m2" "mdel w (coWorkerTask c) = m1 @ m2"
    using mdel_entry[OF _ wt] ii by (auto simp: ids_inv_def)
  have st: "coState c = MAP \<or> coState c = REDUCE" using pi wt by (auto simp: phase_inv_def split: if_splits)
  have sent: "sentTasks c' = sentTasks c" by (simp add: sentTasks_def c'_def split: option.splits)
  have "tasks_inv c'" using ti mm unfolding tasks_inv_def sent by (auto simp: c'_def)
  moreover have "ids_inv c'" "length (coWorkerIdCh c) < coWorkerIdCap c" using ii mm by (auto simp: ids_inv_def c'_def)
  moreover have "phase_inv c'" using pi st by (auto simp: phase_inv_def c'_def)
  moreover have "distinct (m1 @ (w, t) # m2)" using ids_inv_distinct[OF ii] mm(1) by simp
  ultimately show ?thesis using mm by (auto simp: mr_inv_def c'_def)
qed

text \<open>A sweep keeps the invariant and never panics; it blocks only on a full task channel.\<close>

lemma timeoutLoop_inv:
  assumes "mr_inv c" "distinct pairs" "set pairs \<subseteq> set (coWorkerTask c)"
  shows "timeoutLoop now pairs c = None \<or> (\<exists>c'. timeoutLoop now pairs c = Some (Inr c') \<and> mr_inv c' \<and> coState c' = coState c)"
  using assms
proof (induction pairs arbitrary: c)
  case (Cons p pairs)
  obtain w t where p: "p = (w, t)" by (cases p)
  have wt: "(w, t) \<in> set (coWorkerTask c)" using Cons.prems(3) p by simp
  have ti: "tasks_inv c" using Cons.prems(1) by (simp add: mr_inv_def)
  have "t \<in> set (coTasksCh c @ assigned c)" using wt by force
  then have t: "t < length (coTasks c)" using ti unfolding tasks_inv_def by (meson less_le_trans)
  then have ab: "mr_abs (tmTaskId (tkMetadata (coTasks c ! t))) = int t" using ti by (simp add: tasks_inv_def)
  have skip: "timeoutLoop now pairs c = None \<or> (\<exists>c'. timeoutLoop now pairs c = Some (Inr c') \<and> mr_inv c' \<and> coState c' = coState c)"
    using Cons.IH[OF Cons.prems(1)] Cons.prems by simp
  let ?c' = "c\<lparr>coWorkerIdCh := coWorkerIdCh c @ [w], coWorkerTask := mdel w (coWorkerTask c), coTasksCh := coTasksCh c @ [t]\<rparr>"
  note rq = requeue_inv[OF Cons.prems(1) wt]
  have "timeoutLoop now pairs ?c' = None \<or> (\<exists>c'. timeoutLoop now pairs ?c' = Some (Inr c') \<and> mr_inv c' \<and> coState c' = coState c)"
    using Cons.IH[of ?c'] rq Cons.prems(2,3) p by fastforce
  with skip show ?case using t ab rq by (simp add: p Let_def go_nth_of_nat)
qed simp

lemma reachable_inv: "mr_reachable files nReduce c \<Longrightarrow> 0 \<le> nReduce \<Longrightarrow> mr_inv c"
proof (induction rule: mr_reachable.induct)
  case start
  then show ?case by (rule mr_inv_start)
next
  case (step c ev c')
  then have inv: "mr_inv c" by simp
  show ?case
  proof (cases ev)
    case (EvAsk now)
    with AskTask_inv[OF inv, of now] step.hyps(2) show ?thesis by (simp split: if_splits)
  next
    case (EvFinish args)
    with doFinishTask_inv[OF inv, of args] step.hyps(2) show ?thesis by (auto simp: FinishTask_def split: if_splits)
  next
    case EvMap2Reduce
    with map2Reduce_inv[OF inv] step.hyps(2) show ?thesis by (auto split: if_splits)
  next
    case EvDone
    with inv step.hyps(2) show ?thesis
      by (auto simp: mr_inv_def tasks_inv_def ids_inv_def phase_inv_def sentTasks_def split: if_splits)
  next
    case (EvSweep now)
    have "distinct (coWorkerTask c)" using inv ids_inv_distinct by (simp add: mr_inv_def)
    with timeoutLoop_inv[OF inv, of "coWorkerTask c" now] EvSweep step.hyps(2) show ?thesis by (auto simp: catchTimeout_def)
  next
    case EvFeed
    with taskBegin_inv[OF inv] step.hyps(2) show ?thesis by auto
  qed
qed

subsection \<open>Properties\<close>

text \<open>
  C40: Whatever the order of requests, completions, time-outs and of the goroutine that feeds the
  queue, as long as the loop of \<open>run\<close> has not returned and no sweep for time-outs is blocked with the mutex held, the coordinator handles every
  \<open>FinishTask\<close> without a panic and without blocking, and it
  moves on to the next phase only from the map or the reduce phase and only when every task of that
  phase is completed. The loop returns only when the job is done; from then on \<open>FinishTask\<close> never returns.
\<close>

theorem mr_phase_complete:
  assumes "mr_reachable files nReduce c" "0 \<le> nReduce"
  shows "if coRunning c
    then \<exists>c'. FinishTask args c = Some (Inr c') \<and>
      (coState c' \<noteq> coState c \<longrightarrow> coState c' = coState c + 1 \<and> (coState c = MAP \<or> coState c = REDUCE) \<and>
         length (coTasks c') = length (coTasks c) \<and> (\<forall>t < length (coTasks c'). tkStatus (coTasks c' ! t) = Completed))
    else mr_Done c \<and> FinishTask args c = None"
proof (cases "coRunning c")
  case True
  with doFinishTask_inv[OF reachable_inv[OF assms], of args] show ?thesis by (simp add: FinishTask_def) metis
next
  case False
  with reachable_inv[OF assms] show ?thesis by (simp add: FinishTask_def mr_inv_def phase_inv_def mr_Done_def)
qed

text \<open>A job with two files: both map tasks are sent, given to two workers, and finished.\<close>

fun mr_run :: "mr_event list \<Rightarrow> Coordinator \<Rightarrow> Coordinator res option" where
  "mr_run [] c = Some (Inr c)"
| "mr_run (ev # evs) c = (case mr_step ev c of Some (Inr c') \<Rightarrow> mr_run evs c' | r \<Rightarrow> r)"

lemma mr_run_reachable:
  "mr_reachable files nReduce c \<Longrightarrow> mr_run evs c = Some (Inr c') \<Longrightarrow> mr_reachable files nReduce c'"
proof (induction evs arbitrary: c)
  case (Cons ev evs)
  then obtain c1 where "mr_step ev c = Some (Inr c1)" "mr_run evs c1 = Some (Inr c')"
    by (auto split: option.splits sum.splits)
  with Cons mr_reachable.step show ?case by blast
qed simp

definition demo_events :: "mr_event list" where
  "demo_events = [EvFeed, EvFeed, EvFeed, EvAsk 100, EvAsk 200, EvFinish \<lparr>faWorkerId = 1, faTaskId = 1, faTaskBeginTime = 200\<rparr>]"

definition demo_finish :: FinishTaskArgs where
  "demo_finish = \<lparr>faWorkerId = 0, faTaskId = 0, faTaskBeginTime = 100\<rparr>"

definition state_after :: "Coordinator res option \<Rightarrow> int option" where
  "state_after r = (case r of Some (Inr c) \<Rightarrow> Some (coState c) | _ \<Rightarrow> None)"

theorem mr_phase_complete_witness:
  "\<exists>c c'. mr_run demo_events (MakeCoordinator [''a'', ''b''] 1) = Some (Inr c) \<and> coRunning c \<and>
     FinishTask demo_finish c = Some (Inr c') \<and> coState c = MAP \<and> coState c' = SHUFFLE \<and>
     (\<forall>t < length (coTasks c'). tkStatus (coTasks c' ! t) = Completed)"
proof -
  define r where "r = mr_run demo_events (MakeCoordinator [''a'', ''b''] 1)"
  have "case r of Some (Inr c) \<Rightarrow> coRunning c \<and> coState c = MAP \<and> state_after (FinishTask demo_finish c) = Some SHUFFLE | _ \<Rightarrow> False"
    unfolding r_def by code_simp
  then obtain c where c: "r = Some (Inr c)" "coRunning c" "coState c = MAP" "state_after (FinishTask demo_finish c) = Some SHUFFLE"
    by (auto split: option.splits sum.splits)
  then obtain c' where c': "FinishTask demo_finish c = Some (Inr c')" "coState c' = SHUFFLE"
    by (auto simp: state_after_def split: option.splits sum.splits)
  have "mr_reachable [''a'', ''b''] 1 c" using mr_run_reachable[OF mr_reachable.start] c(1) unfolding r_def .
  from mr_phase_complete[OF this, of demo_finish] c c' have "\<forall>t < length (coTasks c'). tkStatus (coTasks c' ! t) = Completed" by simp
  with c c' show ?thesis unfolding r_def by blast
qed

text \<open>
  The sweep for timed-out tasks puts a task back into the queue with the mutex held. With four
  input files the queue holds two tasks. One task is given to a worker that does not answer, a second
  one to another worker eleven seconds later, and each time the queue is filled up again. The sweep
  that follows blocks on the full queue for ever: the mutex is never released, so the loop that would
  empty the queue never runs again.
\<close>

lemma catchTimeout_blocks:
  "\<exists>c. mr_run [EvFeed, EvFeed, EvAsk 0, EvFeed, EvAsk (11 * second), EvFeed] (MakeCoordinator [''a'', ''b'', ''c'', ''d''] 1) = Some (Inr c) \<and>
     mr_reachable [''a'', ''b'', ''c'', ''d''] 1 c \<and> catchTimeout (12 * second) c = None"
proof -
  define r where "r = mr_run [EvFeed, EvFeed, EvAsk 0, EvFeed, EvAsk (11 * second), EvFeed] (MakeCoordinator [''a'', ''b'', ''c'', ''d''] 1)"
  have "case r of Some (Inr c) \<Rightarrow> catchTimeout (12 * second) c = None | _ \<Rightarrow> False"
    unfolding r_def by code_simp
  then obtain c where c: "r = Some (Inr c)" "catchTimeout (12 * second) c = None"
    by (auto split: option.splits sum.splits)
  have "mr_reachable [''a'', ''b'', ''c'', ''d''] 1 c" using mr_run_reachable[OF mr_reachable.start] c(1) unfolding r_def .
  with c show ?thesis unfolding r_def by blast
qed

end
