(* ===== verification/Worker.thy ===== *)
theory Worker
  imports Coordinator SortSpec "HOL-Library.Word" "HOL-Library.Char_ord" "HOL-Library.List_Lexorder"
begin

text \<open>
  \<open>mr/worker.go\<close> and the sequential reference \<open>main/mrsequential.go\<close>. The application's \<open>Map\<close> and
  \<open>Reduce\<close> are arguments. Files are maps from names to contents, one map for each kind: the
  inputs, the intermediate files, given by the key/value pairs that the decoder reads from them, and the outputs.
  The JSON encoder replaces every byte that is not part of valid UTF-8 by U+FFFD (\<open>jsonString\<close>). For each
  bucket, the file system decides whether the temporary file can be created and whether it can be renamed;
  the code ignores a failed rename. Creating an output file and writing to files is taken to succeed.
\<close>

unbundle bit_operations_syntax

record KeyValue =
  kvKey :: string
  kvValue :: string

record mr_files =
  mfInput :: "(string, string) gomap"
  mfInter :: "(string, KeyValue list) gomap"
  mfOut :: "(string, string) gomap"

record Worker_ =
  wkId :: int
  wkTask :: Task
  wkNReduce :: int
  wkMMap :: int
  wkTaskBeginTime :: int

text \<open>The 32-bit FNV-1a hash of \<open>hash/fnv\<close>.\<close>

definition fnv32a :: "string \<Rightarrow> 32 word" where
  "fnv32a key = fold (\<lambda>b h. (h XOR word_of_nat (of_char b)) * 16777619) key 2166136261"

definition ihash :: "string \<Rightarrow> int" where
  "ihash key = uint (fnv32a key AND 0x7fffffff)"

text \<open>The verb \<open>%d\<close>.\<close>

fun digits :: "nat \<Rightarrow> string" where
  "digits n = (if n < 10 then [char_of (48 + n)] else digits (n div 10) @ [char_of (48 + n mod 10)])"

declare digits.simps [simp del]

definition itoa :: "int \<Rightarrow> string" where
  "itoa i = (if i < 0 then ''-'' @ digits (nat (- i)) else digits (nat i))"

definition interName :: "int \<Rightarrow> int \<Rightarrow> string" where
  "interName taskId r = ''mr-'' @ itoa taskId @ ''-'' @ itoa r"

definition outName :: "int \<Rightarrow> string" where
  "outName taskId = ''mr-out-'' @ itoa taskId"

definition generateFileName :: "int \<Rightarrow> int \<Rightarrow> string list" where
  "generateFileName r mMap = map (\<lambda>taskId. interName (int taskId) r) [0..<nat mMap]"

subsection \<open>JSON strings\<close>

text \<open>The number of bytes of the UTF-8 encoding at the head of a string, 0 if there is none.\<close>

definition cont :: "string \<Rightarrow> nat \<Rightarrow> nat \<Rightarrow> nat \<Rightarrow> bool" where
  "cont s i lo hi \<longleftrightarrow> i < length s \<and> lo \<le> of_char (s ! i) \<and> of_char (s ! i) \<le> hi"

definition rune1 :: "string \<Rightarrow> bool" where
  "rune1 s \<longleftrightarrow> cont s 0 0 0x7F"

definition rune2 :: "string \<Rightarrow> bool" where
  "rune2 s \<longleftrightarrow> cont s 0 0xC2 0xDF \<and> cont s 1 0x80 0xBF"

definition rune3 :: "string \<Rightarrow> bool" where
  "rune3 s \<longleftrightarrow>
     (cont s 0 0xE0 0xE0 \<and> cont s 1 0xA0 0xBF \<or> cont s 0 0xE1 0xEC \<and> cont s 1 0x80 0xBF \<or>
      cont s 0 0xED 0xED \<and> cont s 1 0x80 0x9F \<or> cont s 0 0xEE 0xEF \<and> cont s 1 0x80 0xBF) \<and> cont s 2 0x80 0xBF"

definition rune4 :: "string \<Rightarrow> bool" where
  "rune4 s \<longleftrightarrow>
     (cont s 0 0xF0 0xF0 \<and> cont s 1 0x90 0xBF \<or> cont s 0 0xF1 0xF3 \<and> cont s 1 0x80 0xBF \<or>
      cont s 0 0xF4 0xF4 \<and> cont s 1 0x80 0x8F) \<and> cont s 2 0x80 0xBF \<and> cont s 3 0x80 0xBF"

definition runeSize :: "string \<Rightarrow> nat" where
  "runeSize s = (if rune1 s then 1 else if rune2 s then 2 else if rune3 s then 3 else if rune4 s then 4 else 0)"

definition runeError :: string where
  "runeError = [CHR 0xEF, CHR 0xBF, CHR 0xBD]"

text \<open>What is decoded from the encoding of a string.\<close>

function jsonString :: "string \<Rightarrow> string" where
  "jsonString [] = []"
| "jsonString (c # s) =
     (if runeSize (c # s) = 0 then runeError @ jsonString s
      else take (runeSize (c # s)) (c # s) @ jsonString (drop (runeSize (c # s)) (c # s)))"
  by pat_completeness auto
termination
  by (relation "measure length") auto

definition jsonKV :: "KeyValue \<Rightarrow> KeyValue" where
  "jsonKV kv = \<lparr>kvKey = jsonString (kvKey kv), kvValue = jsonString (kvValue kv)\<rparr>"

subsection \<open>Map\<close>

fun slotLoop :: "int \<Rightarrow> KeyValue list \<Rightarrow> KeyValue list list \<Rightarrow> KeyValue list list res" where
  "slotLoop nReduce [] slot = Inr slot"
| "slotLoop nReduce (kva # rest) slot =
     (if nReduce = 0 then Inl DivideByZero
      else
        let index = go_rem (ihash (kvKey kva)) nReduce in
        (case go_nth slot index of Inl e \<Rightarrow> Inl e
         | Inr xs \<Rightarrow> (case go_set slot index (xs @ [kva]) of Inl e \<Rightarrow> Inl e | Inr slot' \<Rightarrow> slotLoop nReduce rest slot')))"

text \<open>
  The temporary file of a bucket cannot be created, which ends the process; it is written but not renamed; or it becomes the intermediate file.
\<close>

datatype slot_io = NoTemp | NoRename | Renamed

fun writeSlots :: "(nat \<Rightarrow> slot_io) \<Rightarrow> int \<Rightarrow> nat \<Rightarrow> KeyValue list list \<Rightarrow> (string, KeyValue list) gomap \<Rightarrow> (string, KeyValue list) gomap res" where
  "writeSlots io taskId i [] m = Inr m"
| "writeSlots io taskId i (s # rest) m =
     (let oname = interName taskId (int i) in
      case io i of
        NoTemp \<Rightarrow> Inl (Explicit (''cannot create temp file '' @ oname))
      | NoRename \<Rightarrow> writeSlots io taskId (i + 1) rest m
      | Renamed \<Rightarrow> writeSlots io taskId (i + 1) rest (mput oname (map jsonKV s) m))"

definition finishArgs :: "Worker_ \<Rightarrow> FinishTaskArgs" where
  "finishArgs w = \<lparr>faWorkerId = wkId w, faTaskId = tmTaskId (tkMetadata (wkTask w)), faTaskBeginTime = wkTaskBeginTime w\<rparr>"

definition doMap :: "(string \<Rightarrow> string \<Rightarrow> KeyValue list) \<Rightarrow> (nat \<Rightarrow> slot_io) \<Rightarrow> Worker_ \<Rightarrow> mr_files \<Rightarrow> (mr_files \<times> FinishTaskArgs) res" where
  "doMap mapf io w fs =
     (let filename = tmFilename (tkMetadata (wkTask w)) in
      case map_of (mfInput fs) filename of
        None \<Rightarrow> Inl (Explicit (''cannot open '' @ filename))
      | Some content \<Rightarrow>
          let immediate = mapf filename content in
          if wkNReduce w < 0 then Inl MakeSliceOutOfRange
          else
            (case slotLoop (wkNReduce w) immediate (replicate (nat (wkNReduce w)) []) of Inl e \<Rightarrow> Inl e
             | Inr slot \<Rightarrow>
                 (case writeSlots io (tmTaskId (tkMetadata (wkTask w))) 0 slot (mfInter fs) of Inl e \<Rightarrow> Inl e
                  | Inr im \<Rightarrow> Inr (fs\<lparr>mfInter := im\<rparr>, finishArgs w))))"

subsection \<open>Reduce\<close>

text \<open>Reading the intermediate files in order; \<open>None\<close> when one of them cannot be opened.\<close>

fun readInter :: "string list \<Rightarrow> (string, KeyValue list) gomap \<Rightarrow> KeyValue list option" where
  "readInter [] m = Some []"
| "readInter (filename # rest) m =
     (case map_of m filename of None \<Rightarrow> None
      | Some kvs \<Rightarrow> map_option (\<lambda>r. kvs @ r) (readInter rest m))"

text \<open>The loop over runs of equal keys in the sorted pairs.\<close>

function groups :: "KeyValue list \<Rightarrow> (string \<times> string list) list" where
  "groups [] = []"
| "groups (kv # rest) =
     (kvKey kv, map kvValue (kv # takeWhile (\<lambda>x. kvKey x = kvKey kv) rest)) #
     groups (dropWhile (\<lambda>x. kvKey x = kvKey kv) rest)"
  by pat_completeness auto
termination
  by (relation "measure length") (auto simp: length_dropWhile_le less_Suc_eq_le)

definition renderLine :: "(string \<Rightarrow> string list \<Rightarrow> string) \<Rightarrow> string \<times> string list \<Rightarrow> string" where
  "renderLine reducef g = fst g @ '' '' @ reducef (fst g) (snd g) @ [CHR 0x0A]"

definition kv_less :: "KeyValue \<Rightarrow> KeyValue \<Rightarrow> bool" where
  "kv_less a b \<longleftrightarrow> kvKey a < kvKey b"

text \<open>\<open>None\<close>: \<open>doReduce\<close> returned early and reports nothing.\<close>

definition doReduce :: "(KeyValue list \<Rightarrow> KeyValue list) \<Rightarrow> (string \<Rightarrow> string list \<Rightarrow> string) \<Rightarrow> Worker_ \<Rightarrow> mr_files \<Rightarrow>
    (mr_files \<times> FinishTaskArgs) option" where
  "doReduce srt reducef w fs =
     (let taskId = tmTaskId (tkMetadata (wkTask w)) in
      case readInter (generateFileName (- taskId - 1) (wkMMap w)) (mfInter fs) of None \<Rightarrow> None
      | Some intermediate \<Rightarrow>
          Some (fs\<lparr>mfOut := mput (outName taskId) (concat (map (renderLine reducef) (groups (srt intermediate)))) (mfOut fs)\<rparr>,
                finishArgs w))"

subsection \<open>The worker's loop\<close>

datatype mr_err = RpcFailed | NoTask | AllTasksDone

text \<open>\<open>getOneTask\<close>: the answer of the call is \<open>None\<close> if it failed.\<close>

definition getOneTask :: "AskTaskReply option \<Rightarrow> Worker_ \<Rightarrow> Worker_ \<times> mr_err option" where
  "getOneTask res w =
     (case res of None \<Rightarrow> (w, Some RpcFailed)
      | Some reply \<Rightarrow>
          if arNReduce reply = 0 then (w, Some NoTask)
          else if arNReduce reply = -1 then (w, Some AllTasksDone)
          else (\<lparr>wkId = arWorkerId reply, wkTask = arTask reply, wkNReduce = arNReduce reply, wkMMap = arMMap reply,
                 wkTaskBeginTime = arTaskBeginTime reply\<rparr>, None))"

text \<open>One round of \<open>start\<close>: \<open>None\<close> if the loop is left; otherwise the files and the completion it reports.\<close>

definition startRound :: "(KeyValue list \<Rightarrow> KeyValue list) \<Rightarrow> (string \<Rightarrow> string \<Rightarrow> KeyValue list) \<Rightarrow> (string \<Rightarrow> string list \<Rightarrow> string) \<Rightarrow>
    AskTaskReply option \<Rightarrow> (nat \<Rightarrow> slot_io) \<Rightarrow> Worker_ \<times> mr_files \<Rightarrow> ((Worker_ \<times> mr_files) \<times> FinishTaskArgs option) option res" where
  "startRound srt mapf reducef res io s =
     (case s of (w0, fs) \<Rightarrow> case getOneTask res w0 of (w, err) \<Rightarrow>
      if err \<noteq> None \<and> err \<noteq> Some AllTasksDone then Inr None
      else if tmState (tkMetadata (wkTask w)) = MAP then
        (case doMap mapf io w fs of Inl e \<Rightarrow> Inl e | Inr (fs', args) \<Rightarrow> Inr (Some ((w, fs'), Some args)))
      else if tmState (tkMetadata (wkTask w)) = REDUCE then
        (case doReduce srt reducef w fs of None \<Rightarrow> Inr (Some ((w, fs), None)) | Some (fs', args) \<Rightarrow> Inr (Some ((w, fs'), Some args)))
      else Inr (Some ((w, fs), None)))"

subsection \<open>The sequential program\<close>

fun seqIntermediate :: "(string \<Rightarrow> string \<Rightarrow> KeyValue list) \<Rightarrow> string list \<Rightarrow> (string, string) gomap \<Rightarrow> KeyValue list res" where
  "seqIntermediate mapf [] m = Inr []"
| "seqIntermediate mapf (filename # rest) m =
     (case map_of m filename of None \<Rightarrow> Inl (Explicit (''cannot open '' @ filename))
      | Some content \<Rightarrow>
          (case seqIntermediate mapf rest m of Inl e \<Rightarrow> Inl e | Inr kva \<Rightarrow> Inr (mapf filename content @ kva)))"

definition mrsequential :: "(KeyValue list \<Rightarrow> KeyValue list) \<Rightarrow> (string \<Rightarrow> string \<Rightarrow> KeyValue list) \<Rightarrow> (string \<Rightarrow> string list \<Rightarrow> string) \<Rightarrow>
    string list \<Rightarrow> mr_files \<Rightarrow> mr_files res" where
  "mrsequential srt mapf reducef files fs =
     (case seqIntermediate mapf files (mfInput fs) of Inl e \<Rightarrow> Inl e
      | Inr intermediate \<Rightarrow>
          Inr (fs\<lparr>mfOut := mput ''mr-out-0'' (concat (map (renderLine reducef) (groups (srt intermediate)))) (mfOut fs)\<rparr>))"

definition wc_Reduce :: "string \<Rightarrow> string list \<Rightarrow> string" where
  "wc_Reduce key values = itoa (int (length values))"

subsection \<open>File names\<close>

definition digitVal :: "char \<Rightarrow> nat" where
  "digitVal ch = of_char ch - 48"

definition numVal :: "string \<Rightarrow> nat" where
  "numVal s = fold (\<lambda>ch v. 10 * v + digitVal ch) s 0"

lemma of_char_digit: "d < 10 \<Longrightarrow> (of_char (char_of (48 + d) :: char) :: nat) = 48 + d"
  by simp

lemma numVal_digits: "numVal (digits n) = n"
proof (induction n rule: digits.induct)
  case (1 n)
  show ?case
  proof (cases "n < 10")
    case True
    then show ?thesis by (subst digits.simps) (simp add: numVal_def digitVal_def)
  next
    case False
    have "digits n = digits (n div 10) @ [char_of (48 + n mod 10)]" using False by (subst digits.simps) simp
    moreover have "digitVal (char_of (48 + n mod 10)) = n mod 10" by (simp add: digitVal_def)
    ultimately show ?thesis using 1 False by (simp add: numVal_def)
  qed
qed

lemma digits_inject: "digits m = digits n \<longleftrightarrow> m = n"
  using numVal_digits by metis

lemma digits_dash: "CHR ''-'' \<notin> set (digits n)"
proof (induction n rule: digits.induct)
  case (1 n)
  have nd: "(CHR ''-'' :: char) \<noteq> char_of (48 + d)" if "d < 10" for d :: nat
  proof
    assume "CHR ''-'' = (char_of (48 + d) :: char)"
    then have "(of_char (CHR ''-'') :: nat) = of_char (char_of (48 + d) :: char)" by simp
    with of_char_digit[OF that] show False by simp
  qed
  show ?case
  proof (cases "n < 10")
    case True
    then show ?thesis using nd[of n] by (subst digits.simps) simp
  next
    case False
    have e: "digits n = digits (n div 10) @ [char_of (48 + n mod 10)]" using False by (subst digits.simps) simp
    show ?thesis using 1[OF False] nd[of "n mod 10"] unfolding e by simp
  qed
qed

lemma interName_inject [simp]: "interName (int a) (int b) = interName (int c) (int d) \<longleftrightarrow> a = c \<and> b = d"
proof
  assume "interName (int a) (int b) = interName (int c) (int d)"
  then have e: "digits a @ CHR ''-'' # digits b = digits c @ CHR ''-'' # digits d"
    by (simp add: interName_def itoa_def)
  have tw: "takeWhile (\<lambda>x. x \<noteq> CHR ''-'') (digits x @ CHR ''-'' # digits y) = digits x" for x y
    using digits_dash[of x] by (subst takeWhile_append2) auto
  have "digits a = digits c" using arg_cong[OF e, of "takeWhile (\<lambda>x. x \<noteq> CHR ''-'')"] by (simp only: tw)
  with e show "a = c \<and> b = d" by (simp add: digits_inject)
qed simp

subsection \<open>The map side\<close>

text \<open>The bucket of a key.\<close>

definition bucket :: "int \<Rightarrow> string \<Rightarrow> nat" where
  "bucket nReduce key = nat (ihash key mod nReduce)"

lemma bucket_less: "0 < nReduce \<Longrightarrow> bucket nReduce key < nat nReduce"
  by (simp add: bucket_def nat_less_iff)

lemma slotLoop_buckets:
  assumes "0 < nReduce" "length slot = nat nReduce"
  shows "\<exists>slot'. slotLoop nReduce kvs slot = Inr slot' \<and> length slot' = nat nReduce \<and>
    (\<forall>r < nat nReduce. slot' ! r = slot ! r @ filter (\<lambda>kv. bucket nReduce (kvKey kv) = r) kvs)"
  using assms(2)
proof (induction kvs arbitrary: slot)
  case (Cons kv kvs)
  let ?i = "bucket nReduce (kvKey kv)"
  have i: "?i < length slot" using bucket_less[OF assms(1)] Cons.prems by simp
  have rem: "go_rem (ihash (kvKey kv)) nReduce = int ?i"
    using assms(1) by (simp add: bucket_def ihash_def)
  let ?s = "slot[?i := slot ! ?i @ [kv]]"
  have "slotLoop nReduce (kv # kvs) slot = slotLoop nReduce kvs ?s"
    using assms(1) i by (simp add: rem go_nth_def go_set_def Let_def)
  moreover obtain slot' where "slotLoop nReduce kvs ?s = Inr slot'" "length slot' = nat nReduce"
      "\<forall>r < nat nReduce. slot' ! r = ?s ! r @ filter (\<lambda>kv. bucket nReduce (kvKey kv) = r) kvs"
    using Cons.IH[of ?s] Cons.prems by auto
  ultimately show ?case using i by (auto simp: nth_list_update)
qed simp

lemma writeSlots_keep:
  assumes "writeSlots io (int t) i slot m = Inr m'" "\<And>r. r < length slot \<Longrightarrow> io (i + r) = Renamed \<Longrightarrow> name \<noteq> interName (int t) (int (i + r))"
  shows "map_of m' name = map_of m name"
  using assms
proof (induction slot arbitrary: i m)
  case (Cons s slot)
  let ?m = "if io i = Renamed then mput (interName (int t) (int i)) (map jsonKV s) m else m"
  have "writeSlots io (int t) (i + 1) slot ?m = Inr m'" using Cons.prems(1) by (auto simp: Let_def split: slot_io.splits)
  then have "map_of m' name = map_of ?m name"
    by (rule Cons.IH) (use Cons.prems(2)[of "Suc r" for r] in simp)
  with Cons.prems(2)[of 0] show ?case by simp
qed simp

lemma writeSlots_lookup:
  assumes "writeSlots io (int t) i slot m = Inr m'" "r < length slot" "io (i + r) = Renamed"
  shows "map_of m' (interName (int t) (int (i + r))) = Some (map jsonKV (slot ! r))"
  using assms
proof (induction slot arbitrary: i m r)
  case (Cons s slot)
  let ?m = "if io i = Renamed then mput (interName (int t) (int i)) (map jsonKV s) m else m"
  have w: "writeSlots io (int t) (i + 1) slot ?m = Inr m'" using Cons.prems(1) by (auto simp: Let_def split: slot_io.splits)
  show ?case
  proof (cases r)
    case 0
    have "map_of m' (interName (int t) (int i)) = map_of ?m (interName (int t) (int i))"
      by (rule writeSlots_keep[OF w]) (simp del: of_nat_add of_nat_Suc)
    with 0 Cons.prems(3) show ?thesis by simp
  next
    case (Suc q)
    have "map_of m' (interName (int t) (int (i + 1 + q))) = Some (map jsonKV (slot ! q))"
      by (rule Cons.IH[OF w]) (use Cons.prems Suc in simp_all)
    with Suc show ?thesis by (simp add: add.assoc)
  qed
qed simp

lemma writeSlots_total: "\<forall>r. io r \<noteq> NoTemp \<Longrightarrow> \<exists>m'. writeSlots io t i slot m = Inr m'"
proof (induction slot arbitrary: i m)
  case (Cons s slot)
  then show ?case by (cases "io i") (auto simp: Let_def)
qed simp

text \<open>The worker that runs map task \<open>i\<close> or reduce task \<open>r\<close>, as the coordinator's reply sets it up.\<close>

definition mapTask :: "string list \<Rightarrow> nat \<Rightarrow> Task" where
  "mapTask files i = \<lparr>tkStatus = Inprogress, tkMetadata = zero_meta\<lparr>tmTaskId := int i, tmFilename := files ! i, tmState := MAP\<rparr>\<rparr>"

definition reduceTask :: "nat \<Rightarrow> Task" where
  "reduceTask r = \<lparr>tkStatus = Inprogress, tkMetadata = zero_meta\<lparr>tmTaskId := - int r - 1, tmState := REDUCE\<rparr>\<rparr>"

definition workerOn :: "Task \<Rightarrow> int \<Rightarrow> nat \<Rightarrow> Worker_" where
  "workerOn task nReduce mMap = \<lparr>wkId = 0, wkTask = task, wkNReduce = nReduce, wkMMap = int mMap, wkTaskBeginTime = 0\<rparr>"

text \<open>
  The map tasks in the order in which workers run them, each run with what happens to its files; a task may be run more than once. A
  worker that dies on the way is a run whose remaining renames do not happen.
\<close>

fun runMaps :: "(string \<Rightarrow> string \<Rightarrow> KeyValue list) \<Rightarrow> string list \<Rightarrow> int \<Rightarrow> (nat \<times> (nat \<Rightarrow> slot_io)) list \<Rightarrow> mr_files \<Rightarrow> mr_files res" where
  "runMaps mapf files nReduce [] fs = Inr fs"
| "runMaps mapf files nReduce ((i, io) # is) fs =
     (case doMap mapf io (workerOn (mapTask files i) nReduce (length files)) fs of Inl e \<Rightarrow> Inl e
      | Inr (fs', _) \<Rightarrow> runMaps mapf files nReduce is fs')"

definition emitted :: "(string \<Rightarrow> string \<Rightarrow> KeyValue list) \<Rightarrow> mr_files \<Rightarrow> string \<Rightarrow> KeyValue list" where
  "emitted mapf fs f = mapf f (the (map_of (mfInput fs) f))"

definition interFile :: "(string \<Rightarrow> string \<Rightarrow> KeyValue list) \<Rightarrow> mr_files \<Rightarrow> int \<Rightarrow> string \<Rightarrow> nat \<Rightarrow> KeyValue list" where
  "interFile mapf fs nReduce f r = map jsonKV (filter (\<lambda>kv. bucket nReduce (kvKey kv) = r) (emitted mapf fs f))"

lemma doMap_effect:
  assumes "0 < nReduce" "i < length files" "map_of (mfInput fs) (files ! i) \<noteq> None" "\<forall>r. io r \<noteq> NoTemp"
  shows "\<exists>fs' args. doMap mapf io (workerOn (mapTask files i) nReduce n) fs = Inr (fs', args) \<and> mfInput fs' = mfInput fs \<and>
    (\<forall>j r. r < nat nReduce \<longrightarrow> map_of (mfInter fs') (interName (int j) (int r)) =
       (if j = i \<and> io r = Renamed then Some (interFile mapf fs nReduce (files ! i) r) else map_of (mfInter fs) (interName (int j) (int r))))"
proof -
  obtain content where ct: "map_of (mfInput fs) (files ! i) = Some content" using assms(3) by auto
  have em: "emitted mapf fs (files ! i) = mapf (files ! i) content" by (simp add: emitted_def ct)
  obtain slot where slot: "slotLoop nReduce (mapf (files ! i) content) (replicate (nat nReduce) []) = Inr slot"
      "length slot = nat nReduce" "\<forall>r < nat nReduce. slot ! r = filter (\<lambda>kv. bucket nReduce (kvKey kv) = r) (mapf (files ! i) content)"
    using slotLoop_buckets[OF assms(1), of "replicate (nat nReduce) []" "mapf (files ! i) content"] by auto
  obtain im where im: "writeSlots io (int i) 0 slot (mfInter fs) = Inr im" using writeSlots_total[OF assms(4)] by blast
  have "doMap mapf io (workerOn (mapTask files i) nReduce n) fs = Inr (fs\<lparr>mfInter := im\<rparr>, finishArgs (workerOn (mapTask files i) nReduce n))"
    using assms(1) ct slot(1) im by (simp add: doMap_def workerOn_def mapTask_def Let_def)
  moreover have "map_of im (interName (int i) (int r)) = Some (interFile mapf fs nReduce (files ! i) r)" if "r < nat nReduce" "io r = Renamed" for r
    using writeSlots_lookup[OF im, of r] that slot em by (simp add: interFile_def)
  moreover have "map_of im (interName (int j) (int r)) = map_of (mfInter fs) (interName (int j) (int r))" if "\<not> (j = i \<and> io r = Renamed)" for j r
    by (rule writeSlots_keep[OF im]) (use that in auto)
  ultimately show ?thesis by auto
qed

lemma runMaps_effect:
  assumes "0 < nReduce" "\<And>i io. (i, io) \<in> set ms \<Longrightarrow> i < length files \<and> map_of (mfInput fs) (files ! i) \<noteq> None \<and> (\<forall>r. io r \<noteq> NoTemp)"
  shows "\<exists>fs'. runMaps mapf files nReduce ms fs = Inr fs' \<and> mfInput fs' = mfInput fs \<and>
    (\<forall>i r. r < nat nReduce \<longrightarrow> map_of (mfInter fs') (interName (int i) (int r)) =
       (if \<exists>io. (i, io) \<in> set ms \<and> io r = Renamed then Some (interFile mapf fs nReduce (files ! i) r)
        else map_of (mfInter fs) (interName (int i) (int r))))"
  using assms(2)
proof (induction ms arbitrary: fs)
  case (Cons m ms)
  obtain i io where m: "m = (i, io)" by (cases m)
  obtain fs1 args where f1: "doMap mapf io (workerOn (mapTask files i) nReduce (length files)) fs = Inr (fs1, args)" "mfInput fs1 = mfInput fs"
      "\<And>j r. r < nat nReduce \<Longrightarrow> map_of (mfInter fs1) (interName (int j) (int r)) =
         (if j = i \<and> io r = Renamed then Some (interFile mapf fs nReduce (files ! i) r) else map_of (mfInter fs) (interName (int j) (int r)))"
    using doMap_effect[OF assms(1), of i files fs io mapf "length files"] Cons.prems[of i io] m by auto
  have em: "interFile mapf fs1 nReduce f r = interFile mapf fs nReduce f r" for f r by (simp add: interFile_def emitted_def f1(2))
  obtain fs' where f': "runMaps mapf files nReduce ms fs1 = Inr fs'" "mfInput fs' = mfInput fs1"
      "\<And>i r. r < nat nReduce \<Longrightarrow> map_of (mfInter fs') (interName (int i) (int r)) =
       (if \<exists>io. (i, io) \<in> set ms \<and> io r = Renamed then Some (interFile mapf fs1 nReduce (files ! i) r)
        else map_of (mfInter fs1) (interName (int i) (int r)))"
    using Cons.IH[of fs1] Cons.prems f1(2) by auto
  show ?case using f'(1,2) f1(1,2) m by (intro exI[of _ fs']) (auto simp: f'(3) f1(3) em)
qed simp

text \<open>A failed rename goes unnoticed: the task is reported as finished and its intermediate files are not there.\<close>

lemma doMap_rename_lost:
  assumes "0 < wkNReduce w" "map_of (mfInput fs) (tmFilename (tkMetadata (wkTask w))) \<noteq> None"
  shows "doMap mapf (\<lambda>_. NoRename) w fs = Inr (fs, finishArgs w)"
proof -
  obtain content where ct: "map_of (mfInput fs) (tmFilename (tkMetadata (wkTask w))) = Some content" using assms(2) by auto
  have "writeSlots (\<lambda>_. NoRename) t i slot m = Inr m" for t i slot m by (induction slot arbitrary: i) (simp_all add: Let_def)
  with ct slotLoop_buckets[OF assms(1), of "replicate (nat (wkNReduce w)) []" "mapf (tmFilename (tkMetadata (wkTask w))) content"] assms(1)
  show ?thesis by (auto simp: doMap_def Let_def)
qed

subsection \<open>Runs of equal keys\<close>

definition valuesOf :: "KeyValue list \<Rightarrow> string \<Rightarrow> string list" where
  "valuesOf kvs k = map kvValue (filter (\<lambda>kv. kvKey kv = k) kvs)"

definition reportOf :: "(string \<Rightarrow> string list \<Rightarrow> string) \<Rightarrow> KeyValue list \<Rightarrow> string list \<Rightarrow> string" where
  "reportOf reducef kvs ks = concat (map (\<lambda>k. renderLine reducef (k, valuesOf kvs k)) ks)"

definition keysOf :: "KeyValue list \<Rightarrow> string list" where
  "keysOf kvs = sorted_list_of_set (kvKey ` set kvs)"

definition order_blind :: "(string \<Rightarrow> string list \<Rightarrow> string) \<Rightarrow> bool" where
  "order_blind reducef \<longleftrightarrow> (\<forall>k vs vs'. mset vs = mset vs' \<longrightarrow> reducef k vs = reducef k vs')"

lemma sorted_run:
  fixes rest :: "KeyValue list"
  assumes "sorted (map kvKey (kv # rest))"
  shows "takeWhile (\<lambda>x. kvKey x = kvKey kv) rest = filter (\<lambda>x. kvKey x = kvKey kv) rest"
    and "dropWhile (\<lambda>x. kvKey x = kvKey kv) rest = filter (\<lambda>x. kvKey x \<noteq> kvKey kv) rest"
  using assms
proof (induction rest)
  case (Cons x rest)
  {
    case 1
    show ?case
    proof (cases "kvKey x = kvKey kv")
      case False
      then have "filter (\<lambda>y. kvKey y = kvKey kv) rest = []" using 1 by (auto simp: filter_empty_conv)
      with False show ?thesis by simp
    qed (use 1 Cons in simp)
  next
    case 2
    show ?case
    proof (cases "kvKey x = kvKey kv")
      case False
      then have "filter (\<lambda>y. kvKey y \<noteq> kvKey kv) rest = rest" using 2 by (auto simp: filter_id_conv)
      with False show ?thesis by simp
    qed (use 2 Cons in simp)
  }
qed simp_all

lemma groups_sorted:
  "sorted (map kvKey xs) \<Longrightarrow> groups xs = map (\<lambda>k. (k, valuesOf xs k)) (keysOf xs)"
proof (induction xs rule: groups.induct)
  case (2 kv rest)
  let ?k = "kvKey kv" let ?rest = "filter (\<lambda>x. kvKey x \<noteq> kvKey kv) rest"
  note run = sorted_run[OF "2.prems"]
  have srt: "sorted (map kvKey ?rest)" using "2.prems" sorted_filter[of kvKey rest] by simp
  have IH: "groups ?rest = map (\<lambda>k. (k, valuesOf ?rest k)) (keysOf ?rest)" using "2.IH" srt unfolding run by simp
  have lt: "\<forall>k \<in> kvKey ` set ?rest. ?k < k" using "2.prems" by (auto simp: order.strict_iff_order)
  have keys: "keysOf (kv # rest) = ?k # keysOf ?rest"
  proof -
    have "kvKey ` set (kv # rest) = insert ?k (kvKey ` set ?rest)" by auto
    moreover have "sorted (?k # keysOf ?rest)" "distinct (?k # keysOf ?rest)"
      using lt by (auto simp: keysOf_def)
    moreover have "set (?k # keysOf ?rest) = insert ?k (kvKey ` set ?rest)" by (simp add: keysOf_def)
    ultimately show ?thesis unfolding keysOf_def
      by (metis List.finite_set distinct_sorted_list_of_set set_sorted_list_of_set sorted_distinct_set_unique sorted_sorted_list_of_set)
  qed
  have "valuesOf ?rest k = valuesOf (kv # rest) k" if "k \<in> set (keysOf ?rest)" for k
    using that by (auto simp: valuesOf_def keysOf_def filter_filter intro!: arg_cong[of _ _ "map kvValue"] filter_cong)
  then show ?case unfolding groups.simps run IH keys by (simp add: valuesOf_def)
qed (simp add: keysOf_def)

lemma report_sorted:
  assumes "sorts_by kv_less srt" "order_blind reducef"
  shows "concat (map (renderLine reducef) (groups (srt xs))) = reportOf reducef xs (keysOf xs)"
proof -
  have ms: "mset (srt xs) = mset xs" and "sorted_wrt (\<lambda>a b. \<not> kv_less b a) (srt xs)"
    using assms(1) by (simp_all add: sorts_by_def)
  then have "sorted (map kvKey (srt xs))" by (simp add: kv_less_def sorted_map not_less)
  then have "groups (srt xs) = map (\<lambda>k. (k, valuesOf (srt xs) k)) (keysOf (srt xs))" by (rule groups_sorted)
  moreover have "keysOf (srt xs) = keysOf xs" using sorts_by_set[OF assms(1)] by (simp add: keysOf_def)
  moreover have "mset (valuesOf (srt xs) k) = mset (valuesOf xs k)" for k by (simp add: valuesOf_def ms)
  then have "renderLine reducef (k, valuesOf (srt xs) k) = renderLine reducef (k, valuesOf xs k)" for k
    using assms(2) unfolding renderLine_def order_blind_def by (metis fst_conv snd_conv)
  ultimately show ?thesis by (simp add: reportOf_def comp_def)
qed

lemma report_bucket:
  "reportOf reducef (filter (\<lambda>kv. P (kvKey kv)) xs) (keysOf (filter (\<lambda>kv. P (kvKey kv)) xs)) =
     reportOf reducef xs (filter P (keysOf xs))"
proof -
  let ?ys = "filter (\<lambda>kv. P (kvKey kv)) xs"
  have keys: "keysOf ?ys = filter P (keysOf xs)"
  proof (rule sorted_distinct_set_unique)
    show "sorted (filter P (keysOf xs))" using sorted_filter[of "\<lambda>x. x" "keysOf xs" P] by (simp add: keysOf_def)
  qed (auto simp: keysOf_def)
  have "valuesOf ?ys k = valuesOf xs k" if "k \<in> set (filter P (keysOf xs))" for k
    using that by (auto simp: valuesOf_def filter_filter intro!: arg_cong[of _ _ "map kvValue"] filter_cong)
  then show ?thesis unfolding keys reportOf_def by (intro arg_cong[of _ _ concat] map_cong) simp_all
qed

subsection \<open>The distributed run against the sequential one\<close>

fun runReduces :: "(KeyValue list \<Rightarrow> KeyValue list) \<Rightarrow> (string \<Rightarrow> string list \<Rightarrow> string) \<Rightarrow> int \<Rightarrow> nat \<Rightarrow> nat list \<Rightarrow> mr_files \<Rightarrow> mr_files option" where
  "runReduces srt reducef nReduce mMap [] fs = Some fs"
| "runReduces srt reducef nReduce mMap (r # rs) fs =
     (case doReduce srt reducef (workerOn (reduceTask r) nReduce mMap) fs of None \<Rightarrow> None
      | Some (fs', _) \<Rightarrow> runReduces srt reducef nReduce mMap rs fs')"

lemma outName_inject: "outName (- int a - 1) = outName (- int b - 1) \<longleftrightarrow> a = b"
proof -
  have "outName (- int x - 1) = ''mr-out--'' @ digits (x + 1)" for x by (simp add: outName_def itoa_def nat_add_distrib add.commute)
  then show ?thesis by (simp add: digits_inject)
qed

lemma readInter_all: "(\<And>x. x \<in> set xs \<Longrightarrow> map_of m (f x) = Some (g x)) \<Longrightarrow> readInter (map f xs) m = Some (concat (map g xs))"
  by (induction xs) auto

lemma seqIntermediate_all:
  "(\<And>f. f \<in> set files \<Longrightarrow> map_of (mfInput fs) f \<noteq> None) \<Longrightarrow>
   seqIntermediate mapf files (mfInput fs) = Inr (concat (map (emitted mapf fs) files))"
proof (induction files)
  case (Cons f files)
  obtain content where "map_of (mfInput fs) f = Some content" using Cons.prems[of f] by auto
  with Cons show ?case by (simp add: emitted_def)
qed simp

lemma doReduce_effect:
  assumes "sorts_by kv_less srt" "order_blind reducef"
    and inter: "\<And>i. i < n \<Longrightarrow> map_of (mfInter fs) (interName (int i) (int r)) = Some (filter (\<lambda>kv. bucket nReduce (kvKey kv) = r) (g i))"
  shows "\<exists>args. doReduce srt reducef (workerOn (reduceTask r) nReduce n) fs =
    Some (fs\<lparr>mfOut := mput (outName (- int r - 1))
      (reportOf reducef (concat (map g [0..<n])) (filter (\<lambda>k. bucket nReduce k = r) (keysOf (concat (map g [0..<n]))))) (mfOut fs)\<rparr>, args)"
proof -
  let ?all = "concat (map g [0..<n])" let ?P = "\<lambda>k. bucket nReduce k = r"
  have "readInter (generateFileName (int r) (int n)) (mfInter fs) = Some (concat (map (\<lambda>i. filter (\<lambda>kv. ?P (kvKey kv)) (g i)) [0..<n]))"
    unfolding generateFileName_def nat_int by (rule readInter_all) (simp add: inter)
  also have "concat (map (\<lambda>i. filter (\<lambda>kv. ?P (kvKey kv)) (g i)) [0..<n]) = filter (\<lambda>kv. ?P (kvKey kv)) ?all"
    by (simp add: filter_concat comp_def)
  finally show ?thesis
    by (simp add: doReduce_def Let_def workerOn_def reduceTask_def report_sorted[OF assms(1,2)] report_bucket[of reducef ?P])
qed

lemma runReduces_effect:
  assumes "sorts_by kv_less srt" "order_blind reducef"
    and inter: "\<And>i r. i < n \<Longrightarrow> r \<in> set rs \<Longrightarrow>
      map_of (mfInter fs) (interName (int i) (int r)) = Some (filter (\<lambda>kv. bucket nReduce (kvKey kv) = r) (g i))"
    and all: "all = concat (map g [0..<n])"
  shows "\<exists>fs'. runReduces srt reducef nReduce n rs fs = Some fs' \<and>
    (\<forall>r. map_of (mfOut fs') (outName (- int r - 1)) =
      (if r \<in> set rs then Some (reportOf reducef all (filter (\<lambda>k. bucket nReduce k = r) (keysOf all)))
       else map_of (mfOut fs) (outName (- int r - 1))))"
  using inter
proof (induction rs arbitrary: fs)
  case (Cons r rs)
  let ?fs = "fs\<lparr>mfOut := mput (outName (- int r - 1)) (reportOf reducef all (filter (\<lambda>k. bucket nReduce k = r) (keysOf all))) (mfOut fs)\<rparr>"
  obtain args where a: "doReduce srt reducef (workerOn (reduceTask r) nReduce n) fs = Some (?fs, args)"
    using doReduce_effect[OF assms(1,2), of n fs r nReduce g] Cons.prems unfolding all by auto
  obtain fs' where f': "runReduces srt reducef nReduce n rs ?fs = Some fs'"
      "\<And>q. map_of (mfOut fs') (outName (- int q - 1)) =
        (if q \<in> set rs then Some (reportOf reducef all (filter (\<lambda>k. bucket nReduce k = q) (keysOf all)))
         else map_of (mfOut ?fs) (outName (- int q - 1)))"
    using Cons.IH[of ?fs] Cons.prems by auto
  show ?case using a f' by (intro exI[of _ fs']) (auto simp: outName_inject)
qed simp

subsection \<open>Valid strings\<close>

lemma jsonString_ascii: "\<forall>c \<in> set s. of_char c < (128 :: nat) \<Longrightarrow> jsonString s = s"
proof (induction s)
  case (Cons c s)
  then have "runeSize (c # s) = 1" by (simp add: runeSize_def rune1_def cont_def)
  with Cons show ?case by simp
qed simp

lemma cont_append: "i < length s \<Longrightarrow> cont (s @ t) i lo hi = cont s i lo hi"
  by (simp add: cont_def nth_append)

lemma cont_take: "i < n \<Longrightarrow> cont (take n s) i lo hi = cont s i lo hi"
  by (auto simp: cont_def)

lemma cont_len: "cont s i lo hi \<Longrightarrow> Suc i \<le> length s"
  by (simp add: cont_def)

lemma runeSize_le: "runeSize s \<le> length s"
proof -
  have "rune1 s \<Longrightarrow> 1 \<le> length s" unfolding rune1_def by (auto dest: cont_len)
  moreover have "rune2 s \<Longrightarrow> 2 \<le> length s" unfolding rune2_def by (auto dest: cont_len)
  moreover have "rune3 s \<Longrightarrow> 3 \<le> length s" unfolding rune3_def using cont_len[of s 2 "0x80" "0xBF"] by simp
  moreover have "rune4 s \<Longrightarrow> 4 \<le> length s" unfolding rune4_def using cont_len[of s 3 "0x80" "0xBF"] by simp
  ultimately show ?thesis by (auto simp: runeSize_def)
qed

lemma runeSize_same:
  assumes c: "\<And>i lo hi. i < runeSize s \<Longrightarrow> cont s' i lo hi = cont s i lo hi" and n0: "runeSize s \<noteq> 0"
  shows "runeSize s' = runeSize s"
proof -
  have c1: "rune1 s' = rune1 s" using c n0 by (simp add: rune1_def)
  have c2: "rune2 s' = rune2 s" if "2 \<le> runeSize s" using c that by (simp add: rune2_def)
  have c3: "rune3 s' = rune3 s" if "3 \<le> runeSize s" using c that by (simp add: rune3_def)
  have c4: "rune4 s' = rune4 s" if "4 \<le> runeSize s" using c that by (simp add: rune4_def)
  show ?thesis using c1 c2 c3 c4 n0 by (auto simp: runeSize_def split: if_splits)
qed

lemma runeSize_take:
  assumes "runeSize s \<noteq> 0"
  shows "runeSize (take (runeSize s) s @ t) = runeSize s"
proof (rule runeSize_same)
  show "cont (take (runeSize s) s @ t) i lo hi = cont s i lo hi" if "i < runeSize s" for i lo hi
    using that runeSize_le[of s] by (simp add: cont_append cont_take)
qed (fact assms)

lemma jsonString_rune:
  assumes "runeSize (u @ t) = length u" "u \<noteq> []"
  shows "jsonString (u @ t) = u @ jsonString t"
proof -
  obtain c v where u: "u = c # v" using assms(2) by (cases u) auto
  have "jsonString (c # (v @ t)) = take (length u) (u @ t) @ jsonString (drop (length u) (u @ t))"
    using assms u by (subst jsonString.simps(2)) simp
  then show ?thesis using u by simp
qed

text \<open>What was decoded once is encoded and decoded without further change.\<close>

lemma jsonString_idem: "jsonString (jsonString s) = jsonString s"
proof (induction s rule: jsonString.induct)
  case (2 c s)
  have err: "jsonString (runeError @ t) = runeError @ jsonString t" for t
    by (rule jsonString_rune) (simp_all add: runeSize_def rune1_def rune2_def rune3_def runeError_def cont_def)
  show ?case
  proof (cases "runeSize (c # s) = 0")
    case True
    with 2 err show ?thesis by simp
  next
    case False
    let ?n = "runeSize (c # s)" let ?t = "jsonString (drop ?n (c # s))"
    have "jsonString (take ?n (c # s) @ ?t) = take ?n (c # s) @ jsonString ?t"
      by (rule jsonString_rune) (use runeSize_take[OF False] runeSize_le[of "c # s"] False in simp_all)
    moreover have "jsonString (c # s) = take ?n (c # s) @ ?t" using False by simp
    ultimately show ?thesis using 2(2)[OF False] by simp
  qed
qed simp

text \<open>C39: Running every map task, in any order and some of them more than once, and then every reduce task, in any order
  and some of them more than once, gives what the sequential program writes: with \<open>ks\<close> the keys in increasing order,
  the sequential report has the line of every key of \<open>ks\<close>, and output file \<open>r\<close> has exactly the same lines for the keys
  that hash to \<open>r\<close>. The reduce function must not depend on the order of its values. The keys and values that \<open>Map\<close> emits must be valid UTF-8,
  since the intermediate files are JSON; temporary files can be created, and for every map task and bucket some run of the task got its file
  renamed, other renames may fail.\<close>

theorem mapreduce_sequential:
  assumes "0 < nReduce" "set rs = {..<nat nReduce}"
    and ms: "\<forall>m \<in> set ms. fst m < length files \<and> (\<forall>r. snd m r \<noteq> NoTemp)"
    and renamed: "\<forall>i < length files. \<forall>r < nat nReduce. \<exists>m \<in> set ms. fst m = i \<and> snd m r = Renamed"
    and "\<forall>f \<in> set files. map_of (mfInput fs) f \<noteq> None"
    and valid: "\<forall>f \<in> set files. \<forall>kv \<in> set (emitted mapf fs f). jsonKV kv = kv"
    and "sorts_by kv_less srt" "sorts_by kv_less srt'" "order_blind reducef"
  shows "\<exists>fs1 fs2 fs3 all ks. runMaps mapf files nReduce ms fs = Inr fs1 \<and>
    runReduces srt reducef nReduce (length files) rs fs1 = Some fs2 \<and>
    mrsequential srt' mapf reducef files fs = Inr fs3 \<and>
    seqIntermediate mapf files (mfInput fs) = Inr all \<and> sorted ks \<and> distinct ks \<and> set ks = kvKey ` set all \<and>
    map_of (mfOut fs3) ''mr-out-0'' = Some (reportOf reducef all ks) \<and>
    (\<forall>r < nat nReduce. map_of (mfOut fs2) (outName (- int r - 1)) = Some (reportOf reducef all (filter (\<lambda>k. bucket nReduce k = r) ks)))"
proof -
  let ?all = "concat (map (emitted mapf fs) files)"
  have inter: "interFile mapf fs nReduce (files ! i) r = filter (\<lambda>kv. bucket nReduce (kvKey kv) = r) (emitted mapf fs (files ! i))"
    if "i < length files" for i r
    unfolding interFile_def by (rule map_idI) (use valid that in auto)
  have "\<exists>fs1. runMaps mapf files nReduce ms fs = Inr fs1 \<and> mfInput fs1 = mfInput fs \<and>
      (\<forall>i r. r < nat nReduce \<longrightarrow> map_of (mfInter fs1) (interName (int i) (int r)) =
       (if \<exists>io. (i, io) \<in> set ms \<and> io r = Renamed then Some (interFile mapf fs nReduce (files ! i) r)
        else map_of (mfInter fs) (interName (int i) (int r))))"
    by (rule runMaps_effect) (use assms(1,5) ms in fastforce)+
  then obtain fs1 where f1: "runMaps mapf files nReduce ms fs = Inr fs1"
      "\<And>i r. r < nat nReduce \<Longrightarrow> map_of (mfInter fs1) (interName (int i) (int r)) =
       (if \<exists>io. (i, io) \<in> set ms \<and> io r = Renamed then Some (interFile mapf fs nReduce (files ! i) r)
        else map_of (mfInter fs) (interName (int i) (int r)))" by blast
  have f1': "map_of (mfInter fs1) (interName (int i) (int r)) =
      Some (filter (\<lambda>kv. bucket nReduce (kvKey kv) = r) (emitted mapf fs (files ! i)))" if "i < length files" "r < nat nReduce" for i r
  proof -
    have "\<exists>io. (i, io) \<in> set ms \<and> io r = Renamed" using renamed that by fastforce
    then show ?thesis using f1(2)[OF that(2), of i] inter[OF that(1)] by simp
  qed
  have "map (\<lambda>i. emitted mapf fs (files ! i)) [0..<length files] = map (emitted mapf fs) files"
    by (rule nth_equalityI) simp_all
  then have all: "?all = concat (map (\<lambda>i. emitted mapf fs (files ! i)) [0..<length files])" by simp
  obtain fs2 where f2: "runReduces srt reducef nReduce (length files) rs fs1 = Some fs2"
      "\<forall>r < nat nReduce. map_of (mfOut fs2) (outName (- int r - 1)) = Some (reportOf reducef ?all (filter (\<lambda>k. bucket nReduce k = r) (keysOf ?all)))"
    using runReduces_effect[OF assms(7,9) _ all, of rs fs1 nReduce] f1' assms(2) by auto
  have sq: "seqIntermediate mapf files (mfInput fs) = Inr ?all" using assms(5) by (intro seqIntermediate_all) simp
  obtain fs3 where f3: "mrsequential srt' mapf reducef files fs = Inr fs3" "map_of (mfOut fs3) ''mr-out-0'' = Some (reportOf reducef ?all (keysOf ?all))"
    by (simp add: mrsequential_def sq report_sorted[OF assms(8,9)])
  have ks: "sorted (keysOf ?all)" "distinct (keysOf ?all)" "set (keysOf ?all) = kvKey ` set ?all" by (simp_all add: keysOf_def)
  show ?thesis using f1(1) f2 f3 sq ks by blast
qed

lemma sort_key_sorts: "sorts_by kv_less (sort_key kvKey)"
proof -
  have "sorted_wrt (\<lambda>a b. \<not> kv_less b a) (sort_key kvKey xs)" for xs
    using sorted_sort_key[of kvKey xs] by (simp add: kv_less_def sorted_map not_less)
  then show ?thesis by (simp add: sorts_by_def)
qed

lemma wc_order_blind: "order_blind wc_Reduce"
  unfolding order_blind_def wc_Reduce_def using mset_eq_length by fastforce

definition letters :: "string \<Rightarrow> string \<Rightarrow> KeyValue list" where
  "letters filename contents = map (\<lambda>ch. \<lparr>kvKey = [ch], kvValue = ''1''\<rparr>) contents"

definition two_files :: mr_files where
  "two_files = \<lparr>mfInput = [(''a'', ''xy''), (''b'', ''zx'')], mfInter = [], mfOut = []\<rparr>"

text \<open>The first run of task 1 gets only bucket 0 renamed.\<close>

definition three_runs :: "(nat \<times> (nat \<Rightarrow> slot_io)) list" where
  "three_runs = [(1, \<lambda>r. if r = 0 then Renamed else NoRename), (0, \<lambda>_. Renamed), (1, \<lambda>_. Renamed)]"

lemma letters_valid: "\<forall>f \<in> set [''a'', ''b'']. \<forall>kv \<in> set (emitted letters two_files f). jsonKV kv = kv"
  by (simp add: emitted_def letters_def two_files_def jsonKV_def jsonString_ascii del: jsonString.simps)

theorem mapreduce_sequential_witness:
  "set [1, 0] = {..<nat 2} \<and>
   (\<exists>fs1 fs2 fs3 all ks. runMaps letters [''a'', ''b''] 2 three_runs two_files = Inr fs1 \<and>
    runReduces (sort_key kvKey) wc_Reduce 2 2 [1, 0] fs1 = Some fs2 \<and>
    mrsequential (sort_key kvKey) letters wc_Reduce [''a'', ''b''] two_files = Inr fs3 \<and>
    seqIntermediate letters [''a'', ''b''] (mfInput two_files) = Inr all \<and> sorted ks \<and> distinct ks \<and> set ks = kvKey ` set all \<and>
    map_of (mfOut fs3) ''mr-out-0'' = Some (reportOf wc_Reduce all ks) \<and>
    (\<forall>r < nat 2. map_of (mfOut fs2) (outName (- int r - 1)) = Some (reportOf wc_Reduce all (filter (\<lambda>k. bucket 2 k = r) ks))))"
proof -
  have rs: "set [1, 0] = {..<nat 2}" by auto
  have ms: "\<forall>m \<in> set three_runs. fst m < length [''a'', ''b''] \<and> (\<forall>r. snd m r \<noteq> NoTemp)" by (simp add: three_runs_def)
  have ren: "\<forall>i < length [''a'', ''b'']. \<forall>r < nat 2. \<exists>m \<in> set three_runs. fst m = i \<and> snd m r = Renamed"
    by (auto simp: three_runs_def less_Suc_eq)
  have ex: "\<forall>f \<in> set [''a'', ''b'']. map_of (mfInput two_files) f \<noteq> None" by (simp add: two_files_def)
  have len: "length [''a'', ''b''] = 2" by simp
  show ?thesis
    using rs mapreduce_sequential[OF _ rs ms ren ex letters_valid sort_key_sorts sort_key_sorts wc_order_blind, unfolded len]
    by simp
qed

end
