(* ===== verification/LabRpc.thy ===== *)
theory LabRpc
  imports Prelude "HOL-Library.Word"
begin

text \<open>
  \<open>labrpc/labrpc.go\<close>: the simulated network. A \<open>Call\<close> hands a request to the network, which runs
  \<open>processReq\<close> for it in a goroutine of its own, and waits for the reply. Each definition
  below is the part of that goroutine between two points where other code can run: reading the state of the
  connection, the decision to drop the request, the two parts of \<open>dispatch\<close>, the wait for the handler, the decision
  about the reply. Delays are not measured: a goroutine that sleeps goes on at any later point.

  The packages \<open>encoding/gob\<close> and \<open>reflect\<close> appear as arguments: \<open>gEnc\<close> gives the bytes written and whether encoding
  succeeded; \<open>gDec\<close> takes the present value of the variable decoded into and gives its new value and whether
  decoding succeeded. A service is the list of the methods of its type; the objects that the handlers work on are the
  \<open>'w\<close> the handlers transform, and a handler that does not return in a state is \<open>None\<close> there. Server pointers
  are indices into the list of the servers that were made. Names of ends and servers are of any type; \<open>nil\<close> is \<open>None\<close>.
\<close>

subsection \<open>Messages, services and servers\<close>

record ('t, 'v, 'b) gobLib =
  gEnc :: "'v \<Rightarrow> 'b list \<times> bool"
  gDec :: "'v \<Rightarrow> 'b list \<Rightarrow> 'v \<times> bool"
  gType :: "'v \<Rightarrow> 't"
  gZero :: "'t \<Rightarrow> 'v"

record ('e, 't, 'b) reqMsg =
  rqEndname :: 'e
  rqSvcMeth :: string
  rqArgsType :: 't
  rqArgs :: "'b list"

record 'b replyMsg =
  rpOk :: bool
  rpReply :: "'b list"

record 'e ClientEnd =
  ceEndname :: 'e

record ('t, 'v, 'w) Method =
  mtName :: string
  mtPkgPath :: string
  mtNumIn :: int
  mtIn2Ptr :: bool
  mtNumOut :: int
  mtReplyType :: 't
  mtFunc :: "'v \<Rightarrow> 'v \<Rightarrow> 'w \<Rightarrow> ('w \<times> 'v) option"

record ('t, 'v, 'w) Service =
  svName :: string
  svMethods :: "(string, ('t, 'v, 'w) Method) gomap"

record ('t, 'v, 'w) Server =
  srServices :: "(string, ('t, 'v, 'w) Service) gomap"
  srCount :: int

definition suitable :: "('t, 'v, 'w) Method \<Rightarrow> bool" where
  "suitable m \<longleftrightarrow> \<not> (mtPkgPath m \<noteq> [] \<or> mtNumIn m \<noteq> 3 \<or> \<not> mtIn2Ptr m \<or> mtNumOut m \<noteq> 0)"

fun addMethods :: "('t, 'v, 'w) Method list \<Rightarrow> (string, ('t, 'v, 'w) Method) gomap \<Rightarrow> (string, ('t, 'v, 'w) Method) gomap" where
  "addMethods [] ms = ms"
| "addMethods (m # rest) ms = addMethods rest (if suitable m then mput (mtName m) m ms else ms)"

definition MakeService :: "string \<Rightarrow> ('t, 'v, 'w) Method list \<Rightarrow> ('t, 'v, 'w) Service" where
  "MakeService typeName ms = \<lparr>svName = typeName, svMethods = addMethods ms []\<rparr>"

definition MakeServer :: "('t, 'v, 'w) Server" where
  "MakeServer = \<lparr>srServices = [], srCount = 0\<rparr>"

definition AddService :: "('t, 'v, 'w) Service \<Rightarrow> ('t, 'v, 'w) Server \<Rightarrow> ('t, 'v, 'w) Server" where
  "AddService svc rs = rs\<lparr>srServices := mput (svName svc) svc (srServices rs)\<rparr>"

text \<open>\<open>strings.LastIndex\<close> for a single character.\<close>

fun lastIndex :: "char \<Rightarrow> string \<Rightarrow> int" where
  "lastIndex c [] = -1"
| "lastIndex c (x # xs) = (let r = lastIndex c xs in if 0 \<le> r then r + 1 else if x = c then 0 else -1)"

definition go_upto :: "'a list \<Rightarrow> int \<Rightarrow> 'a list res" where
  "go_upto xs i = (if 0 \<le> i \<and> i \<le> int (length xs) then Inr (take (nat i) xs) else Inl SliceOutOfRange)"

text \<open>\<open>Server.dispatch\<close> up to the call of the service: the part that holds the mutex, and the test for the service.\<close>

definition Server_dispatch :: "('e, 't, 'b) reqMsg \<Rightarrow> ('t, 'v, 'w) Server \<Rightarrow>
    (('t, 'v, 'w) Server \<times> ('t, 'v, 'w) Service \<times> string) res" where
  "Server_dispatch req rs =
     (let rs' = rs\<lparr>srCount := srCount rs + 1\<rparr>; dot = lastIndex (CHR ''.'') (rqSvcMeth req) in
      bindR (go_upto (rqSvcMeth req) dot) (\<lambda>serviceName.
      bindR (go_from (rqSvcMeth req) (dot + 1)) (\<lambda>methodName.
      case map_of (srServices rs') serviceName of
        None \<Rightarrow> Inl (Explicit (''labrpc.Server.dispatch(): unknown service '' @ serviceName))
      | Some service \<Rightarrow> Inr (rs', service, methodName))))"

definition Service_dispatch :: "('t, 'v, 'b) gobLib \<Rightarrow> ('t, 'v, 'w) Service \<Rightarrow> string \<Rightarrow> ('e, 't, 'b) reqMsg \<Rightarrow> 'w \<Rightarrow>
    ('w \<times> 'b replyMsg) res option" where
  "Service_dispatch g svc methname req w =
     (case map_of (svMethods svc) methname of
        None \<Rightarrow> Some (Inl (Explicit (''labrpc.Service.dispatch(): unknown method '' @ methname)))
      | Some meth \<Rightarrow>
          let args = fst (gDec g (gZero g (rqArgsType req)) (rqArgs req)) in
          (case mtFunc meth args (gZero g (mtReplyType meth)) w of None \<Rightarrow> None
           | Some (w', replyv) \<Rightarrow> Some (Inr (w', \<lparr>rpOk = True, rpReply = fst (gEnc g replyv)\<rparr>))))"

subsection \<open>The network\<close>

text \<open>
  Where \<open>processReq\<close> is for a request: about to read the connection; about to deliver, with what it read;
  waiting for the handler; with the handler's reply; waiting for a timer to send a reply; replied.
  The goroutine that runs the handler has a state of its own, since it goes on when the other has given up.
\<close>

datatype ('n, 'b) phase =
    PhStart
  | PhDeliver 'n nat bool bool
  | PhWaiting 'n nat bool bool
  | PhGot 'n nat bool bool "'b replyMsg"
  | PhTimer "'b replyMsg"
  | PhReplied "'b replyMsg"

datatype ('t, 'v, 'w, 'b) execState =
    NoExec
  | Spawned nat
  | Running "('t, 'v, 'w) Service" string
  | Returned "'b replyMsg"

record ('e, 'n, 't, 'v, 'w, 'b) inflight =
  ifReq :: "('e, 't, 'b) reqMsg"
  ifPhase :: "('n, 'b) phase"
  ifExec :: "('t, 'v, 'w, 'b) execState"

record ('e, 'n, 't, 'v, 'w, 'b) Network =
  nwReliable :: bool
  nwLongDelays :: bool
  nwLongReordering :: bool
  nwEnds :: "('e, 'e ClientEnd) gomap"
  nwEnabled :: "('e, bool) gomap"
  nwServers :: "('n, nat option) gomap"
  nwConnections :: "('e, 'n option) gomap"
  nwDone :: bool
  nwLoop :: bool
  nwCount :: "32 word"
  nwBytes :: "64 word"
  nwHeap :: "('t, 'v, 'w) Server list"
  nwReqs :: "('e, 'n, 't, 'v, 'w, 'b) inflight list"

definition MakeNetwork :: "('e, 'n, 't, 'v, 'w, 'b) Network" where
  "MakeNetwork = \<lparr>nwReliable = True, nwLongDelays = False, nwLongReordering = False, nwEnds = [], nwEnabled = [],
     nwServers = [], nwConnections = [], nwDone = False, nwLoop = True, nwCount = 0, nwBytes = 0, nwHeap = [], nwReqs = []\<rparr>"

definition Cleanup :: "('e, 'n, 't, 'v, 'w, 'b) Network \<Rightarrow> ('e, 'n, 't, 'v, 'w, 'b) Network res" where
  "Cleanup rn = (if nwDone rn then Inl (Explicit ''close of closed channel'') else Inr (rn\<lparr>nwDone := True\<rparr>))"

definition Reliable :: "bool \<Rightarrow> ('e, 'n, 't, 'v, 'w, 'b) Network \<Rightarrow> ('e, 'n, 't, 'v, 'w, 'b) Network" where
  "Reliable yes rn = rn\<lparr>nwReliable := yes\<rparr>"

definition LongReordering :: "bool \<Rightarrow> ('e, 'n, 't, 'v, 'w, 'b) Network \<Rightarrow> ('e, 'n, 't, 'v, 'w, 'b) Network" where
  "LongReordering yes rn = rn\<lparr>nwLongReordering := yes\<rparr>"

definition LongDelays :: "bool \<Rightarrow> ('e, 'n, 't, 'v, 'w, 'b) Network \<Rightarrow> ('e, 'n, 't, 'v, 'w, 'b) Network" where
  "LongDelays yes rn = rn\<lparr>nwLongDelays := yes\<rparr>"

definition MakeEnd :: "'e \<Rightarrow> ('e, 'n, 't, 'v, 'w, 'b) Network \<Rightarrow> (('e, 'n, 't, 'v, 'w, 'b) Network \<times> 'e ClientEnd) res" where
  "MakeEnd endname rn =
     (if map_of (nwEnds rn) endname \<noteq> None then Inl (Explicit ''MakeEnd: already exists'')
      else
        let e = \<lparr>ceEndname = endname\<rparr> in
        Inr (rn\<lparr>nwEnds := mput endname e (nwEnds rn), nwEnabled := mput endname False (nwEnabled rn),
                nwConnections := mput endname None (nwConnections rn)\<rparr>, e))"

definition DeleteEnd :: "'e \<Rightarrow> ('e, 'n, 't, 'v, 'w, 'b) Network \<Rightarrow> ('e, 'n, 't, 'v, 'w, 'b) Network res" where
  "DeleteEnd endname rn =
     (if map_of (nwEnds rn) endname = None then Inl (Explicit ''MakeEnd: doesn't exists'')
      else Inr (rn\<lparr>nwEnds := mdel endname (nwEnds rn), nwEnabled := mdel endname (nwEnabled rn),
                   nwConnections := mdel endname (nwConnections rn)\<rparr>))"

definition AddServer :: "'n \<Rightarrow> nat \<Rightarrow> ('e, 'n, 't, 'v, 'w, 'b) Network \<Rightarrow> ('e, 'n, 't, 'v, 'w, 'b) Network" where
  "AddServer servername rs rn = rn\<lparr>nwServers := mput servername (Some rs) (nwServers rn)\<rparr>"

definition DeleteServer :: "'n \<Rightarrow> ('e, 'n, 't, 'v, 'w, 'b) Network \<Rightarrow> ('e, 'n, 't, 'v, 'w, 'b) Network" where
  "DeleteServer servername rn = rn\<lparr>nwServers := mput servername None (nwServers rn)\<rparr>"

definition Connect :: "'e \<Rightarrow> 'n \<Rightarrow> ('e, 'n, 't, 'v, 'w, 'b) Network \<Rightarrow> ('e, 'n, 't, 'v, 'w, 'b) Network" where
  "Connect endname servername rn = rn\<lparr>nwConnections := mput endname (Some servername) (nwConnections rn)\<rparr>"

definition Enable :: "'e \<Rightarrow> bool \<Rightarrow> ('e, 'n, 't, 'v, 'w, 'b) Network \<Rightarrow> ('e, 'n, 't, 'v, 'w, 'b) Network" where
  "Enable endname enabled rn = rn\<lparr>nwEnabled := mput endname enabled (nwEnabled rn)\<rparr>"

definition GetCount :: "'n \<Rightarrow> ('e, 'n, 't, 'v, 'w, 'b) Network \<Rightarrow> int res" where
  "GetCount servername rn =
     (case mget None (nwServers rn) servername of None \<Rightarrow> Inl NilDereference | Some p \<Rightarrow> Inr (srCount (nwHeap rn ! p)))"

definition GetTotalCount :: "('e, 'n, 't, 'v, 'w, 'b) Network \<Rightarrow> int" where
  "GetTotalCount rn = sint (nwCount rn)"

definition GetTotalBytes :: "('e, 'n, 't, 'v, 'w, 'b) Network \<Rightarrow> 64 word" where
  "GetTotalBytes rn = nwBytes rn"

definition readEndnameInfo :: "'e \<Rightarrow> ('e, 'n, 't, 'v, 'w, 'b) Network \<Rightarrow> bool \<times> 'n option \<times> nat option \<times> bool \<times> bool" where
  "readEndnameInfo endname rn =
     (let servername = mget None (nwConnections rn) endname;
          server = (case servername of None \<Rightarrow> None | Some n \<Rightarrow> mget None (nwServers rn) n) in
      (mget False (nwEnabled rn) endname, servername, server, nwReliable rn, nwLongReordering rn))"

definition isServerDead :: "'e \<Rightarrow> 'n \<Rightarrow> nat \<Rightarrow> ('e, 'n, 't, 'v, 'w, 'b) Network \<Rightarrow> bool" where
  "isServerDead endname servername server rn \<longleftrightarrow>
     mget False (nwEnabled rn) endname = False \<or> mget None (nwServers rn) servername \<noteq> Some server"

subsection \<open>A request on its way\<close>

definition failed :: "'b replyMsg" where
  "failed = \<lparr>rpOk = False, rpReply = []\<rparr>"

definition setReq :: "nat \<Rightarrow> ('n, 'b) phase \<Rightarrow> ('t, 'v, 'w, 'b) execState \<Rightarrow> ('e, 'n, 't, 'v, 'w, 'b) Network \<Rightarrow>
    ('e, 'n, 't, 'v, 'w, 'b) Network" where
  "setReq i ph ex rn = rn\<lparr>nwReqs := (nwReqs rn)[i := (nwReqs rn ! i)\<lparr>ifPhase := ph, ifExec := ex\<rparr>]\<rparr>"

definition countBytes :: "'b list \<Rightarrow> ('e, 'n, 't, 'v, 'w, 'b) Network \<Rightarrow> ('e, 'n, 't, 'v, 'w, 'b) Network" where
  "countBytes bs rn = rn\<lparr>nwBytes := nwBytes rn + word_of_nat (length bs)\<rparr>"

text \<open>The first half of \<open>Call\<close>, and the loop of \<open>MakeNetwork\<close> that takes the request. The second half gives what \<open>Call\<close> returns
  and the caller's reply variable.\<close>

definition Call_send :: "('t, 'v, 'b) gobLib \<Rightarrow> 'e ClientEnd \<Rightarrow> string \<Rightarrow> 'v \<Rightarrow> ('e, 'n, 't, 'v, 'w, 'b) Network \<Rightarrow>
    ('e, 'n, 't, 'v, 'w, 'b) Network res" where
  "Call_send g e svcMeth args rn =
     (case gEnc g args of (bs, ok) \<Rightarrow>
        if \<not> ok then Inl (Explicit ''Encode'')
        else
          let req = \<lparr>rqEndname = ceEndname e, rqSvcMeth = svcMeth, rqArgsType = gType g args, rqArgs = bs\<rparr> in
          Inr (countBytes bs
            (rn\<lparr>nwCount := nwCount rn + 1, nwReqs := nwReqs rn @ [\<lparr>ifReq = req, ifPhase = PhStart, ifExec = NoExec\<rparr>]\<rparr>)))"

definition Call_recv :: "('t, 'v, 'b) gobLib \<Rightarrow> 'v \<Rightarrow> 'b replyMsg \<Rightarrow> (bool \<times> 'v) res" where
  "Call_recv g reply rep =
     (if rpOk rep
      then (case gDec g reply (rpReply rep) of (v, ok) \<Rightarrow>
              if ok then Inr (True, v) else Inl (Explicit ''ClientEnd.Call(): decode reply''))
      else Inr (False, reply))"

definition processReq_read :: "nat \<Rightarrow> ('e, 'n, 't, 'v, 'w, 'b) Network \<Rightarrow> ('e, 'n, 't, 'v, 'w, 'b) Network option" where
  "processReq_read i rn =
     (case ifPhase (nwReqs rn ! i) of
        PhStart \<Rightarrow>
          (case readEndnameInfo (rqEndname (ifReq (nwReqs rn ! i))) rn of
             (True, Some servername, Some server, reliable, longreordering) \<Rightarrow>
               Some (setReq i (PhDeliver servername server reliable longreordering) NoExec rn)
           | _ \<Rightarrow> Some (setReq i (PhTimer failed) NoExec rn))
      | _ \<Rightarrow> None)"

definition processReq_deliver :: "nat \<Rightarrow> nat \<Rightarrow> ('e, 'n, 't, 'v, 'w, 'b) Network \<Rightarrow> ('e, 'n, 't, 'v, 'w, 'b) Network option" where
  "processReq_deliver i rnd rn =
     (case ifPhase (nwReqs rn ! i) of
        PhDeliver servername server reliable longreordering \<Rightarrow>
          if reliable = False \<and> rnd mod 1000 < 100 then Some (setReq i (PhReplied failed) NoExec rn)
          else Some (setReq i (PhWaiting servername server reliable longreordering) (Spawned server) rn)
      | _ \<Rightarrow> None)"

definition dispatch_lookup :: "nat \<Rightarrow> ('e, 'n, 't, 'v, 'w, 'b) Network \<Rightarrow> ('e, 'n, 't, 'v, 'w, 'b) Network res option" where
  "dispatch_lookup i rn =
     (let r = nwReqs rn ! i in
      case ifExec r of
        Spawned p \<Rightarrow>
          (case Server_dispatch (ifReq r) (nwHeap rn ! p) of Inl e \<Rightarrow> Some (Inl e)
           | Inr (rs, service, methodName) \<Rightarrow>
               Some (Inr (setReq i (ifPhase r) (Running service methodName) (rn\<lparr>nwHeap := (nwHeap rn)[p := rs]\<rparr>))))
      | _ \<Rightarrow> None)"

definition dispatch_call :: "('t, 'v, 'b) gobLib \<Rightarrow> nat \<Rightarrow> ('e, 'n, 't, 'v, 'w, 'b) Network \<times> 'w \<Rightarrow>
    (('e, 'n, 't, 'v, 'w, 'b) Network \<times> 'w) res option" where
  "dispatch_call g i s =
     (case s of (rn, w) \<Rightarrow>
      let r = nwReqs rn ! i in
      case ifExec r of
        Running service methodName \<Rightarrow>
          (case Service_dispatch g service methodName (ifReq r) w of None \<Rightarrow> None
           | Some (Inl e) \<Rightarrow> Some (Inl e)
           | Some (Inr (w', rep)) \<Rightarrow> Some (Inr (setReq i (ifPhase r) (Returned rep) rn, w')))
      | _ \<Rightarrow> None)"

text \<open>The two cases of the \<open>select\<close>: the handler has returned, or 100 milliseconds have passed.\<close>

definition processReq_take :: "nat \<Rightarrow> ('e, 'n, 't, 'v, 'w, 'b) Network \<Rightarrow> ('e, 'n, 't, 'v, 'w, 'b) Network option" where
  "processReq_take i rn =
     (case (ifPhase (nwReqs rn ! i), ifExec (nwReqs rn ! i)) of
        (PhWaiting servername server reliable longreordering, Returned rep) \<Rightarrow>
          Some (setReq i (PhGot servername server reliable longreordering rep) (Returned rep) rn)
      | _ \<Rightarrow> None)"

definition processReq_poll :: "nat \<Rightarrow> ('e, 'n, 't, 'v, 'w, 'b) Network \<Rightarrow> ('e, 'n, 't, 'v, 'w, 'b) Network option" where
  "processReq_poll i rn =
     (let r = nwReqs rn ! i in
      case ifPhase r of
        PhWaiting servername server reliable longreordering \<Rightarrow>
          if isServerDead (rqEndname (ifReq r)) servername server rn
          then Some (setReq i (PhReplied failed) (ifExec r) rn) else Some rn
      | _ \<Rightarrow> None)"

definition processReq_finish :: "nat \<Rightarrow> nat \<Rightarrow> nat \<Rightarrow> ('e, 'n, 't, 'v, 'w, 'b) Network \<Rightarrow> ('e, 'n, 't, 'v, 'w, 'b) Network option" where
  "processReq_finish i rnd rnd900 rn =
     (let r = nwReqs rn ! i in
      case ifPhase r of
        PhGot servername server reliable longreordering rep \<Rightarrow>
          if isServerDead (rqEndname (ifReq r)) servername server rn then Some (setReq i (PhReplied failed) (ifExec r) rn)
          else if reliable = False \<and> rnd mod 1000 < 100 then Some (setReq i (PhReplied failed) (ifExec r) rn)
          else if longreordering \<and> rnd900 < 600 then Some (setReq i (PhTimer rep) (ifExec r) rn)
          else Some (setReq i (PhReplied rep) (ifExec r) (countBytes (rpReply rep) rn))
      | _ \<Rightarrow> None)"

definition processReq_timer :: "nat \<Rightarrow> ('e, 'n, 't, 'v, 'w, 'b) Network \<Rightarrow> ('e, 'n, 't, 'v, 'w, 'b) Network option" where
  "processReq_timer i rn =
     (let r = nwReqs rn ! i in
      case ifPhase r of
        PhTimer rep \<Rightarrow> Some (setReq i (PhReplied rep) (ifExec r) (countBytes (rpReply rep) rn))
      | _ \<Rightarrow> None)"

subsection \<open>Runs\<close>

datatype ('e, 'n, 't, 'v, 'w) admin =
    AdCleanup
  | AdLoopExit
  | AdReliable bool
  | AdLongReordering bool
  | AdLongDelays bool
  | AdMakeEnd 'e
  | AdDeleteEnd 'e
  | AdMakeServer
  | AdAddService nat "('t, 'v, 'w) Service"
  | AdAddServer 'n nat
  | AdDeleteServer 'n
  | AdConnect 'e 'n
  | AdEnable 'e bool

fun net_admin :: "('e, 'n, 't, 'v, 'w) admin \<Rightarrow> ('e, 'n, 't, 'v, 'w, 'b) Network \<Rightarrow> ('e, 'n, 't, 'v, 'w, 'b) Network res option" where
  "net_admin AdCleanup rn = Some (Cleanup rn)"
| "net_admin AdLoopExit rn = (if nwDone rn then Some (Inr (rn\<lparr>nwLoop := False\<rparr>)) else None)"
| "net_admin (AdReliable yes) rn = Some (Inr (Reliable yes rn))"
| "net_admin (AdLongReordering yes) rn = Some (Inr (LongReordering yes rn))"
| "net_admin (AdLongDelays yes) rn = Some (Inr (LongDelays yes rn))"
| "net_admin (AdMakeEnd e) rn = Some (case MakeEnd e rn of Inl p \<Rightarrow> Inl p | Inr (rn', _) \<Rightarrow> Inr rn')"
| "net_admin (AdDeleteEnd e) rn = Some (DeleteEnd e rn)"
| "net_admin AdMakeServer rn = Some (Inr (rn\<lparr>nwHeap := nwHeap rn @ [MakeServer]\<rparr>))"
| "net_admin (AdAddService p svc) rn =
     (if p < length (nwHeap rn) then Some (Inr (rn\<lparr>nwHeap := (nwHeap rn)[p := AddService svc (nwHeap rn ! p)]\<rparr>)) else None)"
| "net_admin (AdAddServer n p) rn = (if p < length (nwHeap rn) then Some (Inr (AddServer n p rn)) else None)"
| "net_admin (AdDeleteServer n) rn = Some (Inr (DeleteServer n rn))"
| "net_admin (AdConnect e n) rn = Some (Inr (Connect e n rn))"
| "net_admin (AdEnable e b) rn = Some (Inr (Enable e b rn))"

text \<open>\<open>EvWorld\<close> is whatever the servers do on their own. A step that is not possible in a state is \<open>None\<close>.\<close>

datatype ('e, 'n, 't, 'v, 'w) rpc_event =
    EvAdmin "('e, 'n, 't, 'v, 'w) admin"
  | EvWorld "'w \<Rightarrow> 'w"
  | EvSend "'e ClientEnd" string 'v
  | EvRead nat
  | EvDeliver nat nat
  | EvLookup nat
  | EvHandle nat
  | EvTake nat
  | EvPoll nat
  | EvFinish nat nat nat
  | EvTimer nat

fun reqOf :: "('e, 'n, 't, 'v, 'w) rpc_event \<Rightarrow> nat option" where
  "reqOf (EvRead i) = Some i"
| "reqOf (EvDeliver i _) = Some i"
| "reqOf (EvLookup i) = Some i"
| "reqOf (EvHandle i) = Some i"
| "reqOf (EvTake i) = Some i"
| "reqOf (EvPoll i) = Some i"
| "reqOf (EvFinish i _ _) = Some i"
| "reqOf (EvTimer i) = Some i"
| "reqOf _ = None"

definition netStep :: "('e, 'n, 't, 'v, 'w, 'b) Network res option \<Rightarrow> 'w \<Rightarrow> (('e, 'n, 't, 'v, 'w, 'b) Network \<times> 'w) res option" where
  "netStep r w = map_option (\<lambda>x. case x of Inl e \<Rightarrow> Inl e | Inr rn \<Rightarrow> Inr (rn, w)) r"

fun rpc_act :: "('t, 'v, 'b) gobLib \<Rightarrow> ('e, 'n, 't, 'v, 'w) rpc_event \<Rightarrow> ('e, 'n, 't, 'v, 'w, 'b) Network \<times> 'w \<Rightarrow>
    (('e, 'n, 't, 'v, 'w, 'b) Network \<times> 'w) res option" where
  "rpc_act g (EvAdmin a) (rn, w) = netStep (net_admin a rn) w"
| "rpc_act g (EvWorld f) (rn, w) = Some (Inr (rn, f w))"
| "rpc_act g (EvSend e svcMeth args) (rn, w) = (if nwLoop rn then netStep (Some (Call_send g e svcMeth args rn)) w else None)"
| "rpc_act g (EvRead i) (rn, w) = netStep (map_option Inr (processReq_read i rn)) w"
| "rpc_act g (EvDeliver i r) (rn, w) = netStep (map_option Inr (processReq_deliver i r rn)) w"
| "rpc_act g (EvLookup i) (rn, w) = netStep (dispatch_lookup i rn) w"
| "rpc_act g (EvHandle i) (rn, w) = dispatch_call g i (rn, w)"
| "rpc_act g (EvTake i) (rn, w) = netStep (map_option Inr (processReq_take i rn)) w"
| "rpc_act g (EvPoll i) (rn, w) = netStep (map_option Inr (processReq_poll i rn)) w"
| "rpc_act g (EvFinish i r r') (rn, w) = netStep (map_option Inr (processReq_finish i r r' rn)) w"
| "rpc_act g (EvTimer i) (rn, w) = netStep (map_option Inr (processReq_timer i rn)) w"

definition rpc_step :: "('t, 'v, 'b) gobLib \<Rightarrow> ('e, 'n, 't, 'v, 'w) rpc_event \<Rightarrow> ('e, 'n, 't, 'v, 'w, 'b) Network \<times> 'w \<Rightarrow>
    (('e, 'n, 't, 'v, 'w, 'b) Network \<times> 'w) res option" where
  "rpc_step g ev s =
     (if (case reqOf ev of None \<Rightarrow> True | Some i \<Rightarrow> i < length (nwReqs (fst s))) then rpc_act g ev s else None)"

fun rpc_run :: "('t, 'v, 'b) gobLib \<Rightarrow> ('e, 'n, 't, 'v, 'w) rpc_event list \<Rightarrow> ('e, 'n, 't, 'v, 'w, 'b) Network \<times> 'w \<Rightarrow>
    (('e, 'n, 't, 'v, 'w, 'b) Network \<times> 'w) res option" where
  "rpc_run g [] s = Some (Inr s)"
| "rpc_run g (ev # evs) s = (case rpc_step g ev s of None \<Rightarrow> None | Some (Inl e) \<Rightarrow> Some (Inl e) | Some (Inr s') \<Rightarrow> rpc_run g evs s')"

subsection \<open>What one step does to the requests\<close>

lemma setReq_sel [simp]:
  "nwReqs (setReq i ph ex rn) = (nwReqs rn)[i := (nwReqs rn ! i)\<lparr>ifPhase := ph, ifExec := ex\<rparr>]"
  "nwEnabled (setReq i ph ex rn) = nwEnabled rn"
  "nwServers (setReq i ph ex rn) = nwServers rn"
  "nwConnections (setReq i ph ex rn) = nwConnections rn"
  "nwReliable (setReq i ph ex rn) = nwReliable rn"
  "nwLongReordering (setReq i ph ex rn) = nwLongReordering rn"
  "nwHeap (setReq i ph ex rn) = nwHeap rn"
  by (simp_all add: setReq_def)

lemma countBytes_sel [simp]:
  "nwReqs (countBytes bs rn) = nwReqs rn"
  "nwEnabled (countBytes bs rn) = nwEnabled rn"
  "nwServers (countBytes bs rn) = nwServers rn"
  "nwConnections (countBytes bs rn) = nwConnections rn"
  "nwReliable (countBytes bs rn) = nwReliable rn"
  "nwLongReordering (countBytes bs rn) = nwLongReordering rn"
  "nwHeap (countBytes bs rn) = nwHeap rn"
  by (simp_all add: countBytes_def)

lemma netStep_eq [simp]: "netStep r w = Some (Inr (rn', w')) \<longleftrightarrow> r = Some (Inr rn') \<and> w' = w"
  by (cases r; cases "the r") (auto simp: netStep_def)

lemma net_admin_reqs: "net_admin a rn = Some (Inr rn') \<Longrightarrow> nwReqs rn' = nwReqs rn"
  by (cases a) (auto simp: Cleanup_def Reliable_def LongReordering_def LongDelays_def MakeEnd_def DeleteEnd_def
      AddServer_def DeleteServer_def Connect_def Enable_def Let_def split: if_splits)

lemmas proc_defs = processReq_read_def processReq_deliver_def processReq_take_def processReq_poll_def
  processReq_finish_def processReq_timer_def

definition callReq :: "('t, 'v, 'b) gobLib \<Rightarrow> 'e ClientEnd \<Rightarrow> string \<Rightarrow> 'v \<Rightarrow> ('e, 't, 'b) reqMsg" where
  "callReq g e sm args = \<lparr>rqEndname = ceEndname e, rqSvcMeth = sm, rqArgsType = gType g args, rqArgs = fst (gEnc g args)\<rparr>"

definition newReq :: "('t, 'v, 'b) gobLib \<Rightarrow> 'e ClientEnd \<Rightarrow> string \<Rightarrow> 'v \<Rightarrow> ('e, 'n, 't, 'v, 'w, 'b) inflight" where
  "newReq g e sm args = \<lparr>ifReq = callReq g e sm args, ifPhase = PhStart, ifExec = NoExec\<rparr>"

lemma Call_send_reqs: "Call_send g e sm args rn = Inr rn' \<Longrightarrow> nwReqs rn' = nwReqs rn @ [newReq g e sm args]"
  by (auto simp: Call_send_def newReq_def callReq_def Let_def split: prod.splits if_splits)

text \<open>The step of one request, as a relation: where \<open>processReq\<close> and the handler's goroutine are before and after.\<close>

inductive reqStep :: "('t, 'v, 'b) gobLib \<Rightarrow> ('e, 'n, 't, 'v, 'w) rpc_event \<Rightarrow> ('e, 'n, 't, 'v, 'w, 'b) Network \<times> 'w \<Rightarrow> nat \<Rightarrow>
    ('n, 'b) phase \<times> ('t, 'v, 'w, 'b) execState \<Rightarrow> ('n, 'b) phase \<times> ('t, 'v, 'w, 'b) execState \<Rightarrow> bool" for g where
  rd: "readEndnameInfo (rqEndname (ifReq (nwReqs rn ! i))) rn = (True, Some n, Some p, a, b) \<Longrightarrow>
     reqStep g (EvRead i) (rn, w) i (PhStart, x) (PhDeliver n p a b, NoExec)"
| off: "reqStep g (EvRead i) (rn, w) i (PhStart, x) (PhTimer failed, NoExec)"
| drop: "\<not> a \<Longrightarrow> reqStep g (EvDeliver i r) (rn, w) i (PhDeliver n p a b, x) (PhReplied failed, NoExec)"
| deliver: "reqStep g (EvDeliver i r) (rn, w) i (PhDeliver n p a b, x) (PhWaiting n p a b, Spawned p)"
| look: "reqStep g (EvLookup i) (rn, w) i (ph, Spawned p) (ph, Running svc m)"
| call: "Service_dispatch g svc m (ifReq (nwReqs rn ! i)) w = Some (Inr (w', rep)) \<Longrightarrow>
     reqStep g (EvHandle i) (rn, w) i (ph, Running svc m) (ph, Returned rep)"
| take: "reqStep g (EvTake i) (rn, w) i (PhWaiting n p a b, Returned rep) (PhGot n p a b rep, Returned rep)"
| poll: "\<not> isServerDead (rqEndname (ifReq (nwReqs rn ! i))) n p rn \<Longrightarrow>
     reqStep g (EvPoll i) (rn, w) i (PhWaiting n p a b, x) (PhWaiting n p a b, x)"
| dead: "isServerDead (rqEndname (ifReq (nwReqs rn ! i))) n p rn \<Longrightarrow>
     reqStep g (EvPoll i) (rn, w) i (PhWaiting n p a b, x) (PhReplied failed, x)"
| lose: "isServerDead (rqEndname (ifReq (nwReqs rn ! i))) n p rn \<or> \<not> a \<Longrightarrow>
     reqStep g (EvFinish i r r') (rn, w) i (PhGot n p a b rep, x) (PhReplied failed, x)"
| slow: "\<not> isServerDead (rqEndname (ifReq (nwReqs rn ! i))) n p rn \<Longrightarrow> b \<Longrightarrow>
     reqStep g (EvFinish i r r') (rn, w) i (PhGot n p a b rep, x) (PhTimer rep, x)"
| answer: "\<not> isServerDead (rqEndname (ifReq (nwReqs rn ! i))) n p rn \<Longrightarrow>
     reqStep g (EvFinish i r r') (rn, w) i (PhGot n p a b rep, x) (PhReplied rep, x)"
| timer: "reqStep g (EvTimer i) (rn, w) i (PhTimer rep, x) (PhReplied rep, x)"

lemma rpc_step_other:
  assumes "rpc_step g ev (rn, w) = Some (Inr (rn', w'))" "reqOf ev = None"
  shows "nwReqs rn' = nwReqs rn \<or> (\<exists>e sm args. ev = EvSend e sm args \<and> nwReqs rn' = nwReqs rn @ [newReq g e sm args])"
  using assms by (cases ev) (auto simp: rpc_step_def net_admin_reqs Call_send_reqs split: if_splits)

definition pos :: "('e, 'n, 't, 'v, 'w, 'b) inflight \<Rightarrow> ('n, 'b) phase \<times> ('t, 'v, 'w, 'b) execState" where
  "pos r = (ifPhase r, ifExec r)"

lemma rpc_step_own:
  assumes "rpc_step g ev (rn, w) = Some (Inr (rn', w'))" "reqOf ev = Some i"
  shows "i < length (nwReqs rn)" "reqStep g ev (rn, w) i (pos (nwReqs rn ! i)) (pos (nwReqs rn' ! i))"
    "ifReq (nwReqs rn' ! i) = ifReq (nwReqs rn ! i)" "length (nwReqs rn') = length (nwReqs rn)"
    "j \<noteq> i \<Longrightarrow> nwReqs rn' ! j = nwReqs rn ! j"
proof -
  show lt: "i < length (nwReqs rn)" using assms by (auto simp: rpc_step_def split: if_splits)
  have act: "rpc_act g ev (rn, w) = Some (Inr (rn', w'))" using assms by (auto simp: rpc_step_def split: if_splits)
  show "ifReq (nwReqs rn' ! i) = ifReq (nwReqs rn ! i)" "length (nwReqs rn') = length (nwReqs rn)"
    "j \<noteq> i \<Longrightarrow> nwReqs rn' ! j = nwReqs rn ! j"
    using act assms(2) lt by (cases ev; auto simp: proc_defs dispatch_lookup_def dispatch_call_def Let_def
          split: phase.splits prod.splits bool.splits option.splits execState.splits sum.splits if_splits)+
  show "reqStep g ev (rn, w) i (pos (nwReqs rn ! i)) (pos (nwReqs rn' ! i))"
  proof (cases ev)
    case (EvRead j)
    with assms(2) act lt show ?thesis
      by (auto simp: processReq_read_def pos_def split: phase.splits prod.splits bool.splits option.splits intro: reqStep.intros)
  next
    case (EvDeliver j r)
    with assms(2) act lt show ?thesis
      by (auto simp: processReq_deliver_def pos_def split: phase.splits if_splits intro: reqStep.intros)
  next
    case (EvLookup j)
    with assms(2) act lt show ?thesis
      by (auto simp: dispatch_lookup_def pos_def Let_def split: execState.splits sum.splits intro: reqStep.intros)
  next
    case (EvHandle j)
    with assms(2) act lt show ?thesis
      by (auto simp: dispatch_call_def pos_def Let_def split: execState.splits sum.splits option.splits intro: reqStep.intros)
  next
    case (EvTake j)
    with assms(2) act lt show ?thesis
      by (auto simp: processReq_take_def pos_def split: phase.splits execState.splits intro: reqStep.intros)
  next
    case (EvPoll j)
    with assms(2) act lt show ?thesis
      by (auto simp: processReq_poll_def pos_def Let_def split: phase.splits if_splits intro: reqStep.intros)
  next
    case (EvFinish j r r')
    with assms(2) act lt show ?thesis
      by (auto simp: processReq_finish_def pos_def Let_def split: phase.splits if_splits intro: reqStep.intros)
  next
    case (EvTimer j)
    with assms(2) act lt show ?thesis
      by (auto simp: processReq_timer_def pos_def Let_def split: phase.splits intro: reqStep.intros)
  qed (use assms(2) in auto)
qed

subsection \<open>Invariants of a request\<close>

lemma rpc_run_snoc:
  "rpc_run g (evs @ [ev]) s = Some (Inr s'') \<longleftrightarrow> (\<exists>s'. rpc_run g evs s = Some (Inr s') \<and> rpc_step g ev s' = Some (Inr s''))"
  by (induction evs arbitrary: s) (auto split: option.splits sum.splits)

lemma rpc_run_append:
  "rpc_run g (evs @ evs') s = Some (Inr s'') \<longleftrightarrow> (\<exists>s'. rpc_run g evs s = Some (Inr s') \<and> rpc_run g evs' s' = Some (Inr s''))"
  by (induction evs arbitrary: s) (auto split: option.splits sum.splits)

lemma rpc_step_length: "rpc_step g ev (rn, w) = Some (Inr (rn', w')) \<Longrightarrow> length (nwReqs rn) \<le> length (nwReqs rn')"
  using rpc_step_own(4)[of g ev rn w rn' w'] rpc_step_other[of g ev rn w rn' w'] by (cases "reqOf ev") auto

lemma run_req_induct [consumes 3, case_names new other own]:
  assumes "rpc_run g evs s0 = Some (Inr (rn, w))" "i < length (nwReqs rn)" "nwReqs (fst s0) = []"
    and new: "\<And>evs rn w e sm args. rpc_run g evs s0 = Some (Inr (rn, w)) \<Longrightarrow> i = length (nwReqs rn) \<Longrightarrow>
      P (evs @ [EvSend e sm args]) PhStart NoExec (ifReq (newReq g e sm args))"
    and other: "\<And>evs ev rn w. rpc_run g evs s0 = Some (Inr (rn, w)) \<Longrightarrow> i < length (nwReqs rn) \<Longrightarrow> reqOf ev \<noteq> Some i \<Longrightarrow>
      P evs (ifPhase (nwReqs rn ! i)) (ifExec (nwReqs rn ! i)) (ifReq (nwReqs rn ! i)) \<Longrightarrow>
      P (evs @ [ev]) (ifPhase (nwReqs rn ! i)) (ifExec (nwReqs rn ! i)) (ifReq (nwReqs rn ! i))"
    and own: "\<And>evs ev rn w ph x. rpc_run g evs s0 = Some (Inr (rn, w)) \<Longrightarrow> i < length (nwReqs rn) \<Longrightarrow>
      reqStep g ev (rn, w) i (ifPhase (nwReqs rn ! i), ifExec (nwReqs rn ! i)) (ph, x) \<Longrightarrow>
      P evs (ifPhase (nwReqs rn ! i)) (ifExec (nwReqs rn ! i)) (ifReq (nwReqs rn ! i)) \<Longrightarrow>
      P (evs @ [ev]) ph x (ifReq (nwReqs rn ! i))"
  shows "P evs (ifPhase (nwReqs rn ! i)) (ifExec (nwReqs rn ! i)) (ifReq (nwReqs rn ! i))"
  using assms(1,2)
proof (induction evs arbitrary: rn w rule: rev_induct)
  case Nil
  with assms(3) show ?case by auto
next
  case (snoc ev evs)
  obtain rn1 w1 where r: "rpc_run g evs s0 = Some (Inr (rn1, w1))" and st: "rpc_step g ev (rn1, w1) = Some (Inr (rn, w))"
    using snoc.prems(1) by (auto simp: rpc_run_snoc)
  show ?case
  proof (cases "reqOf ev")
    case (Some k)
    note o = rpc_step_own[OF st Some]
    have lt: "i < length (nwReqs rn1)" using snoc.prems(2) o(4) by simp
    show ?thesis
    proof (cases "k = i")
      case True
      from own[OF r lt] o(2,3) snoc.IH[OF r lt] True show ?thesis by (simp add: pos_def)
    next
      case False
      with Some have "reqOf ev \<noteq> Some i" by simp
      from other[OF r lt this snoc.IH[OF r lt]] o(5)[of i] False show ?thesis by simp
    qed
  next
    case None
    show ?thesis
    proof (cases "i < length (nwReqs rn1)")
      case True
      have "nwReqs rn ! i = nwReqs rn1 ! i" using rpc_step_other[OF st None] True by (auto simp: nth_append)
      with other[OF r True _ snoc.IH[OF r True], of ev] None show ?thesis by simp
    next
      case False
      with rpc_step_other[OF st None] snoc.prems(2) obtain e sm args where
        e: "ev = EvSend e sm args" "nwReqs rn = nwReqs rn1 @ [newReq g e sm args]" "i = length (nwReqs rn1)"
        by (auto simp: nth_append less_Suc_eq)
      from new[OF r e(3), of e sm args] e show ?thesis by (simp add: newReq_def)
    qed
  qed
qed

fun isHandle :: "nat \<Rightarrow> ('e, 'n, 't, 'v, 'w) rpc_event \<Rightarrow> bool" where
  "isHandle i (EvHandle j) = (j = i)"
| "isHandle i _ = False"

definition handled :: "nat \<Rightarrow> ('e, 'n, 't, 'v, 'w) rpc_event list \<Rightarrow> nat" where
  "handled i evs = length (filter (isHandle i) evs)"

lemma handled_simps [simp]:
  "handled i [] = 0"
  "handled i (evs @ evs') = handled i evs + handled i evs'"
  "handled i (ev # evs) = (if isHandle i ev then 1 else 0) + handled i evs"
  by (simp_all add: handled_def)

lemma isHandle_reqOf: "isHandle i ev \<Longrightarrow> reqOf ev = Some i"
  by (cases ev) auto

lemma handled_before:
  "rpc_run g evs s0 = Some (Inr (rn, w)) \<Longrightarrow> length (nwReqs rn) \<le> i \<Longrightarrow> handled i evs = 0"
proof (induction evs arbitrary: rn w rule: rev_induct)
  case (snoc ev evs)
  obtain rn1 w1 where r: "rpc_run g evs s0 = Some (Inr (rn1, w1))" and st: "rpc_step g ev (rn1, w1) = Some (Inr (rn, w))"
    using snoc.prems(1) by (auto simp: rpc_run_snoc)
  have le: "length (nwReqs rn1) \<le> i" using rpc_step_length[OF st] snoc.prems(2) by simp
  moreover have "\<not> isHandle i ev" using rpc_step_own(1)[OF st] le isHandle_reqOf[of i ev] by fastforce
  ultimately show ?case using snoc.IH[OF r] by simp
qed simp

fun pos_ok :: "('n, 'b) phase \<Rightarrow> ('t, 'v, 'w, 'b) execState \<Rightarrow> bool" where
  "pos_ok PhStart x = (x = NoExec)"
| "pos_ok (PhDeliver _ _ _ _) x = (x = NoExec)"
| "pos_ok (PhWaiting _ _ _ _) x = (x \<noteq> NoExec)"
| "pos_ok (PhGot _ _ _ _ rep) x = (x = Returned rep)"
| "pos_ok (PhTimer rep) x = (x = Returned rep \<or> rep = failed \<and> x = NoExec)"
| "pos_ok (PhReplied rep) x = (x = Returned rep \<or> rep = failed)"

lemma reqStep_pos_ok: "reqStep g ev s i (ph, x) (ph', x') \<Longrightarrow> pos_ok ph x \<Longrightarrow> pos_ok ph' x'"
  by (cases rule: reqStep.cases, assumption) (auto, (cases ph; auto)+)

lemma reachable_pos_ok:
  assumes "rpc_run g evs s0 = Some (Inr (rn, w))" "i < length (nwReqs rn)" "nwReqs (fst s0) = []"
  shows "pos_ok (ifPhase (nwReqs rn ! i)) (ifExec (nwReqs rn ! i))"
  using assms by (induction rule: run_req_induct) (auto dest: reqStep_pos_ok)

lemma reqStep_isHandle:
  "reqStep g ev s i (ph, x) (ph', x') \<Longrightarrow> isHandle i ev \<longleftrightarrow> (\<nexists>rep. x = Returned rep) \<and> (\<exists>rep. x' = Returned rep)"
  by (cases rule: reqStep.cases, assumption) auto

lemma reqStep_returned: "reqStep g ev s i (ph, Returned rep) (ph', x') \<Longrightarrow> pos_ok ph (Returned rep) \<Longrightarrow> x' = Returned rep"
  by (cases rule: reqStep.cases, assumption) auto

lemma handled_once:
  assumes "rpc_run g evs s0 = Some (Inr (rn, w))" "i < length (nwReqs rn)" "nwReqs (fst s0) = []"
  shows "handled i evs = (if \<exists>rep. ifExec (nwReqs rn ! i) = Returned rep then 1 else 0)"
  using assms
proof (induction rule: run_req_induct)
  case (new evs rn w e sm args)
  then show ?case using handled_before[of g evs s0 rn w i] by simp
next
  case (other evs ev rn w)
  then have "\<not> isHandle i ev" using isHandle_reqOf by blast
  with other show ?case by simp
next
  case (own evs ev rn w ph x)
  have po: "pos_ok (ifPhase (nwReqs rn ! i)) (ifExec (nwReqs rn ! i))" using reachable_pos_ok[OF own(1,2) assms(3)] .
  show ?case
  proof (cases "\<exists>rep. ifExec (nwReqs rn ! i) = Returned rep")
    case True
    then obtain rep where rep: "ifExec (nwReqs rn ! i) = Returned rep" by blast
    with reqStep_returned[of g ev "(rn, w)" i _ rep ph x] own(3) po have "x = Returned rep" by simp
    with own(4) reqStep_isHandle[OF own(3)] rep show ?thesis by simp
  qed (use own(4) reqStep_isHandle[OF own(3)] in auto)
qed

subsection \<open>Where a reply comes from\<close>

definition executed :: "('t, 'v, 'b) gobLib \<Rightarrow> ('e, 'n, 't, 'v, 'w, 'b) Network \<times> 'w \<Rightarrow> nat \<Rightarrow> ('e, 't, 'b) reqMsg \<Rightarrow> 'b replyMsg \<Rightarrow>
    ('e, 'n, 't, 'v, 'w) rpc_event list \<Rightarrow> bool" where
  "executed g s0 i q rep evs \<longleftrightarrow> (\<exists>pre post rn1 w1 svc m w2. evs = pre @ EvHandle i # post \<and> rpc_run g pre s0 = Some (Inr (rn1, w1)) \<and>
     ifExec (nwReqs rn1 ! i) = Running svc m \<and> Service_dispatch g svc m q w1 = Some (Inr (w2, rep)))"

definition answered :: "('t, 'v, 'b) gobLib \<Rightarrow> ('e, 'n, 't, 'v, 'w, 'b) Network \<times> 'w \<Rightarrow> nat \<Rightarrow> ('e, 't, 'b) reqMsg \<Rightarrow>
    ('e, 'n, 't, 'v, 'w) rpc_event list \<Rightarrow> bool" where
  "answered g s0 i q evs \<longleftrightarrow> (\<exists>pre post r r' rn1 w1 n p a b rep. evs = pre @ EvFinish i r r' # post \<and> rpc_run g pre s0 = Some (Inr (rn1, w1)) \<and>
     handled i pre = 1 \<and> ifPhase (nwReqs rn1 ! i) = PhGot n p a b rep \<and> \<not> isServerDead (rqEndname q) n p rn1)"

definition given_up :: "('t, 'v, 'b) gobLib \<Rightarrow> ('e, 'n, 't, 'v, 'w, 'b) Network \<times> 'w \<Rightarrow> nat \<Rightarrow> ('e, 't, 'b) reqMsg \<Rightarrow>
    ('e, 'n, 't, 'v, 'w) rpc_event list \<Rightarrow> bool" where
  "given_up g s0 i q evs \<longleftrightarrow> (\<exists>pre post rn1 w1 n p a b. evs = pre @ EvPoll i # post \<and> rpc_run g pre s0 = Some (Inr (rn1, w1)) \<and>
     ifPhase (nwReqs rn1 ! i) = PhWaiting n p a b \<and> isServerDead (rqEndname q) n p rn1)"

lemma executed_snoc: "executed g s0 i q rep evs \<Longrightarrow> executed g s0 i q rep (evs @ [ev])"
  unfolding executed_def by fastforce

lemma answered_snoc: "answered g s0 i q evs \<Longrightarrow> answered g s0 i q (evs @ [ev])"
  unfolding answered_def by fastforce

lemma given_up_snoc: "given_up g s0 i q evs \<Longrightarrow> given_up g s0 i q (evs @ [ev])"
  unfolding given_up_def by fastforce

lemma failed_not_ok [simp]: "\<not> rpOk failed"
  by (simp add: failed_def)

definition origin :: "('t, 'v, 'b) gobLib \<Rightarrow> ('e, 'n, 't, 'v, 'w, 'b) Network \<times> 'w \<Rightarrow> nat \<Rightarrow> ('e, 'n, 't, 'v, 'w) rpc_event list \<Rightarrow>
    ('n, 'b) phase \<Rightarrow> ('t, 'v, 'w, 'b) execState \<Rightarrow> ('e, 't, 'b) reqMsg \<Rightarrow> bool" where
  "origin g s0 i evs ph x q \<longleftrightarrow>
     (\<forall>rep. x = Returned rep \<longrightarrow> executed g s0 i q rep evs) \<and>
     (\<forall>rep. (ph = PhTimer rep \<or> ph = PhReplied rep) \<and> rpOk rep \<longrightarrow> answered g s0 i q evs) \<and>
     (\<forall>rep. ph = PhReplied rep \<and> x \<noteq> NoExec \<and> (\<forall>rep'. x \<noteq> Returned rep') \<longrightarrow> given_up g s0 i q evs)"

lemma origin_snoc: "origin g s0 i evs ph x q \<Longrightarrow> origin g s0 i (evs @ [ev]) ph x q"
  unfolding origin_def by (auto simp: executed_snoc answered_snoc given_up_snoc)

lemma origin_step:
  assumes "rpc_run g evs s0 = Some (Inr (rn, w))" "handled i evs = (if \<exists>rep. x = Returned rep then 1 else 0)"
    and "ifPhase (nwReqs rn ! i) = ph" "ifExec (nwReqs rn ! i) = x" "ifReq (nwReqs rn ! i) = q"
    and "pos_ok ph x" "reqStep g ev (rn, w) i (ph, x) (ph', x')" "origin g s0 i evs ph x q"
  shows "origin g s0 i (evs @ [ev]) ph' x' q"
proof -
  note sn = origin_snoc[OF assms(8), of ev]
  from assms(7) show ?thesis
  proof (cases rule: reqStep.cases)
    case (call svc m w' rep)
    have "executed g s0 i q rep (evs @ [ev])"
      unfolding executed_def using assms(1,4,5) call by (intro exI[of _ evs] exI[of _ "[]"]) auto
    with sn call show ?thesis by (auto simp: origin_def)
  next
    case (dead n p a b)
    have "given_up g s0 i q (evs @ [ev])"
      unfolding given_up_def using assms(1,3,5) dead by (intro exI[of _ evs] exI[of _ "[]"]) auto
    with sn dead show ?thesis by (auto simp: origin_def)
  next
    case (slow n p b r r' a rep)
    have "answered g s0 i q (evs @ [ev])"
      unfolding answered_def using assms(1,2,3,5,6) slow by (intro exI[of _ evs] exI[of _ "[]"]) auto
    with sn slow assms(6) show ?thesis by (auto simp: origin_def)
  next
    case (answer n p r r' a b rep)
    have "answered g s0 i q (evs @ [ev])"
      unfolding answered_def using assms(1,2,3,5,6) answer by (intro exI[of _ evs] exI[of _ "[]"]) auto
    with sn answer assms(6) show ?thesis by (auto simp: origin_def)
  next
    case (look p svc m)
    with sn show ?thesis by (cases ph) (auto simp: origin_def)
  qed (use sn assms(6) in \<open>auto simp: origin_def\<close>)
qed

lemma reachable_origin:
  assumes "rpc_run g evs s0 = Some (Inr (rn, w))" "i < length (nwReqs rn)" "nwReqs (fst s0) = []"
  shows "origin g s0 i evs (ifPhase (nwReqs rn ! i)) (ifExec (nwReqs rn ! i)) (ifReq (nwReqs rn ! i))"
  using assms
proof (induction rule: run_req_induct)
  case (own evs ev rn w ph x)
  show ?case
    by (rule origin_step[OF own(1) handled_once[OF own(1,2) assms(3)] refl refl refl reachable_pos_ok[OF own(1,2) assms(3)] own(3,4)])
qed (simp add: origin_def, rule origin_snoc)

lemma req_stable:
  assumes "rpc_run g evs s = Some (Inr (rn', w'))" "i < length (nwReqs (fst s))"
  shows "i < length (nwReqs rn') \<and> ifReq (nwReqs rn' ! i) = ifReq (nwReqs (fst s) ! i)"
  using assms
proof (induction evs arbitrary: rn' w' rule: rev_induct)
  case (snoc ev evs)
  obtain rn1 w1 where r: "rpc_run g evs s = Some (Inr (rn1, w1))" and st: "rpc_step g ev (rn1, w1) = Some (Inr (rn', w'))"
    using snoc.prems(1) by (auto simp: rpc_run_snoc)
  note IH = snoc.IH[OF r snoc.prems(2)]
  show ?case
  proof (cases "reqOf ev")
    case (Some k)
    with IH rpc_step_own(3,4)[OF st Some] rpc_step_own(5)[OF st Some, of i] show ?thesis by (cases "k = i") auto
  next
    case None
    with IH rpc_step_other[OF st None] show ?thesis by (auto simp: nth_append)
  qed
qed auto

subsection \<open>Properties of calls\<close>

text \<open>What the code relies on of \<open>encoding/gob\<close>: a value that can be encoded is read back into a fresh variable of its type.\<close>

definition gob_ok :: "('t, 'v, 'b) gobLib \<Rightarrow> bool" where
  "gob_ok g \<longleftrightarrow> (\<forall>v. snd (gEnc g v) \<longrightarrow> gDec g (gZero g (gType g v)) (fst (gEnc g v)) = (v, True))"

lemma split_after:
  assumes "pre @ a # post = pre1 @ b # post1" "b \<notin> set pre" "b \<noteq> a"
  shows "\<exists>mid. pre1 = pre @ a # mid \<and> post = mid @ b # post1"
  using assms by (auto simp: append_eq_append_conv2 append_eq_Cons_conv Cons_eq_append_conv)

lemma handled_0_notin: "handled i evs = 0 \<Longrightarrow> EvHandle i \<notin> set evs"
  by (auto simp: handled_def filter_empty_conv)

lemma rpc_step_send:
  assumes "rpc_step g (EvSend e sm args) (rn, w) = Some (Inr (rn', w'))"
  shows "nwReqs rn' = nwReqs rn @ [newReq g e sm args]" "snd (gEnc g args)"
  using assms by (auto simp: rpc_step_def Call_send_def newReq_def callReq_def Let_def split: if_splits prod.splits)

lemma Service_dispatch_ok: "Service_dispatch g svc m q w = Some (Inr (w', rep)) \<Longrightarrow> rpOk rep"
  by (auto simp: Service_dispatch_def Let_def split: option.splits)

lemma sent_req:
  assumes "rpc_run g pre s0 = Some (Inr (rn0, w0))" "rpc_run g (pre @ EvSend e sm args # post) s0 = Some (Inr (rn, w))"
    and "i = length (nwReqs rn0)"
  shows "i < length (nwReqs rn)" "ifReq (nwReqs rn ! i) = callReq g e sm args" "snd (gEnc g args)"
proof -
  obtain rn1 w1 where st: "rpc_step g (EvSend e sm args) (rn0, w0) = Some (Inr (rn1, w1))" "rpc_run g post (rn1, w1) = Some (Inr (rn, w))"
    using assms(1,2) by (auto simp: rpc_run_append split: option.splits sum.splits)
  note n = rpc_step_send[OF st(1)]
  have "i < length (nwReqs (fst (rn1, w1)))" using n(1) assms(3) by simp
  from req_stable[OF st(2) this] n assms(3)
  show "i < length (nwReqs rn)" "ifReq (nwReqs rn ! i) = callReq g e sm args" "snd (gEnc g args)" by (simp_all add: newReq_def)
qed

text \<open>C32: A call runs its handler at most once, whatever the network does. If the call returns \<open>true\<close>, the handler ran after
  the call was made, on the very arguments of the call, in the state the server was in then, and the reply encodes what it
  returned; and after that, when the reply was sent, the server was still the one connected, and the connection enabled.\<close>

theorem call_outcome:
  fixes w0 :: 'w and g :: "('t, 'v, 'b) gobLib" and pre :: "('e, 'n, 't, 'v, 'w) rpc_event list"
  assumes "gob_ok g" "rpc_run g pre (MakeNetwork, w0) = Some (Inr (rn0, w1))" "i = length (nwReqs rn0)"
    and "rpc_run g (pre @ EvSend e sm args # post) (MakeNetwork, w0) = Some (Inr (rn, w))"
  shows "handled i (pre @ EvSend e sm args # post) \<le> 1 \<and>
    (\<forall>rep. ifPhase (nwReqs rn ! i) = PhReplied rep \<and> rpOk rep \<longrightarrow>
       answered g (MakeNetwork, w0) i (ifReq (nwReqs rn ! i)) (pre @ EvSend e sm args # post) \<and>
       (\<exists>mid rest rn2 w2 svc m meth w3 v. post = mid @ EvHandle i # rest \<and>
          rpc_run g (pre @ EvSend e sm args # mid) (MakeNetwork, w0) = Some (Inr (rn2, w2)) \<and>
          ifExec (nwReqs rn2 ! i) = Running svc m \<and> map_of (svMethods svc) m = Some meth \<and>
          mtFunc meth args (gZero g (mtReplyType meth)) w2 = Some (w3, v) \<and> rpReply rep = fst (gEnc g v)))"
proof -
  let ?evs = "pre @ EvSend e sm args # post" let ?s0 = "(MakeNetwork :: ('e, 'n, 't, 'v, 'w, 'b) Network, w0)"
  note s = sent_req[OF assms(2,4,3)]
  have init: "nwReqs (fst ?s0) = []" by (simp add: MakeNetwork_def)
  have h0: "handled i pre = 0" using handled_before[OF assms(2)] assms(3) by simp
  have "handled i ?evs \<le> 1" using handled_once[OF assms(4) s(1) init] by simp
  moreover have "answered g ?s0 i (ifReq (nwReqs rn ! i)) ?evs \<and>
       (\<exists>mid rest rn2 w2 svc m meth w3 v. post = mid @ EvHandle i # rest \<and>
          rpc_run g (pre @ EvSend e sm args # mid) ?s0 = Some (Inr (rn2, w2)) \<and>
          ifExec (nwReqs rn2 ! i) = Running svc m \<and> map_of (svMethods svc) m = Some meth \<and>
          mtFunc meth args (gZero g (mtReplyType meth)) w2 = Some (w3, v) \<and> rpReply rep = fst (gEnc g v))"
    if rep: "ifPhase (nwReqs rn ! i) = PhReplied rep" "rpOk rep" for rep
  proof
    note o = reachable_origin[OF assms(4) s(1) init]
    show "answered g ?s0 i (ifReq (nwReqs rn ! i)) ?evs" using o rep by (simp add: origin_def)
    have x: "ifExec (nwReqs rn ! i) = Returned rep" using reachable_pos_ok[OF assms(4) s(1) init] rep by auto
    then have "executed g ?s0 i (ifReq (nwReqs rn ! i)) rep ?evs" using o by (simp add: origin_def)
    then obtain pre1 post1 rn2 w2 svc m w3 where ex: "?evs = pre1 @ EvHandle i # post1" "rpc_run g pre1 ?s0 = Some (Inr (rn2, w2))"
      "ifExec (nwReqs rn2 ! i) = Running svc m" "Service_dispatch g svc m (callReq g e sm args) w2 = Some (Inr (w3, rep))"
      unfolding executed_def s(2) by blast
    obtain mid where mid: "pre1 = pre @ EvSend e sm args # mid" "post = mid @ EvHandle i # post1"
      using split_after[OF ex(1) handled_0_notin[OF h0]] by blast
    have args: "fst (gDec g (gZero g (gType g args)) (fst (gEnc g args))) = args" using assms(1) s(3) by (simp add: gob_ok_def)
    obtain meth v where mv: "map_of (svMethods svc) m = Some meth" "mtFunc meth args (gZero g (mtReplyType meth)) w2 = Some (w3, v)"
        "rpReply rep = fst (gEnc g v)"
      using ex(4) args by (auto simp: Service_dispatch_def callReq_def Let_def split: option.splits)
    show "\<exists>mid rest rn2 w2 svc m meth w3 v. post = mid @ EvHandle i # rest \<and>
          rpc_run g (pre @ EvSend e sm args # mid) ?s0 = Some (Inr (rn2, w2)) \<and>
          ifExec (nwReqs rn2 ! i) = Running svc m \<and> map_of (svMethods svc) m = Some meth \<and>
          mtFunc meth args (gZero g (mtReplyType meth)) w2 = Some (w3, v) \<and> rpReply rep = fst (gEnc g v)"
      using mid ex(2,3) mv by blast
  qed
  ultimately show ?thesis by blast
qed

lemma reqStep_final: "\<not> reqStep g ev s i (PhReplied rep, NoExec) y"
  by (auto elim: reqStep.cases)

lemma final_stays:
  assumes "rpc_run g evs s = Some (Inr (rn', w'))" "i < length (nwReqs (fst s))" "pos (nwReqs (fst s) ! i) = (PhReplied rep, NoExec)"
  shows "pos (nwReqs rn' ! i) = (PhReplied rep, NoExec)"
  using assms
proof (induction evs arbitrary: rn' w' rule: rev_induct)
  case (snoc ev evs)
  obtain rn1 w1 where r: "rpc_run g evs s = Some (Inr (rn1, w1))" and st: "rpc_step g ev (rn1, w1) = Some (Inr (rn', w'))"
    using snoc.prems(1) by (auto simp: rpc_run_snoc)
  note IH = snoc.IH[OF r snoc.prems(2,3)] and lt = req_stable[OF r snoc.prems(2)]
  show ?case
  proof (cases "reqOf ev")
    case (Some k)
    have "k \<noteq> i" using rpc_step_own(2)[OF st Some] IH reqStep_final by fastforce
    with rpc_step_own(5)[OF st Some, of i] IH show ?thesis by simp
  next
    case None
    with IH lt rpc_step_other[OF st None] show ?thesis by (auto simp: nth_append)
  qed
qed auto

text \<open>When a call has returned, its handler is not run any more, unless the network gave the server up: a check found the
  connection disabled or the server replaced while the handler was out. So as long as connections and servers stay, a call that
  returned \<open>false\<close> either never ran its handler or has run it before it returned.\<close>

lemma late_execution:
  fixes w0 :: 'w and g :: "('t, 'v, 'b) gobLib" and evs :: "('e, 'n, 't, 'v, 'w) rpc_event list"
  assumes "rpc_run g evs (MakeNetwork, w0) = Some (Inr (rn, w))" "i < length (nwReqs rn)" "ifPhase (nwReqs rn ! i) = PhReplied rep"
    and "rpc_run g (evs @ evs' @ [EvHandle i]) (MakeNetwork, w0) = Some (Inr (rn', w'))"
  shows "given_up g (MakeNetwork, w0) i (ifReq (nwReqs rn ! i)) evs"
proof -
  let ?s0 = "(MakeNetwork :: ('e, 'n, 't, 'v, 'w, 'b) Network, w0)"
  have init: "nwReqs (fst ?s0) = []" by (simp add: MakeNetwork_def)
  have run': "rpc_run g (evs' @ [EvHandle i]) (rn, w) = Some (Inr (rn', w'))" using assms(1,4) by (auto simp: rpc_run_append)
  have lt: "i < length (nwReqs rn')" using req_stable[OF run'] assms(2) by simp
  have h: "handled i evs + handled i evs' + 1 \<le> 1" "handled i (evs @ evs' @ [EvHandle i]) = 1"
    using handled_once[OF assms(4) lt init] by (auto split: if_splits)
  have nr: "ifExec (nwReqs rn ! i) \<noteq> Returned rep'" for rep' using handled_once[OF assms(1,2) init] h(1) by (auto split: if_splits)
  have "ifExec (nwReqs rn ! i) \<noteq> NoExec"
  proof
    assume "ifExec (nwReqs rn ! i) = NoExec"
    with final_stays[OF run', of i rep] assms(2,3) have "ifExec (nwReqs rn' ! i) = NoExec" by (simp add: pos_def)
    with handled_once[OF assms(4) lt init] h(2) show False by simp
  qed
  with reachable_origin[OF assms(1,2) init] assms(3) nr show ?thesis by (simp add: origin_def)
qed

subsection \<open>Calls return\<close>

fun rank :: "('n, 'b) phase \<Rightarrow> ('t, 'v, 'w, 'b) execState \<Rightarrow> nat" where
  "rank PhStart _ = 6"
| "rank (PhDeliver _ _ _ _) _ = 5"
| "rank (PhWaiting _ _ _ _) (Spawned _) = 4"
| "rank (PhWaiting _ _ _ _) (Running _ _) = 3"
| "rank (PhWaiting _ _ _ _) _ = 2"
| "rank (PhGot _ _ _ _ _) _ = 1"
| "rank (PhTimer _) _ = 1"
| "rank (PhReplied _) _ = 0"

definition rankOf :: "nat \<Rightarrow> ('e, 'n, 't, 'v, 'w, 'b) Network \<times> 'w \<Rightarrow> nat" where
  "rankOf i s = rank (ifPhase (nwReqs (fst s) ! i)) (ifExec (nwReqs (fst s) ! i))"

definition blocked :: "('t, 'v, 'b) gobLib \<Rightarrow> nat \<Rightarrow> ('e, 'n, 't, 'v, 'w, 'b) Network \<times> 'w \<Rightarrow> bool" where
  "blocked g i s \<longleftrightarrow> (case ifExec (nwReqs (fst s) ! i) of
     Running svc m \<Rightarrow> Service_dispatch g svc m (ifReq (nwReqs (fst s) ! i)) (snd s) = None | _ \<Rightarrow> False)"

lemma rank_le: "rank ph x \<le> 6"
  by (cases "(ph, x)" rule: rank.cases) auto

lemma rank_0: "rank ph x = 0 \<longleftrightarrow> (\<exists>rep. ph = PhReplied rep)"
  by (cases "(ph, x)" rule: rank.cases) auto

lemma progress:
  assumes "i < length (nwReqs rn)" "pos_ok (ifPhase (nwReqs rn ! i)) (ifExec (nwReqs rn ! i))"
    and "rankOf i (rn, w) \<noteq> 0" "\<not> blocked g i (rn, w)"
  shows "\<exists>ev. reqOf ev = Some i \<and>
    (case rpc_step g ev (rn, w) of None \<Rightarrow> False | Some (Inl e) \<Rightarrow> True | Some (Inr s') \<Rightarrow> rankOf i s' < rankOf i (rn, w))"
proof (cases "ifPhase (nwReqs rn ! i)")
  case PhStart
  with assms(1) show ?thesis
    by (intro exI[of _ "EvRead i"]) (auto simp: rpc_step_def rankOf_def processReq_read_def netStep_def split: prod.splits bool.splits option.splits)
next
  case (PhDeliver n p a b)
  with assms(1) show ?thesis
    by (intro exI[of _ "EvDeliver i 100"]) (auto simp: rpc_step_def rankOf_def processReq_deliver_def netStep_def)
next
  case (PhWaiting n p a b)
  show ?thesis
  proof (cases "ifExec (nwReqs rn ! i)")
    case (Spawned q)
    with PhWaiting assms(1) show ?thesis
      by (intro exI[of _ "EvLookup i"]) (auto simp: rpc_step_def rankOf_def dispatch_lookup_def netStep_def Let_def split: sum.splits prod.splits)
  next
    case (Running svc m)
    with PhWaiting assms(1,4) show ?thesis
      by (intro exI[of _ "EvHandle i"])
        (auto simp: rpc_step_def rankOf_def dispatch_call_def blocked_def Let_def split: sum.splits prod.splits option.splits)
  next
    case (Returned rep)
    with PhWaiting assms(1) show ?thesis
      by (intro exI[of _ "EvTake i"]) (auto simp: rpc_step_def rankOf_def processReq_take_def netStep_def)
  qed (use PhWaiting assms(2) in auto)
next
  case (PhGot n p a b rep)
  with assms(1) show ?thesis
    by (intro exI[of _ "EvFinish i 100 600"]) (auto simp: rpc_step_def rankOf_def processReq_finish_def netStep_def Let_def)
next
  case (PhTimer rep)
  with assms(1) show ?thesis
    by (intro exI[of _ "EvTimer i"]) (auto simp: rpc_step_def rankOf_def processReq_timer_def netStep_def Let_def)
qed (use assms(3) in \<open>auto simp: rankOf_def\<close>)

definition settled :: "('t, 'v, 'b) gobLib \<Rightarrow> nat \<Rightarrow> (('e, 'n, 't, 'v, 'w, 'b) Network \<times> 'w) res option \<Rightarrow> bool" where
  "settled g i r \<longleftrightarrow> (case r of None \<Rightarrow> False | Some (Inl e) \<Rightarrow> True
     | Some (Inr s) \<Rightarrow> (\<exists>rep. ifPhase (nwReqs (fst s) ! i) = PhReplied rep) \<or> blocked g i s)"

lemma settles:
  assumes "i < length (nwReqs rn)" "pos_ok (ifPhase (nwReqs rn ! i)) (ifExec (nwReqs rn ! i))"
  shows "\<exists>evs. length evs \<le> rankOf i (rn, w) \<and> (\<forall>ev \<in> set evs. reqOf ev = Some i) \<and> settled g i (rpc_run g evs (rn, w))"
  using assms
proof (induction "rankOf i (rn, w)" arbitrary: rn w rule: less_induct)
  case less
  show ?case
  proof (cases "rankOf i (rn, w) = 0 \<or> blocked g i (rn, w)")
    case True
    then show ?thesis by (intro exI[of _ "[]"]) (auto simp: settled_def rankOf_def rank_0)
  next
    case False
    then obtain ev where ev: "reqOf ev = Some i"
      "case rpc_step g ev (rn, w) of None \<Rightarrow> False | Some (Inl e) \<Rightarrow> True | Some (Inr s') \<Rightarrow> rankOf i s' < rankOf i (rn, w)"
      using progress[OF less.prems] by blast
    show ?thesis
    proof (cases "\<exists>e. rpc_step g ev (rn, w) = Some (Inl e)")
      case True
      with False ev(1) show ?thesis by (intro exI[of _ "[ev]"]) (auto simp: settled_def)
    next
      case none: False
      with ev(2) obtain rn' w' where st: "rpc_step g ev (rn, w) = Some (Inr (rn', w'))" "rankOf i (rn', w') < rankOf i (rn, w)"
        by (auto split: option.splits sum.splits)
      note o = rpc_step_own[OF st(1) ev(1)]
      have "pos_ok (ifPhase (nwReqs rn' ! i)) (ifExec (nwReqs rn' ! i))"
        using reqStep_pos_ok[OF o(2)[unfolded pos_def] less.prems(2)] .
      with less.hyps[OF st(2)] less.prems(1) o(4) obtain evs where
        "length evs \<le> rankOf i (rn', w')" "\<forall>ev \<in> set evs. reqOf ev = Some i" "settled g i (rpc_run g evs (rn', w'))" by auto
      with st ev(1) show ?thesis by (intro exI[of _ "ev # evs"]) auto
    qed
  qed
qed

text \<open>C33: Every call returns unless its handler does not: from any reachable state at most six steps of the call's own goroutines
  bring it to its reply, or to a handler that is waiting, or end the program because the service or method is unknown.\<close>

theorem call_returns:
  assumes "rpc_run g evs (MakeNetwork, w0) = Some (Inr (rn, w))" "i < length (nwReqs rn)"
  shows "\<exists>evs'. length evs' \<le> 6 \<and> (\<forall>ev \<in> set evs'. reqOf ev = Some i) \<and>
    (case rpc_run g evs' (rn, w) of None \<Rightarrow> False | Some (Inl e) \<Rightarrow> True
     | Some (Inr (rn', w')) \<Rightarrow> (\<exists>rep. ifPhase (nwReqs rn' ! i) = PhReplied rep) \<or>
         (\<exists>svc m. ifExec (nwReqs rn' ! i) = Running svc m \<and> Service_dispatch g svc m (ifReq (nwReqs rn' ! i)) w' = None))"
proof -
  have "pos_ok (ifPhase (nwReqs rn ! i)) (ifExec (nwReqs rn ! i))"
    by (rule reachable_pos_ok[OF assms]) (simp add: MakeNetwork_def)
  from settles[OF assms(2) this, of w g] obtain evs' where e: "length evs' \<le> rankOf i (rn, w)"
    "\<forall>ev \<in> set evs'. reqOf ev = Some i" "settled g i (rpc_run g evs' (rn, w))" by blast
  have "length evs' \<le> 6" using e(1) rank_le by (auto simp: rankOf_def intro: order.trans)
  with e(2,3) show ?thesis
    by (intro exI[of _ evs']) (auto simp: settled_def blocked_def split: option.splits sum.splits execState.splits)
qed

subsection \<open>A reliable network\<close>

fun calm :: "('e, 'n, 't, 'v, 'w) rpc_event \<Rightarrow> bool" where
  "calm (EvAdmin _) = False"
| "calm _ = True"

definition steady :: "'e \<Rightarrow> 'n \<Rightarrow> nat \<Rightarrow> ('e, 'n, 't, 'v, 'w, 'b) Network \<Rightarrow> bool" where
  "steady e n p rn \<longleftrightarrow> mget False (nwEnabled rn) e \<and> mget None (nwConnections rn) e = Some n \<and>
     mget None (nwServers rn) n = Some p \<and> nwReliable rn \<and> \<not> nwLongReordering rn"

lemma calm_steady:
  assumes "rpc_step g ev (rn, w) = Some (Inr (rn', w'))" "calm ev" "steady e n p rn"
  shows "steady e n p rn'"
proof -
  have act: "rpc_act g ev (rn, w) = Some (Inr (rn', w'))" using assms(1) by (auto simp: rpc_step_def split: if_splits)
  have "nwEnabled rn' = nwEnabled rn \<and> nwConnections rn' = nwConnections rn \<and> nwServers rn' = nwServers rn \<and>
      nwReliable rn' = nwReliable rn \<and> nwLongReordering rn' = nwLongReordering rn"
    using act assms(2) by (cases ev) (auto simp: proc_defs dispatch_lookup_def dispatch_call_def Call_send_def countBytes_def Let_def
          split: phase.splits prod.splits bool.splits option.splits execState.splits sum.splits if_splits)
  with assms(3) show ?thesis by (simp add: steady_def)
qed

fun good_pos :: "'n \<Rightarrow> nat \<Rightarrow> ('n, 'b) phase \<times> ('t, 'v, 'w, 'b) execState \<Rightarrow> bool" where
  "good_pos n p (ph, x) = ((case ph of PhStart \<Rightarrow> True | PhDeliver n' p' a b \<Rightarrow> n' = n \<and> p' = p \<and> a \<and> \<not> b
      | PhWaiting n' p' a b \<Rightarrow> n' = n \<and> p' = p \<and> a \<and> \<not> b | PhGot n' p' a b rep \<Rightarrow> n' = n \<and> p' = p \<and> a \<and> \<not> b \<and> rpOk rep
      | PhTimer _ \<Rightarrow> False | PhReplied rep \<Rightarrow> rpOk rep) \<and> (\<forall>rep. x = Returned rep \<longrightarrow> rpOk rep))"

lemma reqStep_good:
  assumes "rpc_step g ev (rn, w) = Some (Inr (rn', w'))" "reqOf ev = Some i"
    and "steady (rqEndname (ifReq (nwReqs rn ! i))) n p rn" "good_pos n p (pos (nwReqs rn ! i))"
  shows "good_pos n p (pos (nwReqs rn' ! i))"
proof (cases "\<exists>j. ev = EvRead j")
  case True
  with assms(2) have ev: "ev = EvRead i" by auto
  have lt: "i < length (nwReqs rn)" by (rule rpc_step_own(1)[OF assms(1,2)])
  have "readEndnameInfo (rqEndname (ifReq (nwReqs rn ! i))) rn = (True, Some n, Some p, True, False)"
    using assms(3) by (auto simp: steady_def readEndnameInfo_def)
  with assms(1) ev lt show ?thesis
    by (auto simp: rpc_step_def processReq_read_def pos_def split: phase.splits if_splits)
next
  case False
  have nd: "\<not> isServerDead (rqEndname (ifReq (nwReqs rn ! i))) n p rn" using assms(3) by (simp add: steady_def isServerDead_def)
  from rpc_step_own(2)[OF assms(1,2)] show ?thesis
    using nd assms(4) False by (cases rule: reqStep.cases) (auto dest: Service_dispatch_ok)
qed

lemma calm_good:
  assumes "rpc_run g evs s = Some (Inr (rn', w'))" "i < length (nwReqs (fst s))" "\<forall>ev \<in> set evs. calm ev"
    and "steady (rqEndname (ifReq (nwReqs (fst s) ! i))) n p (fst s)" "good_pos n p (pos (nwReqs (fst s) ! i))"
  shows "steady (rqEndname (ifReq (nwReqs (fst s) ! i))) n p rn' \<and> good_pos n p (pos (nwReqs rn' ! i))"
  using assms
proof (induction evs arbitrary: rn' w' rule: rev_induct)
  case (snoc ev evs)
  obtain rn1 w1 where r: "rpc_run g evs s = Some (Inr (rn1, w1))" and st: "rpc_step g ev (rn1, w1) = Some (Inr (rn', w'))"
    using snoc.prems(1) by (auto simp: rpc_run_snoc)
  note lt = req_stable[OF r snoc.prems(2)]
  have IH: "steady (rqEndname (ifReq (nwReqs (fst s) ! i))) n p rn1" "good_pos n p (pos (nwReqs rn1 ! i))"
    using snoc.IH[OF r snoc.prems(2) _ snoc.prems(4,5)] snoc.prems(3) by auto
  have sd: "steady (rqEndname (ifReq (nwReqs (fst s) ! i))) n p rn'" using calm_steady[OF st _ IH(1)] snoc.prems(3) by simp
  show ?case
  proof (cases "reqOf ev")
    case (Some k)
    show ?thesis
    proof (cases "k = i")
      case True
      with Some have "reqOf ev = Some i" by simp
      from reqStep_good[OF st this] IH lt sd show ?thesis by simp
    next
      case False
      with rpc_step_own(5)[OF st Some, of i] IH sd show ?thesis by simp
    qed
  next
    case None
    with IH lt sd rpc_step_other[OF st None] show ?thesis by (auto simp: nth_append)
  qed
qed auto

text \<open>On a reliable network without long reordering, over an enabled connection to a live server, as long as nobody changes the
  network, a call that returns returns \<open>true\<close>.\<close>

lemma reliable_delivers:
  assumes "steady (ceEndname e) n p rn0" "i = length (nwReqs rn0)" "\<forall>ev \<in> set evs. calm ev"
    and "rpc_run g (EvSend e sm args # evs) (rn0, w0) = Some (Inr (rn, w))" "ifPhase (nwReqs rn ! i) = PhReplied rep"
  shows "rpOk rep"
proof -
  obtain rn1 w1 where st: "rpc_step g (EvSend e sm args) (rn0, w0) = Some (Inr (rn1, w1))" "rpc_run g evs (rn1, w1) = Some (Inr (rn, w))"
    using assms(4) by (auto split: option.splits sum.splits)
  note n = rpc_step_send(1)[OF st(1)]
  have "steady (ceEndname e) n p rn1" using calm_steady[OF st(1) _ assms(1)] by simp
  with calm_good[OF st(2) _ assms(3), of i n p] n assms(2) have "good_pos n p (pos (nwReqs rn ! i))"
    by (simp add: newReq_def callReq_def pos_def)
  with assms(5) show ?thesis by (simp add: pos_def)
qed

subsection \<open>Runs of a counter service\<close>

definition demo_gob :: "(unit, int, int) gobLib" where
  "demo_gob = \<lparr>gEnc = \<lambda>v. ([v], True), gDec = \<lambda>v bs. (case bs of [] \<Rightarrow> (v, False) | b # _ \<Rightarrow> (b, True)), gType = \<lambda>_. (), gZero = \<lambda>_. 0\<rparr>"

definition counter_Add :: "(unit, int, int) Method" where
  "counter_Add = \<lparr>mtName = ''Add'', mtPkgPath = [], mtNumIn = 3, mtIn2Ptr = True, mtNumOut = 0, mtReplyType = (),
     mtFunc = \<lambda>args reply w. Some (w + args, w + args)\<rparr>"

definition demo_setup :: "(string, int, unit, int, int) rpc_event list" where
  "demo_setup = map EvAdmin [AdMakeServer, AdAddService 0 (MakeService ''Counter'' [counter_Add]), AdAddServer 7 0,
     AdMakeEnd ''e'', AdConnect ''e'' 7, AdEnable ''e'' True]"

definition demo_post :: "(string, int, unit, int, int) rpc_event list" where
  "demo_post = [EvRead 0, EvDeliver 0 5, EvWorld (\<lambda>w. w + 1), EvLookup 0, EvHandle 0, EvTake 0, EvFinish 0 5 0]"

text \<open>The server is deleted while the handler's goroutine has not started: the call fails and the handler runs later.\<close>

definition demo_late :: "(string, int, unit, int, int) rpc_event list" where
  "demo_late = [EvRead 0, EvDeliver 0 5, EvAdmin (AdDeleteServer 7), EvPoll 0]"

abbreviation demo_call :: "(string, int, unit, int, int) rpc_event" where
  "demo_call \<equiv> EvSend \<lparr>ceEndname = ''e''\<rparr> ''Counter.Add'' 4"

abbreviation demo_start :: "(string, int, unit, int, int, int) Network \<times> int" where
  "demo_start \<equiv> (MakeNetwork, 10)"

definition after :: "(('e, 'n, 't, 'v, 'w, 'b) Network \<times> 'w) res option \<Rightarrow> (nat \<times> 'w \<times> ('n, 'b) phase list) option" where
  "after r = (case r of Some (Inr (rn, w)) \<Rightarrow> Some (length (nwReqs rn), w, map ifPhase (nwReqs rn)) | _ \<Rightarrow> None)"

lemma afterD: "after r = Some (k, w, phs) \<Longrightarrow> \<exists>rn. r = Some (Inr (rn, w)) \<and> length (nwReqs rn) = k \<and> map ifPhase (nwReqs rn) = phs"
  by (auto simp: after_def split: option.splits sum.splits)

lemma phase_of: "length rs = 1 \<Longrightarrow> map ifPhase rs = [ph] \<Longrightarrow> ifPhase (rs ! 0) = ph"
  by (cases rs) auto

lemma demo_runs:
  "after (rpc_run demo_gob demo_setup demo_start) = Some (0, 10, [])"
  "after (rpc_run demo_gob (demo_setup @ demo_call # demo_post) demo_start) = Some (1, 15, [PhReplied \<lparr>rpOk = True, rpReply = [15]\<rparr>])"
  "after (rpc_run demo_gob (demo_setup @ demo_call # demo_late) demo_start) = Some (1, 10, [PhReplied failed])"
  "after (rpc_run demo_gob ((demo_setup @ demo_call # demo_late) @ [EvLookup 0] @ [EvHandle 0]) demo_start) = Some (1, 14, [PhReplied failed])"
  by code_simp+

lemma demo_gob_ok: "gob_ok demo_gob"
  by (simp add: gob_ok_def demo_gob_def)

theorem call_outcome_witness:
  "\<exists>rn. rpc_run demo_gob (demo_setup @ demo_call # demo_post) demo_start = Some (Inr (rn, 15)) \<and>
     ifPhase (nwReqs rn ! 0) = PhReplied \<lparr>rpOk = True, rpReply = [15]\<rparr> \<and> handled 0 (demo_setup @ demo_call # demo_post) \<le> 1 \<and>
     answered demo_gob demo_start 0 (ifReq (nwReqs rn ! 0)) (demo_setup @ demo_call # demo_post)"
proof -
  obtain rn0 where r0: "rpc_run demo_gob demo_setup demo_start = Some (Inr (rn0, 10))" "length (nwReqs rn0) = 0"
    using afterD[OF demo_runs(1)] by (elim exE conjE) (rule that; assumption)
  obtain rn where r: "rpc_run demo_gob (demo_setup @ demo_call # demo_post) demo_start = Some (Inr (rn, 15))" "length (nwReqs rn) = 1"
      "map ifPhase (nwReqs rn) = [PhReplied \<lparr>rpOk = True, rpReply = [15]\<rparr>]"
    using afterD[OF demo_runs(2)] by (elim exE conjE) (rule that; assumption)
  have ph: "ifPhase (nwReqs rn ! 0) = PhReplied \<lparr>rpOk = True, rpReply = [15]\<rparr>" using phase_of[OF r(2,3)] .
  note c = call_outcome[OF demo_gob_ok r0(1) r0(2)[symmetric] r(1)]
  have "answered demo_gob demo_start 0 (ifReq (nwReqs rn ! 0)) (demo_setup @ demo_call # demo_post)"
    using c[THEN conjunct2, rule_format, OF conjI[OF ph]] by simp
  with c[THEN conjunct1] r(1) ph show ?thesis by blast
qed

theorem call_returns_witness:
  "\<exists>rn evs'. rpc_run demo_gob (demo_setup @ demo_call # demo_post) demo_start = Some (Inr (rn, 15)) \<and> length evs' \<le> 6 \<and>
     rpc_run demo_gob evs' (rn, 15) \<noteq> None"
proof -
  obtain rn where r: "rpc_run demo_gob (demo_setup @ demo_call # demo_post) demo_start = Some (Inr (rn, 15))" "length (nwReqs rn) = 1"
    using afterD[OF demo_runs(2)] by (elim exE conjE) (rule that; assumption)
  from call_returns[OF r(1), of 0] r(2) obtain evs' where e: "length evs' \<le> 6"
      "case rpc_run demo_gob evs' (rn, 15) of None \<Rightarrow> False | Some (Inl e) \<Rightarrow> True
     | Some (Inr (rn', w')) \<Rightarrow> (\<exists>rep. ifPhase (nwReqs rn' ! 0) = PhReplied rep) \<or>
         (\<exists>svc m. ifExec (nwReqs rn' ! 0) = Running svc m \<and> Service_dispatch demo_gob svc m (ifReq (nwReqs rn' ! 0)) w' = None)" by auto
  then have "rpc_run demo_gob evs' (rn, 15) \<noteq> None" by (auto split: option.splits)
  with r(1) e(1) show ?thesis by blast
qed

end
