(* ===== verification/LabGob.thy ===== *)
theory LabGob
  imports LabRpc
begin

text \<open>
  \<open>labgob/labgob.go\<close>: the encoder and decoder that warn about fields that \<open>encoding/gob\<close> would not send and about decoding
  into variables that are not fresh. A \<open>reflect.Type\<close> is an index into a table of types, since types can be
  recursive; \<open>upper\<close> is the test \<open>unicode.IsUpper\<close> of the first character of a field name. \<open>lgChecked\<close> are the
  keys of the map \<open>checked\<close>, \<open>lgOut\<close> the lines printed.
\<close>

subsection \<open>Types\<close>

datatype kind =
    KStruct "(string \<times> nat) list"
  | KElem nat
  | KMap nat nat
  | KOther

record typeInfo =
  tiName :: string
  tiKind :: kind

record labgob =
  lgErrors :: int
  lgChecked :: "nat list"
  lgOut :: "string list"

definition checkField :: "(string \<Rightarrow> bool) \<Rightarrow> string \<Rightarrow> string \<Rightarrow> labgob \<Rightarrow> labgob" where
  "checkField upper tname fname st =
     (if upper fname = False
      then st\<lparr>lgOut := lgOut st @ [''labgob error: lower-case field '' @ fname @ '' of '' @ tname @
                '' in RPC or persist/snapshot will break your Raft''], lgErrors := lgErrors st + 1\<rparr>
      else st)"

text \<open>\<open>checkType\<close> (\<open>Inl\<close>) and its loop over the fields that are left of a struct (\<open>Inr\<close>).\<close>

partial_function (option) checkTypeRec :: "(string \<Rightarrow> bool) \<Rightarrow> typeInfo list \<Rightarrow> nat + string \<times> (string \<times> nat) list \<Rightarrow> labgob \<Rightarrow> labgob option" where
  "checkTypeRec upper types x st =
     (case x of
        Inl t \<Rightarrow>
          if t \<in> set (lgChecked st) then Some st
          else
            let st' = st\<lparr>lgChecked := t # lgChecked st\<rparr> in
            (case tiKind (types ! t) of
               KStruct fs \<Rightarrow> checkTypeRec upper types (Inr (tiName (types ! t), fs)) st'
             | KElem e \<Rightarrow> checkTypeRec upper types (Inl e) st'
             | KMap e k \<Rightarrow> Option.bind (checkTypeRec upper types (Inl e) st') (\<lambda>st''. checkTypeRec upper types (Inl k) st'')
             | KOther \<Rightarrow> Some st')
      | Inr (tname, fs) \<Rightarrow>
          (case fs of [] \<Rightarrow> Some st
           | (fname, ft) # rest \<Rightarrow>
               Option.bind (checkTypeRec upper types (Inl ft) (checkField upper tname fname st))
                 (\<lambda>st'. checkTypeRec upper types (Inr (tname, rest)) st')))"

declare checkTypeRec.simps [code]

definition checkType :: "(string \<Rightarrow> bool) \<Rightarrow> typeInfo list \<Rightarrow> nat \<Rightarrow> labgob \<Rightarrow> labgob option" where
  "checkType upper types t st = checkTypeRec upper types (Inl t) st"

subsection \<open>Values\<close>

datatype gval =
    VStruct "(string \<times> gval) list"
  | VPtr "gval option"
  | VBasic string bool
  | VOther

text \<open>\<open>VBasic\<close> holds the name of the value's type and whether the value is the zero value of its type.\<close>

fun checkDefault1 :: "gval \<Rightarrow> int \<Rightarrow> string \<Rightarrow> labgob \<Rightarrow> labgob"
  and checkFields :: "(string \<times> gval) list \<Rightarrow> int \<Rightarrow> string \<Rightarrow> labgob \<Rightarrow> labgob" where
  "checkDefault1 (VStruct fs) depth name st = (if depth > 3 then st else checkFields fs depth name st)"
| "checkDefault1 (VPtr None) depth name st = st"
| "checkDefault1 (VPtr (Some v)) depth name st = (if depth > 3 then st else checkDefault1 v (depth + 1) name st)"
| "checkDefault1 (VBasic tname zero) depth name st =
     (if depth > 3 then st
      else if zero = False then
        (let what = (if name = [] then tname else name);
             st' = (if lgErrors st < 1
                    then st\<lparr>lgOut := lgOut st @ [''labgob warning: Decoding into a non-default variable/field '' @ what @ '' may not work'']\<rparr>
                    else st)
         in st'\<lparr>lgErrors := lgErrors st' + 1\<rparr>)
      else st)"
| "checkDefault1 VOther depth name st = st"
| "checkFields [] depth name st = st"
| "checkFields ((fname, v) # rest) depth name st =
     checkFields rest depth name
       (checkDefault1 v (depth + 1) (if name \<noteq> [] then name @ ''.'' @ fname else fname) st)"

definition checkDefault :: "gval option \<Rightarrow> labgob \<Rightarrow> labgob" where
  "checkDefault value st = (case value of None \<Rightarrow> st | Some v \<Rightarrow> checkDefault1 v 1 [] st)"

text \<open>The encoder and the decoder; \<open>t\<close> is the type of the value, \<open>shape\<close> the value decoded into, as \<open>reflect\<close> sees it.\<close>

definition lab_Encode :: "(string \<Rightarrow> bool) \<Rightarrow> typeInfo list \<Rightarrow> ('t, 'v, 'b) gobLib \<Rightarrow> nat \<Rightarrow> 'v \<Rightarrow> labgob \<Rightarrow> (labgob \<times> 'b list \<times> bool) option" where
  "lab_Encode upper types g t e st = map_option (\<lambda>st'. (st', gEnc g e)) (checkType upper types t st)"

definition lab_Decode :: "(string \<Rightarrow> bool) \<Rightarrow> typeInfo list \<Rightarrow> ('t, 'v, 'b) gobLib \<Rightarrow> nat \<Rightarrow> gval option \<Rightarrow> 'v \<Rightarrow> 'b list \<Rightarrow> labgob \<Rightarrow>
    (labgob \<times> 'v \<times> bool) option" where
  "lab_Decode upper types g t shape e bs st =
     map_option (\<lambda>st'. (checkDefault shape st', gDec g e bs)) (checkType upper types t st)"

subsection \<open>Every type that can be reached is checked once\<close>

definition children :: "typeInfo list \<Rightarrow> nat \<Rightarrow> nat list" where
  "children types t = (case tiKind (types ! t) of KStruct fs \<Rightarrow> map snd fs | KElem e \<Rightarrow> [e] | KMap e k \<Rightarrow> [e, k] | KOther \<Rightarrow> [])"

definition lowerNames :: "(string \<Rightarrow> bool) \<Rightarrow> (string \<times> nat) list \<Rightarrow> nat" where
  "lowerNames upper fs = length (filter (\<lambda>f. \<not> upper (fst f)) fs)"

definition lowerFields :: "(string \<Rightarrow> bool) \<Rightarrow> typeInfo list \<Rightarrow> nat \<Rightarrow> nat" where
  "lowerFields upper types t = (case tiKind (types ! t) of KStruct fs \<Rightarrow> lowerNames upper fs | _ \<Rightarrow> 0)"

definition types_ok :: "typeInfo list \<Rightarrow> bool" where
  "types_ok types \<longleftrightarrow> (\<forall>t < length types. \<forall>c \<in> set (children types t). c < length types)"

definition refs :: "typeInfo list \<Rightarrow> (nat \<times> nat) set" where
  "refs types = {(t, c). c \<in> set (children types t)}"

definition checked_ok :: "typeInfo list \<Rightarrow> labgob \<Rightarrow> bool" where
  "checked_ok types st \<longleftrightarrow> distinct (lgChecked st) \<and> set (lgChecked st) \<subseteq> {..<length types}"

definition freshTypes :: "typeInfo list \<Rightarrow> labgob \<Rightarrow> nat" where
  "freshTypes types st = length types - length (lgChecked st)"

fun roots :: "nat + string \<times> (string \<times> nat) list \<Rightarrow> nat list" where
  "roots (Inl t) = [t]"
| "roots (Inr (_, fs)) = map snd fs"

fun ownErrors :: "(string \<Rightarrow> bool) \<Rightarrow> nat + string \<times> (string \<times> nat) list \<Rightarrow> nat" where
  "ownErrors upper (Inl t) = 0"
| "ownErrors upper (Inr (_, fs)) = lowerNames upper fs"

text \<open>What a call of \<open>checkTypeRec\<close> does to the state.\<close>

definition visits :: "(string \<Rightarrow> bool) \<Rightarrow> typeInfo list \<Rightarrow> nat list \<Rightarrow> nat \<Rightarrow> labgob \<Rightarrow> labgob \<Rightarrow> bool" where
  "visits upper types rs n st st' \<longleftrightarrow>
     checked_ok types st' \<and> set (lgChecked st) \<subseteq> set (lgChecked st') \<and> set rs \<subseteq> set (lgChecked st') \<and>
     (let new = set (lgChecked st') - set (lgChecked st) in
      new \<subseteq> (refs types)\<^sup>* `` set rs \<and> (\<forall>u \<in> new. set (children types u) \<subseteq> set (lgChecked st')) \<and>
      lgErrors st' = lgErrors st + int n + int (\<Sum>u \<in> new. lowerFields upper types u))"

lemma visits_refl: "checked_ok types st \<Longrightarrow> set rs \<subseteq> set (lgChecked st) \<Longrightarrow> visits upper types rs 0 st st"
  by (simp add: visits_def)

lemma checked_mono_fresh:
  assumes "checked_ok types st'" "checked_ok types st" "set (lgChecked st) \<subseteq> set (lgChecked st')"
  shows "freshTypes types st' \<le> freshTypes types st"
proof -
  have "card (set (lgChecked st)) \<le> card (set (lgChecked st'))" using assms(3) by (simp add: card_mono)
  then show ?thesis using assms by (simp add: freshTypes_def checked_ok_def distinct_card)
qed

lemma visits_trans:
  assumes "visits upper types rs m st st1" "visits upper types rs' n st1 st2"
  shows "visits upper types (rs @ rs') (m + n) st st2"
proof -
  let ?A = "set (lgChecked st)" and ?B = "set (lgChecked st1)" and ?C = "set (lgChecked st2)"
  have sub: "?A \<subseteq> ?B" "?B \<subseteq> ?C" using assms by (simp_all add: visits_def)
  then have d: "?C - ?A = (?B - ?A) \<union> (?C - ?B)" "(?B - ?A) \<inter> (?C - ?B) = {}" by auto
  have "(\<Sum>u \<in> ?C - ?A. lowerFields upper types u) = (\<Sum>u \<in> ?B - ?A. lowerFields upper types u) + (\<Sum>u \<in> ?C - ?B. lowerFields upper types u)"
    unfolding d(1) by (rule sum.union_disjoint) (use d(2) in auto)
  moreover have "?C - ?A \<subseteq> (refs types)\<^sup>* `` set (rs @ rs')" using assms unfolding d(1) visits_def by (auto simp: Let_def)
  moreover have "\<forall>u \<in> ?B - ?A. set (children types u) \<subseteq> ?B" "\<forall>u \<in> ?C - ?B. set (children types u) \<subseteq> ?C"
    using assms by (simp_all add: visits_def Let_def)
  then have "\<forall>u \<in> ?C - ?A. set (children types u) \<subseteq> ?C" using sub by blast
  ultimately show ?thesis using assms sub unfolding visits_def by (auto simp: Let_def simp del: of_nat_sum)
qed

lemma visits_mark:
  assumes "checked_ok types st" "t < length types" "t \<notin> set (lgChecked st)"
    and "visits upper types (children types t) n (st\<lparr>lgChecked := t # lgChecked st\<rparr>) st'" "n = lowerFields upper types t"
  shows "visits upper types [t] 0 st st'"
proof -
  let ?A = "set (lgChecked st)" and ?C = "set (lgChecked st')"
  have sub: "insert t ?A \<subseteq> ?C" using assms(4) by (simp add: visits_def)
  with assms(3) have d: "?C - ?A = insert t (?C - insert t ?A)" by auto
  have "(\<Sum>u \<in> ?C - ?A. lowerFields upper types u) = lowerFields upper types t + (\<Sum>u \<in> ?C - insert t ?A. lowerFields upper types u)"
    unfolding d by (subst sum.insert) auto
  moreover have "?C - ?A \<subseteq> (refs types)\<^sup>* `` {t}"
  proof
    fix u assume "u \<in> ?C - ?A"
    then consider "u = t" | "u \<in> ?C - insert t ?A" using d by blast
    then show "u \<in> (refs types)\<^sup>* `` {t}"
    proof cases
      case 2
      then obtain c where "c \<in> set (children types t)" "(c, u) \<in> (refs types)\<^sup>*" using assms(4) by (auto simp: visits_def Let_def)
      then have "(t, c) \<in> refs types" "(c, u) \<in> (refs types)\<^sup>*" by (simp_all add: refs_def)
      then show ?thesis by (auto intro: converse_rtrancl_into_rtrancl)
    qed simp
  qed
  moreover have "\<forall>u \<in> ?C - ?A. set (children types u) \<subseteq> ?C" using assms(4) unfolding d visits_def by (auto simp: Let_def)
  ultimately show ?thesis using assms(4,5) sub unfolding visits_def by (auto simp: Let_def simp del: of_nat_sum)
qed

lemma visits_field:
  assumes "visits upper types rs n (checkField upper tname fname st) st'"
  shows "visits upper types rs ((if upper fname then 0 else 1) + n) st st'"
  using assms by (auto simp: visits_def checkField_def Let_def split: if_splits)

fun workSize :: "nat + string \<times> (string \<times> nat) list \<Rightarrow> nat" where
  "workSize (Inl _) = 0"
| "workSize (Inr (_, fs)) = Suc (length fs)"

lemma checkTypeRec_visits:
  assumes tok: "types_ok types"
  shows "set (roots x) \<subseteq> {..<length types} \<Longrightarrow> checked_ok types st \<Longrightarrow>
    \<exists>st'. checkTypeRec upper types x st = Some st' \<and> visits upper types (roots x) (ownErrors upper x) st st'"
proof (induction "(freshTypes types st, workSize x)" arbitrary: x st rule: wf_induct_rule[OF wf_lex_prod[OF wf_less_than wf_less_than]])
  case (1 x st)
  note IH = "1.hyps" and rng = "1.prems"(1) and ok = "1.prems"(2)
  show ?case
  proof (cases x)
    case (Inl t)
    have tr: "t < length types" using rng Inl by simp
    show ?thesis
    proof (cases "t \<in> set (lgChecked st)")
      case True
      then show ?thesis unfolding Inl by (subst checkTypeRec.simps) (simp add: visits_refl[OF ok])
    next
      case False
      let ?st = "st\<lparr>lgChecked := t # lgChecked st\<rparr>"
      have ok': "checked_ok types ?st" using ok tr False by (simp add: checked_ok_def)
      have "card (set (lgChecked ?st)) \<le> card {..<length types}"
        by (rule card_mono) (use ok' in \<open>auto simp: checked_ok_def\<close>)
      then have "length (lgChecked ?st) \<le> length types" using ok' unfolding checked_ok_def by (simp only: distinct_card card_lessThan)
      then have less: "freshTypes types ?st < freshTypes types st" by (simp add: freshTypes_def)
      have sub: "set (children types t) \<subseteq> {..<length types}" using tok tr by (auto simp: types_ok_def)
      have step: "\<exists>st'. checkTypeRec upper types y st1 = Some st' \<and> visits upper types (roots y) (ownErrors upper y) st1 st'"
        if "set (roots y) \<subseteq> {..<length types}" "checked_ok types st1" "set (lgChecked ?st) \<subseteq> set (lgChecked st1)" for y st1
        using IH[of st1 y] that less checked_mono_fresh[OF that(2) ok' that(3)] by simp
      have "\<exists>st'. checkTypeRec upper types (Inl t) st = Some st' \<and> visits upper types (children types t) (lowerFields upper types t) ?st st'"
      proof (cases "tiKind (types ! t)")
        case (KStruct fs)
        have "set (roots (Inr (tiName (types ! t), fs))) \<subseteq> {..<length types}" using sub KStruct by (simp add: children_def)
        from step[OF this ok' order.refl] KStruct False show ?thesis
          by (subst checkTypeRec.simps) (simp add: children_def lowerFields_def)
      next
        case (KElem e)
        have "set (roots (Inl e)) \<subseteq> {..<length types}" using sub KElem by (simp add: children_def)
        from step[OF this ok' order.refl] KElem False show ?thesis
          by (subst checkTypeRec.simps) (simp add: children_def lowerFields_def)
      next
        case (KMap e k)
        have r: "set (roots (Inl e)) \<subseteq> {..<length types}" "set (roots (Inl k)) \<subseteq> {..<length types}"
          using sub KMap by (simp_all add: children_def)
        from step[OF r(1) ok' order.refl] obtain st1 where 1: "checkTypeRec upper types (Inl e) ?st = Some st1" "visits upper types [e] 0 ?st st1" by auto
        have "checked_ok types st1" "set (lgChecked ?st) \<subseteq> set (lgChecked st1)" using 1(2) by (simp_all add: visits_def)
        from step[OF r(2) this] obtain st2 where 2: "checkTypeRec upper types (Inl k) st1 = Some st2" "visits upper types [k] 0 st1 st2" by auto
        show ?thesis using visits_trans[OF 1(2) 2(2)] 1(1) 2(1) KMap False
          by (subst checkTypeRec.simps) (simp add: children_def lowerFields_def)
      next
        case KOther
        then show ?thesis using False visits_refl[OF ok', of "[]" upper]
          by (subst checkTypeRec.simps) (simp add: children_def lowerFields_def)
      qed
      then show ?thesis using visits_mark[OF ok tr False _ refl] Inl by auto
    qed
  next
    case (Inr y)
    obtain tname fs where y: "y = (tname, fs)" by (cases y)
    show ?thesis
    proof (cases fs)
      case Nil
      then show ?thesis unfolding Inr y by (subst checkTypeRec.simps) (simp add: visits_refl[OF ok] lowerNames_def)
    next
      case (Cons f rest)
      obtain fname ft where f: "f = (fname, ft)" by (cases f)
      let ?st = "checkField upper tname fname st"
      have ok': "checked_ok types ?st" and same: "freshTypes types ?st = freshTypes types st"
        using ok by (simp_all add: checkField_def checked_ok_def freshTypes_def)
      have "\<exists>st'. checkTypeRec upper types (Inl ft) ?st = Some st' \<and> visits upper types (roots (Inl ft)) (ownErrors upper (Inl ft)) ?st st'"
        by (rule IH) (use Cons f rng Inr y ok' same in auto)
      then obtain st1 where 1: "checkTypeRec upper types (Inl ft) ?st = Some st1" "visits upper types [ft] 0 ?st st1" by auto
      have ok1: "checked_ok types st1" and fr: "freshTypes types st1 \<le> freshTypes types st"
        using 1(2) checked_mono_fresh[of types st1 ?st] ok' same by (simp_all add: visits_def)
      have "\<exists>st'. checkTypeRec upper types (Inr (tname, rest)) st1 = Some st' \<and>
          visits upper types (roots (Inr (tname, rest))) (ownErrors upper (Inr (tname, rest))) st1 st'"
        by (rule IH) (use Cons f rng Inr y ok1 fr in auto)
      then obtain st2 where 2: "checkTypeRec upper types (Inr (tname, rest)) st1 = Some st2"
          "visits upper types (map snd rest) (lowerNames upper rest) st1 st2" by auto
      have "visits upper types (ft # map snd rest) ((if upper fname then 0 else 1) + lowerNames upper rest) st st2"
        using visits_field[OF visits_trans[OF 1(2) 2(2)]] by simp
      then show ?thesis unfolding Inr y Cons f using 1(1) 2(1)
        by (subst checkTypeRec.simps) (simp add: lowerNames_def split: if_splits)
    qed
  qed
qed

text \<open>C34: \<open>checkType\<close> ends, also for recursive types, and checks everything a value can contain: afterwards the types
  checked are those checked before and all types that can be reached from the given one, and the error count has grown by the number
  of lower-case fields of the types checked for the first time. So a type is complained about once.\<close>

theorem checkType_reaches:
  assumes "types_ok types" "t < length types" "checked_ok types st"
    and closed: "\<forall>u \<in> set (lgChecked st). set (children types u) \<subseteq> set (lgChecked st)"
  shows "\<exists>st'. checkType upper types t st = Some st' \<and>
    set (lgChecked st') = set (lgChecked st) \<union> (refs types)\<^sup>* `` {t} \<and>
    lgErrors st' = lgErrors st + int (\<Sum>u \<in> set (lgChecked st') - set (lgChecked st). lowerFields upper types u) \<and>
    checkType upper types t st' = Some st'"
proof -
  have "set (roots (Inl t)) \<subseteq> {..<length types}" using assms(2) by simp
  from checkTypeRec_visits[OF assms(1) this assms(3), of upper] obtain st' where
    st': "checkType upper types t st = Some st'" "visits upper types [t] 0 st st'" by (auto simp: checkType_def)
  let ?A = "set (lgChecked st)" and ?C = "set (lgChecked st')"
  have v: "?A \<subseteq> ?C" "t \<in> ?C" "?C - ?A \<subseteq> (refs types)\<^sup>* `` {t}" "\<forall>u \<in> ?C - ?A. set (children types u) \<subseteq> ?C"
    "lgErrors st' = lgErrors st + int (\<Sum>u \<in> ?C - ?A. lowerFields upper types u)"
    using st'(2) by (auto simp: visits_def Let_def)
  have cl: "set (children types u) \<subseteq> ?C" if "u \<in> ?C" for u using that v(1,4) closed by (cases "u \<in> ?A") auto
  have "u \<in> ?C" if "(t, u) \<in> (refs types)\<^sup>*" for u
    using that
  proof (induction rule: rtrancl_induct)
    case (step y z)
    then show ?case using cl[of y] by (auto simp: refs_def)
  qed (rule v(2))
  then have "?C = ?A \<union> (refs types)\<^sup>* `` {t}" using v(1,3) by auto
  moreover have "checkType upper types t st' = Some st'" unfolding checkType_def using v(2) by (subst checkTypeRec.simps) simp
  ultimately show ?thesis using st'(1) v(5) by blast
qed

text \<open>A list node of a key and a pointer to the next node: \<open>type node struct { Key string; next *node }\<close>.\<close>

definition demo_types :: "typeInfo list" where
  "demo_types = [\<lparr>tiName = ''node'', tiKind = KStruct [(''Key'', 1), (''next'', 2)]\<rparr>, \<lparr>tiName = ''string'', tiKind = KOther\<rparr>,
     \<lparr>tiName = [], tiKind = KElem 0\<rparr>]"

definition asciiUpper :: "string \<Rightarrow> bool" where
  "asciiUpper s = (case s of [] \<Rightarrow> False | ch # _ \<Rightarrow> 65 \<le> (of_char ch :: nat) \<and> (of_char ch :: nat) \<le> 90)"

definition fresh_labgob :: labgob where
  "fresh_labgob = \<lparr>lgErrors = 0, lgChecked = [], lgOut = []\<rparr>"

theorem checkType_reaches_witness:
  "\<exists>st'. checkType asciiUpper demo_types 2 fresh_labgob = Some st' \<and> set (lgChecked st') = (refs demo_types)\<^sup>* `` {2} \<and>
     lgErrors st' = int (\<Sum>u \<in> set (lgChecked st'). lowerFields asciiUpper demo_types u) \<and> lgErrors st' = 1"
proof -
  have "types_ok demo_types" by (auto simp: types_ok_def children_def demo_types_def less_Suc_eq numeral_3_eq_3)
  moreover have "checked_ok demo_types fresh_labgob" by (simp add: checked_ok_def fresh_labgob_def)
  moreover have "2 < length demo_types" by (simp add: demo_types_def)
  ultimately obtain st' where "checkType asciiUpper demo_types 2 fresh_labgob = Some st'"
      "set (lgChecked st') = set (lgChecked fresh_labgob) \<union> (refs demo_types)\<^sup>* `` {2}"
      "lgErrors st' = lgErrors fresh_labgob + int (\<Sum>u \<in> set (lgChecked st') - set (lgChecked fresh_labgob). lowerFields asciiUpper demo_types u)"
    using checkType_reaches[of demo_types 2 fresh_labgob asciiUpper] by (auto simp: fresh_labgob_def)
  moreover have "map_option lgErrors (checkType asciiUpper demo_types 2 fresh_labgob) = Some 1" by code_simp
  ultimately show ?thesis by (auto simp: fresh_labgob_def)
qed

end
