(* ===== verification/RaftTester.thy ===== *)
theory RaftTester
  imports RaftCluster RaftSnapshot LabRpc
begin

text \<open>
  \<open>raft/config.go\<close>: the harness that the Raft tests run on. It starts and crashes peers on the network of \<open>LabRpc\<close>, connects and
  disconnects them, reads what the peers deliver and compares it, and asks the peers who leads. An error that the harness
  reports ends the test and is a value \<open>Inl\<close> here. The nil slice of end names is the empty list. A snapshot of the
  harness is what it hands to the encoder: an index and a list of commands. A peer that was killed and replaced is no longer part of
  the state.
\<close>

subsection \<open>State\<close>

datatype 'c snapval = SnapInt int | SnapLog "'c option list"

record ('t, 'v, 'w, 'b, 'c) config =
  cgNet :: "(string, nat, 't, 'v, 'w, 'b) Network"
  cgN :: nat
  cgRafts :: "('c, 'c snapval) Raft option list"
  cgApplyErr :: "string list"
  cgConnected :: "bool list"
  cgSaved :: "('c, 'c snapval) Persister option list"
  cgEndnames :: "string list list"
  cgLogs :: "(int, 'c option) gomap list"
  cgLastApplied :: "int list"
  cgMaxIndex :: int

definition endname :: "nat \<Rightarrow> nat \<Rightarrow> ('t, 'v, 'w, 'b, 'c) config \<Rightarrow> string res" where
  "endname i j cfg = bindR (go_nth (cgEndnames cfg) (int i)) (\<lambda>names. go_nth names (int j))"

definition setEnabled :: "string \<Rightarrow> bool \<Rightarrow> ('t, 'v, 'w, 'b, 'c) config \<Rightarrow> ('t, 'v, 'w, 'b, 'c) config" where
  "setEnabled e b cfg = cfg\<lparr>cgNet := Enable e b (cgNet cfg)\<rparr>"

subsection \<open>Connections\<close>

fun connectOut :: "nat list \<Rightarrow> nat \<Rightarrow> ('t, 'v, 'w, 'b, 'c) config \<Rightarrow> ('t, 'v, 'w, 'b, 'c) config res" where
  "connectOut [] i cfg = Inr cfg"
| "connectOut (j # js) i cfg =
     bindR (go_nth (cgConnected cfg) (int j)) (\<lambda>c.
       if c then bindR (endname i j cfg) (\<lambda>e. connectOut js i (setEnabled e True cfg)) else connectOut js i cfg)"

fun connectIn :: "nat list \<Rightarrow> nat \<Rightarrow> ('t, 'v, 'w, 'b, 'c) config \<Rightarrow> ('t, 'v, 'w, 'b, 'c) config res" where
  "connectIn [] i cfg = Inr cfg"
| "connectIn (j # js) i cfg =
     bindR (go_nth (cgConnected cfg) (int j)) (\<lambda>c.
       if c then bindR (endname j i cfg) (\<lambda>e. connectIn js i (setEnabled e True cfg)) else connectIn js i cfg)"

definition connect :: "nat \<Rightarrow> ('t, 'v, 'w, 'b, 'c) config \<Rightarrow> ('t, 'v, 'w, 'b, 'c) config res" where
  "connect i cfg =
     bindR (go_set (cgConnected cfg) (int i) True) (\<lambda>cs.
     bindR (connectOut [0..<cgN cfg] i (cfg\<lparr>cgConnected := cs\<rparr>)) (\<lambda>cfg1.
     connectIn [0..<cgN cfg] i cfg1))"

fun disconnectOut :: "nat list \<Rightarrow> nat \<Rightarrow> ('t, 'v, 'w, 'b, 'c) config \<Rightarrow> ('t, 'v, 'w, 'b, 'c) config res" where
  "disconnectOut [] i cfg = Inr cfg"
| "disconnectOut (j # js) i cfg =
     bindR (go_nth (cgEndnames cfg) (int i)) (\<lambda>names.
       if names \<noteq> [] then bindR (endname i j cfg) (\<lambda>e. disconnectOut js i (setEnabled e False cfg)) else disconnectOut js i cfg)"

fun disconnectIn :: "nat list \<Rightarrow> nat \<Rightarrow> ('t, 'v, 'w, 'b, 'c) config \<Rightarrow> ('t, 'v, 'w, 'b, 'c) config res" where
  "disconnectIn [] i cfg = Inr cfg"
| "disconnectIn (j # js) i cfg =
     bindR (go_nth (cgEndnames cfg) (int j)) (\<lambda>names.
       if names \<noteq> [] then bindR (endname j i cfg) (\<lambda>e. disconnectIn js i (setEnabled e False cfg)) else disconnectIn js i cfg)"

definition disconnect :: "nat \<Rightarrow> ('t, 'v, 'w, 'b, 'c) config \<Rightarrow> ('t, 'v, 'w, 'b, 'c) config res" where
  "disconnect i cfg =
     bindR (go_set (cgConnected cfg) (int i) False) (\<lambda>cs.
     bindR (disconnectOut [0..<cgN cfg] i (cfg\<lparr>cgConnected := cs\<rparr>)) (\<lambda>cfg1.
     disconnectIn [0..<cgN cfg] i cfg1))"

subsection \<open>Starting and crashing peers\<close>

definition resave :: "('c, 'd) Persister option \<Rightarrow> ('c, 'd) Persister option" where
  "resave ps = map_option (\<lambda>p. Save (ReadRaftState (Copy p)) (ReadSnapshot (Copy p)) MakePersister) ps"

text \<open>A running peer was given the persister in \<open>saved[i]\<close> and writes to it, so that persister holds what the peer has persisted.\<close>

definition savedOf :: "nat \<Rightarrow> ('t, 'v, 'w, 'b, 'c) config \<Rightarrow> ('c, 'c snapval) Persister option" where
  "savedOf i cfg = (case cgRafts cfg ! i of Some rf \<Rightarrow> Some (persister rf) | None \<Rightarrow> cgSaved cfg ! i)"

definition crash1 :: "nat \<Rightarrow> ('t, 'v, 'w, 'b, 'c) config \<Rightarrow> ('t, 'v, 'w, 'b, 'c) config res" where
  "crash1 i cfg =
     bindR (disconnect i cfg) (\<lambda>cfg1.
     bindR (go_nth (cgSaved cfg1) (int i)) (\<lambda>_.
       Inr (cfg1\<lparr>cgNet := DeleteServer i (cgNet cfg1), cgRafts := (cgRafts cfg1)[i := None],
                 cgSaved := (cgSaved cfg1)[i := resave (savedOf i cfg1)]\<rparr>)))"

fun makeEnds :: "string list \<Rightarrow> nat \<Rightarrow> ('t, 'v, 'w, 'b, 'c) config \<Rightarrow> ('t, 'v, 'w, 'b, 'c) config res" where
  "makeEnds [] j cfg = Inr cfg"
| "makeEnds (e # es) j cfg =
     bindR (MakeEnd e (cgNet cfg)) (\<lambda>(net, _). makeEnds es (j + 1) (cfg\<lparr>cgNet := Connect e j net\<rparr>))"

definition ingestSnap :: "nat \<Rightarrow> 'c snapval list \<Rightarrow> int \<Rightarrow> ('t, 'v, 'w, 'b, 'c) config \<Rightarrow> ('t, 'v, 'w, 'b, 'c) config res" where
  "ingestSnap i snap index cfg =
     (case snap of
        [SnapInt lii, SnapLog xlog] \<Rightarrow>
          if index \<noteq> -1 \<and> index \<noteq> lii then Inl (Explicit ''snapshot doesn't match m.SnapshotIndex'')
          else Inr (cfg\<lparr>cgLogs := (cgLogs cfg)[i := map (\<lambda>j. (int j, xlog ! j)) [0..<length xlog]],
                        cgLastApplied := (cgLastApplied cfg)[i := lii]\<rparr>)
      | _ \<Rightarrow> Inl (Explicit ''snapshot decode error''))"

text \<open>\<open>names\<close> are the random end names, \<open>svc\<close> the service made of the peer, \<open>rnd\<close> and \<open>now\<close> what \<open>Make\<close> draws.\<close>

definition start1 :: "nat \<Rightarrow> string list \<Rightarrow> ('t, 'v, 'w) Service \<Rightarrow> int \<Rightarrow> int \<Rightarrow> ('t, 'v, 'w, 'b, 'c) config \<Rightarrow>
    ('t, 'v, 'w, 'b, 'c) config res" where
  "start1 i names svc rnd now cfg0 =
     bindR (crash1 i cfg0) (\<lambda>cfg1.
     bindR (makeEnds names 0 (cfg1\<lparr>cgEndnames := (cgEndnames cfg1)[i := names]\<rparr>)) (\<lambda>cfg2.
     let cfg3 = cfg2\<lparr>cgLastApplied := (cgLastApplied cfg2)[i := 0]\<rparr> in
     bindR (case cgSaved cfg3 ! i of
              None \<Rightarrow> Inr (cfg3\<lparr>cgSaved := (cgSaved cfg3)[i := Some MakePersister]\<rparr>)
            | Some ps \<Rightarrow>
                let cfg4 = cfg3\<lparr>cgSaved := (cgSaved cfg3)[i := Some (Copy ps)]\<rparr> in
                if ReadSnapshot (Copy ps) \<noteq> [] then ingestSnap i (ReadSnapshot (Copy ps)) (-1) cfg4 else Inr cfg4) (\<lambda>cfg5.
     let rf = Make (cgN cfg5) (int i) (the (cgSaved cfg5 ! i)) rnd now;
         net = cgNet cfg5;
         p = length (nwHeap net)
     in Inr (cfg5\<lparr>cgRafts := (cgRafts cfg5)[i := Some rf],
                  cgNet := AddServer i p (net\<lparr>nwHeap := nwHeap net @ [AddService svc MakeServer]\<rparr>)\<rparr>))))"

definition empty_config :: "nat \<Rightarrow> bool \<Rightarrow> ('t, 'v, 'w, 'b, 'c) config" where
  "empty_config n unreliable =
     \<lparr>cgNet = LongDelays True (Reliable (\<not> unreliable) MakeNetwork), cgN = n, cgRafts = replicate n None, cgApplyErr = replicate n [],
      cgConnected = replicate n False, cgSaved = replicate n None, cgEndnames = replicate n [], cgLogs = replicate n [],
      cgLastApplied = replicate n 0, cgMaxIndex = 0\<rparr>"

datatype ('t, 'v, 'w) tester_op =
    TStart nat "string list" "('t, 'v, 'w) Service" int int
  | TCrash nat
  | TConnect nat
  | TDisconnect nat

fun tester_act :: "('t, 'v, 'w) tester_op \<Rightarrow> ('t, 'v, 'w, 'b, 'c) config \<Rightarrow> ('t, 'v, 'w, 'b, 'c) config res" where
  "tester_act (TStart i names svc rnd now) cfg = start1 i names svc rnd now cfg"
| "tester_act (TCrash i) cfg = crash1 i cfg"
| "tester_act (TConnect i) cfg = connect i cfg"
| "tester_act (TDisconnect i) cfg = disconnect i cfg"

fun tester_run :: "('t, 'v, 'w) tester_op list \<Rightarrow> ('t, 'v, 'w, 'b, 'c) config \<Rightarrow> ('t, 'v, 'w, 'b, 'c) config res" where
  "tester_run [] cfg = Inr cfg"
| "tester_run (a # as) cfg = bindR (tester_act a cfg) (tester_run as)"

definition make_config :: "nat \<Rightarrow> bool \<Rightarrow> (string list \<times> ('t, 'v, 'w) Service \<times> int \<times> int) list \<Rightarrow> ('t, 'v, 'w, 'b, 'c) config res" where
  "make_config n unreliable starts =
     tester_run (map (\<lambda>i. case starts ! i of (names, svc, rnd, now) \<Rightarrow> TStart i names svc rnd now) [0..<n] @ map TConnect [0..<n])
       (empty_config n unreliable)"

subsection \<open>Who can talk to whom\<close>

definition enableAll :: "bool \<Rightarrow> 'e list \<Rightarrow> ('e, 'n, 't, 'v, 'w, 'b) Network \<Rightarrow> ('e, 'n, 't, 'v, 'w, 'b) Network" where
  "enableAll b es net = fold (\<lambda>e. Enable e b) es net"

lemma enableAll_simps [simp]:
  "enableAll b [] net = net"
  "enableAll b (e # es) net = enableAll b es (Enable e b net)"
  by (simp_all add: enableAll_def)

lemma enableAll_sel [simp]:
  "mget False (nwEnabled (enableAll b es net)) e = (if e \<in> set es then b else mget False (nwEnabled net) e)"
  "nwEnds (enableAll b es net) = nwEnds net"
  "nwConnections (enableAll b es net) = nwConnections net"
  "nwServers (enableAll b es net) = nwServers net"
  "nwHeap (enableAll b es net) = nwHeap net"
  by (induction es arbitrary: net) (auto simp: Enable_def)

abbreviation nameOf :: "('t, 'v, 'w, 'b, 'c) config \<Rightarrow> nat \<Rightarrow> nat \<Rightarrow> string" where
  "nameOf cfg i j \<equiv> cgEndnames cfg ! i ! j"

lemma endname_in: "i < length (cgEndnames cfg) \<Longrightarrow> j < length (cgEndnames cfg ! i) \<Longrightarrow> endname i j cfg = Inr (nameOf cfg i j)"
  by (simp add: endname_def go_simps)

lemma connectOut_eq:
  assumes "i < length (cgEndnames cfg)" "\<And>j. j \<in> set js \<Longrightarrow> j < length (cgConnected cfg) \<and> (cgConnected cfg ! j \<longrightarrow> j < length (cgEndnames cfg ! i))"
  shows "connectOut js i cfg = Inr (cfg\<lparr>cgNet := enableAll True (map (nameOf cfg i) (filter ((!) (cgConnected cfg)) js)) (cgNet cfg)\<rparr>)"
  using assms
proof (induction js arbitrary: cfg)
  case (Cons j js)
  show ?case
  proof (cases "cgConnected cfg ! j")
    case True
    with Cons.prems(2)[of j] Cons.IH[of "setEnabled (nameOf cfg i j) True cfg"] Cons.prems show ?thesis
      by (simp add: go_simps endname_in setEnabled_def)
  next
    case False
    with Cons.prems(2)[of j] Cons.IH[of cfg] Cons.prems show ?thesis by (simp add: go_simps)
  qed
qed simp

lemma connectIn_eq:
  assumes "\<And>j. j \<in> set js \<Longrightarrow> j < length (cgConnected cfg) \<and> (cgConnected cfg ! j \<longrightarrow> j < length (cgEndnames cfg) \<and> i < length (cgEndnames cfg ! j))"
  shows "connectIn js i cfg = Inr (cfg\<lparr>cgNet := enableAll True (map (\<lambda>j. nameOf cfg j i) (filter ((!) (cgConnected cfg)) js)) (cgNet cfg)\<rparr>)"
  using assms
proof (induction js arbitrary: cfg)
  case (Cons j js)
  show ?case
  proof (cases "cgConnected cfg ! j")
    case True
    with Cons.prems[of j] Cons.IH[of "setEnabled (nameOf cfg j i) True cfg"] Cons.prems show ?thesis
      by (simp add: go_simps endname_in setEnabled_def)
  next
    case False
    with Cons.prems[of j] Cons.IH[of cfg] Cons.prems show ?thesis by (simp add: go_simps)
  qed
qed simp

lemma disconnectOut_eq:
  assumes "i < length (cgEndnames cfg)" "\<And>j. j \<in> set js \<Longrightarrow> cgEndnames cfg ! i \<noteq> [] \<Longrightarrow> j < length (cgEndnames cfg ! i)"
  shows "disconnectOut js i cfg =
    Inr (cfg\<lparr>cgNet := enableAll False (if cgEndnames cfg ! i = [] then [] else map (nameOf cfg i) js) (cgNet cfg)\<rparr>)"
  using assms
proof (induction js arbitrary: cfg)
  case (Cons j js)
  show ?case
  proof (cases "cgEndnames cfg ! i = []")
    case False
    with Cons.prems(2)[of j] Cons.IH[of "setEnabled (nameOf cfg i j) False cfg"] Cons.prems show ?thesis
      by (simp add: go_simps endname_in setEnabled_def)
  next
    case True
    with Cons.IH[of cfg] Cons.prems show ?thesis by (simp add: go_simps)
  qed
qed simp

lemma disconnectIn_eq:
  assumes "\<And>j. j \<in> set js \<Longrightarrow> j < length (cgEndnames cfg) \<and> (cgEndnames cfg ! j \<noteq> [] \<longrightarrow> i < length (cgEndnames cfg ! j))"
  shows "disconnectIn js i cfg =
    Inr (cfg\<lparr>cgNet := enableAll False (map (\<lambda>j. nameOf cfg j i) (filter (\<lambda>j. cgEndnames cfg ! j \<noteq> []) js)) (cgNet cfg)\<rparr>)"
  using assms
proof (induction js arbitrary: cfg)
  case (Cons j js)
  show ?case
  proof (cases "cgEndnames cfg ! j = []")
    case False
    with Cons.prems[of j] Cons.IH[of "setEnabled (nameOf cfg j i) False cfg"] Cons.prems show ?thesis
      by (simp add: go_simps endname_in setEnabled_def)
  next
    case True
    with Cons.prems[of j] Cons.IH[of cfg] Cons.prems show ?thesis by (simp add: go_simps)
  qed
qed simp

definition shaped :: "('t, 'v, 'w, 'b, 'c) config \<Rightarrow> bool" where
  "shaped cfg \<longleftrightarrow> length (cgConnected cfg) = cgN cfg \<and> length (cgEndnames cfg) = cgN cfg \<and> length (cgSaved cfg) = cgN cfg \<and>
     length (cgRafts cfg) = cgN cfg \<and> length (cgLogs cfg) = cgN cfg \<and> length (cgLastApplied cfg) = cgN cfg \<and>
     (\<forall>i < cgN cfg. cgEndnames cfg ! i = [] \<or> length (cgEndnames cfg ! i) = cgN cfg) \<and>
     (\<forall>i < cgN cfg. cgConnected cfg ! i \<longrightarrow> cgEndnames cfg ! i \<noteq> [])"

definition named :: "('t, 'v, 'w, 'b, 'c) config \<Rightarrow> bool" where
  "named cfg \<longleftrightarrow> (\<forall>i j i' j'. i < cgN cfg \<longrightarrow> i' < cgN cfg \<longrightarrow> j < length (cgEndnames cfg ! i) \<longrightarrow> j' < length (cgEndnames cfg ! i') \<longrightarrow>
       nameOf cfg i j = nameOf cfg i' j' \<longrightarrow> i = i' \<and> j = j') \<and>
     (\<forall>i < cgN cfg. \<forall>j < length (cgEndnames cfg ! i). map_of (nwEnds (cgNet cfg)) (nameOf cfg i j) \<noteq> None \<and>
       mget None (nwConnections (cgNet cfg)) (nameOf cfg i j) = Some j)"

definition gated :: "('t, 'v, 'w, 'b, 'c) config \<Rightarrow> bool" where
  "gated cfg \<longleftrightarrow> (\<forall>e. mget False (nwEnabled (cgNet cfg)) e \<longleftrightarrow>
     (\<exists>i < cgN cfg. \<exists>j < length (cgEndnames cfg ! i). e = nameOf cfg i j \<and> cgConnected cfg ! i \<and> cgConnected cfg ! j))"

definition wired :: "('t, 'v, 'w, 'b, 'c) config \<Rightarrow> bool" where
  "wired cfg \<longleftrightarrow> shaped cfg \<and> named cfg \<and> gated cfg"

lemma shaped_length: "shaped cfg \<Longrightarrow> i < cgN cfg \<Longrightarrow> cgEndnames cfg ! i \<noteq> [] \<Longrightarrow> length (cgEndnames cfg ! i) = cgN cfg"
  by (auto simp: shaped_def)

lemma shaped_update:
  assumes "shaped cfg" "b \<Longrightarrow> cgEndnames cfg ! i \<noteq> []"
  shows "shaped (cfg\<lparr>cgConnected := (cgConnected cfg)[i := b], cgNet := net\<rparr>)"
proof -
  have "cgEndnames cfg ! k \<noteq> []" if "k < cgN cfg" "(cgConnected cfg)[i := b] ! k" for k
    using that assms by (cases "k = i") (auto simp: shaped_def)
  with assms(1) show ?thesis by (simp add: shaped_def)
qed

lemma connect_eq:
  assumes "shaped cfg" "i < cgN cfg" "cgEndnames cfg ! i \<noteq> []"
  shows "connect i cfg = Inr (cfg\<lparr>cgConnected := (cgConnected cfg)[i := True],
    cgNet := enableAll True (map (\<lambda>j. nameOf cfg j i) (filter ((!) ((cgConnected cfg)[i := True])) [0..<cgN cfg]))
      (enableAll True (map (nameOf cfg i) (filter ((!) ((cgConnected cfg)[i := True])) [0..<cgN cfg])) (cgNet cfg))\<rparr>)"
proof -
  have len: "length (cgConnected cfg) = cgN cfg" "length (cgEndnames cfg) = cgN cfg" "length (cgEndnames cfg ! i) = cgN cfg"
    using assms shaped_length by (auto simp: shaped_def)
  have c: "j < cgN cfg \<Longrightarrow> (cgConnected cfg)[i := True] ! j \<Longrightarrow> length (cgEndnames cfg ! j) = cgN cfg" for j
    using assms by (cases "j = i") (auto simp: shaped_def nth_list_update)
  let ?cfg = "cfg\<lparr>cgConnected := (cgConnected cfg)[i := True]\<rparr>"
  have out: "connectOut [0..<cgN cfg] i ?cfg = Inr (?cfg\<lparr>cgNet := enableAll True (map (nameOf cfg i) (filter ((!) (cgConnected ?cfg)) [0..<cgN cfg])) (cgNet cfg)\<rparr>)"
    by (subst connectOut_eq) (use assms(2) len c in auto)
  have inn: "connectIn [0..<cgN cfg] i (?cfg\<lparr>cgNet := net\<rparr>) =
      Inr (?cfg\<lparr>cgNet := enableAll True (map (\<lambda>j. nameOf cfg j i) (filter ((!) (cgConnected ?cfg)) [0..<cgN cfg])) net\<rparr>)" for net
    by (subst connectIn_eq) (use assms(2) len c in auto)
  show ?thesis unfolding connect_def using assms(2) len by (simp add: go_set_def out[simplified] inn[simplified])
qed

lemma disconnect_eq:
  assumes "shaped cfg" "i < cgN cfg"
  shows "disconnect i cfg = Inr (cfg\<lparr>cgConnected := (cgConnected cfg)[i := False],
    cgNet := enableAll False (map (\<lambda>j. nameOf cfg j i) (filter (\<lambda>j. cgEndnames cfg ! j \<noteq> []) [0..<cgN cfg]))
      (enableAll False (if cgEndnames cfg ! i = [] then [] else map (nameOf cfg i) [0..<cgN cfg]) (cgNet cfg))\<rparr>)"
proof -
  have len: "length (cgConnected cfg) = cgN cfg" "length (cgEndnames cfg) = cgN cfg" using assms by (auto simp: shaped_def)
  let ?cfg = "cfg\<lparr>cgConnected := (cgConnected cfg)[i := False]\<rparr>"
  have out: "disconnectOut [0..<cgN cfg] i ?cfg =
      Inr (?cfg\<lparr>cgNet := enableAll False (if cgEndnames cfg ! i = [] then [] else map (nameOf cfg i) [0..<cgN cfg]) (cgNet cfg)\<rparr>)"
    by (subst disconnectOut_eq) (use assms(2) len shaped_length[OF assms(1)] in auto)
  have inn: "disconnectIn [0..<cgN cfg] i (?cfg\<lparr>cgNet := net\<rparr>) =
      Inr (?cfg\<lparr>cgNet := enableAll False (map (\<lambda>j. nameOf cfg j i) (filter (\<lambda>j. cgEndnames cfg ! j \<noteq> []) [0..<cgN cfg])) net\<rparr>)" for net
    by (subst disconnectIn_eq) (use assms(2) len shaped_length[OF assms(1)] in auto)
  show ?thesis unfolding disconnect_def using assms(2) len by (simp add: go_set_def out inn del: if_split)
qed

lemma gatedD: "gated cfg \<Longrightarrow> mget False (nwEnabled (cgNet cfg)) e =
    (\<exists>i < cgN cfg. \<exists>j < length (cgEndnames cfg ! i). e = nameOf cfg i j \<and> cgConnected cfg ! i \<and> cgConnected cfg ! j)"
  by (simp add: gated_def)

lemma named_inj: "named cfg \<Longrightarrow> i < cgN cfg \<Longrightarrow> i' < cgN cfg \<Longrightarrow> j < length (cgEndnames cfg ! i) \<Longrightarrow> j' < length (cgEndnames cfg ! i') \<Longrightarrow>
    nameOf cfg i j = nameOf cfg i' j' \<Longrightarrow> i = i' \<and> j = j'"
  unfolding named_def by blast

lemma connect_wired:
  assumes "wired cfg" "i < cgN cfg" "cgEndnames cfg ! i \<noteq> []"
  shows "\<exists>cfg'. connect i cfg = Inr cfg' \<and> wired cfg' \<and> cgConnected cfg' = (cgConnected cfg)[i := True] \<and> cgEndnames cfg' = cgEndnames cfg \<and> cgN cfg' = cgN cfg"
proof -
  have sh: "shaped cfg" and nm: "named cfg" and gt: "gated cfg" using assms(1) by (simp_all add: wired_def)
  let ?cs = "(cgConnected cfg)[i := True]"
  obtain cfg' where c: "connect i cfg = Inr cfg'" and cfg': "cfg' = cfg\<lparr>cgConnected := ?cs,
    cgNet := enableAll True (map (\<lambda>j. nameOf cfg j i) (filter ((!) ?cs) [0..<cgN cfg]))
      (enableAll True (map (nameOf cfg i) (filter ((!) ?cs) [0..<cgN cfg])) (cgNet cfg))\<rparr>"
    using connect_eq[OF sh assms(2,3)] by blast
  have len: "length (cgConnected cfg) = cgN cfg" using sh by (simp add: shaped_def)
  have ni: "length (cgEndnames cfg ! i) = cgN cfg" using shaped_length[OF sh assms(2,3)] .
  have nj: "length (cgEndnames cfg ! j) = cgN cfg" if "j < cgN cfg" "?cs ! j" for j
    using that assms sh shaped_length[OF sh, of j] len by (cases "j = i") (auto simp: shaped_def)
  have ii: "?cs ! i" using len assms(2) by simp
  have "shaped cfg'" unfolding cfg' by (rule shaped_update[OF sh]) (use assms(3) in simp)
  moreover have "named cfg'" using nm unfolding cfg' named_def by simp
  moreover have "gated cfg'"
    unfolding gated_def
  proof (intro allI iffI)
    fix e
    assume "mget False (nwEnabled (cgNet cfg')) e"
    then consider j where "j < cgN cfg" "?cs ! j" "e = nameOf cfg j i" | j where "j < cgN cfg" "?cs ! j" "e = nameOf cfg i j"
      | "mget False (nwEnabled (cgNet cfg)) e" unfolding cfg' by (auto split: if_splits)
    then show "\<exists>i' < cgN cfg'. \<exists>j < length (cgEndnames cfg' ! i'). e = nameOf cfg' i' j \<and> cgConnected cfg' ! i' \<and> cgConnected cfg' ! j"
    proof cases
      case (1 j)
      have "i < length (cgEndnames cfg ! j)" using nj[OF 1(1,2)] assms(2) by simp
      with 1 ii show ?thesis unfolding cfg' by simp blast
    next
      case (2 j)
      have "j < length (cgEndnames cfg ! i)" using ni 2(1) by simp
      with 2 ii assms(2) show ?thesis unfolding cfg' by simp blast
    next
      case 3
      then obtain i' j' where p: "i' < cgN cfg" "j' < length (cgEndnames cfg ! i')" "e = nameOf cfg i' j'" "cgConnected cfg ! i'" "cgConnected cfg ! j'"
        using gatedD[OF gt] by blast
      have "j' < cgN cfg" using p(1,2) sh by (auto simp: shaped_def)
      with p len assms(2) have "?cs ! i'" "?cs ! j'" by (simp_all add: nth_list_update)
      with p show ?thesis unfolding cfg' by simp blast
    qed
  next
    fix e
    assume "\<exists>i' < cgN cfg'. \<exists>j < length (cgEndnames cfg' ! i'). e = nameOf cfg' i' j \<and> cgConnected cfg' ! i' \<and> cgConnected cfg' ! j"
    then obtain i' j' where p: "i' < cgN cfg" "j' < length (cgEndnames cfg ! i')" "e = nameOf cfg i' j'" "?cs ! i'" "?cs ! j'"
      unfolding cfg' by auto
    have j': "j' < cgN cfg" using p(1,2) sh by (auto simp: shaped_def)
    consider "i' = i" | "j' = i" | "i' \<noteq> i" "j' \<noteq> i" by blast
    then show "mget False (nwEnabled (cgNet cfg')) e"
    proof cases
      case 3
      with p have "mget False (nwEnabled (cgNet cfg)) e" using gatedD[OF gt] by auto
      then show ?thesis unfolding cfg' by simp
    qed (use p j' in \<open>auto simp: cfg'\<close>)
  qed
  ultimately have "wired cfg'" by (simp add: wired_def)
  then show ?thesis using c cfg' by simp
qed

lemma disconnect_wired:
  assumes "wired cfg" "i < cgN cfg"
  shows "\<exists>cfg'. disconnect i cfg = Inr cfg' \<and> wired cfg' \<and> cgConnected cfg' = (cgConnected cfg)[i := False] \<and>
    cgEndnames cfg' = cgEndnames cfg \<and> cgN cfg' = cgN cfg \<and> cgSaved cfg' = cgSaved cfg"
proof -
  have sh: "shaped cfg" and nm: "named cfg" and gt: "gated cfg" using assms(1) by (simp_all add: wired_def)
  let ?cs = "(cgConnected cfg)[i := False]"
  let ?ins = "map (\<lambda>j. nameOf cfg j i) (filter (\<lambda>j. cgEndnames cfg ! j \<noteq> []) [0..<cgN cfg])"
  let ?outs = "if cgEndnames cfg ! i = [] then [] else map (nameOf cfg i) [0..<cgN cfg]"
  obtain cfg' where c: "disconnect i cfg = Inr cfg'" and cfg': "cfg' = cfg\<lparr>cgConnected := ?cs, cgNet := enableAll False ?ins (enableAll False ?outs (cgNet cfg))\<rparr>"
    using disconnect_eq[OF sh assms(2)] by blast
  have len: "length (cgConnected cfg) = cgN cfg" using sh by (simp add: shaped_def)
  have nl: "i' < cgN cfg \<Longrightarrow> j < length (cgEndnames cfg ! i') \<Longrightarrow> j < cgN cfg" for i' j using sh by (auto simp: shaped_def)
  have "shaped cfg'" unfolding cfg' by (rule shaped_update[OF sh]) simp
  moreover have "named cfg'" using nm unfolding cfg' named_def by simp
  moreover have "gated cfg'"
    unfolding gated_def
  proof (intro allI iffI)
    fix e
    assume "mget False (nwEnabled (cgNet cfg')) e"
    then have e: "mget False (nwEnabled (cgNet cfg)) e" "e \<notin> set ?ins" "e \<notin> set ?outs" unfolding cfg' by (auto split: if_splits)
    then obtain i' j' where p: "i' < cgN cfg" "j' < length (cgEndnames cfg ! i')" "e = nameOf cfg i' j'" "cgConnected cfg ! i'" "cgConnected cfg ! j'"
      using gatedD[OF gt] by blast
    have ne: "cgEndnames cfg ! i' \<noteq> []" using p(2) by auto
    have "i' \<noteq> i" using e(3) p(1-3) nl ne by auto
    moreover have "j' \<noteq> i" using e(2) p(1-3) ne by auto
    ultimately have "?cs ! i'" "?cs ! j'" using p(4,5) by simp_all
    with p show "\<exists>i' < cgN cfg'. \<exists>j < length (cgEndnames cfg' ! i'). e = nameOf cfg' i' j \<and> cgConnected cfg' ! i' \<and> cgConnected cfg' ! j"
      unfolding cfg' by simp blast
  next
    fix e
    assume "\<exists>i' < cgN cfg'. \<exists>j < length (cgEndnames cfg' ! i'). e = nameOf cfg' i' j \<and> cgConnected cfg' ! i' \<and> cgConnected cfg' ! j"
    then obtain i' j' where p: "i' < cgN cfg" "j' < length (cgEndnames cfg ! i')" "e = nameOf cfg i' j'" "?cs ! i'" "?cs ! j'"
      unfolding cfg' by auto
    have ne: "i' \<noteq> i" "j' \<noteq> i" using p len assms(2) by (auto simp: nth_list_update)
    have "e \<notin> set ?outs"
    proof
      assume "e \<in> set ?outs"
      then obtain k where "k < cgN cfg" "cgEndnames cfg ! i \<noteq> []" "e = nameOf cfg i k" by (auto split: if_splits)
      with named_inj[OF nm p(1) assms(2) p(2), of k] shaped_length[OF sh assms(2)] p(3) ne(1) show False by auto
    qed
    moreover have "e \<notin> set ?ins"
    proof
      assume "e \<in> set ?ins"
      then obtain k where "k < cgN cfg" "cgEndnames cfg ! k \<noteq> []" "e = nameOf cfg k i" by auto
      with named_inj[OF nm p(1) _ p(2), of k i] shaped_length[OF sh, of k] assms(2) p(3) ne(2) show False by auto
    qed
    moreover have "mget False (nwEnabled (cgNet cfg)) e" using gatedD[OF gt] p ne by auto
    ultimately show "mget False (nwEnabled (cgNet cfg')) e" unfolding cfg' by (simp del: if_split)
  qed
  ultimately have "wired cfg'" by (simp add: wired_def)
  then show ?thesis using c cfg' by simp
qed

lemma makeEnds_eq:
  assumes "distinct es" "\<And>e. e \<in> set es \<Longrightarrow> map_of (nwEnds (cgNet cfg)) e = None"
  shows "\<exists>net. makeEnds es j cfg = Inr (cfg\<lparr>cgNet := net\<rparr>) \<and>
    (\<forall>e. mget False (nwEnabled net) e = (e \<notin> set es \<and> mget False (nwEnabled (cgNet cfg)) e)) \<and>
    (\<forall>k < length es. mget None (nwConnections net) (es ! k) = Some (j + k)) \<and>
    (\<forall>e. e \<notin> set es \<longrightarrow> mget None (nwConnections net) e = mget None (nwConnections (cgNet cfg)) e) \<and>
    (\<forall>e. map_of (nwEnds net) e \<noteq> None \<longleftrightarrow> e \<in> set es \<or> map_of (nwEnds (cgNet cfg)) e \<noteq> None)"
  using assms
proof (induction es arbitrary: j cfg)
  case Nil
  show ?case by (intro exI[of _ "cgNet cfg"]) simp
next
  case (Cons e es)
  let ?net = "Connect e j (fst (projr (MakeEnd e (cgNet cfg))))"
  have me: "MakeEnd e (cgNet cfg) = Inr (fst (projr (MakeEnd e (cgNet cfg))), \<lparr>ceEndname = e\<rparr>)"
    using Cons.prems(2)[of e] by (simp add: MakeEnd_def Let_def)
  have net: "map_of (nwEnds ?net) = (map_of (nwEnds (cgNet cfg)))(e \<mapsto> \<lparr>ceEndname = e\<rparr>)"
    "mget False (nwEnabled ?net) e' = (if e' = e then False else mget False (nwEnabled (cgNet cfg)) e')"
    "mget None (nwConnections ?net) e' = (if e' = e then Some j else mget None (nwConnections (cgNet cfg)) e')" for e'
    using Cons.prems(2)[of e] by (simp_all add: MakeEnd_def Connect_def Let_def)
  have "map_of (nwEnds (cgNet (cfg\<lparr>cgNet := ?net\<rparr>))) e' = None" if "e' \<in> set es" for e'
    using that Cons.prems net(1) by auto
  with Cons.IH[of "cfg\<lparr>cgNet := ?net\<rparr>" "j + 1"] Cons.prems(1) obtain net' where IH: "makeEnds es (j + 1) (cfg\<lparr>cgNet := ?net\<rparr>) = Inr (cfg\<lparr>cgNet := net'\<rparr>)"
      "\<And>e'. mget False (nwEnabled net') e' = (e' \<notin> set es \<and> mget False (nwEnabled ?net) e')"
      "\<And>k. k < length es \<Longrightarrow> mget None (nwConnections net') (es ! k) = Some (j + 1 + k)"
      "\<And>e'. e' \<notin> set es \<Longrightarrow> mget None (nwConnections net') e' = mget None (nwConnections ?net) e'"
      "\<And>e'. map_of (nwEnds net') e' \<noteq> None \<longleftrightarrow> e' \<in> set es \<or> map_of (nwEnds ?net) e' \<noteq> None"
    by auto
  have "makeEnds (e # es) j cfg = Inr (cfg\<lparr>cgNet := net'\<rparr>)" by (subst makeEnds.simps, subst me) (simp add: IH(1)[simplified])
  moreover have "mget False (nwEnabled net') e' = (e' \<notin> set (e # es) \<and> mget False (nwEnabled (cgNet cfg)) e')" for e'
    using IH(2)[of e'] net(2)[of e'] by auto
  moreover have "mget None (nwConnections net') ((e # es) ! k) = Some (j + k)" if "k < length (e # es)" for k
    using that IH(3)[of "k - 1"] IH(4)[of e] net(3)[of e] Cons.prems(1) by (cases k) auto
  moreover have "mget None (nwConnections net') e' = mget None (nwConnections (cgNet cfg)) e'" if "e' \<notin> set (e # es)" for e'
    using that IH(4)[of e'] net(3)[of e'] by auto
  moreover have "map_of (nwEnds net') e' \<noteq> None \<longleftrightarrow> e' \<in> set (e # es) \<or> map_of (nwEnds (cgNet cfg)) e' \<noteq> None" for e'
    using IH(5)[of e'] net(1) by auto
  ultimately show ?case by blast
qed

lemma wired_cong:
  assumes "wired cfg" "cgN cfg' = cgN cfg" "cgConnected cfg' = cgConnected cfg" "cgEndnames cfg' = cgEndnames cfg"
    "nwEnabled (cgNet cfg') = nwEnabled (cgNet cfg)" "nwEnds (cgNet cfg') = nwEnds (cgNet cfg)"
    "nwConnections (cgNet cfg') = nwConnections (cgNet cfg)" "length (cgSaved cfg') = length (cgSaved cfg)"
    "length (cgRafts cfg') = length (cgRafts cfg)" "length (cgLogs cfg') = length (cgLogs cfg)"
    "length (cgLastApplied cfg') = length (cgLastApplied cfg)"
  shows "wired cfg'"
  using assms by (simp add: wired_def shaped_def named_def gated_def)

lemma resave_same: "resave ps = ps"
  by (cases ps) (simp_all add: resave_def Save_def ReadRaftState_def ReadSnapshot_def Copy_def MakePersister_def)

lemma crash1_wired:
  assumes "wired cfg" "i < cgN cfg"
  shows "\<exists>cfg'. crash1 i cfg = Inr cfg' \<and> wired cfg' \<and> cgConnected cfg' = (cgConnected cfg)[i := False] \<and>
    cgEndnames cfg' = cgEndnames cfg \<and> cgN cfg' = cgN cfg \<and> cgSaved cfg' = (cgSaved cfg)[i := savedOf i cfg]"
proof -
  obtain cfg1 where d: "disconnect i cfg = Inr cfg1" "wired cfg1" "cgConnected cfg1 = (cgConnected cfg)[i := False]"
    "cgEndnames cfg1 = cgEndnames cfg" "cgN cfg1 = cgN cfg" using disconnect_wired[OF assms] by blast
  have sh: "shaped cfg" using assms(1) by (simp add: wired_def)
  have same: "cgSaved cfg1 = cgSaved cfg" "cgRafts cfg1 = cgRafts cfg" using disconnect_eq[OF sh assms(2)] d(1) by auto
  have "length (cgSaved cfg1) = cgN cfg" using d(2,5) by (simp add: wired_def shaped_def)
  then obtain ps where ps: "go_nth (cgSaved cfg1) (int i) = Inr ps" using assms(2) by (simp add: go_simps)
  let ?cfg = "cfg1\<lparr>cgNet := DeleteServer i (cgNet cfg1), cgRafts := (cgRafts cfg1)[i := None],
    cgSaved := (cgSaved cfg1)[i := resave (savedOf i cfg1)]\<rparr>"
  have "crash1 i cfg = Inr ?cfg" by (simp add: crash1_def d(1) ps)
  moreover have "wired ?cfg" by (rule wired_cong[OF d(2)]) (simp_all add: DeleteServer_def)
  moreover have "savedOf i cfg1 = savedOf i cfg" unfolding savedOf_def same ..
  ultimately show ?thesis using d same by (auto simp: resave_same)
qed

lemma disconnect_ends: "shaped cfg \<Longrightarrow> i < cgN cfg \<Longrightarrow> disconnect i cfg = Inr cfg' \<Longrightarrow> nwEnds (cgNet cfg') = nwEnds (cgNet cfg)"
  by (simp add: disconnect_eq) (erule subst, simp del: if_split)

lemma crash1_ends: "shaped cfg \<Longrightarrow> i < cgN cfg \<Longrightarrow> crash1 i cfg = Inr cfg' \<Longrightarrow> nwEnds (cgNet cfg') = nwEnds (cgNet cfg)"
  unfolding crash1_def bindR_eq_Inr by (auto simp: DeleteServer_def dest: disconnect_ends)

lemma fresh_names_wired:
  assumes "wired cfg" "i < cgN cfg" "\<not> cgConnected cfg ! i" "length names = cgN cfg" "distinct names"
    and "\<And>e. e \<in> set names \<Longrightarrow> map_of (nwEnds (cgNet cfg)) e = None"
  shows "\<exists>net. makeEnds names 0 (cfg\<lparr>cgEndnames := (cgEndnames cfg)[i := names]\<rparr>) = Inr (cfg\<lparr>cgEndnames := (cgEndnames cfg)[i := names], cgNet := net\<rparr>) \<and>
    wired (cfg\<lparr>cgEndnames := (cgEndnames cfg)[i := names], cgNet := net\<rparr>)"
proof -
  have sh: "shaped cfg" and nm: "named cfg" and gt: "gated cfg" using assms(1) by (simp_all add: wired_def)
  let ?cfg0 = "cfg\<lparr>cgEndnames := (cgEndnames cfg)[i := names]\<rparr>"
  obtain net where m: "makeEnds names 0 ?cfg0 = Inr (?cfg0\<lparr>cgNet := net\<rparr>)"
    "\<And>e. mget False (nwEnabled net) e = (e \<notin> set names \<and> mget False (nwEnabled (cgNet cfg)) e)"
    "\<And>k. k < length names \<Longrightarrow> mget None (nwConnections net) (names ! k) = Some k"
    "\<And>e. e \<notin> set names \<Longrightarrow> mget None (nwConnections net) e = mget None (nwConnections (cgNet cfg)) e"
    "\<And>e. map_of (nwEnds net) e \<noteq> None \<longleftrightarrow> e \<in> set names \<or> map_of (nwEnds (cgNet cfg)) e \<noteq> None"
    using makeEnds_eq[OF assms(5), of ?cfg0 0] assms(6) by (simp del: not_None_eq) blast
  let ?cfg = "?cfg0\<lparr>cgNet := net\<rparr>"
  have le: "length (cgEndnames cfg) = cgN cfg" "length (cgConnected cfg) = cgN cfg" using sh by (simp_all add: shaped_def)
  have at: "(cgEndnames cfg)[i := names] ! k = (if k = i then names else cgEndnames cfg ! k)" for k
    using le assms(2) by (cases "k = i") simp_all
  have old: "nameOf cfg k j \<notin> set names" if "k < cgN cfg" "j < length (cgEndnames cfg ! k)" for k j
    using that nm assms(6)[of "nameOf cfg k j"] unfolding named_def by blast
  have "shaped ?cfg"
  proof -
    have "(cgEndnames cfg)[i := names] ! k \<noteq> []" if "k < cgN cfg" "cgConnected cfg ! k" for k
      using that sh assms(3) unfolding at by (auto simp: shaped_def)
    moreover have "(cgEndnames cfg)[i := names] ! k = [] \<or> length ((cgEndnames cfg)[i := names] ! k) = cgN cfg" if "k < cgN cfg" for k
      using that sh assms(4) unfolding at by (auto simp: shaped_def)
    ultimately show ?thesis using sh by (simp add: shaped_def)
  qed
  moreover have "named ?cfg"
    unfolding named_def
  proof (intro conjI allI impI)
    fix k j k' j'
    assume a: "k < cgN ?cfg" "k' < cgN ?cfg" "j < length (cgEndnames ?cfg ! k)" "j' < length (cgEndnames ?cfg ! k')" "nameOf ?cfg k j = nameOf ?cfg k' j'"
    have "k = k' \<and> j = j'"
    proof (cases "k = i"; cases "k' = i")
      assume "k = i" "k' = i"
      then show ?thesis using a nth_eq_iff_index_eq[OF assms(5), of j j'] by (simp add: at)
    next
      assume "k = i" "k' \<noteq> i"
      with a have q: "j < length names" "names ! j = nameOf cfg k' j'" "nameOf cfg k' j' \<notin> set names" using old[of k' j'] by (simp_all add: at)
      from nth_mem[OF q(1)] q(2,3) show ?thesis by metis
    next
      assume "k \<noteq> i" "k' = i"
      with a have q: "j' < length names" "names ! j' = nameOf cfg k j" "nameOf cfg k j \<notin> set names" using old[of k j] by (simp_all add: at)
      from nth_mem[OF q(1)] q(2,3) show ?thesis by metis
    next
      assume "k \<noteq> i" "k' \<noteq> i"
      then show ?thesis using a named_inj[OF nm, of k k' j j'] by (simp add: at)
    qed
    then show "k = k'" and "j = j'" by simp_all
  next
    fix k j
    assume a: "k < cgN ?cfg" "j < length (cgEndnames ?cfg ! k)"
    show "map_of (nwEnds (cgNet ?cfg)) (nameOf ?cfg k j) \<noteq> None"
      using a nm unfolding named_def by (simp add: at m(5) del: not_None_eq split: if_splits)
    show "mget None (nwConnections (cgNet ?cfg)) (nameOf ?cfg k j) = Some j"
      using a nm old[of k j] m(3)[of j] m(4)[of "nameOf cfg k j"] unfolding named_def by (simp add: at split: if_splits)
  qed
  moreover have "gated ?cfg"
    unfolding gated_def
  proof (intro allI iffI)
    fix e
    assume "mget False (nwEnabled (cgNet ?cfg)) e"
    then have "mget False (nwEnabled (cgNet cfg)) e" by (simp add: m(2))
    then obtain k j where p: "k < cgN cfg" "j < length (cgEndnames cfg ! k)" "e = nameOf cfg k j" "cgConnected cfg ! k" "cgConnected cfg ! j"
      using gatedD[OF gt] by blast
    then have "k \<noteq> i" using assms(3) by auto
    then have "(cgEndnames cfg)[i := names] ! k = cgEndnames cfg ! k" by simp
    with p show "\<exists>k < cgN ?cfg. \<exists>j < length (cgEndnames ?cfg ! k). e = nameOf ?cfg k j \<and> cgConnected ?cfg ! k \<and> cgConnected ?cfg ! j"
      by (intro exI[of _ k]) auto
  next
    fix e
    assume "\<exists>k < cgN ?cfg. \<exists>j < length (cgEndnames ?cfg ! k). e = nameOf ?cfg k j \<and> cgConnected ?cfg ! k \<and> cgConnected ?cfg ! j"
    then obtain k j where p: "k < cgN cfg" "j < length ((cgEndnames cfg)[i := names] ! k)" "e = (cgEndnames cfg)[i := names] ! k ! j"
        "cgConnected cfg ! k" "cgConnected cfg ! j" by auto
    then have "k \<noteq> i" using assms(3) by auto
    with p(2,3) have q: "j < length (cgEndnames cfg ! k)" "e = nameOf cfg k j" by simp_all
    then have "mget False (nwEnabled (cgNet cfg)) e" using gatedD[OF gt] p(1,4,5) by blast
    then show "mget False (nwEnabled (cgNet ?cfg)) e" using old[OF p(1) q(1)] q(2) by (simp add: m(2))
  qed
  ultimately have "wired ?cfg" by (simp add: wired_def)
  then show ?thesis using m(1) by auto
qed

lemma ingestSnap_sel:
  assumes "ingestSnap i snap index cfg = Inr cfg'"
  shows "cgN cfg' = cgN cfg \<and> cgConnected cfg' = cgConnected cfg \<and> cgEndnames cfg' = cgEndnames cfg \<and> cgNet cfg' = cgNet cfg \<and>
    cgRafts cfg' = cgRafts cfg \<and> cgSaved cfg' = cgSaved cfg \<and> length (cgLogs cfg') = length (cgLogs cfg) \<and>
    length (cgLastApplied cfg') = length (cgLastApplied cfg)"
  using assms by (auto simp: ingestSnap_def split: list.splits snapval.splits if_splits)

lemma start1_wired:
  assumes "wired cfg" "i < cgN cfg" "length names = cgN cfg" "distinct names"
    and "\<And>e. e \<in> set names \<Longrightarrow> map_of (nwEnds (cgNet cfg)) e = None" "start1 i names svc rnd now cfg = Inr cfg'"
  shows "wired cfg' \<and> cgConnected cfg' = (cgConnected cfg)[i := False] \<and> cgEndnames cfg' = (cgEndnames cfg)[i := names] \<and> cgN cfg' = cgN cfg"
proof -
  have sh: "shaped cfg" using assms(1) by (simp add: wired_def)
  obtain cfg1 where c1: "crash1 i cfg = Inr cfg1" "wired cfg1" "cgConnected cfg1 = (cgConnected cfg)[i := False]"
    "cgEndnames cfg1 = cgEndnames cfg" "cgN cfg1 = cgN cfg" using crash1_wired[OF assms(1,2)] by blast
  have e1: "nwEnds (cgNet cfg1) = nwEnds (cgNet cfg)" by (rule crash1_ends[OF sh assms(2) c1(1)])
  have "\<not> cgConnected cfg1 ! i" using c1(3) sh assms(2) by (simp add: shaped_def)
  with fresh_names_wired[OF c1(2), of i names] assms(2-5) c1(5) e1 obtain net where
    m: "makeEnds names 0 (cfg1\<lparr>cgEndnames := (cgEndnames cfg1)[i := names]\<rparr>) = Inr (cfg1\<lparr>cgEndnames := (cgEndnames cfg1)[i := names], cgNet := net\<rparr>)"
    and w: "wired (cfg1\<lparr>cgEndnames := (cgEndnames cfg1)[i := names], cgNet := net\<rparr>)" by auto
  let ?cfg2 = "cfg1\<lparr>cgEndnames := (cgEndnames cfg1)[i := names], cgNet := net\<rparr>"
  let ?cfg3 = "?cfg2\<lparr>cgLastApplied := (cgLastApplied ?cfg2)[i := 0]\<rparr>"
  obtain cfg5 where c5: "(case cgSaved ?cfg3 ! i of
              None \<Rightarrow> Inr (?cfg3\<lparr>cgSaved := (cgSaved ?cfg3)[i := Some MakePersister]\<rparr>)
            | Some ps \<Rightarrow>
                let cfg4 = ?cfg3\<lparr>cgSaved := (cgSaved ?cfg3)[i := Some (Copy ps)]\<rparr> in
                if ReadSnapshot (Copy ps) \<noteq> [] then ingestSnap i (ReadSnapshot (Copy ps)) (-1) cfg4 else Inr cfg4) = Inr cfg5"
      and c': "cgN cfg' = cgN cfg5" "cgConnected cfg' = cgConnected cfg5" "cgEndnames cfg' = cgEndnames cfg5" "cgSaved cfg' = cgSaved cfg5"
        "cgLogs cfg' = cgLogs cfg5" "cgLastApplied cfg' = cgLastApplied cfg5" "length (cgRafts cfg') = length (cgRafts cfg5)"
        "nwEnabled (cgNet cfg') = nwEnabled (cgNet cfg5)" "nwEnds (cgNet cfg') = nwEnds (cgNet cfg5)" "nwConnections (cgNet cfg') = nwConnections (cgNet cfg5)"
    using assms(6) unfolding start1_def c1(1) bindR_Inr m Let_def bindR_eq_Inr by (auto simp: AddServer_def)
  have f5: "cgN cfg5 = cgN ?cfg2 \<and> cgConnected cfg5 = cgConnected ?cfg2 \<and> cgEndnames cfg5 = cgEndnames ?cfg2 \<and> cgNet cfg5 = cgNet ?cfg2 \<and>
      cgRafts cfg5 = cgRafts ?cfg2 \<and> length (cgSaved cfg5) = length (cgSaved ?cfg2) \<and> length (cgLogs cfg5) = length (cgLogs ?cfg2) \<and>
      length (cgLastApplied cfg5) = length (cgLastApplied ?cfg2)"
    using c5 by (auto simp: Let_def split: option.splits if_splits dest!: ingestSnap_sel)
  have "wired cfg'" by (rule wired_cong[OF w]) (use f5 c' in auto)
  then show ?thesis using c' f5 c1 by simp
qed

text \<open>The network has a server for just the peers that run.\<close>

definition served :: "('t, 'v, 'w, 'b, 'c) config \<Rightarrow> bool" where
  "served cfg \<longleftrightarrow> (\<forall>j < cgN cfg. mget None (nwServers (cgNet cfg)) j = None \<longleftrightarrow> cgRafts cfg ! j = None)"

lemma served_cong:
  assumes "served cfg" "cgN cfg' = cgN cfg" "nwServers (cgNet cfg') = nwServers (cgNet cfg)" "cgRafts cfg' = cgRafts cfg"
  shows "served cfg'"
  using assms by (simp add: served_def)

lemma disconnect_served: "wired cfg \<Longrightarrow> served cfg \<Longrightarrow> i < cgN cfg \<Longrightarrow> disconnect i cfg = Inr cfg' \<Longrightarrow> served cfg'"
  by (erule served_cong) (auto simp: disconnect_eq wired_def simp del: if_split)

lemma connect_served: "wired cfg \<Longrightarrow> served cfg \<Longrightarrow> i < cgN cfg \<Longrightarrow> cgEndnames cfg ! i \<noteq> [] \<Longrightarrow> connect i cfg = Inr cfg' \<Longrightarrow> served cfg'"
  by (erule served_cong) (auto simp: connect_eq wired_def)

lemma crash1_served:
  assumes "wired cfg" "served cfg" "i < cgN cfg" "crash1 i cfg = Inr cfg'"
  shows "served cfg'"
proof -
  obtain cfg1 where d: "disconnect i cfg = Inr cfg1" "wired cfg1" "cgN cfg1 = cgN cfg" using disconnect_wired[OF assms(1,3)] by blast
  have s: "served cfg1" by (rule disconnect_served[OF assms(1-3) d(1)])
  have l: "length (cgRafts cfg1) = cgN cfg1" using d(2) by (simp add: wired_def shaped_def)
  have "cgNet cfg' = DeleteServer i (cgNet cfg1)" "cgRafts cfg' = (cgRafts cfg1)[i := None]" "cgN cfg' = cgN cfg1"
    using assms(4) by (auto simp: crash1_def d(1) bindR_eq_Inr)
  then show ?thesis using s l assms(3) d(3) by (simp add: served_def DeleteServer_def nth_list_update)
qed

lemma makeEnds_sel:
  "makeEnds es j cfg = Inr cfg' \<Longrightarrow> nwServers (cgNet cfg') = nwServers (cgNet cfg) \<and> cgRafts cfg' = cgRafts cfg \<and> cgN cfg' = cgN cfg"
proof (induction es arbitrary: j cfg)
  case (Cons e es)
  then obtain net x where "MakeEnd e (cgNet cfg) = Inr (net, x)" "makeEnds es (j + 1) (cfg\<lparr>cgNet := Connect e j net\<rparr>) = Inr cfg'"
    by (auto simp: bindR_eq_Inr)
  with Cons.IH[of "j + 1" "cfg\<lparr>cgNet := Connect e j net\<rparr>"] show ?case
    by (auto simp: MakeEnd_def Connect_def Let_def split: if_splits)
qed simp

lemma start1_served:
  assumes "wired cfg" "served cfg" "i < cgN cfg" "start1 i names svc rnd now cfg = Inr cfg'"
  shows "served cfg'"
proof -
  obtain cfg1 where c1: "crash1 i cfg = Inr cfg1" "wired cfg1" "cgN cfg1 = cgN cfg" using crash1_wired[OF assms(1,3)] by blast
  have s1: "served cfg1" by (rule crash1_served[OF assms(1-3) c1(1)])
  have l: "length (cgRafts cfg1) = cgN cfg1" using c1(2) by (simp add: wired_def shaped_def)
  obtain cfg2 where m: "makeEnds names 0 (cfg1\<lparr>cgEndnames := (cgEndnames cfg1)[i := names]\<rparr>) = Inr cfg2"
    using assms(4) unfolding start1_def c1(1) bindR_Inr bindR_eq_Inr by blast
  let ?cfg3 = "cfg2\<lparr>cgLastApplied := (cgLastApplied cfg2)[i := 0]\<rparr>"
  obtain cfg5 where c: "(case cgSaved ?cfg3 ! i of
              None \<Rightarrow> Inr (?cfg3\<lparr>cgSaved := (cgSaved ?cfg3)[i := Some MakePersister]\<rparr>)
            | Some ps \<Rightarrow>
                let cfg4 = ?cfg3\<lparr>cgSaved := (cgSaved ?cfg3)[i := Some (Copy ps)]\<rparr> in
                if ReadSnapshot (Copy ps) \<noteq> [] then ingestSnap i (ReadSnapshot (Copy ps)) (-1) cfg4 else Inr cfg4) = Inr cfg5"
    and c': "cgN cfg' = cgN cfg5" "cgRafts cfg' = (cgRafts cfg5)[i := Some (Make (cgN cfg5) (int i) (the (cgSaved cfg5 ! i)) rnd now)]"
      "nwServers (cgNet cfg') = mput i (Some (length (nwHeap (cgNet cfg5)))) (nwServers (cgNet cfg5))"
    using assms(4) unfolding start1_def c1(1) bindR_Inr m Let_def bindR_eq_Inr by (auto simp: AddServer_def)
  have c5: "cgN cfg5 = cgN cfg2 \<and> cgRafts cfg5 = cgRafts cfg2 \<and> cgNet cfg5 = cgNet cfg2"
    using c by (auto simp: Let_def split: option.splits if_splits dest!: ingestSnap_sel)
  show ?thesis using s1 l c5 c' makeEnds_sel[OF m] assms(3) c1(3) by (simp add: served_def nth_list_update)
qed

text \<open>What the tests do: indices of peers, fresh random names, and no connection of a peer that was never started. In between the peers
  run, which changes their states in any way.\<close>

fun op_ok :: "('t, 'v, 'w, 'b, 'c) config \<Rightarrow> ('t, 'v, 'w) tester_op \<Rightarrow> bool" where
  "op_ok cfg (TStart i names svc rnd now) = (i < cgN cfg \<and> length names = cgN cfg \<and> distinct names \<and>
     (\<forall>e \<in> set names. map_of (nwEnds (cgNet cfg)) e = None))"
| "op_ok cfg (TCrash i) = (i < cgN cfg)"
| "op_ok cfg (TConnect i) = (i < cgN cfg \<and> cgEndnames cfg ! i \<noteq> [])"
| "op_ok cfg (TDisconnect i) = (i < cgN cfg)"

inductive tester_reach :: "nat \<Rightarrow> bool \<Rightarrow> ('t, 'v, 'w, 'b, 'c) config \<Rightarrow> bool" for n unreliable where
  init: "tester_reach n unreliable (empty_config n unreliable)"
| act: "tester_reach n unreliable cfg \<Longrightarrow> op_ok cfg a \<Longrightarrow> tester_act a cfg = Inr cfg' \<Longrightarrow> tester_reach n unreliable cfg'"
| run: "tester_reach n unreliable cfg \<Longrightarrow> map Option.is_none rs = map Option.is_none (cgRafts cfg) \<Longrightarrow>
    tester_reach n unreliable (cfg\<lparr>cgRafts := rs\<rparr>)"

lemma empty_wired: "wired (empty_config n unreliable)"
  by (auto simp: wired_def shaped_def named_def gated_def empty_config_def LongDelays_def Reliable_def MakeNetwork_def)

lemma empty_served: "served (empty_config n unreliable)"
  by (simp add: served_def empty_config_def LongDelays_def Reliable_def MakeNetwork_def)

lemma tester_act_served:
  assumes "wired cfg" "served cfg" "op_ok cfg a" "tester_act a cfg = Inr cfg'"
  shows "served cfg'"
  using assms start1_served crash1_served connect_served disconnect_served by (cases a) auto

lemma tester_act_wired:
  assumes "wired cfg" "op_ok cfg a" "tester_act a cfg = Inr cfg'"
  shows "wired cfg' \<and> cgN cfg' = cgN cfg"
proof (cases a)
  case (TStart i names svc rnd now)
  with assms start1_wired[OF assms(1), of i names svc rnd now cfg'] show ?thesis by auto
next
  case (TCrash i)
  with assms crash1_wired[OF assms(1), of i] show ?thesis by auto
next
  case (TConnect i)
  with assms connect_wired[OF assms(1), of i] show ?thesis by auto
next
  case (TDisconnect i)
  with assms disconnect_wired[OF assms(1), of i] show ?thesis by auto
qed

lemma tester_reach_wired: "tester_reach n unreliable cfg \<Longrightarrow> wired cfg \<and> served cfg \<and> cgN cfg = n"
proof (induction rule: tester_reach.induct)
  case init
  show ?case by (intro conjI empty_wired empty_served) (simp add: empty_config_def)
next
  case (act cfg a cfg')
  then show ?case using tester_act_wired tester_act_served by blast
next
  case (run cfg rs)
  have l: "length rs = length (cgRafts cfg)" using arg_cong[OF run.hyps(2), of length] by simp
  then have "wired (cfg\<lparr>cgRafts := rs\<rparr>)" by (intro wired_cong[OF conjunct1[OF run.IH]]) simp_all
  moreover have "rs ! j = None \<longleftrightarrow> cgRafts cfg ! j = None" if "j < cgN cfg" for j
  proof -
    have "length (cgRafts cfg) = cgN cfg" using run.IH by (simp add: wired_def shaped_def)
    then have "Option.is_none (rs ! j) = Option.is_none (cgRafts cfg ! j)" using arg_cong[OF run.hyps(2), of "\<lambda>xs. xs ! j"] l that by simp
    then show ?thesis by (simp add: Option.is_none_def)
  qed
  then have "served (cfg\<lparr>cgRafts := rs\<rparr>)" using run.IH by (simp add: served_def)
  ultimately show ?case using run.IH by simp
qed

text \<open>C35: Whatever peers the harness has started, crashed, restarted, connected and disconnected: an end of the network is enabled just
  if it belongs to the present instance of a connected peer and leads to a connected peer, and the network finds a server for it, so that a request
  sent on it is delivered, just if moreover the peer it leads to is running. So a peer that is disconnected neither sends nor
  receives, a crashed peer does not receive, and an old instance never sends again. Every end leads to the peer it was made for, and connecting
  or disconnecting a peer that was started never fails. A crash keeps exactly what the running peer has persisted, for the next instance.\<close>

theorem tester_isolates:
  assumes "tester_reach n unreliable cfg"
  shows "(\<forall>e. fst (readEndnameInfo e (cgNet cfg)) \<longleftrightarrow>
      (\<exists>i < n. \<exists>j < length (cgEndnames cfg ! i). e = cgEndnames cfg ! i ! j \<and> cgConnected cfg ! i \<and> cgConnected cfg ! j)) \<and>
    (\<forall>e. (\<exists>j p r l. readEndnameInfo e (cgNet cfg) = (True, Some j, Some p, r, l)) \<longleftrightarrow>
      (\<exists>i < n. \<exists>j < length (cgEndnames cfg ! i). e = cgEndnames cfg ! i ! j \<and> cgConnected cfg ! i \<and> cgConnected cfg ! j \<and> cgRafts cfg ! j \<noteq> None)) \<and>
    (\<forall>i < n. \<forall>j < length (cgEndnames cfg ! i). fst (snd (readEndnameInfo (cgEndnames cfg ! i ! j) (cgNet cfg))) = Some j) \<and>
    (\<forall>i < n. cgEndnames cfg ! i \<noteq> [] \<longrightarrow>
      (\<exists>cfg'. connect i cfg = Inr cfg' \<and> cgConnected cfg' = (cgConnected cfg)[i := True]) \<and>
      (\<exists>cfg'. disconnect i cfg = Inr cfg' \<and> cgConnected cfg' = (cgConnected cfg)[i := False])) \<and>
    (\<forall>i < n. \<forall>rf. cgRafts cfg ! i = Some rf \<longrightarrow> (\<exists>cfg'. crash1 i cfg = Inr cfg' \<and> cgSaved cfg' ! i = Some (persister rf)))"
proof -
  have w: "wired cfg" and n: "cgN cfg = n" and sv: "served cfg" using tester_reach_wired[OF assms] by auto
  then have gt: "gated cfg" and nm: "named cfg" and sh: "shaped cfg" by (simp_all add: wired_def)
  have en: "fst (readEndnameInfo e (cgNet cfg)) \<longleftrightarrow>
      (\<exists>i < n. \<exists>j < length (cgEndnames cfg ! i). e = cgEndnames cfg ! i ! j \<and> cgConnected cfg ! i \<and> cgConnected cfg ! j)" for e
    using gatedD[OF gt, of e] n by (simp add: readEndnameInfo_def Let_def)
  have to: "fst (snd (readEndnameInfo (cgEndnames cfg ! i ! j) (cgNet cfg))) = Some j"
    and srv: "fst (snd (snd (readEndnameInfo (cgEndnames cfg ! i ! j) (cgNet cfg)))) = None \<longleftrightarrow> cgRafts cfg ! j = None"
    if "i < n" "j < length (cgEndnames cfg ! i)" for i j
  proof -
    have c: "mget None (nwConnections (cgNet cfg)) (cgEndnames cfg ! i ! j) = Some j" using nm n that by (simp add: named_def)
    have "j < cgN cfg" using shaped_length[OF sh, of i] that n by (cases "cgEndnames cfg ! i = []") auto
    with c sv show "fst (snd (readEndnameInfo (cgEndnames cfg ! i ! j) (cgNet cfg))) = Some j"
      "fst (snd (snd (readEndnameInfo (cgEndnames cfg ! i ! j) (cgNet cfg)))) = None \<longleftrightarrow> cgRafts cfg ! j = None"
      by (simp_all add: served_def readEndnameInfo_def Let_def)
  qed
  have pass: "(\<exists>j p r l. readEndnameInfo e (cgNet cfg) = (True, Some j, Some p, r, l)) \<longleftrightarrow>
      (\<exists>i < n. \<exists>j < length (cgEndnames cfg ! i). e = cgEndnames cfg ! i ! j \<and> cgConnected cfg ! i \<and> cgConnected cfg ! j \<and> cgRafts cfg ! j \<noteq> None)"
    (is "?L \<longleftrightarrow> ?R") for e
  proof
    assume ?L
    then have r: "fst (readEndnameInfo e (cgNet cfg))" "fst (snd (snd (readEndnameInfo e (cgNet cfg)))) \<noteq> None" by auto
    from r(1)[unfolded en] obtain i j where
      p: "i < n" "j < length (cgEndnames cfg ! i)" "e = cgEndnames cfg ! i ! j" "cgConnected cfg ! i" "cgConnected cfg ! j" by (elim exE conjE)
    have "cgRafts cfg ! j \<noteq> None" using srv[OF p(1,2)] r(2) p(3) by simp
    with p show ?R by (intro exI conjI)
  next
    assume ?R
    then obtain i j where p: "i < n" "j < length (cgEndnames cfg ! i)" "e = cgEndnames cfg ! i ! j" "cgConnected cfg ! i" "cgConnected cfg ! j"
        "cgRafts cfg ! j \<noteq> None" by (elim exE conjE)
    have "fst (readEndnameInfo e (cgNet cfg))" unfolding en using p(1-5) by (intro exI conjI)
    with to[OF p(1,2)] srv[OF p(1,2)] p(3,6) show ?L by (cases "readEndnameInfo e (cgNet cfg)") auto
  qed
  have con: "\<exists>cfg'. connect i cfg = Inr cfg' \<and> cgConnected cfg' = (cgConnected cfg)[i := True]"
    "\<exists>cfg'. disconnect i cfg = Inr cfg' \<and> cgConnected cfg' = (cgConnected cfg)[i := False]" if "i < n" "cgEndnames cfg ! i \<noteq> []" for i
    using connect_wired[OF w, of i] disconnect_wired[OF w, of i] that n by blast+
  have cr: "\<exists>cfg'. crash1 i cfg = Inr cfg' \<and> cgSaved cfg' ! i = Some (persister rf)" if "i < n" "cgRafts cfg ! i = Some rf" for i rf
  proof -
    have "length (cgSaved cfg) = n" using w n by (simp add: wired_def shaped_def)
    with crash1_wired[OF w, of i] that n show ?thesis by (auto simp: savedOf_def)
  qed
  show ?thesis by (intro conjI allI impI; (rule en pass | erule (1) to con cr))
qed

definition demo_tester :: "(unit, int, int) tester_op list" where
  "demo_tester = [TStart 0 [''a'', ''b''] (MakeService ''Raft'' []) 0 0, TStart 1 [''c'', ''d''] (MakeService ''Raft'' []) 0 0,
     TConnect 0, TConnect 1, TCrash 0, TStart 0 [''e'', ''f''] (MakeService ''Raft'' []) 0 0, TConnect 0, TDisconnect 1]"

fun ops_ok :: "('t, 'v, 'w) tester_op list \<Rightarrow> ('t, 'v, 'w, 'b, 'c) config \<Rightarrow> bool" where
  "ops_ok [] cfg = True"
| "ops_ok (a # as) cfg = (op_ok cfg a \<and> (case tester_act a cfg of Inl e \<Rightarrow> False | Inr cfg' \<Rightarrow> ops_ok as cfg'))"

lemma ops_ok_reach:
  "tester_reach n u cfg \<Longrightarrow> ops_ok as cfg \<Longrightarrow> \<exists>cfg'. tester_run as cfg = Inr cfg' \<and> tester_reach n u cfg'"
proof (induction as arbitrary: cfg)
  case (Cons a as)
  then obtain cfg1 where "op_ok cfg a" "tester_act a cfg = Inr cfg1" "ops_ok as cfg1" by (auto split: sum.splits)
  with Cons.IH[of cfg1] tester_reach.act[OF Cons.prems(1)] show ?case by simp
qed simp

theorem tester_isolates_witness:
  "\<exists>cfg :: (unit, int, int, int, int) config. tester_run demo_tester (empty_config 2 False) = Inr cfg \<and>
     cgConnected cfg = [True, False] \<and> fst (readEndnameInfo ''e'' (cgNet cfg)) \<and>
     \<not> fst (readEndnameInfo ''f'' (cgNet cfg)) \<and> \<not> fst (readEndnameInfo ''a'' (cgNet cfg))"
proof -
  let ?c0 = "empty_config 2 False :: (unit, int, int, int, int) config"
  have "ops_ok demo_tester ?c0" by code_simp
  from ops_ok_reach[OF tester_reach.init this] obtain cfg where c: "tester_run demo_tester ?c0 = Inr cfg" "tester_reach 2 False cfg" by blast
  have "case tester_run demo_tester ?c0 of Inl e \<Rightarrow> False | Inr cfg \<Rightarrow> cgConnected cfg = [True, False] \<and> cgEndnames cfg = [[''e'', ''f''], [''c'', ''d'']]"
    by code_simp
  with c(1) have s: "cgConnected cfg = [True, False]" "cgEndnames cfg = [[''e'', ''f''], [''c'', ''d'']]" by simp_all
  have en: "fst (readEndnameInfo e (cgNet cfg)) \<longleftrightarrow>
      (\<exists>i < 2. \<exists>j < length (cgEndnames cfg ! i). e = cgEndnames cfg ! i ! j \<and> cgConnected cfg ! i \<and> cgConnected cfg ! j)" for e
    using tester_isolates[OF c(2)] by (elim conjE) (drule spec)
  have two: "(\<exists>i < 2 :: nat. P i) \<longleftrightarrow> P 0 \<or> P 1" "(\<exists>i < Suc (Suc 0). P i) \<longleftrightarrow> P 0 \<or> P 1" for P
    by (auto simp: less_2_cases_iff less_Suc_eq)
  have "fst (readEndnameInfo e (cgNet cfg)) \<longleftrightarrow> e = ''e''" for e unfolding en s two by (simp add: two)
  then show ?thesis using c(1) s by auto
qed

subsection \<open>What the peers deliver\<close>

type_synonym 'c apply_msg = "('c, 'c snapval) ApplyMsg"

fun differs :: "(int, 'c option) gomap list \<Rightarrow> int \<Rightarrow> 'c option \<Rightarrow> string \<Rightarrow> string" where
  "differs [] index v err = err"
| "differs (l # ls) index v err =
     differs ls index v (case map_of l index of None \<Rightarrow> err | Some old \<Rightarrow> if old \<noteq> v then ''commit index: values differ'' else err)"

definition checkLogs :: "nat \<Rightarrow> 'c apply_msg \<Rightarrow> ('t, 'v, 'w, 'b, 'c) config \<Rightarrow> ('t, 'v, 'w, 'b, 'c) config \<times> string \<times> bool" where
  "checkLogs i m cfg =
     (let v = amCommand m; index = amCommandIndex m;
          err_msg = differs (cgLogs cfg) index v [];
          prevok = (map_of (cgLogs cfg ! i) (index - 1) \<noteq> None) in
      (cfg\<lparr>cgLogs := (cgLogs cfg)[i := mput index v (cgLogs cfg ! i)],
           cgMaxIndex := (if index > cgMaxIndex cfg then index else cgMaxIndex cfg)\<rparr>, err_msg, prevok))"

definition applier :: "nat \<Rightarrow> 'c apply_msg \<Rightarrow> ('t, 'v, 'w, 'b, 'c) config \<Rightarrow> ('t, 'v, 'w, 'b, 'c) config res" where
  "applier i m cfg =
     (if amCommandValid m = False then Inr cfg
      else case checkLogs i m cfg of (cfg', err_msg, prevok) \<Rightarrow>
        let err_msg' = (if amCommandIndex m > 1 \<and> prevok = False then ''apply out of order'' else err_msg) in
        if err_msg' \<noteq> [] then Inl (Explicit (''apply error: '' @ err_msg')) else Inr cfg')"

definition SnapShotInterval :: int where
  "SnapShotInterval = 10"

text \<open>The second value is the snapshot that \<open>applierSnap\<close> hands to its peer, if it takes one.\<close>

definition takeSnapshot :: "nat \<Rightarrow> int \<Rightarrow> ('t, 'v, 'w, 'b, 'c) config \<Rightarrow> (int \<times> 'c snapval list) option" where
  "takeSnapshot i index cfg =
     (if go_rem (index + 1) SnapShotInterval = 0
      then Some (index, [SnapInt index, SnapLog (map (\<lambda>j. mget None (cgLogs cfg ! i) (int j)) [0..<nat (index + 1)])])
      else None)"

definition applierSnap :: "nat \<Rightarrow> 'c apply_msg \<Rightarrow> ('t, 'v, 'w, 'b, 'c) config \<Rightarrow>
    (('t, 'v, 'w, 'b, 'c) config \<times> (int \<times> 'c snapval list) option) res" where
  "applierSnap i m cfg =
     (if amSnapshotValid m then bindR (ingestSnap i (amSnapshot m) (amSnapshotIndex m) cfg) (\<lambda>cfg'. Inr (cfg', None))
      else if amCommandValid m then
        (if amCommandIndex m \<noteq> cgLastApplied cfg ! i + 1 then Inl (Explicit ''apply error: apply out of order'')
         else case checkLogs i m cfg of (cfg1, err_msg, prevok) \<Rightarrow>
           let err_msg' = (if amCommandIndex m > 1 \<and> prevok = False then ''apply out of order'' else err_msg);
               cfg2 = cfg1\<lparr>cgLastApplied := (cgLastApplied cfg1)[i := amCommandIndex m]\<rparr> in
           if err_msg' \<noteq> [] then Inl (Explicit (''apply error: '' @ err_msg')) else Inr (cfg2, takeSnapshot i (amCommandIndex m) cfg2))
      else Inr (cfg, None))"

fun countCommitted :: "(int, 'c option) gomap list \<Rightarrow> string list \<Rightarrow> int \<Rightarrow> int \<Rightarrow> 'c option \<Rightarrow> (int \<times> 'c option) res" where
  "countCommitted [] errs index count cmd = Inr (count, cmd)"
| "countCommitted (l # ls) errs index count cmd =
     (if hd errs \<noteq> [] then Inl (Explicit (hd errs))
      else case map_of l index of
        None \<Rightarrow> countCommitted ls (tl errs) index count cmd
      | Some cmd1 \<Rightarrow>
          if count > 0 \<and> cmd \<noteq> cmd1 then Inl (Explicit ''committed values do not match'')
          else countCommitted ls (tl errs) index (count + 1) cmd1)"

definition nCommitted :: "int \<Rightarrow> ('t, 'v, 'w, 'b, 'c) config \<Rightarrow> (int \<times> 'c option) res" where
  "nCommitted index cfg = countCommitted (cgLogs cfg) (cgApplyErr cfg) index 0 None"

fun applier_run :: "(nat \<times> 'c apply_msg) list \<Rightarrow> ('t, 'v, 'w, 'b, 'c) config \<Rightarrow> ('t, 'v, 'w, 'b, 'c) config res" where
  "applier_run [] cfg = Inr cfg"
| "applier_run ((i, m) # ms) cfg = bindR (applier i m cfg) (applier_run ms)"

lemma applier_run_snoc: "applier_run (ms @ [(i, m)]) cfg = bindR (applier_run ms cfg) (applier i m)"
  by (induction ms arbitrary: cfg) (auto simp: bindR_def split: sum.splits)

lemma differs_eq: "differs ls index v err = [] \<longleftrightarrow> err = [] \<and> (\<forall>l \<in> set ls. \<forall>old. map_of l index = Some old \<longrightarrow> old = v)"
  by (induction ls arbitrary: err) (auto split: option.splits if_splits)

text \<open>The deliveries that are in order and agree.\<close>

abbreviation delivered :: "nat \<Rightarrow> int \<Rightarrow> 'c option \<Rightarrow> (nat \<times> 'c apply_msg) list \<Rightarrow> bool" where
  "delivered i index v ms \<equiv> (\<exists>m. (i, m) \<in> set ms \<and> amCommandValid m \<and> amCommandIndex m = index \<and> amCommand m = v)"

definition fits :: "(nat \<times> 'c apply_msg) list \<Rightarrow> nat \<times> 'c apply_msg \<Rightarrow> bool" where
  "fits ms x \<longleftrightarrow> (case x of (i, m) \<Rightarrow> amCommandValid m \<longrightarrow>
     (amCommandIndex m > 1 \<longrightarrow> (\<exists>v. delivered i (amCommandIndex m - 1) v ms)) \<and>
     (\<forall>j v. delivered j (amCommandIndex m) v ms \<longrightarrow> v = amCommand m))"

definition consistent :: "(nat \<times> 'c apply_msg) list \<Rightarrow> bool" where
  "consistent ms \<longleftrightarrow> (\<forall>k < length ms. fits (take k ms) (ms ! k))"

lemma consistent_Nil [simp]: "consistent []"
  by (simp add: consistent_def)

lemma consistent_snoc: "consistent (ms @ [x]) \<longleftrightarrow> consistent ms \<and> fits ms x"
  by (auto simp: consistent_def less_Suc_eq nth_append)

lemma consistent_agree:
  assumes "consistent ms" "delivered i index v ms" "delivered j index w ms"
  shows "v = w"
  using assms
proof (induction ms rule: rev_induct)
  case (snoc x ms)
  have c: "consistent ms" "fits ms x" using snoc.prems(1) by (simp_all add: consistent_snoc)
  have new: "u = amCommand (snd x)" if "delivered k index u ms" "amCommandValid (snd x)" "amCommandIndex (snd x) = index" for k u
    using c(2) that(1,2) unfolding that(3)[symmetric] fits_def case_prod_beta by blast
  have old: "delivered k index u ms \<or> (amCommandValid (snd x) \<and> amCommandIndex (snd x) = index \<and> u = amCommand (snd x))"
    if "delivered k index u (ms @ [x])" for k u using that by auto
  show ?case
  proof (cases "amCommandValid (snd x) \<and> amCommandIndex (snd x) = index")
    case True
    have "u = amCommand (snd x)" if "delivered k index u (ms @ [x])" for k u
      using old[OF that] new[of k u] True by argo
    from this[OF snoc.prems(2)] this[OF snoc.prems(3)] show ?thesis by simp
  next
    case False
    with old[OF snoc.prems(2)] old[OF snoc.prems(3)] have "delivered i index v ms" "delivered j index w ms" by argo+
    then show ?thesis by (rule snoc.IH[OF c(1)])
  qed
qed simp

definition logs_of :: "(nat \<times> 'c apply_msg) list \<Rightarrow> (int, 'c option) gomap list \<Rightarrow> bool" where
  "logs_of ms logs \<longleftrightarrow> (\<forall>i < length logs. \<forall>index v. map_of (logs ! i) index = Some v \<longleftrightarrow> delivered i index v ms)"

lemma applier_iff:
  assumes "logs_of ms (cgLogs cfg)" "i < length (cgLogs cfg)" "\<forall>x \<in> set ms. fst x < length (cgLogs cfg)"
  shows "if fits ms (i, m) then \<exists>cfg'. applier i m cfg = Inr cfg' \<and> logs_of (ms @ [(i, m)]) (cgLogs cfg') \<and> length (cgLogs cfg') = length (cgLogs cfg) \<and>
      cgApplyErr cfg' = cgApplyErr cfg
    else \<exists>e. applier i m cfg = Inl e"
proof (cases "amCommandValid m")
  case False
  then have "fits ms (i, m)" "applier i m cfg = Inr cfg" by (simp_all add: fits_def applier_def)
  moreover have "logs_of (ms @ [(i, m)]) (cgLogs cfg)" using assms(1) False unfolding logs_of_def by auto
  ultimately show ?thesis by simp
next
  case True
  let ?k = "amCommandIndex m" and ?v = "amCommand m"
  have lk: "map_of (cgLogs cfg ! j) index = Some v \<longleftrightarrow> delivered j index v ms" if "j < length (cgLogs cfg)" for j index v
    using assms(1) that by (simp add: logs_of_def)
  have prev: "map_of (cgLogs cfg ! i) (?k - 1) \<noteq> None \<longleftrightarrow> (\<exists>v. delivered i (?k - 1) v ms)" using lk[OF assms(2)] by auto
  have agree: "differs (cgLogs cfg) ?k ?v [] = [] \<longleftrightarrow> (\<forall>j v. delivered j ?k v ms \<longrightarrow> v = ?v)"
  proof -
    have "(\<forall>l \<in> set (cgLogs cfg). \<forall>old. map_of l ?k = Some old \<longrightarrow> old = ?v) \<longleftrightarrow>
        (\<forall>j < length (cgLogs cfg). \<forall>old. delivered j ?k old ms \<longrightarrow> old = ?v)"
      using lk by (auto simp: all_set_conv_all_nth)
    also have "\<dots> \<longleftrightarrow> (\<forall>j v. delivered j ?k v ms \<longrightarrow> v = ?v)" using assms(3) by fastforce
    finally show ?thesis by (simp add: differs_eq)
  qed
  show ?thesis
  proof (cases "fits ms (i, m)")
    case fit: True
    let ?cfg = "fst (checkLogs i m cfg)"
    have d: "differs (cgLogs cfg) ?k ?v [] = []" using fit True agree by (auto simp: fits_def)
    have p: "?k > 1 \<longrightarrow> map_of (cgLogs cfg ! i) (?k - 1) \<noteq> None" using fit True prev by (auto simp: fits_def)
    have ap: "applier i m cfg = Inr ?cfg" using True d p by (auto simp: applier_def checkLogs_def Let_def)
    have logs: "cgLogs ?cfg = (cgLogs cfg)[i := mput ?k ?v (cgLogs cfg ! i)]" "cgApplyErr ?cfg = cgApplyErr cfg" by (simp_all add: checkLogs_def Let_def)
    have "map_of (cgLogs ?cfg ! j) index = Some v \<longleftrightarrow> delivered j index v (ms @ [(i, m)])" if "j < length (cgLogs cfg)" for j index v
    proof (cases "j = i \<and> index = ?k")
      case True
      have "amCommand ma = ?v" if "(i, ma) \<in> set ms" "amCommandValid ma" "amCommandIndex ma = ?k" for ma
        using fit \<open>amCommandValid m\<close> that unfolding fits_def by blast
      with True assms(2) \<open>amCommandValid m\<close> show ?thesis by (auto simp: logs)
    next
      case False
      with lk[OF that] that assms(2) show ?thesis by (cases "j = i") (auto simp: logs)
    qed
    then have "logs_of (ms @ [(i, m)]) (cgLogs ?cfg)" by (simp add: logs_of_def logs)
    with ap fit logs show ?thesis by simp
  next
    case False
    then have "\<not> (?k > 1 \<longrightarrow> map_of (cgLogs cfg ! i) (?k - 1) \<noteq> None) \<or> differs (cgLogs cfg) ?k ?v [] \<noteq> []"
      using True prev agree by (auto simp: fits_def)
    with True False show ?thesis by (auto simp: applier_def checkLogs_def Let_def)
  qed
qed

lemma applier_run_iff:
  assumes "cgLogs cfg = replicate n []" "\<forall>x \<in> set ms. fst x < n"
  shows "if consistent ms then \<exists>cfg'. applier_run ms cfg = Inr cfg' \<and> logs_of ms (cgLogs cfg') \<and> length (cgLogs cfg') = n \<and> cgApplyErr cfg' = cgApplyErr cfg
    else \<exists>e. applier_run ms cfg = Inl e"
  using assms(2)
proof (induction ms rule: rev_induct)
  case Nil
  show ?case by (simp add: assms(1) logs_of_def)
next
  case (snoc x ms)
  obtain i m where x: "x = (i, m)" by (cases x)
  show ?case
  proof (cases "consistent ms")
    case True
    with snoc obtain cfg1 where c: "applier_run ms cfg = Inr cfg1" "logs_of ms (cgLogs cfg1)" "length (cgLogs cfg1) = n" "cgApplyErr cfg1 = cgApplyErr cfg" by auto
    from applier_iff[OF c(2), of i m] snoc.prems c x True show ?thesis
      by (auto simp: applier_run_snoc consistent_snoc split: if_splits)
  next
    case False
    with snoc obtain e where "applier_run ms cfg = Inl e" by auto
    with False show ?thesis by (auto simp: x applier_run_snoc consistent_snoc)
  qed
qed

lemma countCommitted_agree:
  assumes "\<forall>l \<in> set ls. \<forall>w. map_of l index = Some w \<longrightarrow> w = v" "length errs = length ls" "\<forall>e \<in> set errs. e = []"
    and "count > 0 \<Longrightarrow> cmd = v" "0 \<le> count"
  shows "countCommitted ls errs index count cmd =
    Inr (count + int (length (filter (\<lambda>l. map_of l index \<noteq> None) ls)), if count = 0 \<and> (\<forall>l \<in> set ls. map_of l index = None) then cmd else v)"
  using assms
proof (induction ls arbitrary: errs count cmd)
  case (Cons l ls)
  obtain e errs' where e: "errs = e # errs'" using Cons.prems(2) by (cases errs) auto
  show ?case
  proof (cases "map_of l index")
    case None
    then show ?thesis using Cons.IH[of errs' count cmd] Cons.prems e by auto
  next
    case (Some w)
    then have "w = v" using Cons.prems(1) by auto
    moreover have "count = 0 \<or> cmd = v" using Cons.prems(4,5) by fastforce
    ultimately show ?thesis using Some Cons.IH[of errs' "count + 1" v] Cons.prems e by auto
  qed
qed auto

text \<open>C36: The harness accepts the deliveries of commands just if they are consistent: every message carries the command that
  all earlier messages for its index carried, and follows one for the index before it at the same server. It then keeps exactly the
  commands delivered, and \<open>nCommitted\<close> never fails and counts the servers that have the index.\<close>

theorem applier_exact:
  assumes "\<forall>x \<in> set ms. fst x < n"
  shows "if consistent ms then \<exists>cfg. applier_run ms (empty_config n unreliable :: ('t, 'v, 'w, 'b, 'c) config) = Inr cfg \<and>
      (\<forall>i < n. \<forall>index v. map_of (cgLogs cfg ! i) index = Some v \<longleftrightarrow>
         (\<exists>m. (i, m) \<in> set ms \<and> amCommandValid m \<and> amCommandIndex m = index \<and> amCommand m = v)) \<and>
      (\<forall>index. \<exists>cmd. nCommitted index cfg = Inr (int (card {i. i < n \<and> map_of (cgLogs cfg ! i) index \<noteq> None}), cmd) \<and>
         (\<forall>i < n. \<forall>v. map_of (cgLogs cfg ! i) index = Some v \<longrightarrow> v = cmd))
    else \<exists>e. applier_run ms (empty_config n unreliable :: ('t, 'v, 'w, 'b, 'c) config) = Inl e"
proof (cases "consistent ms")
  case True
  let ?c0 = "empty_config n unreliable :: ('t, 'v, 'w, 'b, 'c) config"
  have "cgLogs ?c0 = replicate n []" "cgApplyErr ?c0 = replicate n []" by (simp_all add: empty_config_def)
  with applier_run_iff[of ?c0 n ms] assms True obtain cfg where c: "applier_run ms ?c0 = Inr cfg" "logs_of ms (cgLogs cfg)" "length (cgLogs cfg) = n"
      "cgApplyErr cfg = replicate n []" by auto
  have lk: "map_of (cgLogs cfg ! i) index = Some v \<longleftrightarrow> delivered i index v ms" if "i < n" for i index v
    using c(2,3) that by (simp add: logs_of_def)
  have "\<exists>cmd. nCommitted index cfg = Inr (int (card {i. i < n \<and> map_of (cgLogs cfg ! i) index \<noteq> None}), cmd) \<and>
         (\<forall>i < n. \<forall>v. map_of (cgLogs cfg ! i) index = Some v \<longrightarrow> v = cmd)" for index
  proof -
    have same: "w = w'" if "delivered i index w ms" "delivered j index w' ms" for i j w w' by (rule consistent_agree[OF True that])
    have dl: "\<exists>i. delivered i index w ms" if "l \<in> set (cgLogs cfg)" "map_of l index = Some w" for l w
    proof -
      from that(1) obtain i where "i < n" "l = cgLogs cfg ! i" using c(3) by (auto simp: in_set_conv_nth)
      with that(2) lk show ?thesis by blast
    qed
    obtain cmd where v: "\<forall>l \<in> set (cgLogs cfg). \<forall>w. map_of l index = Some w \<longrightarrow> w = cmd"
      and none: "(\<forall>l \<in> set (cgLogs cfg). map_of l index = None) \<Longrightarrow> cmd = None"
    proof (cases "\<forall>l \<in> set (cgLogs cfg). map_of l index = None")
      case False
      then obtain l w where l: "l \<in> set (cgLogs cfg)" "map_of l index = Some w" by auto
      obtain i where i: "delivered i index w ms" by (rule exE[OF dl[OF l]])
      have "\<forall>l \<in> set (cgLogs cfg). \<forall>w'. map_of l index = Some w' \<longrightarrow> w' = w"
      proof (intro ballI allI impI)
        fix l' w' assume "l' \<in> set (cgLogs cfg)" "map_of l' index = Some w'"
        then obtain j where "delivered j index w' ms" by (rule exE[OF dl])
        from same[OF this i] show "w' = w" .
      qed
      with False show ?thesis by (intro that) auto
    qed (use that in auto)
    have "nCommitted index cfg = Inr (int (length (filter (\<lambda>l. map_of l index \<noteq> None) (cgLogs cfg))), cmd)"
      unfolding nCommitted_def by (subst countCommitted_agree[OF v]) (auto simp: c(3,4) none)
    moreover have "length (filter (\<lambda>l. map_of l index \<noteq> None) (cgLogs cfg)) = card {i. i < n \<and> map_of (cgLogs cfg ! i) index \<noteq> None}"
      by (simp add: length_filter_conv_card c(3))
    moreover have "u = cmd" if "i < n" "map_of (cgLogs cfg ! i) index = Some u" for i u
    proof -
      have "cgLogs cfg ! i \<in> set (cgLogs cfg)" using that(1) c(3) by simp
      with v that(2) show ?thesis by blast
    qed
    ultimately show ?thesis by (intro exI[of _ cmd]) simp
  qed
  with c(1) lk True show ?thesis by auto
next
  case False
  with applier_run_iff[of "empty_config n unreliable :: ('t, 'v, 'w, 'b, 'c) config" n ms] assms show ?thesis by (simp add: empty_config_def)
qed

definition demo_msg :: "int \<Rightarrow> int \<Rightarrow> int apply_msg" where
  "demo_msg index v = \<lparr>amCommandValid = True, amCommand = Some v, amCommandIndex = index, amCommandTerm = 1,
     amSnapshotValid = False, amSnapshot = [], amSnapshotTerm = 0, amSnapshotIndex = 0\<rparr>"

definition demo_msgs :: "(nat \<times> int apply_msg) list" where
  "demo_msgs = [(0, demo_msg 1 7), (0, demo_msg 2 8), (1, demo_msg 1 7)]"

theorem applier_exact_witness:
  "(\<exists>cfg :: (unit, int, int, int, int) config. applier_run demo_msgs (empty_config 2 False) = Inr cfg \<and> nCommitted 1 cfg = Inr (2, Some 7)) \<and>
   (\<exists>e. applier_run (demo_msgs @ [(1, demo_msg 2 9)]) (empty_config 2 False :: (unit, int, int, int, int) config) = Inl e)"
proof -
  let ?c0 = "empty_config 2 False :: (unit, int, int, int, int) config"
  have run: "case applier_run demo_msgs ?c0 of Inl e \<Rightarrow> False | Inr cfg \<Rightarrow> nCommitted 1 cfg = Inr (2, Some 7)" by code_simp
  have bad: "\<not> consistent (demo_msgs @ [(1, demo_msg 2 9)])"
  proof
    assume "consistent (demo_msgs @ [(1, demo_msg 2 9)])"
    then have "fits demo_msgs (1, demo_msg 2 9)" by (simp add: consistent_snoc)
    moreover have "delivered 0 2 (Some 8) demo_msgs" by (intro exI[of _ "demo_msg 2 8"]) (simp add: demo_msgs_def demo_msg_def)
    moreover have "amCommandValid (demo_msg 2 9)" "amCommandIndex (demo_msg 2 9) = 2" "amCommand (demo_msg 2 9) = Some 9" by (simp_all add: demo_msg_def)
    ultimately have "Some 8 = Some (9 :: int)" unfolding fits_def case_prod_conv by metis
    then show False by simp
  qed
  have "\<forall>x \<in> set (demo_msgs @ [(1, demo_msg 2 9)]). fst x < 2" by (simp add: demo_msgs_def)
  from applier_exact[OF this, of False] bad have "\<exists>e. applier_run (demo_msgs @ [(1, demo_msg 2 9)]) ?c0 = Inl e" by simp
  with run show ?thesis by (auto split: sum.splits)
qed

end
