(* ===== verification/RaftChecks.thy ===== *)
theory RaftChecks
  imports RaftProperties RaftTester
begin

text \<open>
  The checks of \<open>raft/config.go\<close> that ask the peers: who leads, in which term. The harness asks one peer after the other
  while the cluster goes on, so a check sees each peer in a state of its own, later than that of the peer before. Then \<open>wait\<close> and \<open>one\<close>,
  which wait until enough servers have delivered a command.
\<close>

subsection \<open>Definitions\<close>

fun collectLeaders :: "(nat \<times> int \<times> bool) list \<Rightarrow> (int, nat list) gomap \<Rightarrow> (int, nat list) gomap" where
  "collectLeaders [] leaders = leaders"
| "collectLeaders ((i, term, leader) # obs) leaders =
     collectLeaders obs (if leader then mput term (mget [] leaders term @ [i]) leaders else leaders)"

fun lastTermWithLeader :: "(int, nat list) gomap \<Rightarrow> int \<Rightarrow> int res" where
  "lastTermWithLeader [] t = Inr t"
| "lastTermWithLeader ((term, ls) # rest) t =
     (if length ls > 1 then Inl (Explicit ''term has more than one leader'')
      else lastTermWithLeader rest (if term > t then term else t))"

definition leaderRound :: "(nat \<times> int \<times> bool) list \<Rightarrow> nat option res" where
  "leaderRound obs =
     (let leaders = collectLeaders obs [] in
      bindR (lastTermWithLeader leaders (-1)) (\<lambda>t.
        if leaders \<noteq> [] then bindR (go_nth (mget [] leaders t) 0) (\<lambda>l. Inr (Some l)) else Inr None))"

text \<open>The loop over the attempts, each with what it observes; the code makes ten.\<close>

fun checkOneLeader :: "(nat \<times> int \<times> bool) list list \<Rightarrow> nat res" where
  "checkOneLeader [] = Inl (Explicit ''expected one leader, got none'')"
| "checkOneLeader (obs # rest) =
     bindR (leaderRound obs) (\<lambda>r. case r of Some l \<Rightarrow> Inr l | None \<Rightarrow> checkOneLeader rest)"

fun checkTerms :: "(nat \<times> int \<times> bool) list \<Rightarrow> int \<Rightarrow> int res" where
  "checkTerms [] t = Inr t"
| "checkTerms ((i, xterm, leader) # obs) t =
     (if t = -1 then checkTerms obs xterm
      else if t \<noteq> xterm then Inl (Explicit ''servers disagree on term'') else checkTerms obs t)"

fun checkNoLeader :: "(nat \<times> int \<times> bool) list \<Rightarrow> unit res" where
  "checkNoLeader [] = Inr ()"
| "checkNoLeader ((i, term, leader) # obs) =
     (if leader then Inl (Explicit ''expected no leader among connected servers'') else checkNoLeader obs)"

text \<open>What a check observes of the connected peers: peer \<open>i\<close> in state \<open>ss ! i\<close> of the cluster.\<close>

definition observe :: "bool list \<Rightarrow> ('c, 'd) cluster list \<Rightarrow> (nat \<times> int \<times> bool) list" where
  "observe connected ss = map (\<lambda>i. (i, GetState (peers (ss ! i) (int i)))) (filter (\<lambda>i. connected ! i) [0..<length ss])"

definition watched :: "bool \<Rightarrow> nat \<Rightarrow> ('c, 'd) cluster list \<Rightarrow> bool" where
  "watched compact n ss \<longleftrightarrow> length ss = n \<and> (\<forall>i < n. reachable compact n (ss ! i)) \<and>
     (\<forall>i j. i \<le> j \<longrightarrow> j < n \<longrightarrow> (cluster_step compact n)\<^sup>*\<^sup>* (ss ! i) (ss ! j))"

subsection \<open>One leader per term, at all times\<close>

lemma granted_step: "cluster_step compact n s s' \<Longrightarrow> granted s \<subseteq> granted s'"
  by (induction rule: cluster_step.induct) (auto simp: set_peer_def)

lemma granted_steps: "(cluster_step compact n)\<^sup>*\<^sup>* s s' \<Longrightarrow> granted s \<subseteq> granted s'"
  by (induction rule: rtranclp_induct) (use granted_step in blast)+

lemma leaders_agree:
  assumes "reachable compact n s" "reachable compact n s'" "(cluster_step compact n)\<^sup>*\<^sup>* s s'" "i < n" "j < n"
    and "state (peers s (int i)) = Leader" "state (peers s' (int j)) = Leader"
    and "currentTerm (peers s (int i)) = currentTerm (peers s' (int j))"
  shows "i = j"
proof -
  let ?t = "currentTerm (peers s (int i))"
  have inv: "election_inv n s" "election_inv n s'" using election_inv_reachable assms(1,2) by blast+
  then have gr: "inv_granted n (peers s') (granted s')" by (simp add: election_inv_def)
  have "{v. (v, ?t, int i) \<in> granted s'} \<subseteq> {0..<int n}" using inv_grantedD(1,2)[OF gr] by auto
  then have "card {v. (v, ?t, int i) \<in> granted s} \<le> card {v. (v, ?t, int i) \<in> granted s'}"
    using granted_steps[OF assms(3)] by (intro card_mono) (auto intro: finite_subset)
  moreover have "n div 2 < card {v. (v, ?t, int i) \<in> granted s}" using leader_majority[OF inv(1) _ _ assms(6)] assms(4) by simp
  ultimately have "n div 2 < card {v. (v, ?t, int i) \<in> granted s'}" by simp
  moreover have "n div 2 < card {v. (v, ?t, int j) \<in> granted s'}" using leader_majority[OF inv(2) _ _ assms(7)] assms(5,8) by simp
  ultimately show ?thesis using one_winner[OF gr] by fastforce
qed

lemma watched_leaders:
  assumes "watched compact n ss" "i < n" "j < n"
    and "GetState (peers (ss ! i) (int i)) = (t, True)" "GetState (peers (ss ! j) (int j)) = (t, True)"
  shows "i = j"
proof (cases "i \<le> j")
  case True
  then show ?thesis using assms leaders_agree[of compact n "ss ! i" "ss ! j" i j] by (auto simp: watched_def GetState_def)
next
  case False
  then show ?thesis using assms leaders_agree[of compact n "ss ! j" "ss ! i" j i] by (auto simp: watched_def GetState_def)
qed

text \<open>Terms start at 1 and only grow.\<close>

lemma cluster_step_vote_step:
  assumes "cluster_step compact n s s'" "election_inv n s" "0 \<le> k" "k < int n"
  shows "vote_step (peers s k) (peers s' k)"
  using assms(1)
proof cases
  case (vote_request c rf' r)
  then show ?thesis using RequestVote_vote_step[of "vcArgs c" "peers s (vcTo c)" rf' r] by (simp add: set_peer_def)
next
  case (vote_reply c r rf' b)
  then show ?thesis using sendRequestVote_vote_step[of "vcArgs c" r "peers s (vcFrom c)" rf' b] by (simp add: set_peer_def)
next
  case (tick i rnd ev rf' ms)
  have "vote_step (peers s i) rf'"
  proof (cases "voting_in (PTick rnd ev) (peers s i)")
    case True
    with tick have "startElection rnd (peers s i) = Inr (rf', ms)" by (simp add: ticker_def)
    from startElection_fields[OF this] show ?thesis by (simp add: vote_step_def)
  next
    case False
    with tick show ?thesis by (blast intro: quiet_vote_step ticker_quiet)
  qed
  with tick show ?thesis by (simp add: set_peer_def)
next
  case (append i args rnd rf' r)
  then show ?thesis using quiet_vote_step[OF AppendEntries_quiet[of rnd args "peers s i" rf' r]] by (simp add: set_peer_def)
next
  case (append_reply j args r i rnd rf' b)
  then show ?thesis using quiet_vote_step[OF sendAppendEntries_quiet[of rnd j args r "peers s i" rf' b]] by (simp add: set_peer_def)
next
  case (local i inp rf')
  moreover have "\<not> voting_in inp (peers s i)" using local(4) by (cases inp) auto
  ultimately show ?thesis using quiet_vote_step[OF peer_step_quiet[of inp "peers s i" rf']] by (simp add: set_peer_def)
next
  case (crash i rnd now)
  have "durable (peers s i)" using assms(2) crash inv_peersD by (fastforce simp: election_inv_def)
  then have "vote_step (peers s i) (restart rnd now (peers s i))" by (simp add: vote_step_def restart_fields)
  with crash show ?thesis by (simp add: set_peer_def)
qed simp

lemma reachable_terms: "reachable compact n s \<Longrightarrow> 0 \<le> k \<Longrightarrow> k < int n \<Longrightarrow> 1 \<le> currentTerm (peers s k)"
proof (induction rule: reachable.induct)
  case (init s)
  then obtain rnd now where "peers s k = Make n k MakePersister rnd now" unfolding cluster_init_def by meson
  then show ?case
    by (simp add: Make_def MakePersister_def ReadRaftState_def ReadSnapshot_def readPersist_def readSnapshot_def Let_def)
next
  case (step s s')
  then show ?case using cluster_step_vote_step[OF step(2) election_inv_reachable[OF step(1)], of k] by (simp add: vote_step_def)
qed

subsection \<open>The check\<close>

text \<open>The table holds, under each term, the peers seen leading in it.\<close>

lemma collectLeaders_get:
  "mget [] (collectLeaders obs m) t = mget [] m t @ map fst (filter (\<lambda>(i, t', l). l \<and> t' = t) obs)"
  by (induction obs m rule: collectLeaders.induct) auto

lemma collectLeaders_keys:
  "wf_map m \<Longrightarrow> wf_map (collectLeaders obs m) \<and> set (mkeys (collectLeaders obs m)) = set (mkeys m) \<union> {t. \<exists>i. (i, t, True) \<in> set obs}"
proof (induction obs m rule: collectLeaders.induct)
  case (2 i t l obs m)
  have "wf_map (if l then mput t (mget [] m t @ [i]) m else m)" using 2(2) by simp
  from 2(1)[OF this] show ?case by (auto simp: dom_update)
qed simp

lemma at_most_one:
  assumes "distinct xs" "\<And>x y. x \<in> set xs \<Longrightarrow> y \<in> set xs \<Longrightarrow> x = y"
  shows "length xs \<le> 1"
proof (rule ccontr)
  assume "\<not> length xs \<le> 1"
  then have "0 < length xs" "1 < length xs" by linarith+
  then have "xs ! 0 = xs ! 1" by (intro assms(2) nth_mem)
  with \<open>1 < length xs\<close> \<open>0 < length xs\<close> nth_eq_iff_index_eq[OF assms(1)] show False by fastforce
qed

lemma lastTermWithLeader_max:
  assumes "\<And>k ls. (k, ls) \<in> set m \<Longrightarrow> length ls \<le> 1"
  shows "\<exists>r. lastTermWithLeader m t = Inr r \<and> t \<le> r \<and> (r = t \<or> r \<in> set (mkeys m)) \<and> (\<forall>k \<in> set (mkeys m). k \<le> r)"
  using assms
proof (induction m arbitrary: t)
  case (Cons x m)
  obtain k ls where x: "x = (k, ls)" by (cases x)
  have "length ls \<le> 1" "\<And>k ls. (k, ls) \<in> set m \<Longrightarrow> length ls \<le> 1" using Cons.prems[of k ls] Cons.prems x by auto
  with Cons.IH[of "if k > t then k else t"] obtain r where r: "lastTermWithLeader m (if k > t then k else t) = Inr r"
      "(if k > t then k else t) \<le> r" "r = (if k > t then k else t) \<or> r \<in> set (mkeys m)" "\<forall>k \<in> set (mkeys m). k \<le> r" by blast
  have "t \<le> r \<and> k \<le> r \<and> (r = t \<or> r = k \<or> r \<in> set (mkeys m))" using r(2,3) by (simp split: if_splits) linarith+
  with r(1,4) \<open>length ls \<le> 1\<close> show ?case unfolding x by auto
qed simp

lemma leaderRound_ok:
  assumes one: "\<And>i j t. (i, t, True) \<in> set obs \<Longrightarrow> (j, t, True) \<in> set obs \<Longrightarrow> i = j"
    and nn: "\<And>i t. (i, t, True) \<in> set obs \<Longrightarrow> 0 \<le> t" and dist: "distinct (map fst obs)"
  shows "if \<exists>i t. (i, t, True) \<in> set obs
    then \<exists>l t. leaderRound obs = Inr (Some l) \<and> (l, t, True) \<in> set obs \<and> (\<forall>i t'. (i, t', True) \<in> set obs \<longrightarrow> t' \<le> t)
    else leaderRound obs = Inr None"
proof -
  let ?m = "collectLeaders obs []"
  have get: "mget [] ?m t = map fst (filter (\<lambda>(i, t', l). l \<and> t' = t) obs)" for t by (simp add: collectLeaders_get)
  have wf: "wf_map ?m" and keys: "set (mkeys ?m) = {t. \<exists>i. (i, t, True) \<in> set obs}" using collectLeaders_keys[of "[]" obs] by simp_all
  have le: "length (mget [] ?m t) \<le> 1" for t
  proof -
    have "distinct (map fst (filter (\<lambda>(i, t', l). l \<and> t' = t) obs))" using dist by (simp add: distinct_map_filter)
    moreover have "x = y" if "x \<in> set (map fst (filter (\<lambda>(i, t', l). l \<and> t' = t) obs))" "y \<in> set (map fst (filter (\<lambda>(i, t', l). l \<and> t' = t) obs))" for x y
      using that one by auto
    ultimately show ?thesis unfolding get by (rule at_most_one)
  qed
  have "length ls \<le> 1" if "(k, ls) \<in> set ?m" for k ls
    using le[of k] that wf by (simp add: mget_def wf_map_def)
  then obtain r where r: "lastTermWithLeader ?m (-1) = Inr r" "- 1 \<le> r" "r = -1 \<or> r \<in> set (mkeys ?m)" "\<forall>k \<in> set (mkeys ?m). k \<le> r"
    using lastTermWithLeader_max[of ?m "-1"] by blast
  show ?thesis
  proof (cases "\<exists>i t. (i, t, True) \<in> set obs")
    case True
    then obtain i t where it: "(i, t, True) \<in> set obs" by blast
    then have "t \<in> set (mkeys ?m)" "0 \<le> t" using keys nn by auto
    then have "r \<in> set (mkeys ?m)" "?m \<noteq> []" using r(3,4) by (fastforce, force)
    then obtain l where l: "(l, r, True) \<in> set obs" using keys by auto
    then have "l \<in> set (mget [] ?m r)" unfolding get by force
    then have g: "mget [] ?m r = [l]" using le[of r] by (cases "mget [] ?m r") auto
    have "leaderRound obs = Inr (Some l)" using \<open>?m \<noteq> []\<close> by (simp add: leaderRound_def Let_def r(1) g go_nth_def)
    moreover have "\<forall>i t'. (i, t', True) \<in> set obs \<longrightarrow> t' \<le> r" using r(4) unfolding keys by blast
    ultimately show ?thesis using True l by auto
  next
    case False
    then have "?m = []" using keys by auto
    with False show ?thesis by (simp add: leaderRound_def)
  qed
qed

lemma observe_mem: "(i, t, l) \<in> set (observe connected ss) \<longleftrightarrow>
    i < length ss \<and> connected ! i \<and> GetState (peers (ss ! i) (int i)) = (t, l)"
  by (auto simp: observe_def)

lemma watched_round:
  assumes "watched compact n ss"
  shows "if \<exists>i t. (i, t, True) \<in> set (observe connected ss)
    then \<exists>l t. leaderRound (observe connected ss) = Inr (Some l) \<and> (l, t, True) \<in> set (observe connected ss) \<and>
      (\<forall>i t'. (i, t', True) \<in> set (observe connected ss) \<longrightarrow> t' \<le> t)
    else leaderRound (observe connected ss) = Inr None"
proof (rule leaderRound_ok)
  have n: "length ss = n" using assms by (simp add: watched_def)
  show "i = j" if "(i, t, True) \<in> set (observe connected ss)" "(j, t, True) \<in> set (observe connected ss)" for i j t
    using that watched_leaders[OF assms, of i j t] n by (simp add: observe_mem)
  show "0 \<le> t" if "(i, t, True) \<in> set (observe connected ss)" for i t
  proof -
    from that have "i < n" "t = currentTerm (peers (ss ! i) (int i))" by (auto simp: observe_mem n GetState_def)
    with assms reachable_terms[of compact n "ss ! i" "int i"] show ?thesis by (simp add: watched_def)
  qed
  show "distinct (map fst (observe connected ss))" by (simp add: observe_def comp_def)
qed

text \<open>C37: \<open>checkOneLeader\<close> never finds two leaders of a term, although it asks the peers one after the other while elections go on.
  It returns a connected peer that was leading when it was asked, in the highest term of the leaders seen in that attempt, and it complains
  only if no attempt saw a leader.\<close>

theorem checkOneLeader_sound:
  assumes "\<forall>ss \<in> set rounds. watched compact n ss"
  shows "case checkOneLeader (map (observe connected) rounds) of
      Inl e \<Rightarrow> e = Explicit ''expected one leader, got none'' \<and>
        (\<forall>ss \<in> set rounds. \<forall>i < n. connected ! i \<longrightarrow> state (peers (ss ! i) (int i)) \<noteq> Leader)
    | Inr l \<Rightarrow> \<exists>ss \<in> set rounds. l < n \<and> connected ! l \<and> state (peers (ss ! l) (int l)) = Leader \<and>
        (\<forall>i < n. connected ! i \<and> state (peers (ss ! i) (int i)) = Leader \<longrightarrow>
           currentTerm (peers (ss ! i) (int i)) \<le> currentTerm (peers (ss ! l) (int l)))"
  using assms
proof (induction rounds)
  case (Cons ss rounds)
  have w: "watched compact n ss" and n: "length ss = n" using Cons.prems by (simp_all add: watched_def)
  have mem: "(i, t, True) \<in> set (observe connected ss) \<longleftrightarrow>
      i < n \<and> connected ! i \<and> state (peers (ss ! i) (int i)) = Leader \<and> t = currentTerm (peers (ss ! i) (int i))" for i t
    by (auto simp: observe_mem n GetState_def)
  show ?case
  proof (cases "\<exists>i t. (i, t, True) \<in> set (observe connected ss)")
    case True
    with watched_round[OF w, of connected] obtain l t where l: "leaderRound (observe connected ss) = Inr (Some l)"
        "(l, t, True) \<in> set (observe connected ss)" "\<forall>i t'. (i, t', True) \<in> set (observe connected ss) \<longrightarrow> t' \<le> t" by auto
    then have "l < n \<and> connected ! l \<and> state (peers (ss ! l) (int l)) = Leader \<and>
        (\<forall>i < n. connected ! i \<and> state (peers (ss ! i) (int i)) = Leader \<longrightarrow> currentTerm (peers (ss ! i) (int i)) \<le> currentTerm (peers (ss ! l) (int l)))"
      unfolding mem by blast
    with l(1) show ?thesis by simp
  next
    case False
    with watched_round[OF w, of connected] have none: "leaderRound (observe connected ss) = Inr None" by auto
    have no: "\<forall>i < n. connected ! i \<longrightarrow> state (peers (ss ! i) (int i)) \<noteq> Leader" using False unfolding mem by blast
    have IH: "case checkOneLeader (map (observe connected) rounds) of
        Inl e \<Rightarrow> e = Explicit ''expected one leader, got none'' \<and>
          (\<forall>ss \<in> set rounds. \<forall>i < n. connected ! i \<longrightarrow> state (peers (ss ! i) (int i)) \<noteq> Leader)
      | Inr l \<Rightarrow> \<exists>ss \<in> set rounds. l < n \<and> connected ! l \<and> state (peers (ss ! l) (int l)) = Leader \<and>
          (\<forall>i < n. connected ! i \<and> state (peers (ss ! i) (int i)) = Leader \<longrightarrow>
             currentTerm (peers (ss ! i) (int i)) \<le> currentTerm (peers (ss ! l) (int l)))"
      by (rule Cons.IH) (use Cons.prems in simp)
    show ?thesis
    proof (cases "checkOneLeader (map (observe connected) rounds)")
      case (Inl e)
      with IH no show ?thesis by (simp add: none)
    next
      case (Inr l)
      with IH show ?thesis by (simp add: none)
    qed
  qed
qed simp

theorem checkOneLeader_sound_witness:
  "\<exists>s :: (nat, nat) cluster. reachable True 3 s \<and>
     (\<exists>l < 3. checkOneLeader [observe [True, True, True] [s, s, s]] = Inr l \<and> state (peers s (int l)) = Leader)"
proof -
  from demo_reachable[of True] obtain s where s: "reachable True 3 s" "peers s 0 = demo_leader" by blast
  have lead: "state (peers s 0) = Leader" by (simp add: s demo_leader_def)
  have at: "[s, s, s] ! i = s" "[True, True, True] ! i" if "i < 3" for i using that by (auto simp: less_Suc_eq numeral_3_eq_3)
  have w: "\<forall>ss \<in> set [[s, s, s]]. watched True 3 ss" using s(1) at by (simp add: watched_def)
  show ?thesis
  proof (cases "checkOneLeader (map (observe [True, True, True]) [[s, s, s]])")
    case (Inl e)
    with checkOneLeader_sound[OF w, of "[True, True, True]"] at[of 0] lead show ?thesis by fastforce
  next
    case (Inr l)
    with checkOneLeader_sound[OF w, of "[True, True, True]"] have "l < 3" "state (peers ([s, s, s] ! l) (int l)) = Leader" by auto
    with Inr at(1)[of l] s(1) show ?thesis by auto
  qed
qed

subsection \<open>Waiting for agreement\<close>

text \<open>The harness polls while the peers run. The arguments say how the state has changed each time it looks: a round of \<open>wait_index\<close> counts the
  servers in one state and reads the terms in the next, and the functions in the arguments of \<open>one_cmd\<close> are what happens before a call of
  \<open>Start\<close> and before a poll. How many rounds fit into the time limits is the length of the lists.\<close>

fun movedOn :: "int \<Rightarrow> ('c, 'd) Raft option list \<Rightarrow> bool res" where
  "movedOn startTerm [] = Inr False"
| "movedOn startTerm (r # rs) =
     (case r of None \<Rightarrow> Inl NilDereference | Some rf \<Rightarrow> if fst (GetState rf) > startTerm then Inr True else movedOn startTerm rs)"

fun wait_loop :: "int \<Rightarrow> int \<Rightarrow> int \<Rightarrow> (('t, 'v, 'w, 'b, 'c) config \<times> ('t, 'v, 'w, 'b, 'c) config) list \<Rightarrow> bool res" where
  "wait_loop index n startTerm [] = Inr False"
| "wait_loop index n startTerm ((cfg, later) # rounds) =
     bindR (nCommitted index cfg) (\<lambda>(nd, _).
       if nd \<ge> n then Inr False
       else bindR (if startTerm > -1 then movedOn startTerm (cgRafts later) else Inr False) (\<lambda>moved.
         if moved then Inr True else wait_loop index n startTerm rounds))"

text \<open>\<open>None\<close> is the result -1: some peer has moved on.\<close>

definition wait_index :: "int \<Rightarrow> int \<Rightarrow> int \<Rightarrow> (('t, 'v, 'w, 'b, 'c) config \<times> ('t, 'v, 'w, 'b, 'c) config) list \<Rightarrow>
    ('t, 'v, 'w, 'b, 'c) config \<Rightarrow> 'c option option res" where
  "wait_index index n startTerm rounds cfg =
     bindR (wait_loop index n startTerm rounds) (\<lambda>moved.
       if moved then Inr None
       else bindR (nCommitted index cfg) (\<lambda>(nd, cmd).
         if nd < n then Inl (Explicit ''only some decided for index'') else Inr (Some cmd)))"

fun tryServers :: "((('t, 'v, 'w, 'b, 'c) config \<Rightarrow> ('t, 'v, 'w, 'b, 'c) config) \<times> int) list \<Rightarrow> nat \<Rightarrow> 'c option \<Rightarrow>
    ('t, 'v, 'w, 'b, 'c) config \<Rightarrow> (('t, 'v, 'w, 'b, 'c) config \<times> nat \<times> int) res" where
  "tryServers [] starts cmd cfg = Inr (cfg, starts, -1)"
| "tryServers ((env, now) # envs) starts cmd cfg =
     (let cfg1 = env cfg; starts1 = (starts + 1) mod cgN cfg1 in
      bindR (go_nth (cgConnected cfg1) (int starts1)) (\<lambda>c.
        case (if c then cgRafts cfg1 ! starts1 else None) of
          None \<Rightarrow> tryServers envs starts1 cmd cfg1
        | Some rf \<Rightarrow>
            bindR (Start now cmd rf) (\<lambda>(rf1, index1, _, ok).
              let cfg2 = cfg1\<lparr>cgRafts := (cgRafts cfg1)[starts1 := Some rf1]\<rparr> in
              if ok then Inr (cfg2, starts1, index1) else tryServers envs starts1 cmd cfg2)))"

fun pollCommitted :: "(('t, 'v, 'w, 'b, 'c) config \<Rightarrow> ('t, 'v, 'w, 'b, 'c) config) list \<Rightarrow> 'c option \<Rightarrow> int \<Rightarrow> int \<Rightarrow>
    ('t, 'v, 'w, 'b, 'c) config \<Rightarrow> (('t, 'v, 'w, 'b, 'c) config \<times> bool) res" where
  "pollCommitted [] cmd expectedServers index cfg = Inr (cfg, False)"
| "pollCommitted (env # envs) cmd expectedServers index cfg =
     (let cfg1 = env cfg in
      bindR (nCommitted index cfg1) (\<lambda>(nd, cmd1).
        if nd > 0 \<and> nd \<ge> expectedServers \<and> cmd1 = cmd then Inr (cfg1, True)
        else pollCommitted envs cmd expectedServers index cfg1))"

fun one_cmd :: "(((('t, 'v, 'w, 'b, 'c) config \<Rightarrow> ('t, 'v, 'w, 'b, 'c) config) \<times> int) list \<times>
      (('t, 'v, 'w, 'b, 'c) config \<Rightarrow> ('t, 'v, 'w, 'b, 'c) config) list) list \<Rightarrow> nat \<Rightarrow> 'c option \<Rightarrow> int \<Rightarrow> bool \<Rightarrow> bool \<Rightarrow>
    ('t, 'v, 'w, 'b, 'c) config \<Rightarrow> (('t, 'v, 'w, 'b, 'c) config \<times> int) res" where
  "one_cmd [] starts cmd expectedServers retry finished cfg =
     (if finished then Inr (cfg, -1) else Inl (Explicit ''failed to reach agreement''))"
| "one_cmd ((tries, polls) # rest) starts cmd expectedServers retry finished cfg =
     bindR (tryServers tries starts cmd cfg) (\<lambda>(cfg1, starts1, index).
       if index \<noteq> -1 then
         bindR (pollCommitted polls cmd expectedServers index cfg1) (\<lambda>(cfg2, agreed).
           if agreed then Inr (cfg2, index)
           else if retry = False then Inl (Explicit ''failed to reach agreement'')
           else one_cmd rest starts1 cmd expectedServers retry finished cfg2)
       else one_cmd rest starts1 cmd expectedServers retry finished cfg1)"

definition RaftLogSize :: "('c gob list \<Rightarrow> int) \<Rightarrow> ('t, 'v, 'w, 'b, 'c) config \<Rightarrow> int res" where
  "RaftLogSize nbytes cfg =
     fold (\<lambda>i acc. bindR acc (\<lambda>m. case savedOf i cfg of
         None \<Rightarrow> Inl NilDereference
       | Some p \<Rightarrow> Inr (if RaftStateSize nbytes p > m then RaftStateSize nbytes p else m))) [0..<cgN cfg] (Inr 0)"

lemma countCommitted_sound:
  assumes "countCommitted ls errs index count cmd = Inr (nd, c)" "0 \<le> count"
  shows "nd = count + int (length (filter (\<lambda>l. map_of l index \<noteq> None) ls)) \<and>
    (\<forall>l \<in> set ls. \<forall>w. map_of l index = Some w \<longrightarrow> w = c) \<and> (count > 0 \<longrightarrow> cmd = c)"
  using assms
proof (induction ls arbitrary: errs count cmd)
  case (Cons l ls)
  show ?case
  proof (cases "map_of l index")
    case None
    with Cons.prems Cons.IH[of "tl errs" count cmd] show ?thesis by (auto split: if_splits)
  next
    case (Some w)
    with Cons.prems have "countCommitted ls (tl errs) index (count + 1) w = Inr (nd, c)" "count > 0 \<longrightarrow> cmd = w" by (auto split: if_splits)
    with Cons.IH[of "tl errs" "count + 1" w] Cons.prems(2) Some show ?thesis by auto
  qed
qed auto

lemma agreed_count:
  assumes "nCommitted index cfg = Inr (nd, cmd)"
  shows "nd = int (card {i. i < length (cgLogs cfg) \<and> map_of (cgLogs cfg ! i) index = Some cmd}) \<and>
    (\<forall>l \<in> set (cgLogs cfg). \<forall>w. map_of l index = Some w \<longrightarrow> w = cmd)"
proof -
  have c: "nd = int (length (filter (\<lambda>l. map_of l index \<noteq> None) (cgLogs cfg)))" "\<forall>l \<in> set (cgLogs cfg). \<forall>w. map_of l index = Some w \<longrightarrow> w = cmd"
    using countCommitted_sound[OF assms[unfolded nCommitted_def]] by simp_all
  have "map_of (cgLogs cfg ! i) index \<noteq> None \<longleftrightarrow> map_of (cgLogs cfg ! i) index = Some cmd" if "i < length (cgLogs cfg)" for i
    using c(2) nth_mem[OF that] by fastforce
  then have "{i. i < length (cgLogs cfg) \<and> map_of (cgLogs cfg ! i) index \<noteq> None} = {i. i < length (cgLogs cfg) \<and> map_of (cgLogs cfg ! i) index = Some cmd}"
    by blast
  with c show ?thesis by (simp add: length_filter_conv_card)
qed

lemma pollCommitted_sound:
  "pollCommitted envs cmd expectedServers index cfg = Inr (cfg', True) \<Longrightarrow> \<exists>nd. nCommitted index cfg' = Inr (nd, cmd) \<and> nd > 0 \<and> nd \<ge> expectedServers"
  by (induction envs arbitrary: cfg) (auto simp: Let_def bindR_eq_Inr split: if_splits)

text \<open>\<open>one\<close> returns an index only if at least the expected number of servers, and at least one, have delivered the command there, and none has
  delivered another. It gives up quietly only after the end of the test.\<close>

lemma one_agreement:
  assumes "one_cmd attempts starts cmd expectedServers retry finished cfg = Inr (cfg', index)"
  shows "index = -1 \<and> finished \<or>
    expectedServers \<le> int (card {i. i < length (cgLogs cfg') \<and> map_of (cgLogs cfg' ! i) index = Some cmd}) \<and>
    0 < card {i. i < length (cgLogs cfg') \<and> map_of (cgLogs cfg' ! i) index = Some cmd} \<and>
    (\<forall>l \<in> set (cgLogs cfg'). \<forall>w. map_of l index = Some w \<longrightarrow> w = cmd)"
  using assms
proof (induction attempts arbitrary: starts cfg)
  case (Cons a attempts)
  obtain tries polls where a: "a = (tries, polls)" by (cases a)
  show ?case
  proof (cases "\<exists>cfg1 starts1. tryServers tries starts cmd cfg = Inr (cfg1, starts1, index) \<and> pollCommitted polls cmd expectedServers index cfg1 = Inr (cfg', True)")
    case True
    then obtain nd where "nCommitted index cfg' = Inr (nd, cmd)" "nd > 0" "nd \<ge> expectedServers" using pollCommitted_sound by blast
    with agreed_count[of index cfg' nd cmd] show ?thesis by auto
  next
    case False
    with Cons.prems a have "\<exists>starts1 cfg1. one_cmd attempts starts1 cmd expectedServers retry finished cfg1 = Inr (cfg', index)"
      by (auto simp: bindR_eq_Inr split: if_splits)
    with Cons.IH show ?thesis by blast
  qed
qed (auto split: if_splits)

lemma wait_agreement:
  assumes "wait_index index n startTerm rounds cfg = Inr (Some cmd)"
  shows "n \<le> int (card {i. i < length (cgLogs cfg) \<and> map_of (cgLogs cfg ! i) index = Some cmd})"
proof -
  obtain nd where "nCommitted index cfg = Inr (nd, cmd)" "n \<le> nd" using assms by (auto simp: wait_index_def bindR_eq_Inr split: if_splits)
  with agreed_count[of index cfg nd cmd] show ?thesis by simp
qed

end
