(* ===== verification/KvTester.thy ===== *)
theory KvTester
  imports KvRaft RaftTester "HOL-Library.Multiset"
begin

text \<open>
  \<open>kvraft/config.go\<close>: the harness of the replicated key/value service. It starts and shuts down servers, gives every clerk its own
  ends, and cuts the network into two sides. The state of the network is that of \<open>LabRpc\<close>, servers and clerks are those of \<open>KvRaft\<close>. A clerk
  is named by its position in \<open>kgHeap\<close>, which also keeps the ends it was made with. Random end names, the random
  numbers and the services that reflection makes of a server are arguments.
\<close>

subsection \<open>State\<close>

record ('t, 'v, 'w, 'b) kvconfig =
  kgNet :: "(string, nat, 't, 'v, 'w, 'b) Network"
  kgN :: nat
  kgServers :: "KvServer option list"
  kgSaved :: "(KvOp, kvgob) Persister option list"
  kgEndnames :: "string list list"
  kgClerks :: "(nat, string list) gomap"
  kgHeap :: "(KvClerk \<times> string ClientEnd list) list"
  kgNextClientId :: int
  kgMaxraftstate :: int
  kgRpcs0 :: int
  kgOps :: "32 word"

definition kv_endname :: "nat \<Rightarrow> nat \<Rightarrow> ('t, 'v, 'w, 'b) kvconfig \<Rightarrow> string res" where
  "kv_endname i j cfg = bindR (go_nth (kgEndnames cfg) (int i)) (\<lambda>names. go_nth names (int j))"

definition kv_enable :: "string \<Rightarrow> bool \<Rightarrow> ('t, 'v, 'w, 'b) kvconfig \<Rightarrow> ('t, 'v, 'w, 'b) kvconfig" where
  "kv_enable e b cfg = cfg\<lparr>kgNet := Enable e b (kgNet cfg)\<rparr>"

definition random_handles :: "nat list \<Rightarrow> 'a list \<Rightarrow> 'a list" where
  "random_handles draws kvh =
     fold (\<lambda>(i, r) sa. let j = r mod (i + 1) in sa[i := sa ! j, j := sa ! i]) (zip [0..<length kvh] draws) kvh"

subsection \<open>Connections between servers\<close>

fun connectOutgoing :: "nat \<Rightarrow> nat list \<Rightarrow> ('t, 'v, 'w, 'b) kvconfig \<Rightarrow> ('t, 'v, 'w, 'b) kvconfig res" where
  "connectOutgoing i [] cfg = Inr cfg"
| "connectOutgoing i (t # to) cfg = bindR (kv_endname i t cfg) (\<lambda>e. connectOutgoing i to (kv_enable e True cfg))"

fun connectIncoming :: "nat \<Rightarrow> nat list \<Rightarrow> ('t, 'v, 'w, 'b) kvconfig \<Rightarrow> ('t, 'v, 'w, 'b) kvconfig res" where
  "connectIncoming i [] cfg = Inr cfg"
| "connectIncoming i (t # to) cfg = bindR (kv_endname t i cfg) (\<lambda>e. connectIncoming i to (kv_enable e True cfg))"

definition connectUnlocked :: "nat \<Rightarrow> nat list \<Rightarrow> ('t, 'v, 'w, 'b) kvconfig \<Rightarrow> ('t, 'v, 'w, 'b) kvconfig res" where
  "connectUnlocked i to cfg = bindR (connectOutgoing i to cfg) (connectIncoming i to)"

fun disconnectOutgoing :: "nat \<Rightarrow> nat list \<Rightarrow> ('t, 'v, 'w, 'b) kvconfig \<Rightarrow> ('t, 'v, 'w, 'b) kvconfig res" where
  "disconnectOutgoing i [] cfg = Inr cfg"
| "disconnectOutgoing i (f # from) cfg =
     bindR (go_nth (kgEndnames cfg) (int i)) (\<lambda>names.
       if names \<noteq> [] then bindR (kv_endname i f cfg) (\<lambda>e. disconnectOutgoing i from (kv_enable e False cfg))
       else disconnectOutgoing i from cfg)"

text \<open>The loop over the incoming ends tests the names of server \<open>j\<close>, its counter, and then uses those of \<open>from[j]\<close>.\<close>

fun disconnectIncoming :: "nat \<Rightarrow> nat \<Rightarrow> nat list \<Rightarrow> ('t, 'v, 'w, 'b) kvconfig \<Rightarrow> ('t, 'v, 'w, 'b) kvconfig res" where
  "disconnectIncoming i j [] cfg = Inr cfg"
| "disconnectIncoming i j (f # from) cfg =
     bindR (go_nth (kgEndnames cfg) (int j)) (\<lambda>names.
       if names \<noteq> [] then bindR (kv_endname f i cfg) (\<lambda>e. disconnectIncoming i (j + 1) from (kv_enable e False cfg))
       else disconnectIncoming i (j + 1) from cfg)"

definition disconnectUnlocked :: "nat \<Rightarrow> nat list \<Rightarrow> ('t, 'v, 'w, 'b) kvconfig \<Rightarrow> ('t, 'v, 'w, 'b) kvconfig res" where
  "disconnectUnlocked i from cfg = bindR (disconnectOutgoing i from cfg) (disconnectIncoming i 0 from)"

definition AllServers :: "('t, 'v, 'w, 'b) kvconfig \<Rightarrow> nat list" where
  "AllServers cfg = [0..<kgN cfg]"

fun connectEach :: "nat list \<Rightarrow> ('t, 'v, 'w, 'b) kvconfig \<Rightarrow> ('t, 'v, 'w, 'b) kvconfig res" where
  "connectEach [] cfg = Inr cfg"
| "connectEach (i # is) cfg = bindR (connectUnlocked i (AllServers cfg) cfg) (connectEach is)"

definition ConnectAll :: "('t, 'v, 'w, 'b) kvconfig \<Rightarrow> ('t, 'v, 'w, 'b) kvconfig res" where
  "ConnectAll cfg = connectEach [0..<kgN cfg] cfg"

fun partitionSide :: "nat list \<Rightarrow> nat list \<Rightarrow> nat list \<Rightarrow> ('t, 'v, 'w, 'b) kvconfig \<Rightarrow> ('t, 'v, 'w, 'b) kvconfig res" where
  "partitionSide [] own other cfg = Inr cfg"
| "partitionSide (i # is) own other cfg =
     bindR (disconnectUnlocked i other cfg) (\<lambda>cfg1. bindR (connectUnlocked i own cfg1) (partitionSide is own other))"

definition kv_partition :: "nat list \<Rightarrow> nat list \<Rightarrow> ('t, 'v, 'w, 'b) kvconfig \<Rightarrow> ('t, 'v, 'w, 'b) kvconfig res" where
  "kv_partition p1 p2 cfg = bindR (partitionSide p1 p1 p2 cfg) (partitionSide p2 p2 p1)"

fun firstLeader :: "KvServer option list \<Rightarrow> nat \<Rightarrow> (bool \<times> nat) res" where
  "firstLeader [] i = Inr (False, 0)"
| "firstLeader (kv # kvs) i =
     (case kv of None \<Rightarrow> Inl NilDereference
      | Some s \<Rightarrow> if snd (GetState (krf s)) then Inr (True, i) else firstLeader kvs (i + 1))"

definition kv_Leader :: "('t, 'v, 'w, 'b) kvconfig \<Rightarrow> (bool \<times> nat) res" where
  "kv_Leader cfg = firstLeader (take (kgN cfg) (kgServers cfg)) 0"

fun fillSides :: "nat list \<Rightarrow> nat \<Rightarrow> nat \<Rightarrow> nat list \<Rightarrow> nat list \<Rightarrow> (nat list \<times> nat list) res" where
  "fillSides [] l j p1 p2 = Inr (p1, p2)"
| "fillSides (i # is) l j p1 p2 =
     (if i \<noteq> l then
        if j < length p1 then fillSides is l (j + 1) (p1[j := i]) p2
        else bindR (go_set p2 (int (j - length p1)) i) (fillSides is l (j + 1) p1)
      else fillSides is l j p1 p2)"

definition make_partition :: "('t, 'v, 'w, 'b) kvconfig \<Rightarrow> (nat list \<times> nat list) res" where
  "make_partition cfg =
     bindR (kv_Leader cfg) (\<lambda>(_, l).
     bindR (fillSides [0..<kgN cfg] l 0 (replicate (kgN cfg div 2 + 1) 0) (replicate (kgN cfg div 2) 0)) (\<lambda>(p1, p2).
     bindR (go_set p2 (int (length p2) - 1) l) (\<lambda>p2'. Inr (p1, p2'))))"

subsection \<open>Clerks\<close>

fun clientEnds :: "string list \<Rightarrow> nat \<Rightarrow> (string, nat, 't, 'v, 'w, 'b) Network \<Rightarrow>
    ((string, nat, 't, 'v, 'w, 'b) Network \<times> string ClientEnd list) res" where
  "clientEnds [] j net = Inr (net, [])"
| "clientEnds (e # es) j net =
     bindR (MakeEnd e net) (\<lambda>(net1, ce). bindR (clientEnds es (j + 1) (Connect e j net1)) (\<lambda>(net2, ces). Inr (net2, ce # ces)))"

fun setClient :: "bool \<Rightarrow> nat \<Rightarrow> nat list \<Rightarrow> ('t, 'v, 'w, 'b) kvconfig \<Rightarrow> ('t, 'v, 'w, 'b) kvconfig res" where
  "setClient b ck [] cfg = Inr cfg"
| "setClient b ck (t # to) cfg =
     bindR (go_nth (mget [] (kgClerks cfg) ck) (int t)) (\<lambda>s. setClient b ck to (kv_enable s b cfg))"

definition ConnectClientUnlocked :: "nat \<Rightarrow> nat list \<Rightarrow> ('t, 'v, 'w, 'b) kvconfig \<Rightarrow> ('t, 'v, 'w, 'b) kvconfig res" where
  "ConnectClientUnlocked ck to cfg = setClient True ck to cfg"

definition DisconnectClientUnlocked :: "nat \<Rightarrow> nat list \<Rightarrow> ('t, 'v, 'w, 'b) kvconfig \<Rightarrow> ('t, 'v, 'w, 'b) kvconfig res" where
  "DisconnectClientUnlocked ck from cfg = setClient False ck from cfg"

definition makeClient :: "string list \<Rightarrow> nat list \<Rightarrow> int \<Rightarrow> nat list \<Rightarrow> ('t, 'v, 'w, 'b) kvconfig \<Rightarrow> (('t, 'v, 'w, 'b) kvconfig \<times> nat) res" where
  "makeClient endnames draws rnd to cfg =
     bindR (clientEnds endnames 0 (kgNet cfg)) (\<lambda>(net, ends).
     let ck = length (kgHeap cfg);
         handles = random_handles draws ends;
         cfg1 = cfg\<lparr>kgNet := net, kgHeap := kgHeap cfg @ [(kv_MakeClerk (length handles) rnd, handles)],
                    kgClerks := mput ck endnames (kgClerks cfg), kgNextClientId := kgNextClientId cfg + 1\<rparr> in
     bindR (ConnectClientUnlocked ck to cfg1) (\<lambda>cfg2. Inr (cfg2, ck)))"

text \<open>The files that \<open>deleteClient\<close> removes do not exist: an end is not a socket here.\<close>

definition deleteClient :: "nat \<Rightarrow> ('t, 'v, 'w, 'b) kvconfig \<Rightarrow> ('t, 'v, 'w, 'b) kvconfig" where
  "deleteClient ck cfg = cfg\<lparr>kgClerks := mdel ck (kgClerks cfg)\<rparr>"

subsection \<open>Starting and stopping servers\<close>

text \<open>A running server's peer writes to the persister in \<open>saved[i]\<close>.\<close>

definition kv_savedOf :: "nat \<Rightarrow> ('t, 'v, 'w, 'b) kvconfig \<Rightarrow> (KvOp, kvgob) Persister option" where
  "kv_savedOf i cfg = (case kgServers cfg ! i of Some kv \<Rightarrow> Some (persister (krf kv)) | None \<Rightarrow> kgSaved cfg ! i)"

definition ShutdownServer :: "nat \<Rightarrow> ('t, 'v, 'w, 'b) kvconfig \<Rightarrow> ('t, 'v, 'w, 'b) kvconfig res" where
  "ShutdownServer i cfg =
     bindR (disconnectUnlocked i (AllServers cfg) cfg) (\<lambda>cfg1.
     let cfg2 = cfg1\<lparr>kgNet := DeleteServer i (kgNet cfg1)\<rparr> in
     bindR (go_nth (kgSaved cfg2) (int i)) (\<lambda>_.
     let cfg3 = cfg2\<lparr>kgSaved := (kgSaved cfg2)[i := map_option Copy (kv_savedOf i cfg2)]\<rparr> in
     bindR (go_nth (kgServers cfg3) (int i)) (\<lambda>kv.
       Inr (if kv \<noteq> None then cfg3\<lparr>kgServers := (kgServers cfg3)[i := None]\<rparr> else cfg3))))"

definition kv_StartServer :: "nat \<Rightarrow> string list \<Rightarrow> ('t, 'v, 'w) Service \<Rightarrow> ('t, 'v, 'w) Service \<Rightarrow> int \<Rightarrow> int \<Rightarrow>
    ('t, 'v, 'w, 'b) kvconfig \<Rightarrow> ('t, 'v, 'w, 'b) kvconfig res" where
  "kv_StartServer i names kvsvc rfsvc rnd now cfg =
     bindR (go_set (kgEndnames cfg) (int i) names) (\<lambda>endnames.
     bindR (clientEnds names 0 (kgNet cfg)) (\<lambda>(net, ends).
     bindR (go_nth (kgSaved cfg) (int i)) (\<lambda>_.
     let saved = (case kv_savedOf i cfg of Some p \<Rightarrow> Copy p | None \<Rightarrow> MakePersister);
         kv = kv_StartKVServer (length ends) (int i) saved (kgMaxraftstate cfg) rnd now;
         srv = AddService rfsvc (AddService kvsvc MakeServer) in
     bindR (go_set (kgServers cfg) (int i) (Some kv)) (\<lambda>kvs.
       Inr (cfg\<lparr>kgEndnames := endnames, kgSaved := (kgSaved cfg)[i := Some saved], kgServers := kvs,
                kgNet := AddServer i (length (nwHeap net)) (net\<lparr>nwHeap := nwHeap net @ [srv]\<rparr>)\<rparr>)))))"

fun startEach :: "(string list \<times> ('t, 'v, 'w) Service \<times> ('t, 'v, 'w) Service \<times> int \<times> int) list \<Rightarrow> nat \<Rightarrow>
    ('t, 'v, 'w, 'b) kvconfig \<Rightarrow> ('t, 'v, 'w, 'b) kvconfig res" where
  "startEach [] i cfg = Inr cfg"
| "startEach ((names, kvsvc, rfsvc, rnd, now) # rest) i cfg =
     bindR (kv_StartServer i names kvsvc rfsvc rnd now cfg) (startEach rest (i + 1))"

text \<open>\<open>starts\<close> holds what each of the servers is started with.\<close>

definition kv_empty_config :: "nat \<Rightarrow> int \<Rightarrow> ('t, 'v, 'w, 'b) kvconfig" where
  "kv_empty_config n maxraftstate =
     \<lparr>kgNet = MakeNetwork, kgN = n, kgServers = replicate n None, kgSaved = replicate n None, kgEndnames = replicate n [],
      kgClerks = [], kgHeap = [], kgNextClientId = int n + 1000, kgMaxraftstate = maxraftstate, kgRpcs0 = 0, kgOps = 0\<rparr>"

definition kv_make_config :: "(string list \<times> ('t, 'v, 'w) Service \<times> ('t, 'v, 'w) Service \<times> int \<times> int) list \<Rightarrow> bool \<Rightarrow> int \<Rightarrow>
    ('t, 'v, 'w, 'b) kvconfig res" where
  "kv_make_config starts unreliable maxraftstate =
     bindR (startEach starts 0 (kv_empty_config (length starts) maxraftstate)) (\<lambda>cfg1.
     bindR (ConnectAll cfg1) (\<lambda>cfg2. Inr (cfg2\<lparr>kgNet := Reliable (\<not> unreliable) (kgNet cfg2)\<rparr>)))"

definition kv_cleanup :: "('t, 'v, 'w, 'b) kvconfig \<Rightarrow> ('t, 'v, 'w, 'b) kvconfig res" where
  "kv_cleanup cfg =
     bindR (Cleanup (kgNet cfg)) (\<lambda>net. Inr (cfg\<lparr>kgServers := map (map_option kv_Kill) (kgServers cfg), kgNet := net\<rparr>))"

subsection \<open>Sizes and statistics\<close>

fun maxSize :: "('p \<Rightarrow> int) \<Rightarrow> 'p option list \<Rightarrow> int \<Rightarrow> int res" where
  "maxSize sz [] m = Inr m"
| "maxSize sz (ps # rest) m =
     (case ps of None \<Rightarrow> Inl NilDereference | Some p \<Rightarrow> maxSize sz rest (if sz p > m then sz p else m))"

definition kv_LogSize :: "(KvOp gob list \<Rightarrow> int) \<Rightarrow> ('t, 'v, 'w, 'b) kvconfig \<Rightarrow> int res" where
  "kv_LogSize nbytes cfg = maxSize (RaftStateSize nbytes) (map (\<lambda>i. kv_savedOf i cfg) [0..<kgN cfg]) 0"

definition kv_SnapshotSize :: "('t, 'v, 'w, 'b) kvconfig \<Rightarrow> int res" where
  "kv_SnapshotSize cfg = maxSize SnapshotSize (map (\<lambda>i. kv_savedOf i cfg) [0..<kgN cfg]) 0"

definition kv_rpcTotal :: "('t, 'v, 'w, 'b) kvconfig \<Rightarrow> int" where
  "kv_rpcTotal cfg = GetTotalCount (kgNet cfg)"

definition kv_begin :: "('t, 'v, 'w, 'b) kvconfig \<Rightarrow> ('t, 'v, 'w, 'b) kvconfig" where
  "kv_begin cfg = cfg\<lparr>kgRpcs0 := kv_rpcTotal cfg, kgOps := 0\<rparr>"

definition kv_countOp :: "('t, 'v, 'w, 'b) kvconfig \<Rightarrow> ('t, 'v, 'w, 'b) kvconfig" where
  "kv_countOp cfg = cfg\<lparr>kgOps := kgOps cfg + 1\<rparr>"

text \<open>The number of peers, of RPCs and of operations that \<open>end\<close> prints.\<close>

definition kv_end :: "('t, 'v, 'w, 'b) kvconfig \<Rightarrow> nat \<times> int \<times> int" where
  "kv_end cfg = (kgN cfg, kv_rpcTotal cfg - kgRpcs0 cfg, sint (kgOps cfg))"

subsection \<open>Cutting the network into two sides\<close>

abbreviation kvName :: "('t, 'v, 'w, 'b) kvconfig \<Rightarrow> nat \<Rightarrow> nat \<Rightarrow> string" where
  "kvName cfg i j \<equiv> kgEndnames cfg ! i ! j"

definition kv_ready :: "('t, 'v, 'w, 'b) kvconfig \<Rightarrow> bool" where
  "kv_ready cfg \<longleftrightarrow> length (kgEndnames cfg) = kgN cfg \<and> list_all (\<lambda>names. length names = kgN cfg) (kgEndnames cfg) \<and>
     distinct (concat (kgEndnames cfg)) \<and> length (kgServers cfg) = kgN cfg \<and> list_all (\<lambda>kv. kv \<noteq> None) (kgServers cfg)"

lemma ready_length: "kv_ready cfg \<Longrightarrow> i < kgN cfg \<Longrightarrow> length (kgEndnames cfg ! i) = kgN cfg"
  by (simp add: kv_ready_def list_all_length)

lemma ready_net [simp]: "kv_ready (cfg\<lparr>kgNet := net\<rparr>) = kv_ready cfg"
  by (simp add: kv_ready_def)

lemma kv_endname_in: "kv_ready cfg \<Longrightarrow> i < kgN cfg \<Longrightarrow> j < kgN cfg \<Longrightarrow> kv_endname i j cfg = Inr (kvName cfg i j)"
  using ready_length[of cfg i] by (simp add: kv_endname_def kv_ready_def go_simps)

lemma distinct_concat_nth:
  assumes "distinct (concat xss)" "i < length xss" "i' < length xss" "j < length (xss ! i)" "j' < length (xss ! i')" "xss ! i ! j = xss ! i' ! j'"
  shows "i = i' \<and> j = j'"
  using assms
proof (induction xss arbitrary: i i')
  case (Cons xs xss)
  have apart: "xs ! m \<notin> set (concat xss)" if "m < length xs" for m using Cons.prems(1) nth_mem[OF that] by (auto simp del: set_concat)
  have mem: "xss ! k ! m \<in> set (concat xss)" if "k < length xss" "m < length (xss ! k)" for k m
    using that by (auto intro!: bexI[of _ "xss ! k"])
  show ?case
  proof (cases i; cases i')
    assume "i = 0" "i' = 0"
    with Cons.prems show ?thesis by (simp add: nth_eq_iff_index_eq)
  next
    fix k assume "i = 0" "i' = Suc k"
    with Cons.prems mem[of k j'] apart[of j] show ?thesis by (simp del: set_concat)
  next
    fix k assume "i = Suc k" "i' = 0"
    with Cons.prems mem[of k j] apart[of j'] show ?thesis by (simp del: set_concat)
  next
    fix k k' assume "i = Suc k" "i' = Suc k'"
    with Cons.prems Cons.IH[of k k'] show ?thesis by auto
  qed
qed simp

lemma kvName_inj:
  assumes "kv_ready cfg" "i < kgN cfg" "j < kgN cfg" "i' < kgN cfg" "j' < kgN cfg"
  shows "kvName cfg i j = kvName cfg i' j' \<longleftrightarrow> i = i' \<and> j = j'"
  using distinct_concat_nth[of "kgEndnames cfg" i i' j j'] ready_length[OF assms(1)] assms by (auto simp: kv_ready_def)

lemma connectOutgoing_eq:
  assumes "kv_ready cfg" "i < kgN cfg" "set to \<subseteq> {..<kgN cfg}"
  shows "connectOutgoing i to cfg = Inr (cfg\<lparr>kgNet := enableAll True (map (kvName cfg i) to) (kgNet cfg)\<rparr>)"
  using assms by (induction to arbitrary: cfg) (simp_all add: kv_endname_in kv_enable_def)

lemma connectIncoming_eq:
  assumes "kv_ready cfg" "i < kgN cfg" "set to \<subseteq> {..<kgN cfg}"
  shows "connectIncoming i to cfg = Inr (cfg\<lparr>kgNet := enableAll True (map (\<lambda>t. kvName cfg t i) to) (kgNet cfg)\<rparr>)"
  using assms by (induction to arbitrary: cfg) (simp_all add: kv_endname_in kv_enable_def)

lemma ready_row: "kv_ready cfg \<Longrightarrow> i < kgN cfg \<Longrightarrow> go_nth (kgEndnames cfg) (int i) = Inr (kgEndnames cfg ! i) \<and> kgEndnames cfg ! i \<noteq> []"
  using ready_length[of cfg i] by (auto simp: kv_ready_def go_simps)

lemma disconnectOutgoing_eq:
  assumes "kv_ready cfg" "i < kgN cfg" "set from \<subseteq> {..<kgN cfg}"
  shows "disconnectOutgoing i from cfg = Inr (cfg\<lparr>kgNet := enableAll False (map (kvName cfg i) from) (kgNet cfg)\<rparr>)"
  using assms by (induction "from" arbitrary: cfg) (simp_all add: kv_endname_in kv_enable_def ready_row)

lemma disconnectIncoming_eq:
  assumes "kv_ready cfg" "i < kgN cfg" "set from \<subseteq> {..<kgN cfg}" "j + length from \<le> kgN cfg"
  shows "disconnectIncoming i j from cfg = Inr (cfg\<lparr>kgNet := enableAll False (map (\<lambda>t. kvName cfg t i) from) (kgNet cfg)\<rparr>)"
  using assms by (induction "from" arbitrary: cfg j) (simp_all add: kv_endname_in kv_enable_def ready_row)

definition links :: "('t, 'v, 'w, 'b) kvconfig \<Rightarrow> nat set \<Rightarrow> nat set \<Rightarrow> string set" where
  "links cfg A B = {kvName cfg a b | a b. a \<in> A \<and> b \<in> B} \<union> {kvName cfg b a | a b. a \<in> A \<and> b \<in> B}"

lemma links_net [simp]: "links (cfg\<lparr>kgNet := net\<rparr>) = links cfg"
  by (intro ext) (simp add: links_def)

lemma links_insert: "links cfg (insert a A) B = links cfg {a} B \<union> links cfg A B"
  by (auto simp: links_def)

lemma links_one: "links cfg {a} (set bs) = set (map (kvName cfg a) bs) \<union> set (map (\<lambda>b. kvName cfg b a) bs)"
  by (auto simp: links_def)

lemma links_name:
  assumes "kv_ready cfg" "i < kgN cfg" "j < kgN cfg" "A \<subseteq> {..<kgN cfg}" "B \<subseteq> {..<kgN cfg}"
  shows "kvName cfg i j \<in> links cfg A B \<longleftrightarrow> i \<in> A \<and> j \<in> B \<or> i \<in> B \<and> j \<in> A"
proof -
  have "kvName cfg i j = kvName cfg a b \<longleftrightarrow> i = a \<and> j = b" if "a \<in> A \<and> b \<in> B \<or> a \<in> B \<and> b \<in> A" for a b
    using kvName_inj[OF assms(1-3), of a b] that assms(4,5) by blast
  then show ?thesis unfolding links_def by blast
qed

lemma links_apart:
  assumes "kv_ready cfg" "A \<subseteq> {..<kgN cfg}" "B \<subseteq> {..<kgN cfg}" "A \<inter> B = {}" "C \<subseteq> A" "D \<subseteq> A"
  shows "links cfg C A \<inter> links cfg D B = {}"
proof -
  have "e \<notin> links cfg D B" if "e \<in> links cfg C A" for e
  proof -
    from that obtain a b where e: "e = kvName cfg a b" "a \<in> A" "b \<in> A" using assms(5) unfolding links_def by blast
    moreover have "a < kgN cfg" "b < kgN cfg" "a \<notin> B" "b \<notin> B" using e assms(2,4) by auto
    ultimately show ?thesis using links_name[OF assms(1), of a b D B] assms(2,3,6) by simp
  qed
  then show ?thesis by blast
qed

abbreviation kvEnabled :: "('t, 'v, 'w, 'b) kvconfig \<Rightarrow> string \<Rightarrow> bool" where
  "kvEnabled cfg e \<equiv> mget False (nwEnabled (kgNet cfg)) e"

lemma side_step:
  assumes "kv_ready cfg" "i < kgN cfg" "set own \<subseteq> {..<kgN cfg}" "set other \<subseteq> {..<kgN cfg}" "length other \<le> kgN cfg"
  shows "\<exists>net. bindR (disconnectUnlocked i other cfg) (connectUnlocked i own) = Inr (cfg\<lparr>kgNet := net\<rparr>) \<and>
    (\<forall>e. mget False (nwEnabled net) e \<longleftrightarrow> e \<in> links cfg {i} (set own) \<or> e \<notin> links cfg {i} (set other) \<and> kvEnabled cfg e)"
proof (intro exI conjI allI)
  show "bindR (disconnectUnlocked i other cfg) (connectUnlocked i own) =
      Inr (cfg\<lparr>kgNet := enableAll True (map (\<lambda>t. kvName cfg t i) own) (enableAll True (map (kvName cfg i) own)
        (enableAll False (map (\<lambda>t. kvName cfg t i) other) (enableAll False (map (kvName cfg i) other) (kgNet cfg))))\<rparr>)"
    using assms by (simp add: disconnectUnlocked_def connectUnlocked_def disconnectOutgoing_eq disconnectIncoming_eq connectOutgoing_eq connectIncoming_eq)
qed (simp add: links_one)

lemma partitionSide_eq:
  assumes "kv_ready cfg" "set is \<subseteq> set own" "set own \<subseteq> {..<kgN cfg}" "set other \<subseteq> {..<kgN cfg}" "length other \<le> kgN cfg" "set own \<inter> set other = {}"
  shows "\<exists>net. partitionSide is own other cfg = Inr (cfg\<lparr>kgNet := net\<rparr>) \<and>
    (\<forall>e. mget False (nwEnabled net) e \<longleftrightarrow> e \<in> links cfg (set is) (set own) \<or> e \<notin> links cfg (set is) (set other) \<and> kvEnabled cfg e)"
  using assms(1-5)
proof (induction "is" arbitrary: cfg)
  case Nil
  have "links cfg {} B = {}" for B by (simp add: links_def)
  then show ?case by (auto intro!: exI[of _ "kgNet cfg"])
next
  case (Cons i "is")
  have i: "i < kgN cfg" using Cons.prems(2,3) by auto
  obtain net where n1: "bindR (disconnectUnlocked i other cfg) (connectUnlocked i own) = Inr (cfg\<lparr>kgNet := net\<rparr>)"
    "\<And>e. mget False (nwEnabled net) e \<longleftrightarrow> e \<in> links cfg {i} (set own) \<or> e \<notin> links cfg {i} (set other) \<and> kvEnabled cfg e"
    using side_step[OF Cons.prems(1) i Cons.prems(3-5)] by blast
  obtain net' where n2: "partitionSide is own other (cfg\<lparr>kgNet := net\<rparr>) = Inr (cfg\<lparr>kgNet := net'\<rparr>)"
    "\<And>e. mget False (nwEnabled net') e \<longleftrightarrow> e \<in> links cfg (set is) (set own) \<or> e \<notin> links cfg (set is) (set other) \<and> mget False (nwEnabled net) e"
    using Cons.IH[of "cfg\<lparr>kgNet := net\<rparr>"] Cons.prems by auto
  have "links cfg {i} (set own) \<inter> links cfg (set is) (set other) = {}"
    by (rule links_apart[OF Cons.prems(1,3,4) assms(6)]) (use Cons.prems(2) in auto)
  then have "mget False (nwEnabled net') e \<longleftrightarrow>
      e \<in> links cfg (set (i # is)) (set own) \<or> e \<notin> links cfg (set (i # is)) (set other) \<and> kvEnabled cfg e" for e
    unfolding n2(2) n1(2) list.set links_insert[of cfg i "set is"] by blast
  moreover have "partitionSide (i # is) own other cfg = Inr (cfg\<lparr>kgNet := net'\<rparr>)"
    using n1(1) n2(1) by (cases "disconnectUnlocked i other cfg") auto
  ultimately show ?case by blast
qed

lemma kv_partition_eq:
  assumes "kv_ready cfg" "set p1 \<subseteq> {..<kgN cfg}" "set p2 \<subseteq> {..<kgN cfg}" "length p1 \<le> kgN cfg" "length p2 \<le> kgN cfg" "set p1 \<inter> set p2 = {}"
  shows "\<exists>net. kv_partition p1 p2 cfg = Inr (cfg\<lparr>kgNet := net\<rparr>) \<and>
    (\<forall>i \<in> set p1 \<union> set p2. \<forall>j \<in> set p1 \<union> set p2. mget False (nwEnabled net) (kvName cfg i j) \<longleftrightarrow> (i \<in> set p1 \<longleftrightarrow> j \<in> set p1)) \<and>
    (\<forall>e. (\<forall>i < kgN cfg. \<forall>j < kgN cfg. e \<noteq> kvName cfg i j) \<longrightarrow> mget False (nwEnabled net) e = kvEnabled cfg e)"
proof -
  obtain net1 where n1: "partitionSide p1 p1 p2 cfg = Inr (cfg\<lparr>kgNet := net1\<rparr>)"
    "\<And>e. mget False (nwEnabled net1) e \<longleftrightarrow> e \<in> links cfg (set p1) (set p1) \<or> e \<notin> links cfg (set p1) (set p2) \<and> kvEnabled cfg e"
    using partitionSide_eq[OF assms(1) subset_refl assms(2,3,5,6)] by blast
  have "set p2 \<inter> set p1 = {}" using assms(6) by blast
  then obtain net2 where n2: "partitionSide p2 p2 p1 (cfg\<lparr>kgNet := net1\<rparr>) = Inr (cfg\<lparr>kgNet := net2\<rparr>)"
    "\<And>e. mget False (nwEnabled net2) e \<longleftrightarrow> e \<in> links cfg (set p2) (set p2) \<or> e \<notin> links cfg (set p2) (set p1) \<and> mget False (nwEnabled net1) e"
    using partitionSide_eq[of "cfg\<lparr>kgNet := net1\<rparr>" p2 p2 p1] assms by auto
  have "mget False (nwEnabled net2) (kvName cfg i j) \<longleftrightarrow> (i \<in> set p1 \<longleftrightarrow> j \<in> set p1)" if "i \<in> set p1 \<union> set p2" "j \<in> set p1 \<union> set p2" for i j
  proof -
    have "i < kgN cfg" "j < kgN cfg" using that assms(2,3) by auto
    from links_name[OF assms(1) this] show ?thesis unfolding n2(2) n1(2) using assms(2,3,6) that by auto
  qed
  moreover have "mget False (nwEnabled net2) e = kvEnabled cfg e" if "\<forall>i < kgN cfg. \<forall>j < kgN cfg. e \<noteq> kvName cfg i j" for e
  proof -
    have "e \<notin> links cfg A B" if "A \<subseteq> {..<kgN cfg}" "B \<subseteq> {..<kgN cfg}" for A B
      using \<open>\<forall>i < kgN cfg. \<forall>j < kgN cfg. e \<noteq> kvName cfg i j\<close> that unfolding links_def by blast
    then show ?thesis unfolding n2(2) n1(2) using assms(2,3) by blast
  qed
  moreover have "kv_partition p1 p2 cfg = Inr (cfg\<lparr>kgNet := net2\<rparr>)" by (simp add: kv_partition_def n1(1) n2(1))
  ultimately show ?thesis by blast
qed

lemma firstLeader_ok:
  assumes "list_all (\<lambda>kv. kv \<noteq> None) kvs"
  shows "\<exists>b l. firstLeader kvs i = Inr (b, l) \<and>
    (if b then i \<le> l \<and> l < i + length kvs \<and> state (krf (the (kvs ! (l - i)))) = Leader
     else l = 0 \<and> (\<forall>kv \<in> set kvs. state (krf (the kv)) \<noteq> Leader))"
  using assms
proof (induction kvs arbitrary: i)
  case (Cons kv kvs)
  then obtain s where s: "kv = Some s" by auto
  show ?case
  proof (cases "state (krf s) = Leader")
    case False
    obtain b l where l: "firstLeader kvs (i + 1) = Inr (b, l)"
      "if b then i + 1 \<le> l \<and> l < i + 1 + length kvs \<and> state (krf (the (kvs ! (l - (i + 1))))) = Leader
       else l = 0 \<and> (\<forall>kv \<in> set kvs. state (krf (the kv)) \<noteq> Leader)"
      using Cons.IH[of "i + 1"] Cons.prems by auto
    have "(kv # kvs) ! (l - i) = kvs ! (l - (i + 1))" if "i + 1 \<le> l"
      using that by (cases "l - i") (auto simp: diff_Suc)
    with l s False show ?thesis by (cases b) (auto simp: GetState_def)
  qed (use s in \<open>auto simp: GetState_def\<close>)
qed (auto intro!: exI[of _ False])

lemma fillSides_eq:
  assumes "j + length (filter (\<lambda>i. i \<noteq> l) is) \<le> length (p1 @ p2)" "P = p1 @ p2"
  shows "fillSides is l j p1 p2 =
    (let q = take j P @ filter (\<lambda>i. i \<noteq> l) is @ drop (j + length (filter (\<lambda>i. i \<noteq> l) is)) P
     in Inr (take (length p1) q, drop (length p1) q))"
  using assms
proof (induction "is" arbitrary: j p1 p2 P)
  case Nil
  have q: "take j P @ filter (\<lambda>i. i \<noteq> l) [] @ drop (j + length (filter (\<lambda>i. i \<noteq> l) [])) P = P" by simp
  show ?case unfolding q Let_def using Nil.prems(2) by simp
next
  case (Cons i "is")
  let ?F = "filter (\<lambda>i. i \<noteq> l) is"
  show ?case
  proof (cases "i = l")
    case False
    then have j: "j < length P" and room: "Suc j + length ?F \<le> length (p1 @ p2)" using Cons.prems by simp_all
    have q: "take j P @ filter (\<lambda>i. i \<noteq> l) (i # is) @ drop (j + length (filter (\<lambda>i. i \<noteq> l) (i # is))) P =
        take (Suc j) (P[j := i]) @ ?F @ drop (Suc j + length ?F) (P[j := i])"
      using j False by (simp add: take_Suc_conv_app_nth drop_update_cancel)
    show ?thesis
    proof (cases "j < length p1")
      case True
      have "fillSides (i # is) l j p1 p2 = fillSides is l (Suc j) (p1[j := i]) p2" using True False by simp
      also have "\<dots> = (let q = take (Suc j) (P[j := i]) @ ?F @ drop (Suc j + length ?F) (P[j := i])
          in Inr (take (length (p1[j := i])) q, drop (length (p1[j := i])) q))"
        by (rule Cons.IH) (use room True Cons.prems(2) in \<open>simp_all add: list_update_append1\<close>)
      finally show ?thesis unfolding q length_list_update .
    next
      case no: False
      have "fillSides (i # is) l j p1 p2 = fillSides is l (Suc j) p1 (p2[j - length p1 := i])"
        using no False j Cons.prems(2) by (simp add: go_set_def nat_diff_distrib)
      also have "\<dots> = (let q = take (Suc j) (P[j := i]) @ ?F @ drop (Suc j + length ?F) (P[j := i])
          in Inr (take (length p1) q, drop (length p1) q))"
        by (rule Cons.IH) (use room no Cons.prems(2) in \<open>simp_all add: list_update_append\<close>)
      finally show ?thesis unfolding q .
    qed
  qed (use Cons in simp)
qed

lemma length_others: "l < n \<Longrightarrow> length (filter (\<lambda>i. i \<noteq> l) [0..<n]) = n - 1"
proof -
  assume "l < n"
  moreover have "set (filter (\<lambda>i. i \<noteq> l) [0..<n]) = {..<n} - {l}" by auto
  ultimately show ?thesis using distinct_card[of "filter (\<lambda>i. i \<noteq> l) [0..<n]"] by simp
qed

lemma make_partition_eq:
  assumes "kv_Leader cfg = Inr (b, l)" "kgN cfg = 2 * m + 1" "0 < m" "l < kgN cfg"
  shows "make_partition cfg = Inr (take (m + 1) (filter (\<lambda>i. i \<noteq> l) [0..<kgN cfg]), drop (m + 1) (filter (\<lambda>i. i \<noteq> l) [0..<kgN cfg]) @ [l])"
proof -
  let ?o = "filter (\<lambda>i. i \<noteq> l) [0..<kgN cfg]"
  have o: "length ?o = 2 * m" using length_others[OF assms(4)] assms(2) by simp
  have P: "replicate (2 * m) (0 :: nat) @ [0] = replicate (m + 1) 0 @ replicate m 0" by (simp add: replicate_append_same replicate_add mult_2)
  have f: "fillSides [0..<kgN cfg] l 0 (replicate (m + 1) 0) (replicate m 0) = Inr (take (m + 1) ?o, drop (m + 1) ?o @ [0])"
    using fillSides_eq[OF _ P, of 0 l "[0..<kgN cfg]"] o assms(3) by (simp add: Let_def)
  have d: "kgN cfg div 2 = m" using assms(2) by simp
  have s: "go_set (drop (m + 1) ?o @ [0]) (int (length (drop (m + 1) ?o @ [0])) - 1) l = Inr (drop (m + 1) ?o @ [l])"
    using o assms(3) by (simp add: go_set_def nat_diff_distrib list_update_append)
  show ?thesis unfolding make_partition_def assms(1) d bindR_Inr prod.case f s ..
qed

subsection \<open>What \<open>make_config\<close> sets up\<close>

lemma clientEnds_ok:
  assumes "distinct names" "\<And>e. e \<in> set names \<Longrightarrow> map_of (nwEnds net) e = None"
  shows "\<exists>net' ends. clientEnds names j net = Inr (net', ends) \<and>
    (\<forall>e. map_of (nwEnds net') e = None \<longleftrightarrow> e \<notin> set names \<and> map_of (nwEnds net) e = None)"
  using assms
proof (induction names arbitrary: j net)
  case (Cons e es)
  let ?net = "Connect e j (net\<lparr>nwEnds := mput e \<lparr>ceEndname = e\<rparr> (nwEnds net), nwEnabled := mput e False (nwEnabled net),
    nwConnections := mput e None (nwConnections net)\<rparr>)"
  have ends: "map_of (nwEnds ?net) x = (if x = e then Some \<lparr>ceEndname = e\<rparr> else map_of (nwEnds net) x)" for x
    by (simp add: Connect_def map_of_mput)
  have "MakeEnd e net = Inr (net\<lparr>nwEnds := mput e \<lparr>ceEndname = e\<rparr> (nwEnds net), nwEnabled := mput e False (nwEnabled net),
      nwConnections := mput e None (nwConnections net)\<rparr>, \<lparr>ceEndname = e\<rparr>)"
    using Cons.prems(2)[of e] by (simp add: MakeEnd_def Let_def)
  moreover have "\<exists>net' ces. clientEnds es (j + 1) ?net = Inr (net', ces) \<and>
      (\<forall>x. map_of (nwEnds net') x = None \<longleftrightarrow> x \<notin> set es \<and> map_of (nwEnds ?net) x = None)"
  proof (rule Cons.IH)
    show "map_of (nwEnds ?net) x = None" if "x \<in> set es" for x using that Cons.prems unfolding ends by auto
  qed (use Cons.prems(1) in simp)
  ultimately show ?case unfolding ends by auto
qed simp

lemma startEach_ok:
  assumes "distinct (concat (map fst starts))" "\<And>e. e \<in> set (concat (map fst starts)) \<Longrightarrow> map_of (nwEnds (kgNet cfg)) e = None"
    and "i + length starts = kgN cfg" "length (kgEndnames cfg) = kgN cfg" "length (kgSaved cfg) = kgN cfg" "length (kgServers cfg) = kgN cfg"
  shows "\<exists>cfg'. startEach starts i cfg = Inr cfg' \<and> kgN cfg' = kgN cfg \<and> kgEndnames cfg' = take i (kgEndnames cfg) @ map fst starts \<and>
    length (kgServers cfg') = kgN cfg \<and> (\<forall>k < kgN cfg. i \<le> k \<or> kgServers cfg ! k \<noteq> None \<longrightarrow> kgServers cfg' ! k \<noteq> None)"
  using assms
proof (induction starts arbitrary: i cfg)
  case (Cons st starts)
  obtain names kvsvc rfsvc rnd now where st: "st = (names, kvsvc, rfsvc, rnd, now)" by (cases st) auto
  have i: "i < kgN cfg" using Cons.prems(3) by simp
  obtain net ends where c: "clientEnds names 0 (kgNet cfg) = Inr (net, ends)"
    "\<And>e. map_of (nwEnds net) e = None \<longleftrightarrow> e \<notin> set names \<and> map_of (nwEnds (kgNet cfg)) e = None"
    using clientEnds_ok[of names "kgNet cfg" 0] Cons.prems(1,2) st by auto
  obtain cfg1 where s: "kv_StartServer i names kvsvc rfsvc rnd now cfg = Inr cfg1"
    and f: "kgN cfg1 = kgN cfg" "kgEndnames cfg1 = (kgEndnames cfg)[i := names]" "length (kgSaved cfg1) = kgN cfg"
      "\<exists>kv. kgServers cfg1 = (kgServers cfg)[i := Some kv]" "nwEnds (kgNet cfg1) = nwEnds net"
    using i Cons.prems(4-6) by (simp add: kv_StartServer_def c(1) go_simps Let_def AddServer_def) blast
  obtain kv where kv: "kgServers cfg1 = (kgServers cfg)[i := Some kv]" using f(4) by blast
  have "\<exists>cfg2. startEach starts (i + 1) cfg1 = Inr cfg2 \<and> kgN cfg2 = kgN cfg1 \<and> kgEndnames cfg2 = take (i + 1) (kgEndnames cfg1) @ map fst starts \<and>
      length (kgServers cfg2) = kgN cfg1 \<and> (\<forall>k < kgN cfg1. i + 1 \<le> k \<or> kgServers cfg1 ! k \<noteq> None \<longrightarrow> kgServers cfg2 ! k \<noteq> None)"
  proof (rule Cons.IH)
    show "map_of (nwEnds (kgNet cfg1)) e = None" if "e \<in> set (concat (map fst starts))" for e
    proof -
      have "e \<notin> set names" using that Cons.prems(1) st by auto
      moreover have "map_of (nwEnds (kgNet cfg)) e = None" using that by (intro Cons.prems(2)) simp
      ultimately show ?thesis by (simp add: f(5) c(2))
    qed
  qed (use Cons.prems f(1-3) kv in simp_all)
  then obtain cfg2 where r: "startEach starts (i + 1) cfg1 = Inr cfg2" "kgN cfg2 = kgN cfg" "kgEndnames cfg2 = take (i + 1) (kgEndnames cfg1) @ map fst starts"
      "length (kgServers cfg2) = kgN cfg" "\<And>k. k < kgN cfg \<Longrightarrow> i + 1 \<le> k \<or> kgServers cfg1 ! k \<noteq> None \<Longrightarrow> kgServers cfg2 ! k \<noteq> None"
    unfolding f(1) by blast
  have "kgServers cfg2 ! k \<noteq> None" if "k < kgN cfg" "i \<le> k \<or> kgServers cfg ! k \<noteq> None" for k
    using r(5)[of k] that kv Cons.prems(6) by (cases "k = i") auto
  moreover have "kgEndnames cfg2 = take i (kgEndnames cfg) @ map fst (st # starts)"
    using r(3) f(2) i Cons.prems(4) st by (simp add: take_Suc_conv_app_nth)
  ultimately show ?case using s r st by simp
qed auto

lemma connectEach_ok: "kv_ready cfg \<Longrightarrow> set is \<subseteq> {..<kgN cfg} \<Longrightarrow> \<exists>net. connectEach is cfg = Inr (cfg\<lparr>kgNet := net\<rparr>)"
proof (induction "is" arbitrary: cfg)
  case (Cons i "is")
  have "connectUnlocked i (AllServers cfg) cfg = Inr (cfg\<lparr>kgNet := enableAll True (map (\<lambda>t. kvName cfg t i) (AllServers cfg))
      (enableAll True (map (kvName cfg i) (AllServers cfg)) (kgNet cfg))\<rparr>)"
    using Cons.prems by (simp add: connectUnlocked_def connectOutgoing_eq connectIncoming_eq AllServers_def atLeast0LessThan)
  then obtain net where n: "connectUnlocked i (AllServers cfg) cfg = Inr (cfg\<lparr>kgNet := net\<rparr>)" by blast
  have "\<exists>net'. connectEach is (cfg\<lparr>kgNet := net\<rparr>) = Inr (cfg\<lparr>kgNet := net\<rparr>\<lparr>kgNet := net'\<rparr>)" by (rule Cons.IH) (use Cons.prems in simp_all)
  with n show ?case by simp
next
  case Nil
  have "cfg = cfg\<lparr>kgNet := kgNet cfg\<rparr>" by simp
  then show ?case by (metis connectEach.simps(1))
qed

lemma make_config_ready:
  fixes starts :: "(string list \<times> ('t, 'v, 'w) Service \<times> ('t, 'v, 'w) Service \<times> int \<times> int) list"
  assumes "list_all (\<lambda>st. length (fst st) = length starts) starts" "distinct (concat (map fst starts))"
  shows "\<exists>cfg :: ('t, 'v, 'w, 'b) kvconfig. kv_make_config starts unreliable maxraftstate = Inr cfg \<and> kv_ready cfg \<and> kgN cfg = length starts \<and> kgEndnames cfg = map fst starts"
proof -
  let ?c0 = "kv_empty_config (length starts) maxraftstate :: ('t, 'v, 'w, 'b) kvconfig"
  obtain cfg1 where c: "startEach starts 0 ?c0 = Inr cfg1" "kgN cfg1 = length starts" "kgEndnames cfg1 = map fst starts"
      "length (kgServers cfg1) = length starts" "\<forall>k < length starts. kgServers cfg1 ! k \<noteq> None"
    using startEach_ok[OF assms(2), of ?c0 0] by (auto simp: kv_empty_config_def MakeNetwork_def)
  have rd: "kv_ready cfg1" using assms c by (simp add: kv_ready_def list_all_length)
  obtain net where "ConnectAll cfg1 = Inr (cfg1\<lparr>kgNet := net\<rparr>)"
    using connectEach_ok[OF rd, of "[0..<kgN cfg1]"] by (auto simp: ConnectAll_def atLeast0LessThan)
  with c rd show ?thesis by (auto simp: kv_make_config_def)
qed

text \<open>C38: Cutting off the leader. With an odd number of running servers, at least three, \<open>make_partition\<close> divides the servers into two sides and puts the
  first server that takes itself for the leader on the smaller one, which is no majority. After \<open>partition\<close> the end from one server to another
  is enabled just if they are on the same side, and no other end of the network, those of the clerks among them, has changed. \<open>make_config\<close>
  produces such a system from distinct names (\<open>make_config_ready\<close>).\<close>

theorem partition_isolates_leader:
  assumes "kv_ready cfg" "odd (kgN cfg)" "3 \<le> kgN cfg"
  shows "\<exists>b l p1 p2 cfg'. kv_Leader cfg = Inr (b, l) \<and> make_partition cfg = Inr (p1, p2) \<and> kv_partition p1 p2 cfg = Inr cfg' \<and>
    (if b then l < kgN cfg \<and> state (krf (the (kgServers cfg ! l))) = Leader else \<forall>i < kgN cfg. state (krf (the (kgServers cfg ! i))) \<noteq> Leader) \<and>
    l \<in> set p2 \<and> 2 * length p2 < kgN cfg \<and> set p1 \<union> set p2 = {..<kgN cfg} \<and> set p1 \<inter> set p2 = {} \<and>
    (\<forall>i < kgN cfg. \<forall>j < kgN cfg. fst (readEndnameInfo (kgEndnames cfg ! i ! j) (kgNet cfg')) \<longleftrightarrow> (i \<in> set p1 \<longleftrightarrow> j \<in> set p1)) \<and>
    (\<forall>e. e \<notin> set (concat (kgEndnames cfg)) \<longrightarrow> fst (readEndnameInfo e (kgNet cfg')) = fst (readEndnameInfo e (kgNet cfg)))"
proof -
  obtain m where m: "kgN cfg = 2 * m + 1" "0 < m" using assms(2,3) by (elim oddE) auto
  have sv: "length (kgServers cfg) = kgN cfg" "list_all (\<lambda>kv. kv \<noteq> None) (kgServers cfg)" using assms(1) by (simp_all add: kv_ready_def)
  obtain b l where fl: "firstLeader (kgServers cfg) 0 = Inr (b, l)" "if b then 0 \<le> l \<and> l < 0 + length (kgServers cfg) \<and>
      state (krf (the (kgServers cfg ! (l - 0)))) = Leader else l = 0 \<and> (\<forall>kv \<in> set (kgServers cfg). state (krf (the kv)) \<noteq> Leader)"
    using firstLeader_ok[OF sv(2), of 0] by blast
  then have l: "kv_Leader cfg = Inr (b, l)" "if b then l < kgN cfg \<and> state (krf (the (kgServers cfg ! l))) = Leader
      else l = 0 \<and> (\<forall>kv \<in> set (kgServers cfg). state (krf (the kv)) \<noteq> Leader)"
    using sv(1) by (simp add: kv_Leader_def, cases b, simp_all)
  have ln: "l < kgN cfg" using l(2) m by (cases b) simp_all
  let ?o = "filter (\<lambda>i. i \<noteq> l) [0..<kgN cfg]"
  let ?p1 = "take (m + 1) ?o" and ?p2 = "drop (m + 1) ?o @ [l]"
  have mp: "make_partition cfg = Inr (?p1, ?p2)" by (rule make_partition_eq[OF l(1) m ln])
  have o: "length ?o = 2 * m" using length_others[OF ln] m by simp
  have "set ?p1 \<union> set (drop (m + 1) ?o) = set ?o" by (metis append_take_drop_id set_append)
  then have un: "set ?p1 \<union> set ?p2 = {..<kgN cfg}" using ln by auto
  have "set ?p1 \<inter> set (drop (m + 1) ?o) = {}" by (rule set_take_disj_set_drop_if_distinct) simp_all
  then have dj: "set ?p1 \<inter> set ?p2 = {}" using set_take_subset[of "m + 1" ?o] by auto
  have len: "length ?p1 \<le> kgN cfg" "length ?p2 \<le> kgN cfg" "2 * length ?p2 < kgN cfg" using o m by simp_all
  obtain net where net: "kv_partition ?p1 ?p2 cfg = Inr (cfg\<lparr>kgNet := net\<rparr>)"
      "\<And>i j. i < kgN cfg \<Longrightarrow> j < kgN cfg \<Longrightarrow> mget False (nwEnabled net) (kvName cfg i j) \<longleftrightarrow> (i \<in> set ?p1 \<longleftrightarrow> j \<in> set ?p1)"
      "\<And>e. (\<forall>i < kgN cfg. \<forall>j < kgN cfg. e \<noteq> kvName cfg i j) \<Longrightarrow> mget False (nwEnabled net) e = kvEnabled cfg e"
    using kv_partition_eq[OF assms(1) _ _ len(1,2) dj, unfolded un] un by blast
  have others: "mget False (nwEnabled net) e = kvEnabled cfg e" if "e \<notin> set (concat (kgEndnames cfg))" for e
  proof (rule net(3), intro allI impI notI)
    fix i j assume i: "i < kgN cfg" "j < kgN cfg" and e: "e = kvName cfg i j"
    have "kgEndnames cfg ! i \<in> set (kgEndnames cfg)" using i assms(1) by (simp add: kv_ready_def)
    moreover have "e \<in> set (kgEndnames cfg ! i)" using i e ready_length[OF assms(1), of i] by simp
    ultimately show False using that by auto
  qed
  have who: "if b then l < kgN cfg \<and> state (krf (the (kgServers cfg ! l))) = Leader else \<forall>i < kgN cfg. state (krf (the (kgServers cfg ! i))) \<noteq> Leader"
    using l(2) sv(1) by (cases b) simp_all
  have info: "fst (readEndnameInfo e (kgNet (cfg\<lparr>kgNet := net\<rparr>))) = mget False (nwEnabled net) e"
    "fst (readEndnameInfo e (kgNet cfg)) = kvEnabled cfg e" for e
    by (simp_all add: readEndnameInfo_def Let_def)
  have "l \<in> set ?p2" by simp
  note facts = l(1) mp net(1) who this len(3) un dj
  show ?thesis
    apply (rule exI[of _ b], rule exI[of _ l], rule exI[of _ ?p1], rule exI[of _ ?p2], rule exI[of _ "cfg\<lparr>kgNet := net\<rparr>"])
    apply (unfold info)
    apply (intro conjI allI impI facts)
    using net(2) others by simp_all
qed

definition demo_starts :: "(string list \<times> (unit, int, int) Service \<times> (unit, int, int) Service \<times> int \<times> int) list" where
  "demo_starts = map (\<lambda>names. (names, MakeService ''KVServer'' [], MakeService ''Raft'' [], 0, 0))
     [[''a'', ''b'', ''c''], [''d'', ''e'', ''f''], [''g'', ''h'', ''i'']]"

theorem partition_isolates_leader_witness:
  "\<exists>cfg cfg' :: (unit, int, int, int) kvconfig. kv_make_config demo_starts False 1000 = Inr cfg \<and> kv_partition [1, 2] [0] cfg = Inr cfg' \<and>
     \<not> fst (readEndnameInfo ''b'' (kgNet cfg')) \<and> fst (readEndnameInfo ''f'' (kgNet cfg'))"
proof -
  have st: "list_all (\<lambda>st. length (fst st) = length demo_starts) demo_starts" "distinct (concat (map fst demo_starts))" by (simp_all add: demo_starts_def)
  from make_config_ready[OF st, of False 1000] obtain cfg :: "(unit, int, int, int) kvconfig" where
    c: "kv_make_config demo_starts False 1000 = Inr cfg" "kv_ready cfg" "kgN cfg = length demo_starts" "kgEndnames cfg = map fst demo_starts" by blast
  have "case kv_make_config demo_starts False 1000 of Inr (x :: (unit, int, int, int) kvconfig) \<Rightarrow> make_partition x = Inr ([1, 2], [0]) | Inl e \<Rightarrow> False" by code_simp
  then have p: "make_partition cfg = Inr ([1, 2], [0])" by (simp add: c(1))
  have n3: "kgN cfg = 3" by (simp add: c(3) demo_starts_def)
  have n: "odd (kgN cfg)" "3 \<le> kgN cfg" using n3 by simp_all
  from partition_isolates_leader[OF c(2) n] p obtain cfg' where
    r: "kv_partition [1, 2] [0] cfg = Inr cfg'"
      "\<forall>i < kgN cfg. \<forall>j < kgN cfg. fst (readEndnameInfo (kgEndnames cfg ! i ! j) (kgNet cfg')) \<longleftrightarrow> (i \<in> set [1, 2] \<longleftrightarrow> j \<in> set [1, 2])"
    by auto
  have "\<not> fst (readEndnameInfo (kgEndnames cfg ! 0 ! 1) (kgNet cfg'))" "fst (readEndnameInfo (kgEndnames cfg ! 1 ! 2) (kgNet cfg'))" using r(2) n3 by auto
  then show ?thesis using c(1,4) r(1) by (auto simp: demo_starts_def)
qed

subsection \<open>Details of the harness\<close>

lemma random_handles_permutes: "mset (random_handles draws kvh) = mset kvh"
proof -
  have "mset (fold (\<lambda>(i, r) sa. let j = r mod (i + 1) in sa[i := sa ! j, j := sa ! i]) ps sa) = mset sa"
    if "\<forall>p \<in> set ps. fst p < length sa" for ps :: "(nat \<times> nat) list" and sa :: "'a list"
    using that
  proof (induction ps arbitrary: sa)
    case (Cons p ps)
    obtain i r where p: "p = (i, r)" by (cases p)
    have i: "i < length sa" "r mod (i + 1) < length sa" using Cons.prems p mod_less_divisor[of "i + 1" r] by (auto simp del: mod_less_divisor)
    have "mset (sa[i := sa ! (r mod (i + 1)), r mod (i + 1) := sa ! i]) = mset sa" by (rule mset_swap[OF i(2,1)])
    then show ?case using Cons.IH[of "sa[i := sa ! (r mod (i + 1)), r mod (i + 1) := sa ! i]"] Cons.prems p by (simp add: Let_def)
  qed simp
  moreover have "\<forall>p \<in> set (zip [0..<length kvh] draws). fst p < length kvh" by (auto dest: set_zip_leftD)
  ultimately show ?thesis unfolding random_handles_def by blast
qed

text \<open>With an even number of servers the two slices of \<open>make_partition\<close> are one longer than the servers there are, and server 0, the zero
  value, stands on both sides. The incoming ends of a server that was never started are looked up because another one was.\<close>

lemma make_partition_even:
  assumes "kv_Leader cfg = Inr (b, 3)" "kgN cfg = 4"
  shows "make_partition cfg = Inr ([0, 1, 2], [0, 3])"
proof -
  have "fillSides [0..<4] 3 0 (replicate (4 div 2 + 1) 0) (replicate (4 div 2) 0) = Inr ([0, 1, 2], [0, 0])" by code_simp
  then show ?thesis unfolding make_partition_def assms by (simp add: go_set_def)
qed

lemma disconnect_wrong_guard:
  assumes "kgEndnames cfg = [[''a'', ''b''], []]"
  shows "disconnectUnlocked 0 [1] cfg = Inl IndexOutOfRange"
  using assms by (simp add: disconnectUnlocked_def kv_endname_def kv_enable_def go_nth_def)

end
