(* ===== verification/Spec2Isabelle.thy ===== *)
theory Spec2Isabelle
  imports RaftProperties KvSrv KvRaft ShardProperties ModelsKv Worker LabGob RaftChecks KvTester
begin

text \<open>
  \<^bold>\<open>A verification of the services of the repository\<close>

  The repository (Go, packages under \<open>src/src\<close>) holds a MapReduce framework (\<open>mr\<close>), a key/value server on
  one machine (\<open>kvsrv\<close>), the Raft consensus library (\<open>raft\<close>), a key/value service replicated with it
  (\<open>kvraft\<close>), a replicated controller that assigns shards to groups of servers (\<open>shardctrler\<close>), a sharded
  key/value service whose groups move shards as the controller says (\<open>shardkv\<close>), the linearizability
  checker of the tests (\<open>porcupine\<close>, \<open>models\<close>), and the network the tests run on (\<open>labrpc\<close>, \<open>labgob\<close>) with the harnesses
  that drive it (\<open>config.go\<close> of each package). \<open>kvraft\<close>, \<open>shardctrler\<close> and \<open>shardkv\<close> hand commands to a Raft
  peer with \<open>Start\<close> and execute what the peer delivers on its apply channel; a shard group asks the
  controller for configurations and other groups for shards.

  \<^bold>\<open>How Go is modelled\<close> (\<open>Prelude\<close>)

  \<^item> A run-time panic is a value of \<open>go_panic\<close>, and code that can panic has the type \<open>go_panic + 'a\<close>. A call that
    blocks for ever, or a loop that never ends, has the value \<open>None\<close>.
  \<^item> A struct is a record and an operation is a function on it. Code that holds a mutex is one definition, or one
    for each critical section if it releases the mutex on the way; the steps of a server are these definitions
    in any order. Random numbers, the clock and the fate of an RPC are arguments.
  \<^item> A map is an association list with distinct keys. Its order is the order in which a \<open>range\<close> loop happens
    to visit it, so a theorem about all lists covers every order.
  \<^item> Go's \<open>int\<close> is \<open>int\<close>: terms, indices, task and configuration numbers count events and stay far from \<open>2^63\<close>.
    Words are kept at their width where the code computes with them (\<open>Bitset\<close>, hashes, \<open>uint64\<close> sequence numbers).
  \<^item> A message is the value that is sent. The encoder \<open>labgob\<close> is represented by the sequence of the
    values given to it, which the decoder returns; the JSON encoder in addition replaces invalid UTF-8 in strings (\<open>Worker\<close>).
  \<^item> The sorts of the library are not stable: a definition that sorts takes the function as an argument, of which
    theorems assume \<open>sorts_by\<close> (\<open>SortSpec\<close>) only.

  \<^bold>\<open>Raft\<close>

  \<^item> \<open>RaftState\<close> (\<open>raft.go\<close>, \<open>RPC.go\<close>, \<open>Timer.go\<close>, \<open>persister.go\<close>, \<open>persistence.go\<close>): the state of a peer, index
    translation, timers, what is persisted and read back.
  \<^item> \<open>RaftElection\<close> (\<open>vote.go\<close>), \<open>RaftReplication\<close> (\<open>append.go\<close>, \<open>Start\<close>, \<open>CommitChecker\<close>), \<open>RaftSnapshot\<close>
    (\<open>Snapshot\<close>, \<open>InstallSnapshot\<close>): one definition for each handler and for what its caller does with the reply.
  \<^item> \<open>RaftPeer\<close>: all steps of one peer (\<open>ticker\<close> included) and the invariant that keeps them free of panics.
  \<^item> \<open>RaftCluster\<close>: peers and messages in flight, with delay, loss, repetition, crashes and restarts; at most one
    leader in a term. \<open>RaftLogs\<close>: log matching for clusters that take no snapshots.
  \<^item> \<open>RaftSharing\<close>: the same clusters with the arrays behind the logs. The entries of a request are a slice of its sender's array until a
    goroutine has encoded them, and \<open>AppendEntries\<close> may overwrite them before. A run in which no request is sent torn in this way is simulated by one of
    \<open>RaftCluster\<close> (\<open>shared_simulated\<close>), every run of \<open>RaftCluster\<close> is such a run (\<open>reachable_shared\<close>), and a request can be torn (\<open>torn_request\<close>).
  \<^item> \<open>RaftProperties\<close>: the properties, the effect of each handler on every branch among them.

  \<^bold>\<open>Services on Raft\<close>

  \<^item> \<open>Session\<close>: the locales \<open>session\<close> and \<open>reply_session\<close> (a service that recognises repeated requests) and
    \<open>rotation\<close> (a clerk that tries its servers in turn), with what follows for every service. They are
    interpreted in the theories of \<open>kvsrv\<close>, \<open>kvraft\<close>, \<open>shardctrler\<close> and \<open>shardkv\<close>.
  \<^item> \<open>KvSrv\<close>, \<open>KvRaft\<close>: servers and clerks. An update takes effect exactly once, a replica is a function of
    the log, repetitions in the log do nothing, snapshots restore the state. A clerk of \<open>kvraft\<close> gets its answer from the history of a server, on
    a later attempt than the one that put the request into the log.
  \<^item> \<open>ConfigSM\<close> (\<open>configStateMachine.go\<close>), \<open>ShardCtrler\<close> (\<open>server.go\<close>, \<open>client.go\<close>): \<open>Join\<close> and \<open>Leave\<close> balance
    and move as little as they can, the result does not depend on the order of maps, configurations never change.
  \<^item> \<open>ShardKV\<close> (all of \<open>shardkv\<close>): servers and clerks. \<open>ShardGroups\<close>: all groups together, as a step relation.
    \<open>ShardProperties\<close>: no two groups serve a shard, and it arrives complete. A group is its log, as Raft gives it;
    the history of the controller and \<open>stays_assigned\<close> (a shard that has an owner is never without one again) are hypotheses there. The controller
    keeps the latter if the groups never all leave and shards are moved only to groups that joined (\<open>careful_history\<close>).

  \<^bold>\<open>Linearizability checker\<close>

  \<^item> \<open>Bitset\<close> (\<open>bitset.go\<close>): the operations are those of a finite set, and stay inside the slice.
  \<^item> \<open>Porcupine\<close> (\<open>model.go\<close>, \<open>checker.go\<close>, \<open>porcupine.go\<close>): the checker, with its linked list as a store of nodes and
    its search as a \<open>partial_function\<close>. \<open>Linearizability\<close>, \<open>History\<close>, \<open>Operations\<close>: the search ends and is right.
  \<^item> \<open>ModelsKv\<close> (\<open>models/kv.go\<close>): with the key/value model the checker decides linearizability of the whole store,
    although it checks every key on its own.

  \<^bold>\<open>MapReduce\<close>

  \<^item> \<open>Coordinator\<close> (\<open>coordinator.go\<close>, \<open>task.go\<close>, \<open>rpc.go\<close>): the handlers, the goroutine that feeds the queue and the
    sweep for timeouts as a step relation, until the main loop returns or a sweep blocks; a phase ends only when all its tasks are completed.
  \<^item> \<open>Worker\<close> (\<open>worker.go\<close>, \<open>mrsequential.go\<close>): map and reduce tasks on named files. Run in any order, also repeatedly,
    they give the lines of the sequential program, provided that \<open>Map\<close> emits valid UTF-8 and every intermediate file was renamed in some run.

  \<^bold>\<open>Network and harnesses\<close>

  \<^item> \<open>LabRpc\<close> (\<open>labrpc.go\<close>): services, servers and the network with its delays, losses and disabled ends; the goroutines of a call are
    steps that any others may come between. A call runs its handler at most once, a call that returns true ran it on its own
    arguments (\<open>call_outcome\<close>), one that returned false may still run it (\<open>late_execution\<close>), and every call can reach its end (\<open>call_returns\<close>).
    These are the fates of a call that the models of the clerks take as arguments: delivered, request lost, reply lost.
  \<^item> \<open>LabGob\<close> (\<open>labgob.go\<close>): the checks around the encoder; they end on recursive types and reach every type.
  \<^item> \<open>RaftTester\<close>, \<open>RaftChecks\<close> (\<open>raft/config.go\<close>): starting, crashing and connecting peers, the readers of the apply
    channels and the checks of the tests. Disconnected, crashed and replaced peers are cut off, the readers accept exactly consistent deliveries,
    \<open>checkOneLeader\<close> is right although it asks one peer after the other, \<open>one\<close> returns only what enough servers have delivered.
  \<^item> \<open>KvTester\<close> (\<open>kvraft/config.go\<close>): servers, clerks and partitions; the leader ends up in a minority that is cut off.

  \<^bold>\<open>Loops\<close>

  No definition uses fuel. Loops whose end is not structural are functions with a termination proof or
  \<open>partial_function (option)\<close>; for these the theorems state that the result is \<open>Some\<close> (\<open>Join_balances\<close>,
  \<open>checkSingle_linearizable\<close>, \<open>kv_clerk_finds_leader\<close>). A clerk's retries are driven by the list of the fates of its calls,
  and the polls of a harness by the list of the states it sees.

  \<^bold>\<open>Not modelled\<close>

  \<^item> Outside \<open>RaftSharing\<close>, an \<open>AppendEntries\<close> request holds the entries it was built with.
  \<^item> Data races between code outside any mutex, and the scheduler; a critical section is one step.
  \<^item> The services are not put on top of \<open>LabRpc\<close>: the effects of the network are arguments of the models of its clients. The bytes of
    \<open>encoding/gob\<close> are an argument of \<open>LabRpc\<close> and \<open>LabGob\<close>. \<open>Kill\<close> stops a server at a step; the goroutines that are left are not counted.
  \<^item> The harnesses of \<open>kvsrv\<close>, \<open>shardctrler\<close> (which repeats that of \<open>kvraft\<close>) and \<open>shardkv\<close>, the tests themselves (\<open>test_test.go\<close>), and
    the time limits and messages of all harnesses.
  \<^item> The programs under \<open>main\<close> other than \<open>mrsequential.go\<close>, the plugins
    under \<open>mrapps\<close> other than the reduce function of \<open>wc.go\<close>, and \<open>visualization.go\<close>, which produces a web page.
  \<^item> Printing and logging.
\<close>

end
